(* ===== verification/Prelude.thy ===== *)
theory Prelude
  imports Main "HOL-Library.Word" "HOL-Library.Sublist"
begin

text \<open>
  Shared vocabulary of the development.

  \<^item> Bytes are \<open>8 word\<close>; a C \<open>char\<close> of the supported build (gcc, x86-64) is signed, so
    comparing two \<open>char\<close>s is comparing \<^term>\<open>sint\<close> of the bytes.
  \<^item> A pointer to a C object is modelled by the list of bytes that are readable from it on.
    Reading past that list is undefined behaviour in C and the value \<open>Inl MemFault\<close> here.
  \<^item> \<open>ereport(ERROR)\<close>/\<open>elog(ERROR)\<close> and \<open>exit\<close> do not return; they are the other
    left values of the result type \<open>'a res\<close>. \<open>OutOfFuel\<close> marks a loop or recursion the
    model cut off; the theorems show where it cannot arise.
  \<^item> What a function writes to a destination buffer is part of its result. Writing past the
    buffer its caller allocated is not a fault here; the number of bytes written is a property.
\<close>

unbundle bit_operations_syntax

named_theorems mem_simps \<open>evaluation of reads from readable memory\<close>
named_theorems varatt_simps \<open>evaluation of the varlena header macros\<close>

section \<open>Bytes, errors, results\<close>

type_synonym byte = "8 word"
type_synonym bytes = "8 word list"

datatype errcode =
    ERRCODE_INTERNAL_ERROR
  | ERRCODE_DATA_CORRUPTED
  | ERRCODE_FEATURE_NOT_SUPPORTED
  | ERRCODE_INDETERMINATE_COLLATION
  | ERRCODE_TOO_MANY_COLUMNS
  | ERRCODE_INVALID_PARAMETER_VALUE
  | ERRCODE_WRONG_OBJECT_TYPE
  | ERRCODE_DATATYPE_MISMATCH

datatype error =
    MemFault
  | OutOfFuel
  | Ereport errcode
  | ProcExit int

type_synonym 'a res = "error + 'a"

definition bindE :: "'e + 'a \<Rightarrow> ('a \<Rightarrow> 'e + 'b) \<Rightarrow> 'e + 'b" where
  "bindE r f = (case r of Inl e \<Rightarrow> Inl e | Inr x \<Rightarrow> f x)"

lemma bindE_simps [simp]:
  "bindE (Inl e) f = Inl e"
  "bindE (Inr x) f = f x"
  by (simp_all add: bindE_def)

lemma bindE_cong [fundef_cong]:
  "r = r' \<Longrightarrow> (\<And>x. r' = Inr x \<Longrightarrow> f x = f' x) \<Longrightarrow> bindE r f = bindE r' f'"
  by (cases r') (auto simp: bindE_def)

lemma bindE_eq_Inr_iff:
  "bindE r f = Inr y \<longleftrightarrow> (\<exists>x. r = Inr x \<and> f x = Inr y)"
  by (cases r) auto

lemma bindE_assoc: "bindE (bindE r f) g = bindE r (\<lambda>x. bindE (f x) g)"
  by (cases r) auto

section \<open>Reading memory\<close>

text \<open>\<open>rd m i\<close> is \<open>*(p + i)\<close> and \<open>rd_range m i n\<close> is the source side of
  \<open>memcpy(_, p + i, n)\<close>, for a pointer \<open>p\<close> from which the bytes \<open>m\<close> are readable.\<close>

definition rd :: "bytes \<Rightarrow> nat \<Rightarrow> byte res" where
  "rd m i = (if i < length m then Inr (m ! i) else Inl MemFault)"

definition rd_range :: "bytes \<Rightarrow> nat \<Rightarrow> nat \<Rightarrow> bytes res" where
  "rd_range m i n = (if n = 0 then Inr []
     else if i + n \<le> length m then Inr (take n (drop i m)) else Inl MemFault)"

lemma rd_append1 [mem_simps]: "i < length xs \<Longrightarrow> rd (xs @ ys) i = Inr (xs ! i)"
  by (simp add: rd_def nth_append)

lemma rd_at [mem_simps]: "rd (xs @ y # ys) (length xs) = Inr y"
  by (simp add: rd_def nth_append)

lemma rd_past [simp]: "rd m (length m) = Inl MemFault"
  by (simp add: rd_def)

lemma rd_range_at [mem_simps]: "rd_range (xs @ ys @ zs) (length xs) (length ys) = Inr ys"
  by (simp add: rd_range_def)

lemma rd_range_all [mem_simps]: "rd_range (xs @ ys) (length xs) (length ys) = Inr ys"
  using rd_range_at [of xs ys "[]"] by simp

section \<open>Little-endian integers\<close>

text \<open>The byte layout of a fixed-width unsigned integer on the (little-endian) target.\<close>

definition le_word :: "bytes \<Rightarrow> 'a::len word" where
  "le_word bs = foldr (\<lambda>b a. ucast b OR push_bit 8 a) bs 0"

definition word_le :: "nat \<Rightarrow> 'a::len word \<Rightarrow> bytes" where
  "word_le n w = map (\<lambda>i. ucast (drop_bit (8 * i) w)) [0..<n]"

lemma length_word_le [simp]: "length (word_le n w) = n"
  by (simp add: word_le_def)

lemma le_word_Cons: "le_word (b # bs) = ucast b OR push_bit 8 (le_word bs)"
  by (simp add: le_word_def)

lemma bit_le_word:
  "bit (le_word bs :: 'a::len word) i \<longleftrightarrow>
     i < LENGTH('a) \<and> i div 8 < length bs \<and> bit (bs ! (i div 8)) (i mod 8)"
proof (induction bs arbitrary: i)
  case Nil
  then show ?case by (simp add: le_word_def)
next
  case (Cons b bs)
  show ?case
  proof (cases "i < 8")
    case True
    then show ?thesis
      by (auto simp: le_word_Cons bit_simps)
  next
    case False
    then obtain j where j: "i = j + 8"
      by (metis add.commute le_Suc_ex not_less)
    have "\<not> bit b (j + 8)"
      by (auto dest: bit_imp_le_length)
    moreover have "(j + 8) div 8 = Suc (j div 8)"
      by simp
    ultimately show ?thesis
      using Cons [of j] j by (auto simp: le_word_Cons bit_simps simp del: div_add_self2)
  qed
qed

lemma le_word_word_le:
  assumes "LENGTH('a::len) \<le> 8 * n"
  shows "le_word (word_le n w) = (w :: 'a word)"
proof (rule bit_word_eqI)
  fix i assume i: "i < LENGTH('a)"
  with assms have n: "i div 8 < n" by linarith
  with i show "bit (le_word (word_le n w) :: 'a word) i = bit w i"
    by (simp add: bit_le_word word_le_def bit_simps)
qed

definition rd_u32 :: "bytes \<Rightarrow> nat \<Rightarrow> (32 word) res" where
  "rd_u32 m i = bindE (rd_range m i 4) (\<lambda>bs. Inr (le_word bs))"

definition rd_u64 :: "bytes \<Rightarrow> nat \<Rightarrow> (64 word) res" where
  "rd_u64 m i = bindE (rd_range m i 8) (\<lambda>bs. Inr (le_word bs))"

lemma rd_u32_word_le [mem_simps]:
  "rd_u32 (xs @ word_le 4 w @ ys) (length xs) = Inr w"
  using rd_range_at [of xs "word_le 4 w" ys]
  by (simp add: rd_u32_def le_word_word_le)

lemma rd_u64_word_le [mem_simps]:
  "rd_u64 (xs @ word_le 8 w @ ys) (length xs) = Inr w"
  using rd_range_at [of xs "word_le 8 w" ys]
  by (simp add: rd_u64_def le_word_word_le)

section \<open>Integers and lists\<close>

definition INT_MAX :: int where "INT_MAX = 2147483647"

lemma minus_one_less_uint [simp]: "- 1 < uint w"
  by (rule less_le_trans [OF _ uint_ge_0]) simp

lemma unat_and_7F: "unat (b AND 0x7F :: byte) \<le> 127"
  using word_and_le1 [of b "0x7F", unfolded word_le_nat_alt] by simp

lemma uint_and_7F: "uint (b AND 0x7F :: byte) \<le> 127"
  unfolding uint_nat using unat_and_7F [of b] by linarith

text \<open>C's integer division truncates towards zero.\<close>

definition c_div :: "int \<Rightarrow> int \<Rightarrow> int" where
  "c_div a b = sgn a * sgn b * (\<bar>a\<bar> div \<bar>b\<bar>)"

lemma c_div_nonneg: "0 \<le> a \<Longrightarrow> 0 < b \<Longrightarrow> c_div a b = a div b"
  by (cases "a = 0") (simp_all add: c_div_def)

lemma c_div_int [simp]: "c_div (int a) (int b) = int (a div b)"
  by (cases "a = 0"; cases "b = 0") (simp_all add: c_div_def zdiv_int)

text \<open>An \<open>int32\<close> combined with a \<open>size_t\<close> is first converted to 64 unsigned bits; the result
  is assigned to an \<open>int32\<close>.\<close>

definition to_int32 :: "int \<Rightarrow> int" where
  "to_int32 n = sint (word_of_int n :: 32 word)"

definition size_div :: "int \<Rightarrow> int \<Rightarrow> int" where
  "size_div a b = to_int32 (a mod 2 ^ 64 div b)"

definition size_mod :: "int \<Rightarrow> int \<Rightarrow> int" where
  "size_mod a b = to_int32 (a mod 2 ^ 64 mod b)"

lemma to_int32_small: "0 \<le> n \<Longrightarrow> n < 2 ^ 31 \<Longrightarrow> to_int32 n = n"
  unfolding to_int32_def
proof -
  assume n: "0 \<le> n" "n < 2 ^ 31"
  have "uint (word_of_int n :: 32 word) = n" by (subst uint_word_of_int) (use n in simp)
  with n show "sint (word_of_int n :: 32 word) = n"
    by (simp only: sint_uint) (simp add: signed_take_bit_int_eq_self)
qed

lemma size_div_int:
  assumes "a < 2 ^ 31"
  shows "size_div (int a) (int b) = int (a div b)"
proof -
  have "int a mod 2 ^ 64 div int b = int (a div b)" using assms by (simp add: zdiv_int)
  moreover have "a div b < 2 ^ 31" by (rule le_less_trans [OF _ assms]) simp
  then have "int (a div b) < 2 ^ 31" by simp
  ultimately show ?thesis by (simp add: size_div_def to_int32_small)
qed

lemma size_mod_int:
  assumes "a < 2 ^ 31"
  shows "size_mod (int a) (int b) = int (a mod b)"
proof -
  have "int a mod 2 ^ 64 mod int b = int (a mod b)" using assms by (simp add: zmod_int)
  moreover have "a mod b < 2 ^ 31" by (rule le_less_trans [OF _ assms]) simp
  then have "int (a mod b) < 2 ^ 31" by simp
  ultimately show ?thesis by (simp add: size_mod_def to_int32_small)
qed

section \<open>Writing memory\<close>

text \<open>\<open>memcpy(buf + off, bs, n)\<close> into an allocated buffer.\<close>

definition buf_write :: "bytes \<Rightarrow> int \<Rightarrow> bytes \<Rightarrow> bytes res" where
  "buf_write buf off bs =
     (if 0 \<le> off \<and> off + int (length bs) \<le> int (length buf)
      then Inr (take (nat off) buf @ bs @ drop (nat off + length bs) buf) else Inl MemFault)"

lemma buf_write_prefix:
  assumes "length buf = length s" "take p buf = take p s" "p + n \<le> length s"
  shows "\<exists>buf'. buf_write buf (int p) (take n (drop p s)) = Inr buf' \<and> length buf' = length s \<and>
    take (p + n) buf' = take (p + n) s"
  using assms by (auto simp: buf_write_def take_add)

end
