(* ===== verification/Rle_Compress.thy ===== *)
theory Rle_Compress
  imports Prelude
begin

text \<open>
  The run-length codec of \<^verbatim>\<open>src/common/rle_compress.c\<close>: \<open>rle_compress\<close> and
  \<open>rle_decompress\<close> with their macros, loop by loop.

  The source buffer of \<open>rle_compress\<close> is the list of its \<open>slen\<close> bytes and the moving
  pointers are what they still have in front of them or behind them: \<open>dp\<close> is the input not
  yet consumed, \<open>buf\<close> the bytes between \<open>buf_base\<close> and \<open>buf\<close>, \<open>bp\<close> the bytes written to
  \<open>dest\<close> so far. Both functions return every byte they wrote to \<open>dest\<close> (the terminating NUL
  included) together with their C return value.
\<close>

section \<open>Constants and macros\<close>

definition MAX_REPEATED_SIZE :: nat where "MAX_REPEATED_SIZE = 130"
definition MAX_SINGLE_STORE_SIZE :: nat where "MAX_SINGLE_STORE_SIZE = 127"
definition THRESHOLD :: nat where "THRESHOLD = 3"

lemmas rle_consts = MAX_REPEATED_SIZE_def MAX_SINGLE_STORE_SIZE_def THRESHOLD_def

record RLE_Strategy =
  min_input_size :: int
  max_input_size :: int
  min_comp_rate :: int

definition RLE_strategy_default :: RLE_Strategy where
  "RLE_strategy_default =
     \<lparr>min_input_size = 32, max_input_size = INT_MAX, min_comp_rate = 25\<rparr>"

text \<open>\<open>store_single_buf\<close> returns the new \<open>bp\<close> and the new \<open>buf\<close>. With \<open>reach_max\<close> the
  macro moves the bytes after the first 127 to \<open>buf_base\<close> and then sets \<open>buf = buf_base\<close>
  in front of them, so they are no longer in the buffer.\<close>

definition store_single_buf :: "bytes \<Rightarrow> bytes \<Rightarrow> bool \<Rightarrow> bytes \<times> bytes" where
  "store_single_buf bp buf reach_max =
     (if reach_max then
        (bp @ of_nat MAX_SINGLE_STORE_SIZE # take MAX_SINGLE_STORE_SIZE buf, [])
      else (bp @ of_nat (length buf) # buf, []))"

section \<open>rle\_compress\<close>

text \<open>The scan for the end of a run: \<open>while (dp + cur_index + 2 < dend && ...) cur_index++\<close>.\<close>

function rle_scan :: "bytes \<Rightarrow> nat \<Rightarrow> nat" where
  "rle_scan dp cur_index =
     (if cur_index + 2 < length dp \<and> dp ! (cur_index + 1) = dp ! (cur_index + 2)
      then rle_scan dp (cur_index + 1) else cur_index)"
  by pat_completeness auto
termination
  by (relation "measure (\<lambda>(dp, i). length dp - i)") auto

declare rle_scan.simps [simp del]

text \<open>The loop \<open>while (cur_index > 0)\<close> that writes the blocks of one run.\<close>

function rle_emit_run :: "int \<Rightarrow> byte \<Rightarrow> bytes \<Rightarrow> bytes \<Rightarrow> bytes \<times> bytes" where
  "rle_emit_run cur_index cur_char dp bp =
     (if cur_index > 0 then
        rle_emit_run (cur_index - int MAX_REPEATED_SIZE) cur_char
          (drop (if cur_index + 2 > int MAX_REPEATED_SIZE then MAX_REPEATED_SIZE
                 else nat (cur_index + 2)) dp)
          (bp @ [word_of_int (if cur_index + 2 > int MAX_REPEATED_SIZE
                   then int (MAX_REPEATED_SIZE - THRESHOLD)
                   else cur_index + 2 - int THRESHOLD) OR push_bit 7 1, cur_char])
      else (dp, bp))"
  by pat_completeness auto
termination
  by (relation "measure (\<lambda>(i, c, dp, bp). nat i)") (auto simp: rle_consts)

declare rle_emit_run.simps [simp del]

text \<open>One iteration of the main loop after its size check, on \<open>(dp, buf, bp)\<close>.\<close>

definition rle_step :: "bytes \<Rightarrow> bytes \<Rightarrow> bytes \<Rightarrow> bytes \<times> bytes \<times> bytes" where
  "rle_step dp buf bp =
     (let (dp, buf, bp) =
        (if dp ! 0 = dp ! 1 then
           (if dp ! 1 = dp ! 2 then
              (let cur_index = rle_scan dp 1;
                   (bp, buf) = (if buf \<noteq> [] then store_single_buf bp buf False else (bp, buf));
                   cur_char = dp ! 0;
                   (dp, bp) = rle_emit_run (int cur_index) cur_char dp bp
               in (dp, buf, bp))
            else (drop 2 dp, buf @ take 2 dp, bp))
         else (drop 1 dp, buf @ take 1 dp, bp));
      (bp, buf) = (if length buf \<ge> MAX_SINGLE_STORE_SIZE
                   then store_single_buf bp buf True else (bp, buf))
      in (dp, buf, bp))"

lemma rle_emit_run_length_le: "length (fst (rle_emit_run i c dp bp)) \<le> length dp"
proof (induction i c dp bp rule: rle_emit_run.induct)
  case (1 i c dp bp)
  then show ?case
    by (cases "i > 0") (force simp: rle_emit_run.simps [of i c dp bp] intro: order_trans)+
qed

lemma rle_scan_ge: "i \<le> rle_scan dp i"
proof (induction dp i rule: rle_scan.induct)
  case (1 dp i)
  then show ?case
    by (auto simp: rle_scan.simps [of dp i])
qed

lemma rle_emit_run_length_less:
  assumes "0 < i" "dp \<noteq> []"
  shows "length (fst (rle_emit_run i c dp bp)) < length dp"
proof -
  have "length (fst (rle_emit_run i c dp bp)) \<le>
    length (drop (if i + 2 > int MAX_REPEATED_SIZE then MAX_REPEATED_SIZE else nat (i + 2)) dp)"
    by (subst rle_emit_run.simps) (simp only: assms(1) if_True rle_emit_run_length_le)
  also have "\<dots> < length dp"
    using assms by (auto simp: rle_consts)
  finally show ?thesis .
qed

lemma rle_step_shorter:
  assumes "3 \<le> length dp" "rle_step dp buf bp = (dp', buf', bp')"
  shows "length dp' < length dp"
proof -
  from assms(1) have ne: "dp \<noteq> []" by auto
  have "0 < int (rle_scan dp 1)"
    using rle_scan_ge [of 1 dp] by simp
  from rle_emit_run_length_less [OF this ne] have
    "fst (rle_emit_run (int (rle_scan dp 1)) c dp b) = d \<Longrightarrow> length d < length dp" for c b d
    by blast
  then have *: "rle_emit_run (int (rle_scan dp 1)) c dp b = (d, b') \<Longrightarrow> length d < length dp"
    for c b d b'
    by (metis fst_conv)
  from assms ne show ?thesis
    by (auto simp: rle_step_def Let_def split: prod.splits if_splits
        dest: * [unfolded One_nat_def])
qed

text \<open>The main loop \<open>while (THRESHOLD <= dend - dp)\<close>: \<open>Inl bp\<close> is the early
  \<open>return -1\<close> with \<open>bp\<close> written, \<open>Inr\<close> the state in which the loop ends.\<close>

function rle_loop :: "int \<Rightarrow> bytes \<Rightarrow> bytes \<Rightarrow> bytes \<Rightarrow> bytes + bytes \<times> bytes \<times> bytes" where
  "rle_loop result_max dp buf bp =
     (if THRESHOLD \<le> length dp then
        (if int (length bp) \<ge> result_max then Inl bp
         else case rle_step dp buf bp of (dp', buf', bp') \<Rightarrow> rle_loop result_max dp' buf' bp')
      else Inr (dp, buf, bp))"
  by pat_completeness auto
termination
  by (relation "measure (\<lambda>(rm, dp, buf, bp). length dp)")
     (auto simp: THRESHOLD_def split: prod.splits dest: rle_step_shorter)

declare rle_loop.simps [simp del]

text \<open>The maximum result size a strategy allows for an input of \<open>slen\<close> bytes.\<close>

definition rle_result_max :: "RLE_Strategy \<Rightarrow> int \<Rightarrow> int" where
  "rle_result_max strategy slen =
     (let need_rate = min_comp_rate strategy;
          need_rate = (if need_rate < 0 then 0 else if need_rate > 99 then 99 else need_rate)
      in if slen > c_div INT_MAX 100 then c_div slen 100 * (100 - need_rate)
         else c_div (slen * (100 - need_rate)) 100)"

definition rle_compress :: "bytes \<Rightarrow> RLE_Strategy option \<Rightarrow> bytes \<times> int" where
  "rle_compress source strategy_opt =
     (let slen = int (length source);
          strategy = (case strategy_opt of None \<Rightarrow> RLE_strategy_default | Some s \<Rightarrow> s)
      in if slen < min_input_size strategy \<or> slen > max_input_size strategy then ([], -1)
         else let result_max = rle_result_max strategy slen in
           case rle_loop result_max source [] [] of
             Inl bp \<Rightarrow> (bp, -1)
           | Inr (dp, buf, bp) \<Rightarrow>
               (let buf = buf @ dp;
                    (bp, buf) = (if length buf \<ge> MAX_SINGLE_STORE_SIZE
                                 then store_single_buf bp buf True else (bp, buf));
                    (bp, buf) = (if buf \<noteq> [] then store_single_buf bp buf False else (bp, buf));
                    result_size = int (length bp)
                in (bp @ [0], if result_size \<ge> result_max then -1 else result_size)))"

section \<open>rle\_decompress\<close>

text \<open>The loop \<open>while (sp < srcend && dp < destend)\<close>; \<open>sp\<close> is the offset into
  \<open>source\<close>, \<open>dp\<close> what has been written to \<open>dest\<close>.\<close>

function rle_decompress_loop ::
  "bytes \<Rightarrow> int \<Rightarrow> int \<Rightarrow> nat \<Rightarrow> bytes \<Rightarrow> (nat \<times> bytes) res" where
  "rle_decompress_loop source slen rawsize sp dp =
     (if int sp < slen \<and> int (length dp) < rawsize then
        bindE (rd source sp) (\<lambda>b.
          if unat b \<ge> 128 then
            bindE (rd source (sp + 1)) (\<lambda>cur_data.
              let repeat_count = unat (b AND 0x7F) + THRESHOLD in
              rle_decompress_loop source slen rawsize (sp + 2)
                (dp @ replicate repeat_count cur_data))
          else
            let single_count = unat b in
            bindE (rd_range source (sp + 1) single_count) (\<lambda>bs.
              rle_decompress_loop source slen rawsize (sp + 1 + single_count) (dp @ bs)))
      else Inr (sp, dp))"
  by pat_completeness auto
termination
  by (relation "measure (\<lambda>(source, slen, rawsize, sp, dp). nat (slen - int sp))") auto

declare rle_decompress_loop.simps [simp del]

definition rle_decompress :: "bytes \<Rightarrow> int \<Rightarrow> int \<Rightarrow> bool \<Rightarrow> (bytes \<times> int) res" where
  "rle_decompress source slen rawsize check_complete =
     bindE (rle_decompress_loop source slen rawsize 0 []) (\<lambda>(sp, dp).
       if check_complete \<and> (int (length dp) \<noteq> rawsize \<or> int sp \<noteq> slen)
       then Inr (dp @ [0], -1)
       else Inr (dp @ [0], int (length dp)))"

end
