(* ===== verification/Rle_Stream.thy ===== *)
theory Rle_Stream
  imports Rle_Compress
begin

text \<open>
  What the run-length format means, independently of the code: a compressed payload is the
  encoding of a list of blocks, its meaning the concatenation of what the blocks stand for.
  The lemmas relate \<open>rle_compress\<close> and \<open>rle_decompress\<close> to it.
\<close>

section \<open>The format\<close>

datatype tok = Rep nat byte | Lit bytes

fun tok_ok :: "tok \<Rightarrow> bool" where
  "tok_ok (Rep n c) \<longleftrightarrow> THRESHOLD \<le> n \<and> n \<le> MAX_REPEATED_SIZE"
| "tok_ok (Lit bs) \<longleftrightarrow> bs \<noteq> [] \<and> length bs \<le> MAX_SINGLE_STORE_SIZE"

fun enc_tok :: "tok \<Rightarrow> bytes" where
  "enc_tok (Rep n c) = [word_of_nat (n - THRESHOLD) OR 128, c]"
| "enc_tok (Lit bs) = word_of_nat (length bs) # bs"

fun dec_tok :: "tok \<Rightarrow> bytes" where
  "dec_tok (Rep n c) = replicate n c"
| "dec_tok (Lit bs) = bs"

definition enc :: "tok list \<Rightarrow> bytes" where "enc ts = concat (map enc_tok ts)"
definition dec :: "tok list \<Rightarrow> bytes" where "dec ts = concat (map dec_tok ts)"
definition toks_ok :: "tok list \<Rightarrow> bool" where "toks_ok ts \<longleftrightarrow> list_all tok_ok ts"

lemma enc_simps [simp]:
  "enc [] = []" "enc (t # ts) = enc_tok t @ enc ts" "enc (ts @ us) = enc ts @ enc us"
  by (simp_all add: enc_def)

lemma dec_simps [simp]:
  "dec [] = []" "dec (t # ts) = dec_tok t @ dec ts" "dec (ts @ us) = dec ts @ dec us"
  by (simp_all add: dec_def)

lemma toks_ok_simps [simp]:
  "toks_ok []" "toks_ok (t # ts) \<longleftrightarrow> tok_ok t \<and> toks_ok ts"
  "toks_ok (ts @ us) \<longleftrightarrow> toks_ok ts \<and> toks_ok us"
  by (simp_all add: toks_ok_def)

lemma dec_tok_length: "tok_ok t \<Longrightarrow> 1 \<le> length (dec_tok t) \<and> length (dec_tok t) \<le> 130"
  by (cases t) (auto simp: rle_consts Suc_le_eq)

lemma enc_tok_length: "tok_ok t \<Longrightarrow> length (enc_tok t) \<le> length (dec_tok t) + 1"
  by (cases t) (auto simp: rle_consts)

text \<open>The header byte of a block: bit 7 tells the two kinds apart, the rest is the count.\<close>

lemma rep_header:
  assumes "k < 128"
  shows "unat (word_of_nat k OR 128 :: byte) \<ge> 128"
    and "unat ((word_of_nat k OR 128) AND 0x7F :: byte) = k"
proof -
  have "\<forall>k\<in>set [0..<128]. unat (word_of_nat k OR 128 :: byte) \<ge> 128 \<and>
      unat ((word_of_nat k OR 128) AND 0x7F :: byte) = k"
    by code_simp
  with assms show "unat (word_of_nat k OR 128 :: byte) \<ge> 128"
    and "unat ((word_of_nat k OR 128) AND 0x7F :: byte) = k"
    by auto
qed

lemma unat_byte [simp]: "k < 256 \<Longrightarrow> unat (word_of_nat k :: byte) = k"
  by (simp add: unat_of_nat)

lemma tok_header:
  assumes "tok_ok t"
  obtains (Rep) n c h where "t = Rep n c" "enc_tok t = [h, c]" "unat h \<ge> 128"
      "unat (h AND 0x7F) = n - 3" "3 \<le> n" "n \<le> 130"
    | (Lit) bs h where "t = Lit bs" "enc_tok t = h # bs" "unat h < 128" "unat h = length bs"
      "bs \<noteq> []" "length bs \<le> 127"
proof (cases t)
  case (Rep n c)
  with assms have "3 \<le> n" "n \<le> 130" "n - 3 < 128" by (auto simp: rle_consts)
  with that(1) [of n c "word_of_nat (n - 3) OR 128"] Rep rep_header [of "n - 3"] show ?thesis
    by (simp only: enc_tok.simps THRESHOLD_def)
next
  case (Lit bs)
  with assms that(2) [of bs "word_of_nat (length bs)"] show ?thesis
    by (auto simp: rle_consts)
qed

section \<open>Decompression of a well-formed payload\<close>

text \<open>The decoder stops at the first block boundary at which the wanted number of bytes has
  been produced; \<open>tok_prefix\<close> is the part of the payload it reads.\<close>

fun tok_prefix :: "int \<Rightarrow> tok list \<Rightarrow> tok list" where
  "tok_prefix n [] = []"
| "tok_prefix n (t # ts) =
     (if 0 < n then t # tok_prefix (n - int (length (dec_tok t))) ts else [])"

lemma rle_decompress_loop_enc:
  assumes "toks_ok ts"
  shows "rle_decompress_loop (pre @ enc ts @ post) (int (length pre + length (enc ts))) rawsize
           (length pre) out
         = Inr (length pre + length (enc (tok_prefix (rawsize - int (length out)) ts)),
                out @ dec (tok_prefix (rawsize - int (length out)) ts))"
  using assms
proof (induction ts arbitrary: pre out)
  case Nil
  then show ?case by (simp add: rle_decompress_loop.simps)
next
  case (Cons t ts)
  then have ok: "tok_ok t" "toks_ok ts" by simp_all
  show ?case
  proof (cases "int (length out) < rawsize")
    case False
    then show ?thesis by (simp add: rle_decompress_loop.simps)
  next
    case True
    let ?src = "pre @ enc (t # ts) @ post" and ?len = "int (length pre + length (enc (t # ts)))"
    have step: "rle_decompress_loop ?src ?len rawsize (length pre) out =
      rle_decompress_loop ?src ?len rawsize (length pre + length (enc_tok t)) (out @ dec_tok t)"
      using ok(1)
    proof (cases rule: tok_header)
      case (Rep n c h)
      have "rd ?src (length pre) = Inr h" "rd ?src (Suc (length pre)) = Inr c"
        using Rep by (simp_all add: rd_def nth_append)
      with Rep True show ?thesis
        by (subst rle_decompress_loop.simps) (simp add: Let_def THRESHOLD_def)
    next
      case (Lit bs h)
      have "rd ?src (length pre) = Inr h" "rd_range ?src (Suc (length pre)) (length bs) = Inr bs"
        using Lit rd_range_at [of "pre @ [h]" bs "enc ts @ post"] by (simp_all add: rd_def)
      with Lit True show ?thesis
        by (subst rle_decompress_loop.simps) (simp add: Let_def)
    qed
    have "rle_decompress_loop ?src ?len rawsize (length pre + length (enc_tok t)) (out @ dec_tok t)
      = Inr (length pre + length (enc_tok t)
               + length (enc (tok_prefix (rawsize - int (length (out @ dec_tok t))) ts)),
             (out @ dec_tok t) @ dec (tok_prefix (rawsize - int (length (out @ dec_tok t))) ts))"
      using Cons.IH [OF ok(2), of "pre @ enc_tok t" "out @ dec_tok t"] by (simp add: add.assoc)
    with True show ?thesis
      unfolding step by (simp add: algebra_simps)
  qed
qed

lemma tok_prefix_all:
  "toks_ok ts \<Longrightarrow> int (length (dec ts)) \<le> n \<Longrightarrow> tok_prefix n ts = ts"
proof (induction ts arbitrary: n)
  case (Cons t ts)
  then have "1 \<le> length (dec_tok t)" using dec_tok_length by simp
  with Cons show ?case by simp
qed simp

lemma tok_prefix_dec:
  assumes "toks_ok ts" "0 \<le> n"
  shows "\<exists>rest. dec ts = dec (tok_prefix n ts) @ rest \<and>
           (rest \<noteq> [] \<longrightarrow> n \<le> int (length (dec (tok_prefix n ts)))) \<and>
           int (length (dec (tok_prefix n ts))) < n + 130"
  using assms
proof (induction ts arbitrary: n)
  case Nil
  then show ?case by simp
next
  case (Cons t ts)
  then have ok: "toks_ok ts" and len: "length (dec_tok t) \<le> 130" using dec_tok_length by auto
  show ?case
  proof (cases "0 < n \<and> int (length (dec_tok t)) \<le> n")
    case True
    then have "0 \<le> n - int (length (dec_tok t))" by simp
    from Cons.IH [OF ok this] True show ?thesis
      by (auto simp: algebra_simps)
  next
    case False
    have "tok_prefix m ts = []" if "m \<le> 0" for m
      using that by (cases ts) auto
    with False len Cons.prems(2) show ?thesis
      by (cases "0 < n") auto
  qed
qed

lemma rle_decompress_enc:
  assumes "toks_ok ts"
  shows "rle_decompress (enc ts @ post) (int (length (enc ts))) rawsize check =
    (let us = tok_prefix rawsize ts in
     if check \<and> (int (length (dec us)) \<noteq> rawsize \<or> length (enc us) \<noteq> length (enc ts))
     then Inr (dec us @ [0], -1) else Inr (dec us @ [0], int (length (dec us))))"
  using rle_decompress_loop_enc [OF assms, of "[]" post rawsize "[]"]
  by (simp add: rle_decompress_def Let_def)

end
