(* ===== verification/Rle_Correct.thy ===== *)
theory Rle_Correct
  imports Rle_Stream
begin

text \<open>
  Correctness of the run-length codec: what \<open>rle_compress\<close> writes is always a well-formed
  payload, what it decodes to is the source with possibly some bytes missing, and nothing is
  missing when every 128 consecutive bytes of the source contain a run of three. The loop
  invariant \<open>rle_inv\<close> carries all of it.
\<close>

section \<open>Runs of three\<close>

fun has_triple :: "bytes \<Rightarrow> bool" where
  "has_triple (a # b # c # r) \<longleftrightarrow> (a = b \<and> b = c) \<or> has_triple (b # c # r)"
| "has_triple _ \<longleftrightarrow> False"

definition runs_in_windows :: "nat \<Rightarrow> bytes \<Rightarrow> bool" where
  "runs_in_windows w src \<longleftrightarrow>
     list_all (\<lambda>i. has_triple (take w (drop i src))) [0..<length src + 1 - w]"

lemma runs_in_windowsD:
  assumes "runs_in_windows w (xs @ ys @ zs)" "length ys = w"
  shows "has_triple ys"
proof -
  have "has_triple (take w (drop (length xs) (xs @ ys @ zs)))"
    using assms unfolding runs_in_windows_def list_all_iff by (auto simp del: drop_append)
  then show ?thesis using assms(2) by simp
qed

lemma has_triple_short: "length xs \<le> 2 \<Longrightarrow> \<not> has_triple xs"
  by (cases xs rule: has_triple.cases) auto

lemma has_triple_snoc2:
  "has_triple (xs @ [b, c]) \<longleftrightarrow> has_triple (xs @ [b]) \<or> (xs \<noteq> [] \<and> last xs = b \<and> b = c)"
  by (induction xs rule: has_triple.induct) (auto simp: has_triple_short)

lemma has_triple_prefix: "has_triple xs \<Longrightarrow> has_triple (xs @ ys)"
  by (induction xs rule: has_triple.induct) auto

section \<open>Blocks of one run\<close>

lemma rle_scan_run:
  assumes "i + 2 \<le> length dp" "take (i + 2) dp = replicate (i + 2) c"
  shows "rle_scan dp i + 2 \<le> length dp \<and>
    take (rle_scan dp i + 2) dp = replicate (rle_scan dp i + 2) c"
  using assms
proof (induction dp i rule: rle_scan.induct)
  case (1 dp i)
  show ?case
  proof (cases "i + 2 < length dp \<and> dp ! (i + 1) = dp ! (i + 2)")
    case True
    have "dp ! (i + 1) = take (i + 2) dp ! (i + 1)" by simp
    also have "\<dots> = c" unfolding "1.prems"(2) by (subst nth_replicate) simp_all
    finally have "dp ! (i + 2) = c" using True by simp
    then have tk: "take (i + 1 + 2) dp = replicate (i + 1 + 2) c"
      using True "1.prems"(2) take_Suc_conv_app_nth [of "i + 2" dp]
      by (simp add: replicate_append_same)
    have eq: "rle_scan dp i = rle_scan dp (i + 1)"
      by (subst rle_scan.simps) (simp only: True simp_thms if_True)
    from True have "i + 1 + 2 \<le> length dp" by linarith
    from "1.IH" [OF True this tk] show ?thesis unfolding eq .
  next
    case False
    then have "rle_scan dp i = i" by (subst rle_scan.simps) (simp only: if_False)
    with "1.prems" show ?thesis by (simp only: simp_thms)
  qed
qed

lemma rle_emit_run_blocks:
  assumes "0 < i \<Longrightarrow> nat (i + 2) \<le> length dp \<and> take (nat (i + 2)) dp = replicate (nat (i + 2)) c"
  shows "\<exists>ts. toks_ok ts \<and> snd (rle_emit_run i c dp bp) = bp @ enc ts \<and>
    dec ts @ fst (rle_emit_run i c dp bp) = dp"
  using assms
proof (induction "nat i" arbitrary: i dp bp rule: less_induct)
  case (less i dp bp)
  show ?case
  proof (cases "0 < i")
    case False
    then show ?thesis
      by (intro exI [of _ "[]"]) (simp add: rle_emit_run.simps [of i c dp bp])
  next
    case True
    define n where "n = (if i + 2 > 130 then 130 else nat (i + 2))"
    let ?dp = "drop n dp" and ?bp = "bp @ enc [Rep n c]"
    from True have n: "3 \<le> n" "n \<le> 130" "n \<le> nat (i + 2)" by (auto simp: n_def)
    have eq: "rle_emit_run i c dp bp = rle_emit_run (i - 130) c ?dp ?bp"
      using True
      by (subst rle_emit_run.simps) (auto simp: n_def rle_consts of_nat_diff)
    from less.prems True have run: "nat (i + 2) \<le> length dp"
      "take (nat (i + 2)) dp = replicate (nat (i + 2)) c" by simp_all
    have "take n dp = take n (take (nat (i + 2)) dp)" using n by (simp add: min_absorb1)
    also have "\<dots> = replicate n c" using n run by (simp add: min_absorb1)
    finally have dp: "dp = replicate n c @ ?dp" by (metis append_take_drop_id)
    have rest: "nat (i - 130 + 2) \<le> length ?dp \<and>
      take (nat (i - 130 + 2)) ?dp = replicate (nat (i - 130 + 2)) c" if "0 < i - 130"
    proof -
      from that have "n = 130" "nat (i - 130 + 2) = nat (i + 2) - n" by (auto simp: n_def)
      moreover have "take (nat (i + 2) - n) (drop n dp) = replicate (nat (i + 2) - n) c"
        using run(2) by (metis drop_replicate drop_take)
      ultimately show ?thesis using run(1) by simp
    qed
    obtain ts where ts: "toks_ok ts" "snd (rle_emit_run (i - 130) c ?dp ?bp) = ?bp @ enc ts"
      "dec ts @ fst (rle_emit_run (i - 130) c ?dp ?bp) = ?dp"
      using less.hyps [of "i - 130" ?dp ?bp] rest True by auto
    with n dp show ?thesis
      unfolding eq by (intro exI [of _ "Rep n c # ts"]) (simp add: rle_consts)
  qed
qed

section \<open>One step and the loop invariant\<close>

text \<open>\<open>flush\<close> is the \<open>reach_max\<close> check at the end of an iteration.\<close>

definition flush :: "bytes \<Rightarrow> bytes \<Rightarrow> bytes \<times> bytes" where
  "flush buf bp = (if 127 \<le> length buf then ([], bp @ 127 # take 127 buf) else (buf, bp))"

lemma enc_full_block: "127 \<le> length buf \<Longrightarrow> enc [Lit (take 127 buf)] = 127 # take 127 buf"
  by (simp add: min_absorb2)

lemma rle_step_cases:
  assumes "3 \<le> length dp"
  obtains (Run) ts dp' where "toks_ok ts" "dec ts @ dp' = dp"
      "rle_step dp buf bp = (dp', [], bp @ enc (if buf = [] then ts else Lit buf # ts))"
    | (Pair) a c r where "dp = a # a # c # r" "a \<noteq> c"
      "rle_step dp buf bp = (c # r, flush (buf @ [a, a]) bp)"
    | (Single) a b c r where "dp = a # b # c # r" "a \<noteq> b"
      "rle_step dp buf bp = (b # c # r, flush (buf @ [a]) bp)"
proof -
  from assms obtain a b c r where dp: "dp = a # b # c # r"
    by (metis One_nat_def Suc_le_length_iff numeral_3_eq_3)
  show thesis
  proof (cases "a = b \<and> b = c")
    case True
    let ?i = "int (rle_scan dp 1)" and ?bp = "bp @ enc (if buf = [] then [] else [Lit buf])"
    from rle_scan_run [of 1 dp a] True dp
    have "nat (?i + 2) \<le> length dp \<and> take (nat (?i + 2)) dp = replicate (nat (?i + 2)) a"
      by (simp add: nat_add_distrib numeral_2_eq_2)
    from rle_emit_run_blocks [of ?i dp a ?bp, OF this] obtain ts where
      ts: "toks_ok ts" "snd (rle_emit_run ?i a dp ?bp) = ?bp @ enc ts"
        "dec ts @ fst (rle_emit_run ?i a dp ?bp) = dp"
      by blast
    from True dp have "rle_step dp buf bp = (fst (rle_emit_run ?i a dp ?bp), [], ?bp @ enc ts)"
      using ts(2)
      by (auto simp: rle_step_def Let_def store_single_buf_def rle_consts split: prod.splits)
    with Run [OF ts(1,3)] show thesis by (auto split: if_splits)
  next
    case False
    with dp show thesis
      using Pair [of a c r] Single [of a b c r]
      by (cases "a = b")
         (auto simp: rle_step_def flush_def store_single_buf_def rle_consts simp del: take_append)
  qed
qed

text \<open>\<open>decodes src ts rest\<close>: the blocks \<open>ts\<close> followed by the bytes \<open>rest\<close> are the
  source, up to missing bytes, and exactly the source under the window condition.\<close>

definition decodes :: "bytes \<Rightarrow> tok list \<Rightarrow> bytes \<Rightarrow> bool" where
  "decodes src ts rest \<longleftrightarrow> toks_ok ts \<and> subseq (dec ts @ rest) src \<and>
     (runs_in_windows 128 src \<longrightarrow> dec ts @ rest = src)"

definition rle_inv :: "bytes \<Rightarrow> bytes \<Rightarrow> bytes \<Rightarrow> bytes \<Rightarrow> bool" where
  "rle_inv src dp buf bp \<longleftrightarrow> length buf \<le> 126 \<and> \<not> has_triple (buf @ take 2 dp) \<and>
     (\<exists>ts. bp = enc ts \<and> decodes src ts (buf @ dp))"

lemma flush_decodes:
  assumes "decodes src ts (buf @ dp)" "length buf \<le> 128" "\<not> has_triple buf"
    and "flush buf (enc ts) = (buf', bp')"
  shows "\<exists>us. bp' = enc us \<and> decodes src us (buf' @ dp)"
proof (cases "127 \<le> length buf")
  case False
  with assms show ?thesis by (auto simp: flush_def)
next
  case True
  let ?us = "ts @ [Lit (take 127 buf)]"
  have sub: "subseq (dec ?us @ dp) (dec ts @ buf @ dp)"
    by (simp, intro list_emb_append_mono) (auto intro: prefix_imp_subseq take_is_prefix)
  have "dec ?us @ dp = src" if w: "runs_in_windows 128 src"
  proof -
    from assms(1) w have src: "src = dec ts @ buf @ dp" by (simp add: decodes_def)
    with w assms(3) have "length buf \<noteq> 128"
      using runs_in_windowsD [of 128 "dec ts" buf dp] by blast
    with True assms(2) src show ?thesis by simp
  qed
  with assms True sub have "decodes src ?us dp"
    by (auto simp: decodes_def rle_consts intro: subseq_order.order_trans)
  with assms True show ?thesis
    by (auto simp: flush_def enc_full_block [symmetric] simp del: enc_simps(2)
        intro!: exI [of _ ?us])
qed

lemma flush_short: "length buf \<le> 128 \<Longrightarrow> flush buf bp = (buf', bp') \<Longrightarrow> length buf' \<le> 126"
  by (auto simp: flush_def split: if_splits)

lemma flush_triple:
  "\<not> has_triple (buf @ take 2 dp) \<Longrightarrow> flush buf bp = (buf', bp') \<Longrightarrow> \<not> has_triple (buf' @ take 2 dp)"
  by (auto simp: flush_def has_triple_short split: if_splits)

lemma rle_inv_flush:
  assumes "decodes src ts (buf @ dp)" "length buf \<le> 128" "\<not> has_triple (buf @ take 2 dp)"
    and "flush buf (enc ts) = (buf', bp')"
  shows "rle_inv src dp buf' bp'"
proof -
  from assms(3) have "\<not> has_triple buf" using has_triple_prefix by blast
  from flush_decodes [OF assms(1,2) this assms(4)] flush_short [OF assms(2,4)]
    flush_triple [OF assms(3,4)]
  show ?thesis by (simp add: rle_inv_def)
qed

lemma rle_step_inv:
  assumes inv: "rle_inv src dp buf bp" and dp: "3 \<le> length dp"
    and step: "rle_step dp buf bp = (dp', buf', bp')"
  shows "rle_inv src dp' buf' bp'"
proof -
  from inv obtain ts where ts: "bp = enc ts" "decodes src ts (buf @ dp)"
    and len: "length buf \<le> 126" and tr: "\<not> has_triple (buf @ take 2 dp)"
    by (auto simp: rle_inv_def)
  from dp show ?thesis
  proof (cases rule: rle_step_cases [where buf = buf and bp = bp])
    case (Run us d)
    let ?us = "ts @ (if buf = [] then us else Lit buf # us)"
    from Run ts len have "decodes src ?us d"
      by (auto simp: decodes_def rle_consts)
    with Run step ts(1) show ?thesis
      by (auto simp: rle_inv_def has_triple_short intro!: exI [of _ ?us])
  next
    case (Pair a c r)
    from tr Pair have "\<not> has_triple ((buf @ [a, a]) @ take 2 (c # r))"
      using has_triple_snoc2 [of "buf @ [a]" a c] has_triple_snoc2 [of "buf @ [a, a]" c "hd r"]
      by (cases r) auto
    moreover from Pair(3) step have "dp' = c # r" "flush (buf @ [a, a]) (enc ts) = (buf', bp')"
      using ts(1) by simp_all
    ultimately show ?thesis
      using rle_inv_flush [of src ts "buf @ [a, a]" "c # r"] Pair(1) ts(2) len by simp
  next
    case (Single a b c r)
    from tr Single have "\<not> has_triple ((buf @ [a]) @ take 2 (b # c # r))"
      using has_triple_snoc2 [of "buf @ [a]" b c] by auto
    moreover from Single(3) step have "dp' = b # c # r" "flush (buf @ [a]) (enc ts) = (buf', bp')"
      using ts(1) by simp_all
    ultimately show ?thesis
      using rle_inv_flush [of src ts "buf @ [a]" "b # c # r"] Single(1) ts(2) len by simp
  qed
qed

lemma rle_loop_inv:
  assumes "rle_inv src dp buf bp" "rle_loop rm dp buf bp = Inr (dp', buf', bp')"
  shows "rle_inv src dp' buf' bp' \<and> length dp' < 3"
  using assms
proof (induction rm dp buf bp rule: rle_loop.induct)
  case (1 rm dp buf bp)
  show ?case
  proof (cases "3 \<le> length dp")
    case False
    with "1.prems" show ?thesis by (simp add: rle_loop.simps [of rm dp] THRESHOLD_def)
  next
    case True
    obtain d b p where st: "rle_step dp buf bp = (d, b, p)" by (metis prod_cases3)
    with True "1.prems"(2) have "\<not> rm \<le> int (length bp)" "rle_loop rm d b p = Inr (dp', buf', bp')"
      by (auto simp: rle_loop.simps [of rm dp] THRESHOLD_def split: if_splits)
    with "1.IH" [OF _ _ st [symmetric] refl] rle_step_inv [OF "1.prems"(1) True st] True
    show ?thesis by (simp add: THRESHOLD_def)
  qed
qed

section \<open>The payload rle\_compress writes\<close>

lemma rle_compress_payload:
  assumes "rle_compress src str = (dest, n)" "0 \<le> n"
  obtains ts where "toks_ok ts" "dest = enc ts @ [0]" "n = int (length (enc ts))"
    "subseq (dec ts) src" "runs_in_windows 128 src \<longrightarrow> dec ts = src"
    "n < rle_result_max (case str of None \<Rightarrow> RLE_strategy_default | Some s \<Rightarrow> s) (int (length src))"
proof -
  let ?str = "case str of None \<Rightarrow> RLE_strategy_default | Some s \<Rightarrow> s"
  let ?rm = "rle_result_max ?str (int (length src))"
  from assms obtain dp buf bp where loop: "rle_loop ?rm src [] [] = Inr (dp, buf, bp)"
    by (auto simp: rle_compress_def Let_def split: if_splits sum.splits)
  have "rle_inv src src [] []"
    by (auto simp: rle_inv_def decodes_def has_triple_short intro!: exI [of _ "[]"])
  from rle_loop_inv [OF this loop] obtain ts where
    ts: "bp = enc ts" "decodes src ts (buf @ dp)" "length (buf @ dp) \<le> 128" "\<not> has_triple (buf @ dp)"
    by (auto simp: rle_inv_def)
  obtain buf' bp' where fl: "flush (buf @ dp) bp = (buf', bp')" by fastforce
  from flush_decodes [of src ts "buf @ dp" "[]"] ts fl obtain us where
    us: "bp' = enc us" "decodes src us buf'" by auto
  let ?vs = "if buf' = [] then us else us @ [Lit buf']"
  from flush_short [OF ts(3) fl] us have vs: "decodes src ?vs []"
    by (auto simp: decodes_def rle_consts)
  let ?bp = "if buf' = [] then bp' else bp' @ word_of_nat (length buf') # buf'"
  from assms loop fl have "dest = ?bp @ [0] \<and> n = int (length ?bp) \<and> n < ?rm"
    by (auto simp: rle_compress_def Let_def flush_def store_single_buf_def rle_consts
        simp del: take_append split: if_splits)
  moreover have "?bp = enc ?vs" using us(1) by simp
  ultimately show thesis
    using vs by (intro that [of ?vs]) (simp_all add: decodes_def)
qed

section \<open>Bounds of the decoder on any input\<close>

lemma rle_decompress_loop_bound:
  assumes "rle_decompress_loop source slen rawsize sp dp = Inr (sp', dp')"
    and "int (length dp) < rawsize + 130"
  shows "int (length dp') < rawsize + 130"
  using assms
proof (induction source slen rawsize sp dp rule: rle_decompress_loop.induct)
  case (1 source slen rawsize sp dp)
  show ?case
  proof (cases "int sp < slen \<and> int (length dp) < rawsize")
    case False
    with "1.prems" show ?thesis by (simp add: rle_decompress_loop.simps [of source])
  next
    case True
    with "1.prems"(1) obtain b where b: "rd source sp = Inr b"
      by (auto simp: rle_decompress_loop.simps [of source] bindE_eq_Inr_iff)
    show ?thesis
    proof (cases "unat b \<ge> 128")
      case rep: True
      with True b "1.prems"(1) obtain c where c: "rd source (sp + 1) = Inr c"
        and rec: "rle_decompress_loop source slen rawsize (sp + 2)
          (dp @ replicate (unat (b AND 0x7F) + THRESHOLD) c) = Inr (sp', dp')"
        by (auto simp: rle_decompress_loop.simps [of source slen rawsize sp] bindE_eq_Inr_iff Let_def)
      have "int (length (dp @ replicate (unat (b AND 0x7F) + THRESHOLD) c)) < rawsize + 130"
        using True uint_and_7F [of b] by (simp add: THRESHOLD_def)
      from "1.IH"(1) [OF True b rep c refl rec this] show ?thesis .
    next
      case lit: False
      with True b "1.prems"(1) obtain bs where bs: "rd_range source (sp + 1) (unat b) = Inr bs"
        and rec: "rle_decompress_loop source slen rawsize (sp + 1 + unat b) (dp @ bs) = Inr (sp', dp')"
        by (auto simp: rle_decompress_loop.simps [of source slen rawsize sp] bindE_eq_Inr_iff Let_def)
      from bs lit have "length bs \<le> 127"
        by (auto simp: rd_range_def split: if_splits)
      with True have "int (length (dp @ bs)) < rawsize + 130" by simp
      from "1.IH"(2) [OF True b lit refl bs rec this] show ?thesis .
    qed
  qed
qed

lemma rle_compress_result_size:
  assumes "rle_compress src None = (dest, n)"
  shows "n \<le> int (length dest) \<and> n \<le> int (length src)"
proof (cases "0 \<le> n")
  case True
  obtain ts where ts: "dest = enc ts @ [0]" "n = int (length (enc ts))"
    "n < rle_result_max RLE_strategy_default (int (length src))"
    using assms True by (rule rle_compress_payload) (simp only: option.case)
  have "rle_result_max RLE_strategy_default s \<le> s" if "0 \<le> s" for s
    using that by (auto simp: rle_result_max_def RLE_strategy_default_def c_div_nonneg INT_MAX_def)
  with ts show ?thesis by (smt (verit) length_append of_nat_0_le_iff of_nat_mono le_add1)
qed simp

section \<open>Properties\<close>

text \<open>C4. Decompressing what \<open>rle_compress\<close> produced, with \<open>check_complete\<close> and the size of
  the source as \<open>rawsize\<close>, either gives the source back or reports corruption: it never
  returns other bytes.\<close>

theorem rle_decompress_compress:
  assumes "rle_compress src strategy = (dest, n)" "0 \<le> n"
  shows "rle_decompress (take (nat n) dest @ post) n (int (length src)) True
           = Inr (src @ [0], int (length src))
       \<or> (\<exists>out. rle_decompress (take (nat n) dest @ post) n (int (length src)) True = Inr (out, -1))"
proof -
  from assms obtain ts where ts: "toks_ok ts" "dest = enc ts @ [0]" "n = int (length (enc ts))"
    "subseq (dec ts) src"
    by (rule rle_compress_payload)
  have "length (dec ts) \<le> length src" using ts(4) by (rule list_emb_length)
  then have all: "tok_prefix (int (length src)) ts = ts"
    using ts(1) by (simp add: tok_prefix_all)
  have "dec ts = src" if "length (dec ts) = length src"
    using ts(4) that by (rule subseq_same_length)
  with ts all show ?thesis
    by (cases "length (dec ts) = length src") (auto simp: rle_decompress_enc)
qed

theorem rle_decompress_compress_witness:
  "rle_decompress (take 2 [165, 7, 0] @ []) 2 40 True = Inr (replicate 40 7 @ [0], 40)
   \<or> (\<exists>out. rle_decompress (take 2 [165, 7, 0] @ []) 2 40 True = Inr (out, -1))"
proof -
  have c: "rle_compress (replicate 40 7) None = ([165, 7, 0], 2)" by code_simp
  show ?thesis using rle_decompress_compress [OF c, of "[]"] by simp
qed

text \<open>C5. The codec is lossless on every source in which any 128 consecutive bytes contain
  three equal bytes in a row (so on every source shorter than 128 bytes).\<close>

theorem rle_roundtrip:
  assumes "rle_compress src strategy = (dest, n)" "0 \<le> n" "runs_in_windows 128 src"
  shows "rle_decompress (take (nat n) dest @ post) n (int (length src)) True
           = Inr (src @ [0], int (length src))"
proof -
  from assms(1,2) obtain ts where ts: "toks_ok ts" "dest = enc ts @ [0]"
    "n = int (length (enc ts))" "runs_in_windows 128 src \<longrightarrow> dec ts = src"
    by (rule rle_compress_payload)
  with assms(3) have "tok_prefix (int (length src)) ts = ts" by (simp add: tok_prefix_all)
  with ts assms(3) show ?thesis by (simp add: rle_decompress_enc)
qed

theorem rle_roundtrip_witness:
  "rle_decompress (take 2 [165, 7, 0] @ [9]) 2 40 True = Inr (replicate 40 7 @ [0], 40)"
proof -
  have c: "rle_compress (replicate 40 7) None = ([165, 7, 0], 2)" by code_simp
  have w: "runs_in_windows 128 (replicate 40 (7 :: byte))" by code_simp
  show ?thesis using rle_roundtrip [OF c _ w, of "[9]"] by simp
qed

text \<open>C35. Without that condition \<open>rle_compress\<close> can lose a byte: a pair of equal bytes that
  fills the literal buffer from 126 to 128 bytes is cut to 127. Compression reports success,
  and the value can no longer be decompressed.\<close>

definition lossy_source :: bytes where
  "lossy_source = concat (replicate 63 [1, 2]) @ [3, 3] @ replicate 48 4"


text \<open>A successful compression under the default strategy saves at least a quarter of
  the input, and the result is not empty unless the input is.\<close>

lemma rle_compress_rate:
  assumes "rle_compress src None = (dest, n)" "0 \<le> n" "int (length src) \<le> INT_MAX"
  shows "4 * n < 3 * int (length src) \<and> length dest = nat n + 1"
proof -
  from assms(1,2) obtain ts where ts: "dest = enc ts @ [0]" "n = int (length (enc ts))"
    "n < rle_result_max RLE_strategy_default (int (length src))"
    by (rule rle_compress_payload) (simp only: option.case)
  have "4 * rle_result_max RLE_strategy_default s \<le> 3 * s" if "0 \<le> s" for s
    using that by (auto simp: rle_result_max_def RLE_strategy_default_def c_div_nonneg INT_MAX_def)
  with ts(3) have "4 * n < 3 * int (length src)"
    by (meson linorder_not_le mult_le_cancel_left_pos of_nat_0_le_iff order_trans zero_less_numeral)
  with ts show ?thesis by simp
qed

text \<open>A slice: asked for the first \<open>k\<close> bytes without \<open>check_complete\<close>, the decoder
  returns at least them, unchanged, and less than 130 bytes more.\<close>

lemma rle_decompress_slice:
  assumes "rle_compress src strategy = (dest, n)" "0 \<le> n" "runs_in_windows 128 src"
    and "0 \<le> k" "k \<le> int (length src)"
  shows "\<exists>out r. rle_decompress (take (nat n) dest @ post) n k False = Inr (out @ [0], r) \<and>
    r = int (length out) \<and> take (nat k) out = take (nat k) src \<and> k \<le> r \<and> r < k + 130"
proof -
  from assms(1,2) obtain ts where ts: "toks_ok ts" "dest = enc ts @ [0]"
    "n = int (length (enc ts))" "runs_in_windows 128 src \<longrightarrow> dec ts = src"
    by (rule rle_compress_payload)
  let ?out = "dec (tok_prefix k ts)"
  from tok_prefix_dec [OF ts(1) assms(4)] ts(4) assms(3) obtain rest where
    rest: "src = ?out @ rest" "rest \<noteq> [] \<longrightarrow> k \<le> int (length ?out)" "int (length ?out) < k + 130"
    by auto
  with assms(5) have "k \<le> int (length ?out)" by (cases rest) auto
  then have "take (nat k) ?out = take (nat k) src" using rest(1) by (simp add: nat_le_iff)
  with \<open>k \<le> int (length ?out)\<close> rest(3) ts show ?thesis
    by (auto simp: rle_decompress_enc Let_def)
qed

text \<open>C32. On any input, corrupt ones included, the decoder writes at most
  \<open>rawsize + 130\<close> bytes; a one-byte slice of a long run does write 131 bytes, 130 more
  than the slice its caller allocated.\<close>

theorem rle_decompress_write_bound:
  assumes "rle_decompress source slen rawsize check = Inr (out, r)" "0 \<le> rawsize"
  shows "int (length out) \<le> rawsize + 130"
proof -
  from assms(1) obtain sp dp where l: "rle_decompress_loop source slen rawsize 0 [] = Inr (sp, dp)"
    and out: "out = dp @ [0]"
    by (auto simp: rle_decompress_def bindE_eq_Inr_iff split: if_splits)
  from rle_decompress_loop_bound [OF l] assms(2) out show ?thesis by simp
qed

theorem rle_decompress_write_bound_witness:
  "rle_decompress [255, 7] 2 1 False = Inr (replicate 130 7 @ [0], 130) \<and>
   int (length (replicate 130 (7 :: byte) @ [0])) \<le> 1 + 130"
proof -
  have d: "rle_decompress [255, 7] 2 1 False = Inr (replicate 130 7 @ [0], 130)" by code_simp
  show ?thesis using rle_decompress_write_bound [OF d] d by simp
qed

end
