(* ===== verification/Pglz.thy ===== *)
theory Pglz
  imports Prelude
begin

text \<open>
  PostgreSQL's own compressor, \<^verbatim>\<open>src/common/pg_lzcompress.c\<close>, the default method next to
  which HOCO adds its run-length codec.

  Input and output pointers are positions: \<open>dp\<close> an index into the source, \<open>bp\<close> the bytes
  written so far. The history tables \<open>hist_start\<close> and \<open>hist_entries\<close> are static arrays that
  keep what an earlier call left in them; they are a parameter of \<open>pglz_compress\<close>. Pointers
  into \<open>hist_entries\<close> are indices, index 0 is \<open>INVALID_ENTRY\<close>, \<open>None\<close> is a null
  \<open>prev\<close> pointer. The walk along a hash chain has fuel; \<open>Pglz_Correct\<close> proves it suffices.
\<close>

section \<open>Strategies\<close>

record PGLZ_Strategy =
  pglz_min_input_size :: int
  pglz_max_input_size :: int
  pglz_min_comp_rate :: int
  first_success_by :: int
  match_size_good :: int
  match_size_drop :: int

definition PGLZ_strategy_default :: PGLZ_Strategy where
  "PGLZ_strategy_default = \<lparr>pglz_min_input_size = 32, pglz_max_input_size = INT_MAX,
     pglz_min_comp_rate = 25, first_success_by = 1024, match_size_good = 128, match_size_drop = 10\<rparr>"

definition PGLZ_strategy_always :: PGLZ_Strategy where
  "PGLZ_strategy_always = \<lparr>pglz_min_input_size = 0, pglz_max_input_size = INT_MAX,
     pglz_min_comp_rate = 0, first_success_by = INT_MAX, match_size_good = 128, match_size_drop = 6\<rparr>"

definition PGLZ_HISTORY_SIZE :: nat where "PGLZ_HISTORY_SIZE = 4096"
definition PGLZ_MAX_MATCH :: nat where "PGLZ_MAX_MATCH = 273"
definition PGLZ_MAX_OUTPUT :: "int \<Rightarrow> int" where "PGLZ_MAX_OUTPUT dlen = dlen + 4"

section \<open>The history\<close>

record PGLZ_HistEntry =
  he_next :: nat
  he_prev :: "nat option"
  he_hindex :: nat
  he_pos :: nat

record pglz_hist =
  hist_start :: "nat \<Rightarrow> nat"
  hist_entries :: "nat \<Rightarrow> PGLZ_HistEntry"
  hist_next :: nat
  hist_recycle :: bool

definition pglz_hist_idx :: "bytes \<Rightarrow> nat \<Rightarrow> nat \<Rightarrow> nat" where
  "pglz_hist_idx src s hmask = nat ((if length src - s < 4 then sint (src ! s)
     else push_bit 6 (sint (src ! s)) XOR push_bit 4 (sint (src ! (s + 1))) XOR
          push_bit 2 (sint (src ! (s + 2))) XOR sint (src ! (s + 3))) AND int hmask)"

text \<open>The \<open>recycle\<close> part: take the entry out of the chain it is in. Its \<open>next\<close> was set when
  it was added, so it is not null.\<close>

definition pglz_hist_unlink :: "(nat \<Rightarrow> nat) \<Rightarrow> (nat \<Rightarrow> PGLZ_HistEntry) \<Rightarrow> nat \<Rightarrow>
    (nat \<Rightarrow> nat) \<times> (nat \<Rightarrow> PGLZ_HistEntry)" where
  "pglz_hist_unlink hs he n =
     (let (hs, he) = (case he_prev (he n) of
            None \<Rightarrow> (hs(he_hindex (he n) := he_next (he n)), he)
          | Some p \<Rightarrow> (hs, he(p := (he p)\<lparr>he_next := he_next (he n)\<rparr>)));
          nx = he_next (he n)
      in (hs, he(nx := (he nx)\<lparr>he_prev := he_prev (he n)\<rparr>)))"

definition pglz_hist_add :: "pglz_hist \<Rightarrow> bytes \<Rightarrow> nat \<Rightarrow> nat \<Rightarrow> pglz_hist" where
  "pglz_hist_add h src s hmask =
     (let hindex = pglz_hist_idx src s hmask;
          n = hist_next h;
          (hs, he) = (if hist_recycle h
                      then pglz_hist_unlink (hist_start h) (hist_entries h) n
                      else (hist_start h, hist_entries h));
          he = he(n := \<lparr>he_next = hs hindex, he_prev = None, he_hindex = hindex, he_pos = s\<rparr>);
          he = he(hs hindex := (he (hs hindex))\<lparr>he_prev := Some n\<rparr>);
          hs = hs(hindex := n)
      in if n + 1 \<ge> PGLZ_HISTORY_SIZE + 1
         then \<lparr>hist_start = hs, hist_entries = he, hist_next = 1, hist_recycle = True\<rparr>
         else \<lparr>hist_start = hs, hist_entries = he, hist_next = n + 1,
               hist_recycle = hist_recycle h\<rparr>)"

section \<open>Finding a match\<close>

function pglz_match_len :: "bytes \<Rightarrow> nat \<Rightarrow> nat \<Rightarrow> nat \<Rightarrow> nat" where
  "pglz_match_len src ip hp thislen =
     (if ip < length src \<and> src ! ip = src ! hp \<and> thislen < PGLZ_MAX_MATCH
      then pglz_match_len src (ip + 1) (hp + 1) (thislen + 1) else thislen)"
  by pat_completeness auto
termination
  by (relation "measure (\<lambda>(src, ip, hp, l). length src - ip)") auto

declare pglz_match_len.simps [simp del]

text \<open>The loop \<open>while (hent != INVALID_ENTRY_PTR)\<close>; \<open>None\<close> means out of fuel.\<close>

fun pglz_find_loop :: "nat \<Rightarrow> bytes \<Rightarrow> (nat \<Rightarrow> PGLZ_HistEntry) \<Rightarrow> nat \<Rightarrow> nat \<Rightarrow> nat \<Rightarrow> nat \<Rightarrow>
    int \<Rightarrow> int \<Rightarrow> (nat \<times> nat) option" where
  "pglz_find_loop 0 src he input hent len off good_match good_drop = None"
| "pglz_find_loop (Suc fuel) src he input hent len off good_match good_drop =
     (if hent = 0 then Some (len, off)
      else let hp = he_pos (he hent); thisoff = int input - int hp in
        if thisoff \<ge> 0x0fff then Some (len, off)
        else let thislen = (if len \<ge> 16
                 then (if take len (drop input src) = take len (drop hp src)
                       then pglz_match_len src (input + len) (hp + len) len else 0)
                 else pglz_match_len src input hp 0);
                 (len, off) = (if thislen > len then (thislen, nat thisoff) else (len, off));
                 hent = he_next (he hent)
             in if hent \<noteq> 0 \<and> int len \<ge> good_match then Some (len, off)
                else pglz_find_loop fuel src he input hent len off
                  (if hent \<noteq> 0 then good_match - c_div (good_match * good_drop) 100 else good_match)
                  good_drop)"

text \<open>\<open>Some None\<close> is "no match" (return 0), \<open>Some (Some (len, off))\<close> a match.\<close>

definition pglz_find_match :: "pglz_hist \<Rightarrow> bytes \<Rightarrow> nat \<Rightarrow> int \<Rightarrow> int \<Rightarrow> nat \<Rightarrow>
    (nat \<times> nat) option option" where
  "pglz_find_match h src input good_match good_drop hmask =
     (case pglz_find_loop (PGLZ_HISTORY_SIZE + 1) src (hist_entries h) input
             (hist_start h (pglz_hist_idx src input hmask)) 0 0 good_match good_drop of
        None \<Rightarrow> None
      | Some (len, off) \<Rightarrow> Some (if len > 2 then Some (len, off) else None))"

section \<open>Output\<close>

text \<open>The output state: bytes written, where the current control byte goes (\<open>None\<close> is
  \<open>&ctrl_dummy\<close>), its value so far and the bit of the next item. A reserved control byte is
  0 until it is stored.\<close>

record pglz_out =
  out_bp :: bytes
  out_ctrlp :: "nat option"
  out_ctrlb :: byte
  out_ctrl :: byte

definition pglz_store_ctrl :: "pglz_out \<Rightarrow> bytes" where
  "pglz_store_ctrl ob = (case out_ctrlp ob of None \<Rightarrow> out_bp ob | Some i \<Rightarrow> (out_bp ob)[i := out_ctrlb ob])"

definition pglz_out_ctrl :: "pglz_out \<Rightarrow> pglz_out" where
  "pglz_out_ctrl ob = (if out_ctrl ob AND 0xff = 0
     then \<lparr>out_bp = pglz_store_ctrl ob @ [0], out_ctrlp = Some (length (out_bp ob)),
           out_ctrlb = 0, out_ctrl = 1\<rparr>
     else ob)"

definition pglz_out_literal :: "pglz_out \<Rightarrow> byte \<Rightarrow> pglz_out" where
  "pglz_out_literal ob b = (let ob = pglz_out_ctrl ob in
     ob\<lparr>out_bp := out_bp ob @ [b], out_ctrl := push_bit 1 (out_ctrl ob)\<rparr>)"

definition pglz_tag_bytes :: "nat \<Rightarrow> nat \<Rightarrow> bytes" where
  "pglz_tag_bytes len off =
     (if len > 17 then [word_of_nat (drop_bit 4 (off AND 0xf00) OR 0x0f), word_of_nat (off AND 0xff),
                        word_of_nat (len - 18)]
      else [word_of_nat (drop_bit 4 (off AND 0xf00) OR (len - 3)), word_of_nat (off AND 0xff)])"

definition pglz_out_tag :: "pglz_out \<Rightarrow> nat \<Rightarrow> nat \<Rightarrow> pglz_out" where
  "pglz_out_tag ob len off = (let ob = pglz_out_ctrl ob in
     ob\<lparr>out_bp := out_bp ob @ pglz_tag_bytes len off, out_ctrlb := out_ctrlb ob OR out_ctrl ob,
        out_ctrl := push_bit 1 (out_ctrl ob)\<rparr>)"

section \<open>pglz\_compress\<close>

text \<open>\<open>while (match_len--) { pglz_hist_add(...); dp++; }\<close>\<close>

fun pglz_hist_add_n :: "nat \<Rightarrow> pglz_hist \<Rightarrow> bytes \<Rightarrow> nat \<Rightarrow> nat \<Rightarrow> pglz_hist" where
  "pglz_hist_add_n 0 h src dp hmask = h"
| "pglz_hist_add_n (Suc n) h src dp hmask =
     pglz_hist_add_n n (pglz_hist_add h src dp hmask) src (dp + 1) hmask"

lemma pglz_find_match_len: "pglz_find_match h src i g d m = Some (Some (len, off)) \<Longrightarrow> 2 < len"
  by (auto simp: pglz_find_match_def split: option.splits if_splits)

text \<open>The main loop: \<open>None\<close> out of fuel, \<open>Some (Inl ob)\<close> an early \<open>return -1\<close>.\<close>

function pglz_loop :: "bytes \<Rightarrow> PGLZ_Strategy \<Rightarrow> int \<Rightarrow> int \<Rightarrow> int \<Rightarrow> nat \<Rightarrow>
    nat \<Rightarrow> pglz_hist \<Rightarrow> bool \<Rightarrow> pglz_out \<Rightarrow> (pglz_out + pglz_out) option" where
  "pglz_loop src strategy result_max good_match good_drop hmask dp h found_match ob =
     (if dp < length src then
        (if int (length (out_bp ob)) \<ge> result_max then Some (Inl ob)
         else if \<not> found_match \<and> int (length (out_bp ob)) \<ge> first_success_by strategy
         then Some (Inl ob)
         else case pglz_find_match h src dp good_match good_drop hmask of
             None \<Rightarrow> None
           | Some (Some (len, off)) \<Rightarrow>
               pglz_loop src strategy result_max good_match good_drop hmask (dp + len)
                 (pglz_hist_add_n len h src dp hmask) True (pglz_out_tag ob len off)
           | Some None \<Rightarrow>
               pglz_loop src strategy result_max good_match good_drop hmask (dp + 1)
                 (pglz_hist_add h src dp hmask) found_match (pglz_out_literal ob (src ! dp)))
      else Some (Inr ob))"
  by pat_completeness auto
termination
  by (relation "measure (\<lambda>(src, st, rm, g, d, m, dp, h, fm, ob). length src - dp)")
     (auto dest: pglz_find_match_len)

declare pglz_loop.simps [simp del]

definition pglz_result_max :: "PGLZ_Strategy \<Rightarrow> int \<Rightarrow> int" where
  "pglz_result_max strategy slen =
     (let need_rate = pglz_min_comp_rate strategy;
          need_rate = (if need_rate < 0 then 0 else if need_rate > 99 then 99 else need_rate)
      in if slen > c_div INT_MAX 100 then c_div slen 100 * (100 - need_rate)
         else c_div (slen * (100 - need_rate)) 100)"

definition pglz_hashsz :: "int \<Rightarrow> nat" where
  "pglz_hashsz slen = (if slen < 128 then 512 else if slen < 256 then 1024
     else if slen < 512 then 2048 else if slen < 1024 then 4096 else 8192)"

text \<open>\<open>pglz_compress\<close>: the bytes written and the return value, for any contents \<open>stale\<close> of
  the static tables.\<close>

definition pglz_compress :: "pglz_hist \<Rightarrow> bytes \<Rightarrow> PGLZ_Strategy option \<Rightarrow> (bytes \<times> int) option" where
  "pglz_compress stale source strategy_opt =
     (let slen = int (length source);
          strategy = (case strategy_opt of None \<Rightarrow> PGLZ_strategy_default | Some s \<Rightarrow> s)
      in if match_size_good strategy \<le> 0 \<or> slen < pglz_min_input_size strategy \<or>
            slen > pglz_max_input_size strategy then Some ([], -1)
         else
           let good_match = (if match_size_good strategy > int PGLZ_MAX_MATCH then int PGLZ_MAX_MATCH
                  else if match_size_good strategy < 17 then 17 else match_size_good strategy);
               good_drop = (if match_size_drop strategy < 0 then 0
                  else if match_size_drop strategy > 100 then 100 else match_size_drop strategy);
               result_max = pglz_result_max strategy slen;
               hashsz = pglz_hashsz slen;
               h = stale\<lparr>hist_start := (\<lambda>i. if i < hashsz then 0 else hist_start stale i),
                        hist_next := 1, hist_recycle := False\<rparr>;
               ob = \<lparr>out_bp = [], out_ctrlp = None, out_ctrlb = 0, out_ctrl = 0\<rparr>
           in case pglz_loop source strategy result_max good_match good_drop (hashsz - 1) 0 h False ob of
                None \<Rightarrow> None
              | Some (Inl ob) \<Rightarrow> Some (out_bp ob, -1)
              | Some (Inr ob) \<Rightarrow>
                  (let bp = pglz_store_ctrl ob; result_size = int (length bp)
                   in Some (bp, if result_size \<ge> result_max then -1 else result_size)))"

section \<open>pglz\_decompress\<close>

text \<open>Copying a match from output to output in non-overlapping pieces of doubling size. An
  offset that points before the output is a read outside \<open>dest\<close>. The caller has excluded
  \<open>off = 0\<close>.\<close>

function pglz_copy :: "bytes \<Rightarrow> nat \<Rightarrow> nat \<Rightarrow> bytes res" where
  "pglz_copy dp off len =
     (if off > length dp then Inl MemFault
      else if 0 < off \<and> off < len then
        pglz_copy (dp @ take off (drop (length dp - off) dp)) (off + off) (len - off)
      else Inr (dp @ take len (drop (length dp - off) dp)))"
  by pat_completeness auto
termination
  by (relation "measure (\<lambda>(dp, off, len). len)") auto

declare pglz_copy.simps [simp del]

text \<open>Reading a match tag: its length and offset and the \<open>sp\<close> behind it.\<close>

definition pglz_read_tag :: "bytes \<Rightarrow> nat \<Rightarrow> (nat \<times> nat \<times> nat) res" where
  "pglz_read_tag source sp =
     bindE (rd source sp) (\<lambda>b0. bindE (rd source (sp + 1)) (\<lambda>b1.
       let len = unat (b0 AND 0x0f) + 3;
           off = push_bit 4 (unat (b0 AND 0xf0)) OR unat b1
       in if len = 18 then bindE (rd source (sp + 2)) (\<lambda>b2. Inr (len + unat b2, off, sp + 3))
          else Inr (len, off, sp + 2)))"

text \<open>The \<open>for\<close> loop over the items of one control byte; \<open>Inr None\<close> is \<open>return -1\<close>.\<close>

function pglz_items :: "bytes \<Rightarrow> int \<Rightarrow> int \<Rightarrow> byte \<Rightarrow> nat \<Rightarrow> nat \<Rightarrow> bytes \<Rightarrow>
    (nat \<times> bytes) option res" where
  "pglz_items source slen rawsize ctrl ctrlc sp dp =
     (if ctrlc < 8 \<and> int sp < slen \<and> int (length dp) < rawsize then
        (if ctrl AND 1 = 1 then
           bindE (pglz_read_tag source sp) (\<lambda>(len, off, sp').
             if int sp' > slen \<or> off = 0 then Inr None
             else bindE (pglz_copy dp off (min len (nat (rawsize - int (length dp))))) (\<lambda>dp'.
               pglz_items source slen rawsize (drop_bit 1 ctrl) (ctrlc + 1) sp' dp'))
         else bindE (rd source sp) (\<lambda>b.
           pglz_items source slen rawsize (drop_bit 1 ctrl) (ctrlc + 1) (sp + 1) (dp @ [b])))
      else Inr (Some (sp, dp)))"
  by pat_completeness auto
termination
  by (relation "measure (\<lambda>(source, slen, rawsize, ctrl, ctrlc, sp, dp). 8 - ctrlc)") auto

declare pglz_items.simps [simp del]

lemma pglz_read_tag_sp: "pglz_read_tag source sp = Inr (len, off, sp') \<Longrightarrow> sp + 2 \<le> sp'"
  by (auto simp: pglz_read_tag_def bindE_eq_Inr_iff Let_def split: if_splits)

lemma pglz_items_sp:
  "pglz_items source slen rawsize ctrl ctrlc sp dp = Inr (Some (sp', dp')) \<Longrightarrow> sp \<le> sp'"
proof (induction "8 - ctrlc" arbitrary: ctrl ctrlc sp dp)
  case 0
  then show ?case by (simp add: pglz_items.simps)
next
  case (Suc n)
  from Suc(2) have n: "n = 8 - (ctrlc + 1)" by simp
  show ?case
  proof (cases "int sp < slen \<and> int (length dp) < rawsize")
    case False
    with Suc.prems show ?thesis by (subst (asm) pglz_items.simps) auto
  next
    case run: True
    with Suc(2) Suc.prems consider
        (tag) len off q d where "pglz_read_tag source sp = Inr (len, off, q)"
          "pglz_items source slen rawsize (drop_bit 1 ctrl) (ctrlc + 1) q d = Inr (Some (sp', dp'))"
      | (lit) d where
          "pglz_items source slen rawsize (drop_bit 1 ctrl) (ctrlc + 1) (sp + 1) d = Inr (Some (sp', dp'))"
      by (subst (asm) pglz_items.simps) (auto simp: bindE_eq_Inr_iff split: if_splits)
    then show ?thesis
    proof cases
      case tag
      with Suc(1) [OF n tag(2)] pglz_read_tag_sp [OF tag(1)] show ?thesis by simp
    next
      case lit
      with Suc(1) [OF n lit] show ?thesis by simp
    qed
  qed
qed

function pglz_decompress_loop :: "bytes \<Rightarrow> int \<Rightarrow> int \<Rightarrow> nat \<Rightarrow> bytes \<Rightarrow>
    (nat \<times> bytes) option res" where
  "pglz_decompress_loop source slen rawsize sp dp =
     (if int sp < slen \<and> int (length dp) < rawsize then
        bindE (rd source sp) (\<lambda>ctrl.
        bindE (pglz_items source slen rawsize ctrl 0 (sp + 1) dp) (\<lambda>r.
          case r of None \<Rightarrow> Inr None
          | Some (sp', dp') \<Rightarrow> pglz_decompress_loop source slen rawsize sp' dp'))
      else Inr (Some (sp, dp)))"
  by pat_completeness auto
termination
  by (relation "measure (\<lambda>(source, slen, rawsize, sp, dp). nat (slen - int sp))")
     (auto dest: pglz_items_sp)

declare pglz_decompress_loop.simps [simp del]

definition pglz_decompress :: "bytes \<Rightarrow> int \<Rightarrow> int \<Rightarrow> bool \<Rightarrow> (bytes \<times> int) res" where
  "pglz_decompress source slen rawsize check_complete =
     bindE (pglz_decompress_loop source slen rawsize 0 []) (\<lambda>r.
       case r of None \<Rightarrow> Inr ([], -1)
       | Some (sp, dp) \<Rightarrow>
           if check_complete \<and> (int (length dp) \<noteq> rawsize \<or> int sp \<noteq> slen) then Inr (dp, -1)
           else Inr (dp, int (length dp)))"

definition pglz_maximum_compressed_size :: "int \<Rightarrow> int \<Rightarrow> int" where
  "pglz_maximum_compressed_size rawsize total_compressed_size =
     (let compressed_size = c_div (rawsize * 9 + 7) 8;
          compressed_size = compressed_size + 2
      in min compressed_size total_compressed_size)"

end
