(* ===== verification/Pglz_Hist.thy ===== *)
theory Pglz_Hist
  imports Pglz
begin

text \<open>
  The history of \<open>pglz_compress\<close>: its hash chains are acyclic doubly linked lists of earlier
  input positions, so a lookup always ends within its fuel and every match it reports is one,
  whatever the static tables held before the call.
\<close>

section \<open>Chains\<close>

text \<open>\<open>chains V hs nx pv hx ps hsz dp\<close>: \<open>V\<close> are the entries in use, \<open>hs\<close> the chain heads,
  and \<open>nx\<close>, \<open>pv\<close>, \<open>hx\<close>, \<open>ps\<close> the four fields of the entries. Heads and links stay in \<open>V\<close>,
  \<open>next\<close> and \<open>prev\<close> are inverse, and positions fall along a chain.\<close>

definition chains :: "nat set \<Rightarrow> (nat \<Rightarrow> nat) \<Rightarrow> (nat \<Rightarrow> nat) \<Rightarrow> (nat \<Rightarrow> nat option) \<Rightarrow>
    (nat \<Rightarrow> nat) \<Rightarrow> (nat \<Rightarrow> nat) \<Rightarrow> nat \<Rightarrow> nat \<Rightarrow> bool" where
  "chains V hs nx pv hx ps hsz dp \<longleftrightarrow> 0 \<notin> V \<and>
     (\<forall>k. k < hsz \<longrightarrow> hs k \<noteq> 0 \<longrightarrow> hs k \<in> V \<and> pv (hs k) = None \<and> hx (hs k) = k) \<and>
     (\<forall>i. i \<in> V \<longrightarrow> nx i \<noteq> 0 \<longrightarrow>
        nx i \<in> V \<and> pv (nx i) = Some i \<and> ps (nx i) < ps i \<and> hx (nx i) = hx i) \<and>
     (\<forall>i. i \<in> V \<longrightarrow> pv i = None \<longrightarrow> hs (hx i) = i) \<and>
     (\<forall>i p. i \<in> V \<longrightarrow> pv i = Some p \<longrightarrow> p \<in> V \<and> nx p = i) \<and>
     (\<forall>i. i \<in> V \<longrightarrow> ps i < dp \<and> hx i < hsz)"

lemma chainsD:
  assumes "chains V hs nx pv hx ps hsz dp"
  shows "0 \<notin> V"
    and "k < hsz \<Longrightarrow> hs k \<noteq> 0 \<Longrightarrow> hs k \<in> V \<and> pv (hs k) = None \<and> hx (hs k) = k"
    and "i \<in> V \<Longrightarrow> nx i \<noteq> 0 \<Longrightarrow>
      nx i \<in> V \<and> pv (nx i) = Some i \<and> ps (nx i) < ps i \<and> hx (nx i) = hx i"
    and "i \<in> V \<Longrightarrow> pv i = None \<Longrightarrow> hs (hx i) = i"
    and "i \<in> V \<Longrightarrow> pv i = Some p \<Longrightarrow> p \<in> V \<and> nx p = i"
    and "i \<in> V \<Longrightarrow> ps i < dp \<and> hx i < hsz"
  using assms unfolding chains_def by simp_all

lemma chainsI:
  assumes "0 \<notin> V"
    and "\<And>k. k < hsz \<Longrightarrow> hs k \<noteq> 0 \<Longrightarrow> hs k \<in> V \<and> pv (hs k) = None \<and> hx (hs k) = k"
    and "\<And>i. i \<in> V \<Longrightarrow> nx i \<noteq> 0 \<Longrightarrow>
      nx i \<in> V \<and> pv (nx i) = Some i \<and> ps (nx i) < ps i \<and> hx (nx i) = hx i"
    and "\<And>i. i \<in> V \<Longrightarrow> pv i = None \<Longrightarrow> hs (hx i) = i"
    and "\<And>i p. i \<in> V \<Longrightarrow> pv i = Some p \<Longrightarrow> p \<in> V \<and> nx p = i"
    and "\<And>i. i \<in> V \<Longrightarrow> ps i < dp \<and> hx i < hsz"
  shows "chains V hs nx pv hx ps hsz dp"
  using assms unfolding chains_def by simp

lemma chains_unlink_head:
  assumes c: "chains V hs nx pv hx ps hsz dp" and n: "n \<in> V" and pn: "pv n = None"
  shows "chains (V - {n}) (hs(hx n := nx n)) nx (pv(nx n := None)) hx ps hsz dp"
proof -
  note D = chainsD [OF c]
  have ne: "nx n \<noteq> n" using D(1) D(3) [of n] n by (metis less_irrefl)
  have hn: "hs (hx n) = n" using D(4) [OF n pn] .
  have bk: "i = n" if "i \<in> V" "nx i = nx n" "nx n \<noteq> 0" for i
    using D(3) [OF that(1)] D(3) [OF n] that by (metis option.inject)
  show ?thesis
  proof (rule chainsI)
    show "0 \<notin> V - {n}" using D(1) by simp
  next
    fix k assume k: "k < hsz" "(hs(hx n := nx n)) k \<noteq> 0"
    show "(hs(hx n := nx n)) k \<in> V - {n} \<and> (pv(nx n := None)) ((hs(hx n := nx n)) k) = None \<and>
      hx ((hs(hx n := nx n)) k) = k"
    proof (cases "k = hx n")
      case True
      with k D(3) [OF n] ne show ?thesis by simp
    next
      case False
      with k D(2) [of k] show ?thesis by auto
    qed
  next
    fix i assume i: "i \<in> V - {n}" "nx i \<noteq> 0"
    then have "nx i \<noteq> nx n" using bk [of i] by auto
    moreover have "nx i \<noteq> n" using D(3) [of i] i pn by auto
    ultimately show "nx i \<in> V - {n} \<and> (pv(nx n := None)) (nx i) = Some i \<and> ps (nx i) < ps i \<and>
      hx (nx i) = hx i"
      using D(3) [of i] i by simp
  next
    fix i assume i: "i \<in> V - {n}" "(pv(nx n := None)) i = None"
    show "(hs(hx n := nx n)) (hx i) = i"
    proof (cases "i = nx n")
      case True
      with D(1) D(3) [OF n] i show ?thesis by (cases "nx n = 0") auto
    next
      case False
      with i D(4) [of i] hn show ?thesis by auto
    qed
  next
    fix i p assume i: "i \<in> V - {n}" "(pv(nx n := None)) i = Some p"
    then have "i \<noteq> nx n" "pv i = Some p" by (auto split: if_splits)
    with D(5) [of i p] i show "p \<in> V - {n} \<and> nx p = i" by auto
  next
    fix i assume "i \<in> V - {n}"
    with D(6) [of i] show "ps i < dp \<and> hx i < hsz" by simp
  qed
qed

lemma chains_unlink_mid:
  assumes c: "chains V hs nx pv hx ps hsz dp" and n: "n \<in> V" and pn: "pv n = Some p"
  shows "chains (V - {n}) hs (nx(p := nx n)) (pv(nx n := Some p)) hx ps hsz dp"
proof -
  note D = chainsD [OF c]
  have p: "p \<in> V" "nx p = n" using D(5) [OF n pn] by simp_all
  have n0: "n \<noteq> 0" using D(1) n by metis
  have ps: "ps n < ps p" "hx n = hx p" using D(3) [OF p(1)] p n0 by simp_all
  have ne: "nx n \<noteq> n" "nx n = 0 \<or> nx n \<noteq> p" "p \<noteq> n"
    using D(3) [OF n] ps n0 by (metis less_irrefl, metis less_asym, auto)
  have bk: "i = n" if "i \<in> V" "nx i = nx n" "nx n \<noteq> 0" for i
    using D(3) [OF that(1)] D(3) [OF n] that by (metis option.inject)
  show ?thesis
  proof (rule chainsI)
    show "0 \<notin> V - {n}" using D(1) by simp
  next
    fix k assume k: "k < hsz" "hs k \<noteq> 0"
    then have "hs k \<noteq> nx n" using D(2) [of k] D(3) [OF n] by auto
    with D(2) [of k] k pn show "hs k \<in> V - {n} \<and> (pv(nx n := Some p)) (hs k) = None \<and> hx (hs k) = k"
      by auto
  next
    fix i assume i: "i \<in> V - {n}" "(nx(p := nx n)) i \<noteq> 0"
    show "(nx(p := nx n)) i \<in> V - {n} \<and> (pv(nx n := Some p)) ((nx(p := nx n)) i) = Some i \<and>
      ps ((nx(p := nx n)) i) < ps i \<and> hx ((nx(p := nx n)) i) = hx i"
    proof (cases "i = p")
      case True
      with i D(3) [OF n] ne ps show ?thesis by auto
    next
      case False
      with i bk [of i] D(3) [of i] pn show ?thesis by auto
    qed
  next
    fix i assume i: "i \<in> V - {n}" "(pv(nx n := Some p)) i = None"
    then show "hs (hx i) = i" using D(4) [of i] by (auto split: if_splits)
  next
    fix i q assume i: "i \<in> V - {n}" "(pv(nx n := Some p)) i = Some q"
    show "q \<in> V - {n} \<and> (nx(p := nx n)) q = i"
    proof (cases "i = nx n")
      case True
      with i p ne show ?thesis by auto
    next
      case False
      with i D(5) [of i q] p ne show ?thesis by auto
    qed
  next
    fix i assume "i \<in> V - {n}"
    with D(6) [of i] show "ps i < dp \<and> hx i < hsz" by simp
  qed
qed

lemma chains_link:
  assumes c: "chains V hs nx pv hx ps hsz s" and n: "n \<notin> V" "n \<noteq> 0" and k: "k < hsz"
  shows "chains (insert n V) (hs(k := n)) (nx(n := hs k)) (pv(n := None, hs k := Some n))
    (hx(n := k)) (ps(n := s)) hsz (s + 1)"
proof -
  note D = chainsD [OF c]
  have hn: "hs j \<noteq> n" if "j < hsz" for j using D(2) [OF that] n by metis
  have inj: "j = k" if "j < hsz" "hs j = hs k" "hs k \<noteq> 0" for j
    using D(2) [OF that(1)] D(2) [OF k] that by metis
  have nxh: "nx i = 0 \<or> nx i \<noteq> hs k" if "i \<in> V" for i
    using D(3) [OF that] D(2) [OF k] by auto
  show ?thesis
  proof (rule chainsI)
    show "0 \<notin> insert n V" using D(1) n by simp
  next
    fix j assume j: "j < hsz" "(hs(k := n)) j \<noteq> 0"
    show "(hs(k := n)) j \<in> insert n V \<and> (pv(n := None, hs k := Some n)) ((hs(k := n)) j) = None \<and>
      (hx(n := k)) ((hs(k := n)) j) = j"
    proof (cases "j = k")
      case True
      then show ?thesis using hn [OF k] by simp
    next
      case False
      with j D(2) [of j] hn [of j] inj [of j] show ?thesis by auto
    qed
  next
    fix i assume i: "i \<in> insert n V" "(nx(n := hs k)) i \<noteq> 0"
    show "(nx(n := hs k)) i \<in> insert n V \<and>
      (pv(n := None, hs k := Some n)) ((nx(n := hs k)) i) = Some i \<and>
      (ps(n := s)) ((nx(n := hs k)) i) < (ps(n := s)) i \<and>
      (hx(n := k)) ((nx(n := hs k)) i) = (hx(n := k)) i"
    proof (cases "i = n")
      case True
      with i D(2) [OF k] D(6) [of "hs k"] hn [OF k] show ?thesis by simp
    next
      case False
      with i have iV: "i \<in> V" "nx i \<noteq> 0" by simp_all
      moreover have "nx i \<noteq> n" using D(3) [OF iV] n by auto
      ultimately show ?thesis using False D(3) [OF iV] nxh [of i] by simp
    qed
  next
    fix i assume i: "i \<in> insert n V" "(pv(n := None, hs k := Some n)) i = None"
    show "(hs(k := n)) ((hx(n := k)) i) = i"
    proof (cases "i = n")
      case True
      then show ?thesis by simp
    next
      case False
      with i D(4) [of i] show ?thesis by (auto split: if_splits)
    qed
  next
    fix i p assume i: "i \<in> insert n V" "(pv(n := None, hs k := Some n)) i = Some p"
    show "p \<in> insert n V \<and> (nx(n := hs k)) p = i"
    proof (cases "i = hs k")
      case True
      with i show ?thesis by simp
    next
      case False
      with i D(5) [of i p] n show ?thesis by (auto split: if_splits)
    qed
  next
    fix i assume "i \<in> insert n V"
    with D(6) [of i] k show "(ps(n := s)) i < s + 1 \<and> (hx(n := k)) i < hsz" by auto
  qed
qed

lemma chains_later: "chains V hs nx pv hx ps hsz dp \<Longrightarrow> dp \<le> dp' \<Longrightarrow> chains V hs nx pv hx ps hsz dp'"
  unfolding chains_def by (meson order_less_le_trans)

section \<open>The history invariant\<close>

definition hist_used :: "pglz_hist \<Rightarrow> nat set" where
  "hist_used h = {i. 0 < i \<and> i \<le> PGLZ_HISTORY_SIZE \<and> (hist_recycle h \<or> i < hist_next h)}"

abbreviation he_chains :: "nat set \<Rightarrow> (nat \<Rightarrow> nat) \<Rightarrow> (nat \<Rightarrow> PGLZ_HistEntry) \<Rightarrow> nat \<Rightarrow> nat \<Rightarrow> bool" where
  "he_chains V hs he hsz dp \<equiv> chains V hs (\<lambda>i. he_next (he i)) (\<lambda>i. he_prev (he i))
     (\<lambda>i. he_hindex (he i)) (\<lambda>i. he_pos (he i)) hsz dp"

definition hist_ok :: "pglz_hist \<Rightarrow> nat \<Rightarrow> nat \<Rightarrow> bool" where
  "hist_ok h hsz dp \<longleftrightarrow> 0 < hist_next h \<and> hist_next h \<le> PGLZ_HISTORY_SIZE \<and>
     he_chains (hist_used h) (hist_start h) (hist_entries h) hsz dp"

lemma pglz_hist_idx_less: "0 < hsz \<Longrightarrow> pglz_hist_idx src s (hsz - 1) < hsz"
proof -
  assume "0 < hsz"
  moreover have "x AND int (hsz - 1) \<le> int (hsz - 1)" for x :: int
    by (rule AND_upper2) simp
  ultimately show ?thesis
    unfolding pglz_hist_idx_def by (smt (verit) nat_le_iff Suc_pred' le_imp_less_Suc)
qed

lemma hist_ok_start:
  "hist_ok (stale\<lparr>hist_start := (\<lambda>i. if i < hsz then 0 else hist_start stale i),
     hist_next := 1, hist_recycle := False\<rparr>) hsz 0"
  by (auto simp: hist_ok_def hist_used_def chains_def PGLZ_HISTORY_SIZE_def)

lemma pglz_hist_unlink_ok:
  assumes c: "he_chains V hs he hsz dp" and n: "n \<in> V"
    and u: "pglz_hist_unlink hs he n = (hs', he')"
  shows "he_chains (V - {n}) hs' he' hsz dp"
proof (cases "he_prev (he n)")
  case None
  define nx where "nx = he_next (he n)"
  have he': "hs' = hs(he_hindex (he n) := nx)" "he' = he(nx := (he nx)\<lparr>he_prev := None\<rparr>)"
    using u None by (simp_all add: pglz_hist_unlink_def nx_def Let_def)
  have eqs: "(\<lambda>i. he_next (he' i)) = (\<lambda>i. he_next (he i))"
    "(\<lambda>i. he_prev (he' i)) = (\<lambda>i. he_prev (he i))(nx := None)"
    "(\<lambda>i. he_hindex (he' i)) = (\<lambda>i. he_hindex (he i))"
    "(\<lambda>i. he_pos (he' i)) = (\<lambda>i. he_pos (he i))"
    by (auto simp: he'(2))
  show ?thesis using chains_unlink_head [OF c n None] unfolding eqs he'(1) nx_def .
next
  case (Some p)
  define nx where "nx = he_next (he n)"
  note D = chainsD [OF c]
  have pn: "p \<noteq> n"
  proof
    assume "p = n"
    with D(5) [OF n Some] have "he_next (he n) = n" by simp
    moreover from this D(1) n have "he_next (he n) \<noteq> 0" by metis
    ultimately show False using D(3) [OF n] by simp
  qed
  define he1 where "he1 = he(p := (he p)\<lparr>he_next := nx\<rparr>)"
  have he': "hs' = hs" "he' = he1(nx := (he1 nx)\<lparr>he_prev := Some p\<rparr>)"
    using u Some pn by (auto simp: pglz_hist_unlink_def nx_def he1_def Let_def)
  have eqs: "(\<lambda>i. he_next (he' i)) = (\<lambda>i. he_next (he i))(p := nx)"
    "(\<lambda>i. he_prev (he' i)) = (\<lambda>i. he_prev (he i))(nx := Some p)"
    "(\<lambda>i. he_hindex (he' i)) = (\<lambda>i. he_hindex (he i))"
    "(\<lambda>i. he_pos (he' i)) = (\<lambda>i. he_pos (he i))"
    by (auto simp: he'(2) he1_def)
  show ?thesis using chains_unlink_mid [OF c n Some] unfolding eqs he'(1) nx_def .
qed

lemma he_chains_link:
  assumes c: "he_chains V hs he hsz s" and n: "n \<notin> V" "n \<noteq> 0" and k: "k < hsz"
    and he1: "he1 = he(n := \<lparr>he_next = hs k, he_prev = None, he_hindex = k, he_pos = s\<rparr>)"
    and he2: "he2 = he1(hs k := (he1 (hs k))\<lparr>he_prev := Some n\<rparr>)"
  shows "he_chains (insert n V) (hs(k := n)) he2 hsz (s + 1)"
proof -
  have eqs: "(\<lambda>i. he_next (he2 i)) = (\<lambda>i. he_next (he i))(n := hs k)"
    "(\<lambda>i. he_prev (he2 i)) = (\<lambda>i. he_prev (he i))(n := None, hs k := Some n)"
    "(\<lambda>i. he_hindex (he2 i)) = (\<lambda>i. he_hindex (he i))(n := k)"
    "(\<lambda>i. he_pos (he2 i)) = (\<lambda>i. he_pos (he i))(n := s)"
    by (auto simp: he1 he2)
  show ?thesis using chains_link [OF c n k] unfolding eqs .
qed

lemma pglz_hist_add_ok:
  assumes ok: "hist_ok h hsz s" and hsz: "0 < hsz"
  shows "hist_ok (pglz_hist_add h src s (hsz - 1)) hsz (s + 1)"
proof -
  define n where "n = hist_next h"
  define k where "k = pglz_hist_idx src s (hsz - 1)"
  have k: "k < hsz" unfolding k_def by (rule pglz_hist_idx_less [OF hsz])
  have n: "0 < n" "n \<le> PGLZ_HISTORY_SIZE"
    and c: "he_chains (hist_used h) (hist_start h) (hist_entries h) hsz s"
    using ok by (simp_all add: hist_ok_def n_def)
  obtain hs he where u: "(if hist_recycle h then pglz_hist_unlink (hist_start h) (hist_entries h) n
      else (hist_start h, hist_entries h)) = (hs, he)" by (metis surj_pair)
  have c1: "he_chains (hist_used h - {n}) hs he hsz s"
  proof (cases "hist_recycle h")
    case True
    then show ?thesis using pglz_hist_unlink_ok [OF c, of n hs he] n u by (simp add: hist_used_def)
  next
    case False
    then have "hist_used h - {n} = hist_used h" by (auto simp: hist_used_def n_def)
    with False u c show ?thesis by simp
  qed
  define he1 where "he1 = he(n := \<lparr>he_next = hs k, he_prev = None, he_hindex = k, he_pos = s\<rparr>)"
  define he2 where "he2 = he1(hs k := (he1 (hs k))\<lparr>he_prev := Some n\<rparr>)"
  define h' where "h' = pglz_hist_add h src s (hsz - 1)"
  have c2: "he_chains (insert n (hist_used h - {n})) (hs(k := n)) he2 hsz (s + 1)"
    by (rule he_chains_link [OF c1 _ _ k he1_def he2_def]) (use n in auto)
  have h': "h' = (if n + 1 \<ge> PGLZ_HISTORY_SIZE + 1
         then \<lparr>hist_start = hs(k := n), hist_entries = he2, hist_next = 1, hist_recycle = True\<rparr>
         else \<lparr>hist_start = hs(k := n), hist_entries = he2, hist_next = n + 1,
               hist_recycle = hist_recycle h\<rparr>)"
    unfolding h'_def pglz_hist_add_def Let_def n_def [symmetric] k_def [symmetric] u
    by (simp add: he1_def he2_def)
  then have "hist_used h' = insert n (hist_used h - {n})"
    using n by (auto simp: hist_used_def n_def)
  moreover have "hist_start h' = hs(k := n)" "hist_entries h' = he2"
    "0 < hist_next h' \<and> hist_next h' \<le> PGLZ_HISTORY_SIZE"
    using n by (simp_all add: h' PGLZ_HISTORY_SIZE_def)
  ultimately show ?thesis using c2 by (simp add: hist_ok_def h'_def)
qed

lemma pglz_hist_add_n_ok:
  "hist_ok h hsz s \<Longrightarrow> 0 < hsz \<Longrightarrow> hist_ok (pglz_hist_add_n n h src s (hsz - 1)) hsz (s + n)"
proof (induction n arbitrary: h s)
  case (Suc n)
  from Suc.IH [OF pglz_hist_add_ok [OF Suc.prems] Suc.prems(2)] show ?case by simp
qed simp

section \<open>Matches\<close>

definition valid_match :: "bytes \<Rightarrow> nat \<Rightarrow> nat \<Rightarrow> nat \<Rightarrow> bool" where
  "valid_match src input len off \<longleftrightarrow> 0 < off \<and> off \<le> input \<and> off < 0xfff \<and> len \<le> PGLZ_MAX_MATCH \<and>
     input + len \<le> length src \<and> (\<forall>k<len. src ! (input + k) = src ! (input - off + k))"

lemma pglz_match_len_range:
  "ip \<le> length src \<Longrightarrow> l \<le> PGLZ_MAX_MATCH \<Longrightarrow>
     l \<le> pglz_match_len src ip hp l \<and> pglz_match_len src ip hp l \<le> PGLZ_MAX_MATCH \<and>
     ip + pglz_match_len src ip hp l \<le> length src + l"
proof (induction src ip hp l rule: pglz_match_len.induct)
  case (1 src ip hp l)
  show ?case
  proof (cases "ip < length src \<and> src ! ip = src ! hp \<and> l < PGLZ_MAX_MATCH")
    case True
    then have "pglz_match_len src ip hp l = pglz_match_len src (ip + 1) (hp + 1) (l + 1)"
      by (subst pglz_match_len.simps) simp
    with "1.IH" [OF True] True show ?thesis by simp
  next
    case False
    then have "pglz_match_len src ip hp l = l" by (subst pglz_match_len.simps) auto
    with "1.prems" show ?thesis by simp
  qed
qed

lemma pglz_match_len_eq:
  "ip \<le> length src \<Longrightarrow> l + k < pglz_match_len src ip hp l \<Longrightarrow> src ! (ip + k) = src ! (hp + k)"
proof (induction src ip hp l arbitrary: k rule: pglz_match_len.induct)
  case (1 src ip hp l)
  show ?case
  proof (cases "ip < length src \<and> src ! ip = src ! hp \<and> l < PGLZ_MAX_MATCH")
    case True
    then have eq: "pglz_match_len src ip hp l = pglz_match_len src (ip + 1) (hp + 1) (l + 1)"
      by (subst pglz_match_len.simps) simp
    show ?thesis
    proof (cases k)
      case 0
      with True show ?thesis by simp
    next
      case (Suc j)
      with "1.IH" [OF True, of j] "1.prems" True eq show ?thesis by simp
    qed
  next
    case False
    then have "pglz_match_len src ip hp l = l" by (subst pglz_match_len.simps) auto
    with "1.prems" show ?thesis by simp
  qed
qed

text \<open>The length computed for one history entry, with the \<open>memcmp\<close> shortcut, is a match.\<close>

lemma thislen_valid:
  assumes t: "thislen = (if len \<ge> 16
        then (if take len (drop input src) = take len (drop hp src)
              then pglz_match_len src (input + len) (hp + len) len else 0)
        else pglz_match_len src input hp 0)"
    and i: "input + len \<le> length src" "len \<le> PGLZ_MAX_MATCH"
    and hp: "hp < input" "input - hp < 0xfff" and gt: "thislen > len"
  shows "valid_match src input thislen (input - hp)"
proof (cases "len \<ge> 16")
  case False
  with t have t': "thislen = pglz_match_len src input hp 0" by simp
  show ?thesis
    using pglz_match_len_range [of input src 0 hp] pglz_match_len_eq [of input src 0 _ hp] i hp
    by (auto simp: valid_match_def t')
next
  case True
  with t gt have eq: "take len (drop input src) = take len (drop hp src)"
    and t': "thislen = pglz_match_len src (input + len) (hp + len) len" by (auto split: if_splits)
  have pre: "src ! (input + k) = src ! (hp + k)" if "k < len" for k
    using arg_cong [OF eq, of "\<lambda>xs. xs ! k"] that i hp by simp
  have post: "src ! (input + k) = src ! (hp + k)" if "\<not> k < len" "k < thislen" for k
    using pglz_match_len_eq [of "input + len" src len "k - len" "hp + len"] that i
    by (simp add: t' add.assoc)
  show ?thesis
    using pglz_match_len_range [of "input + len" src len "hp + len"] pre post i hp
    by (auto simp: valid_match_def t')
qed

lemma pglz_find_loop_ok:
  assumes c: "he_chains V hs he hsz input"
  shows "hent = 0 \<or> hent \<in> V \<Longrightarrow>
    0 < fuel \<Longrightarrow> hent = 0 \<or> 4096 \<le> fuel + (input - he_pos (he hent)) \<Longrightarrow>
    input \<le> length src \<Longrightarrow> len = 0 \<or> valid_match src input len off \<Longrightarrow>
    \<exists>len' off'. pglz_find_loop fuel src he input hent len off gm gd = Some (len', off') \<and>
      (len' = 0 \<or> valid_match src input len' off')"
proof (induction fuel arbitrary: hent len off gm)
  case (Suc fuel)
  note D = chainsD [OF c]
  show ?case
  proof (cases "hent = 0 \<or> int input - int (he_pos (he hent)) \<ge> 0x0fff")
    case True
    with Suc.prems show ?thesis by (auto simp: Let_def)
  next
    case False
    then have V: "hent \<in> V" using Suc.prems by blast
    define hp where "hp = he_pos (he hent)"
    have hp: "hp < input" "input - hp < 0xfff" using D(6) [OF V] False by (auto simp: hp_def)
    define thislen where "thislen = (if len \<ge> 16
        then (if take len (drop input src) = take len (drop hp src)
              then pglz_match_len src (input + len) (hp + len) len else 0)
        else pglz_match_len src input hp 0)"
    define len' where "len' = (if thislen > len then thislen else len)"
    define off' where "off' = (if thislen > len then input - hp else off)"
    define nx where "nx = he_next (he hent)"
    have len: "input + len \<le> length src" "len \<le> PGLZ_MAX_MATCH"
      using Suc.prems(4,5) by (auto simp: valid_match_def)
    have ok': "len' = 0 \<or> valid_match src input len' off'"
      using thislen_valid [OF thislen_def len hp] Suc.prems(5) by (auto simp: len'_def off'_def)
    have step: "pglz_find_loop (Suc fuel) src he input hent len off gm gd =
      (if nx \<noteq> 0 \<and> int len' \<ge> gm then Some (len', off')
       else pglz_find_loop fuel src he input nx len' off'
         (if nx \<noteq> 0 then gm - c_div (gm * gd) 100 else gm) gd)"
    proof -
      have "nat (int input - int hp) = input - hp" using hp by simp
      then show ?thesis
        using False unfolding pglz_find_loop.simps hp_def [symmetric] nx_def [symmetric] Let_def
          thislen_def [symmetric] len'_def off'_def by simp
    qed
    have fuel: "0 < fuel" using Suc.prems(3) hp V D(1) by (auto simp: hp_def)
    have nx: "nx = 0 \<or> nx \<in> V" using D(3) [OF V] by (auto simp: nx_def)
    have pos: "nx = 0 \<or> 4096 \<le> fuel + (input - he_pos (he nx))"
    proof (cases "nx = 0")
      case False
      then have "he_pos (he nx) < hp" using D(3) [OF V] by (simp add: nx_def hp_def)
      moreover have "4096 \<le> Suc fuel + (input - hp)" using Suc.prems(3) V D(1) by (auto simp: hp_def)
      ultimately have "4096 \<le> fuel + (input - he_pos (he nx))" using hp by linarith
      then show ?thesis ..
    qed simp
    from Suc.IH [OF nx fuel pos Suc.prems(4) ok'] ok' show ?thesis unfolding step by auto
  qed
qed simp

lemma pglz_find_match_ok:
  assumes ok: "hist_ok h hsz input" and hsz: "0 < hsz" and i: "input \<le> length src"
  shows "\<exists>r. pglz_find_match h src input gm gd (hsz - 1) = Some r \<and>
    (\<forall>len off. r = Some (len, off) \<longrightarrow> 2 < len \<and> valid_match src input len off)"
proof -
  define k where "k = pglz_hist_idx src input (hsz - 1)"
  have c: "he_chains (hist_used h) (hist_start h) (hist_entries h) hsz input"
    using ok by (simp add: hist_ok_def)
  have "hist_start h k = 0 \<or> hist_start h k \<in> hist_used h \<and>
      he_pos (hist_entries h (hist_start h k)) < input"
    using chainsD(2,6) [OF c] pglz_hist_idx_less [OF hsz, of src input] k_def by blast
  with pglz_find_loop_ok [OF c, of "hist_start h k" "PGLZ_HISTORY_SIZE + 1" src 0 0 gm gd] i
  obtain len off where "pglz_find_loop (PGLZ_HISTORY_SIZE + 1) src (hist_entries h) input
      (hist_start h k) 0 0 gm gd = Some (len, off)" "len = 0 \<or> valid_match src input len off"
    by (auto simp: PGLZ_HISTORY_SIZE_def)
  then show ?thesis by (auto simp: pglz_find_match_def k_def)
qed

end
