(* ===== verification/Pglz_Correct.thy ===== *)
theory Pglz_Correct
  imports Pglz_Hist
begin

text \<open>
  Correctness of \<open>pglz_compress\<close> and \<open>pglz_decompress\<close>: the copy by doubling pieces equals a
  byte-by-byte copy, compression never runs out of fuel, and decompression inverts it, in full
  and for every slice, also when only \<open>pglz_maximum_compressed_size\<close> bytes were fetched.
\<close>

section \<open>Copying a match\<close>

text \<open>The reference: copy one byte at a time, reading what was just written.\<close>

fun copy_bytes :: "bytes \<Rightarrow> nat \<Rightarrow> nat \<Rightarrow> bytes" where
  "copy_bytes dp off 0 = dp"
| "copy_bytes dp off (Suc n) = copy_bytes (dp @ [dp ! (length dp - off)]) off n"

definition cyc :: "bytes \<Rightarrow> nat \<Rightarrow> bytes" where
  "cyc p n = map (\<lambda>k. p ! (k mod length p)) [0..<n]"

lemma length_cyc [simp]: "length (cyc p n) = n"
  by (simp add: cyc_def)

lemma nth_cyc [simp]: "k < n \<Longrightarrow> cyc p n ! k = p ! (k mod length p)"
  by (simp add: cyc_def)

lemma take_cyc [simp]: "take m (cyc p n) = cyc p (min m n)"
  by (rule nth_equalityI) auto

lemma cyc_short: "n \<le> length p \<Longrightarrow> cyc p n = take n p"
  by (rule nth_equalityI) auto

lemma cyc_unfold: "length p \<le> n \<Longrightarrow> p \<noteq> [] \<Longrightarrow> cyc p n = p @ cyc p (n - length p)"
  by (rule nth_equalityI) (auto simp: nth_append mod_if)

lemma cyc_double: "cyc (p @ p) n = cyc p n"
proof (rule nth_equalityI)
  fix k assume "k < length (cyc (p @ p) n)"
  then have k: "k < n" by simp
  show "cyc (p @ p) n ! k = cyc p n ! k"
  proof (cases "p = []")
    case False
    define r where "r = k mod (2 * length p)"
    have "r < 2 * length p" using False by (simp add: r_def)
    moreover have "k mod length p = r mod length p" by (simp add: r_def mod_mod_cancel)
    moreover have "cyc (p @ p) n ! k = (p @ p) ! r" using k by (simp add: r_def mult_2)
    ultimately have "cyc (p @ p) n ! k = p ! (k mod length p)"
      by (cases "r < length p") (simp_all add: nth_append le_mod_geq)
    with k show ?thesis by simp
  qed simp
qed simp

lemma pglz_copy_cyc:
  "0 < off \<Longrightarrow> off \<le> length dp \<Longrightarrow>
     pglz_copy dp off len = Inr (dp @ cyc (drop (length dp - off) dp) len)"
proof (induction dp off len rule: pglz_copy.induct)
  case (1 dp off len)
  define p where "p = drop (length dp - off) dp"
  have p: "length p = off" "p \<noteq> []" "take off p = p" using "1.prems" by (auto simp: p_def)
  show ?case
  proof (cases "off < len")
    case True
    have "drop (length (dp @ p) - (off + off)) (dp @ p) = p @ p"
      using p(1) "1.prems" by (simp add: p_def)
    moreover have "off + off \<le> length (dp @ p)" using p(1) "1.prems" by simp
    moreover have "pglz_copy dp off len = pglz_copy (dp @ p) (off + off) (len - off)"
      using True "1.prems" p(3) by (subst pglz_copy.simps) (simp add: p_def)
    ultimately show ?thesis
      using "1.IH" "1.prems" True p cyc_unfold [of p len]
      by (simp add: p_def [symmetric] cyc_double)
  next
    case False
    then have "pglz_copy dp off len = Inr (dp @ take len p)"
      using "1.prems" by (subst pglz_copy.simps) (simp add: p_def)
    with False p cyc_short [of len p] show ?thesis by (simp add: p_def)
  qed
qed

lemma copy_bytes_cyc:
  "0 < off \<Longrightarrow> off \<le> length dp \<Longrightarrow>
     copy_bytes dp off n = dp @ cyc (drop (length dp - off) dp) n"
proof (induction n arbitrary: dp)
  case (Suc n)
  define p where "p = drop (length dp - off) dp"
  define x where "x = dp ! (length dp - off)"
  have p: "length p = off" "p = x # tl p"
    using Suc.prems by (auto simp: p_def x_def Cons_nth_drop_Suc [symmetric])
  have d: "drop (length (dp @ [x]) - off) (dp @ [x]) = tl p @ [x]"
    using Suc.prems by (simp add: p_def drop_Suc tl_drop Suc_diff_le)
  have "cyc p (Suc n) = x # cyc (tl p @ [x]) n"
  proof (rule nth_equalityI)
    fix k assume "k < length (cyc p (Suc n))"
    then have k: "k < Suc n" by simp
    show "cyc p (Suc n) ! k = (x # cyc (tl p @ [x]) n) ! k"
    proof (cases k)
      case 0
      with k p show ?thesis by (metis length_greater_0_conv list.distinct(1) mod_less nth_Cons_0 nth_cyc)
    next
      case (Suc j)
      have l: "length (tl p @ [x]) = length p" using p Suc.prems(1) by simp
      have "p ! (Suc j mod length p) = (tl p @ [x]) ! (j mod length p)"
      proof (cases "Suc (j mod length p) = length p")
        case True
        then show ?thesis using p l by (metis diff_Suc_1 length_append_singleton length_tl mod_Suc nth_Cons_0 nth_append_length)
      next
        case False
        then have "Suc j mod length p = Suc (j mod length p)" by (simp add: mod_Suc)
        moreover have "j mod length p < length (tl p)"
          using False p Suc.prems(1) by (metis One_nat_def Suc_lessI diff_Suc_1 length_tl less_diff_conv mod_less_divisor Suc_less_eq Suc_pred)
        ultimately show ?thesis by (simp add: nth_append nth_tl)
      qed
      then show ?thesis using k Suc l by simp
    qed
  qed simp
  with Suc.IH [of "dp @ [x]"] Suc.prems d show ?case by (simp add: p_def [symmetric] x_def [symmetric])
qed (simp add: cyc_def)

text \<open>\<open>pglz_decompress\<close> copies a match in pieces of doubling size; this equals copying it
  byte by byte, for every offset into the output written so far, overlapping or not.\<close>

lemma pglz_copy_bytewise:
  assumes "0 < off" "off \<le> length dp"
  shows "pglz_copy dp off len = Inr (copy_bytes dp off len)"
  using pglz_copy_cyc [OF assms] copy_bytes_cyc [OF assms] by simp

section \<open>The items of a compressed stream\<close>

datatype item = Literal byte | Match nat nat

fun is_mat :: "item \<Rightarrow> bool" where
  "is_mat (Literal b) = False"
| "is_mat (Match len off) = True"

fun item_bytes :: "item \<Rightarrow> bytes" where
  "item_bytes (Literal b) = [b]"
| "item_bytes (Match len off) = pglz_tag_bytes len off"

fun item_len :: "item \<Rightarrow> nat" where
  "item_len (Literal b) = 1"
| "item_len (Match len off) = len"

fun item_ok :: "nat \<Rightarrow> item \<Rightarrow> bool" where
  "item_ok d (Literal b) = True"
| "item_ok d (Match len off) = (2 < len \<and> len \<le> 273 \<and> 0 < off \<and> off \<le> d \<and> off < 4096)"

fun item_apply :: "bytes \<Rightarrow> item \<Rightarrow> bytes" where
  "item_apply dp (Literal b) = dp @ [b]"
| "item_apply dp (Match len off) = dp @ cyc (drop (length dp - off) dp) len"

fun items_ok :: "nat \<Rightarrow> item list \<Rightarrow> bool" where
  "items_ok d [] = True"
| "items_ok d (x # xs) = (item_ok d x \<and> items_ok (d + item_len x) xs)"

abbreviation body :: "item list \<Rightarrow> bytes" where
  "body its \<equiv> concat (map item_bytes its)"

abbreviation out_len :: "item list \<Rightarrow> nat" where
  "out_len its \<equiv> sum_list (map item_len its)"

abbreviation items_apply :: "bytes \<Rightarrow> item list \<Rightarrow> bytes" where
  "items_apply \<equiv> foldl item_apply"

lemma length_item_apply [simp]: "length (item_apply dp x) = length dp + item_len x"
  by (cases x) auto

lemma length_items_apply [simp]: "length (items_apply dp its) = length dp + out_len its"
  by (induction its arbitrary: dp) auto

lemma take_items_apply: "take (length dp) (items_apply dp its) = dp"
proof (induction its arbitrary: dp)
  case (Cons x its)
  have "take (length dp) (items_apply (item_apply dp x) its) =
    take (length dp) (take (length (item_apply dp x)) (items_apply (item_apply dp x) its))"
    by (simp add: min_def)
  also have "\<dots> = take (length dp) (item_apply dp x)" using Cons.IH [of "item_apply dp x"] by simp
  also have "\<dots> = dp" by (cases x) auto
  finally show ?case by simp
qed simp

lemma items_ok_append [simp]:
  "items_ok d (xs @ ys) \<longleftrightarrow> items_ok d xs \<and> items_ok (d + out_len xs) ys"
  by (induction xs arbitrary: d) (auto simp: add.assoc)

lemma item_len_pos: "item_ok d x \<Longrightarrow> 0 < item_len x"
  by (cases x) auto

lemma item_bytes_size: "item_ok d x \<Longrightarrow> 0 < length (item_bytes x) \<and> length (item_bytes x) \<le> item_len x
    \<and> length (item_bytes x) \<le> 3"
  by (cases x) (auto simp: pglz_tag_bytes_def)

lemma items_ok_len: "items_ok d xs \<Longrightarrow> length xs \<le> out_len xs \<and> length (body xs) \<le> out_len xs"
proof (induction xs arbitrary: d)
  case (Cons x xs)
  then have "item_ok d x" "items_ok (d + item_len x) xs" by simp_all
  with Cons.IH [OF this(2)] item_len_pos [of d x] item_bytes_size [of d x] show ?case by simp
qed simp

section \<open>Match tags\<close>

lemma bit_nat_lt: "n < 2 ^ k \<Longrightarrow> bit (n :: nat) i \<Longrightarrow> i < k"
  by (metis bit_take_bit_iff take_bit_nat_eq_self)

lemma tag_masks:
  "(0xf00 :: nat) = push_bit 8 (mask 4)" "(0xff :: nat) = mask 8"
  "(0x0f :: byte) = mask 4" "(0xf0 :: byte) = push_bit 4 (mask 4)"
  by (simp_all add: mask_eq_exp_minus_1 push_bit_eq_mult)

lemma tag_low:
  assumes "x < 16"
  shows "unat ((word_of_nat (drop_bit 4 (off AND 0xf00) OR x) :: byte) AND 0x0f) = x"
proof (rule bit_eqI)
  fix i
  have "bit x i \<Longrightarrow> i < 4" using assms bit_nat_lt [of x 4] by simp
  then show "bit (unat ((word_of_nat (drop_bit 4 (off AND 0xf00) OR x) :: byte) AND 0x0f)) i \<longleftrightarrow> bit x i"
    unfolding tag_masks by (auto simp: bit_simps)
qed

lemma tag_high:
  assumes "x < 16" "off < 4096"
  shows "push_bit 4 (unat ((word_of_nat (drop_bit 4 (off AND 0xf00) OR x) :: byte) AND 0xf0)) OR
     unat (word_of_nat (off AND 0xff) :: byte) = off"
proof (rule bit_eqI)
  fix i
  have x: "bit x j \<Longrightarrow> j < 4" for j using assms(1) bit_nat_lt [of x 4] by simp
  have o: "bit off i \<Longrightarrow> i < 12" using assms(2) bit_nat_lt [of off 12] by simp
  have "i \<ge> 8 \<Longrightarrow> bit off (4 + (i - 4)) = bit off i" by simp
  then show "bit (push_bit 4 (unat ((word_of_nat (drop_bit 4 (off AND 0xf00) OR x) :: byte) AND 0xf0)) OR
     unat (word_of_nat (off AND 0xff) :: byte)) i \<longleftrightarrow> bit off i"
    unfolding tag_masks using x [of "i - 4"] o by (auto simp: bit_simps)
qed

lemma pglz_read_tag_bytes:
  assumes "2 < len" "len \<le> 273" "off < 4096"
  shows "pglz_read_tag (pre @ pglz_tag_bytes len off @ post) (length pre) =
    Inr (len, off, length pre + length (pglz_tag_bytes len off))"
proof (cases "len > 17")
  case True
  then have u: "unat (word_of_nat (len - 18) :: byte) = len - 18" using assms
    by (subst unat_of_nat) simp
  show ?thesis
    using True assms tag_low [of 15 off] tag_high [of 15 off] u
    by (simp add: pglz_read_tag_def pglz_tag_bytes_def rd_def nth_append)
next
  case False
  then show ?thesis
    using assms tag_low [of "len - 3" off] tag_high [of "len - 3" off]
    by (simp add: pglz_read_tag_def pglz_tag_bytes_def rd_def nth_append)
qed

section \<open>Control bytes\<close>

fun ctrl_of :: "item list \<Rightarrow> byte" where
  "ctrl_of [] = 0"
| "ctrl_of (x # xs) = (if is_mat x then 1 else 0) OR push_bit 1 (ctrl_of xs)"

definition ctrl_bits :: "byte \<Rightarrow> item list \<Rightarrow> bool" where
  "ctrl_bits c its \<longleftrightarrow> (\<forall>i < length its. bit c i = is_mat (its ! i))"

lemma bit_ctrl_of: "i < 8 \<Longrightarrow> bit (ctrl_of its) i \<longleftrightarrow> i < length its \<and> is_mat (its ! i)"
proof (induction its arbitrary: i)
  case (Cons x its)
  have "bit (ctrl_of (x # its)) i \<longleftrightarrow> i = 0 \<and> is_mat x \<or> 1 \<le> i \<and> bit (ctrl_of its) (i - 1)"
    using Cons.prems by (simp only: ctrl_of.simps bit_or_iff bit_push_bit_iff) (auto simp: bit_1_iff)
  with Cons.IH [of "i - 1"] Cons.prems show ?case by (cases i) auto
qed simp

lemma ctrl_of_snoc:
  "ctrl_of (its @ [x]) = ctrl_of its OR (if is_mat x then push_bit (length its) 1 else 0)"
  by (rule bit_word_eqI) (auto simp: bit_ctrl_of bit_simps nth_append less_Suc_eq)

lemma ctrl_bits_ctrl_of: "length its \<le> 8 \<Longrightarrow> ctrl_bits (ctrl_of its) its"
  by (simp add: ctrl_bits_def bit_ctrl_of)

lemma ctrl_bits_Cons:
  "ctrl_bits c (x # xs) \<longleftrightarrow> (c AND 1 = 1 \<longleftrightarrow> is_mat x) \<and> ctrl_bits (drop_bit 1 c) xs"
proof -
  have "c AND 1 = 1 \<longleftrightarrow> bit c 0" by (simp add: and_one_eq odd_iff_mod_2_eq_one bit_0)
  moreover have "(\<forall>i < length (x # xs). bit c i = is_mat ((x # xs) ! i)) \<longleftrightarrow>
    bit c 0 = is_mat x \<and> (\<forall>i < length xs. bit c (Suc i) = is_mat (xs ! i))"
    by (auto simp: less_Suc_eq_0_disj)
  ultimately show ?thesis by (simp add: ctrl_bits_def bit_simps)
qed

section \<open>Decoding the items\<close>

text \<open>\<open>begun n d its\<close>: every item starts before output position \<open>n\<close>, so the loop reaches it.\<close>

fun begun :: "nat \<Rightarrow> nat \<Rightarrow> item list \<Rightarrow> bool" where
  "begun n d [] = True"
| "begun n d (x # xs) = (d < n \<and> begun n (d + item_len x) xs)"

lemma begun_append [simp]: "begun n d (xs @ ys) \<longleftrightarrow> begun n d xs \<and> begun n (d + out_len xs) ys"
  by (induction xs arbitrary: d) (auto simp: add.assoc)

lemma begun_full: "items_ok d its \<Longrightarrow> d + out_len its \<le> n \<Longrightarrow> begun n d its"
proof (induction its arbitrary: d)
  case (Cons x its)
  then have "0 < item_len x" using item_len_pos [of d x] by simp
  with Cons show ?case by simp
qed simp

lemma pglz_items_stop:
  "8 \<le> c \<or> slen \<le> int sp \<or> rawsize \<le> int (length dp) \<Longrightarrow>
     pglz_items source slen rawsize ctrl c sp dp = Inr (Some (sp, dp))"
  by (subst pglz_items.simps) auto

lemma pglz_items_step:
  assumes c: "c < 8" and d: "length dp < n" and ok: "item_ok (length dp) x"
    and b: "ctrl AND 1 = 1 \<longleftrightarrow> is_mat x"
    and s: "int (length pre + length (item_bytes x)) \<le> slen"
  shows "pglz_items (pre @ item_bytes x @ post) slen (int n) ctrl c (length pre) dp =
    pglz_items (pre @ item_bytes x @ post) slen (int n) (drop_bit 1 ctrl) (c + 1)
      (length pre + length (item_bytes x)) (take n (item_apply dp x))"
proof (cases x)
  case (Literal y)
  with assms show ?thesis
    by (subst pglz_items.simps) (simp add: rd_def)
next
  case (Match len off)
  have "pglz_copy dp off (min len (n - length dp)) = Inr (take n (item_apply dp x))"
    using ok d Match by (simp add: pglz_copy_cyc min.commute)
  moreover have "nat (int n - int (length dp)) = n - length dp" by simp
  moreover have "int (length pre) < slen"
    using s Match by (auto simp: pglz_tag_bytes_def split: if_splits)
  ultimately show ?thesis
    using assms Match pglz_read_tag_bytes [of len off pre post]
    by (subst pglz_items.simps) simp
qed

lemma pglz_items_run:
  assumes "items_ok (length dp) its" "begun n (length dp) its" "ctrl_bits ctrl its"
    "c + length its \<le> 8" "int (length pre + length (body its)) \<le> slen"
    "c + length its = 8 \<or> n \<le> length dp + out_len its \<or> slen = int (length pre + length (body its))"
    "length dp \<le> n"
  shows "pglz_items (pre @ body its @ post) slen (int n) ctrl c (length pre) dp =
    Inr (Some (length pre + length (body its), take n (items_apply dp its)))"
  using assms
proof (induction its arbitrary: dp ctrl c pre)
  case Nil
  then show ?case by (auto intro!: pglz_items_stop)
next
  case (Cons x its)
  define dp' where "dp' = take n (item_apply dp x)"
  define pre' where "pre' = pre @ item_bytes x"
  have c: "c < 8" "length dp < n" "item_ok (length dp) x" "ctrl AND 1 = 1 \<longleftrightarrow> is_mat x"
    "ctrl_bits (drop_bit 1 ctrl) its"
    using Cons.prems by (simp_all add: ctrl_bits_Cons)
  have step: "pglz_items (pre @ body (x # its) @ post) slen (int n) ctrl c (length pre) dp =
     pglz_items (pre' @ body its @ post) slen (int n) (drop_bit 1 ctrl) (c + 1) (length pre') dp'"
    using pglz_items_step [OF c(1-4), of pre slen "body its @ post"] Cons.prems(5)
    by (simp add: dp'_def pre'_def)
  show ?case
  proof (cases "its = []")
    case True
    have "take n dp' = dp'" by (simp add: dp'_def)
    moreover have "pglz_items (pre' @ body its @ post) slen (int n) (drop_bit 1 ctrl) (c + 1)
        (length pre') dp' = Inr (Some (length pre', dp'))"
      using True Cons.prems by (intro pglz_items_stop) (auto simp: dp'_def pre'_def)
    ultimately show ?thesis unfolding step using True by (simp add: dp'_def pre'_def)
  next
    case False
    then have "length dp + item_len x < n" using Cons.prems(2) by (cases its) auto
    then have dp': "dp' = item_apply dp x" by (simp add: dp'_def)
    have "pglz_items (pre' @ body its @ post) slen (int n) (drop_bit 1 ctrl) (c + 1) (length pre') dp' =
      Inr (Some (length pre' + length (body its), take n (items_apply dp' its)))"
      using Cons.prems c(5) \<open>length dp + item_len x < n\<close>
      by (intro Cons.IH) (auto simp: dp' pre'_def)
    then show ?thesis unfolding step by (simp add: dp' pre'_def)
  qed
qed

section \<open>Decoding the groups\<close>

text \<open>A group is a control byte and the items that follow it; the control byte may describe
  more items than are decoded.\<close>

type_synonym group = "byte \<times> item list"

abbreviation group_bytes :: "group \<Rightarrow> bytes" where
  "group_bytes g \<equiv> fst g # body (snd g)"

abbreviation groups_bytes :: "group list \<Rightarrow> bytes" where
  "groups_bytes gs \<equiv> concat (map group_bytes gs)"

abbreviation groups_items :: "group list \<Rightarrow> item list" where
  "groups_items gs \<equiv> concat (map snd gs)"

fun groups_shape :: "group list \<Rightarrow> bool" where
  "groups_shape [] = True"
| "groups_shape (g # gs) = (ctrl_bits (fst g) (snd g) \<and> snd g \<noteq> [] \<and> length (snd g) \<le> 8 \<and>
     (gs \<noteq> [] \<longrightarrow> length (snd g) = 8) \<and> groups_shape gs)"

lemma pglz_decompress_loop_stop:
  "slen \<le> int sp \<or> rawsize \<le> int (length dp) \<Longrightarrow>
     pglz_decompress_loop source slen rawsize sp dp = Inr (Some (sp, dp))"
  by (subst pglz_decompress_loop.simps) auto

lemma pglz_decompress_loop_groups:
  assumes "groups_shape gs" "items_ok (length dp) (groups_items gs)"
    "begun n (length dp) (groups_items gs)"
    "int (length pre + length (groups_bytes gs)) \<le> slen"
    "n \<le> length dp + out_len (groups_items gs) \<or> slen = int (length pre + length (groups_bytes gs))"
    "length dp \<le> n"
  shows "pglz_decompress_loop (pre @ groups_bytes gs @ post) slen (int n) (length pre) dp =
    Inr (Some (length pre + length (groups_bytes gs), take n (items_apply dp (groups_items gs))))"
  using assms
proof (induction gs arbitrary: dp pre)
  case Nil
  then show ?case by (auto intro!: pglz_decompress_loop_stop)
next
  case (Cons g gs)
  obtain c its where g: "g = (c, its)" by fastforce
  define pre' where "pre' = pre @ c # body its"
  define dp' where "dp' = take n (items_apply dp its)"
  have its: "its \<noteq> []" "length dp < n" using Cons.prems(1,3) g by (cases its; simp)+
  have src: "pre @ groups_bytes (g # gs) @ post = (pre @ [c]) @ body its @ (groups_bytes gs @ post)"
    by (simp add: g)
  have "pglz_items (pre @ groups_bytes (g # gs) @ post) slen (int n) c 0 (length (pre @ [c])) dp =
    Inr (Some (length (pre @ [c]) + length (body its), dp'))"
    unfolding src dp'_def
    using Cons.prems by (intro pglz_items_run) (auto simp: g)
  then have step: "pglz_decompress_loop (pre @ groups_bytes (g # gs) @ post) slen (int n) (length pre) dp =
      pglz_decompress_loop (pre' @ groups_bytes gs @ post) slen (int n) (length pre') dp'"
    using its Cons.prems(4)
    by (subst pglz_decompress_loop.simps) (simp add: rd_def nth_append g pre'_def)
  show ?case
  proof (cases "gs = []")
    case True
    have "take n dp' = dp'" by (simp add: dp'_def)
    moreover have "pglz_decompress_loop (pre' @ groups_bytes gs @ post) slen (int n) (length pre') dp' =
        Inr (Some (length pre', dp'))"
      using True Cons.prems by (intro pglz_decompress_loop_stop) (auto simp: dp'_def pre'_def g)
    ultimately show ?thesis unfolding step using True by (simp add: dp'_def pre'_def g)
  next
    case False
    then have "groups_items gs \<noteq> []" using Cons.prems(1) by (cases gs) auto
    then have "length dp + out_len its < n" using Cons.prems(3) g by (cases "groups_items gs") auto
    then have dp': "dp' = items_apply dp its" by (simp add: dp'_def)
    have "pglz_decompress_loop (pre' @ groups_bytes gs @ post) slen (int n) (length pre') dp' =
      Inr (Some (length pre' + length (groups_bytes gs), take n (items_apply dp' (groups_items gs))))"
      using Cons.prems \<open>length dp + out_len its < n\<close>
      by (intro Cons.IH) (auto simp: dp' pre'_def g)
    then show ?thesis unfolding step by (simp add: dp' pre'_def g)
  qed
qed

section \<open>The compressor's output\<close>

text \<open>The output state after the complete groups \<open>gs\<close> and the items \<open>cur\<close> of the open group.\<close>

definition out_inv :: "pglz_out \<Rightarrow> item list list \<Rightarrow> item list \<Rightarrow> bool" where
  "out_inv ob gs cur \<longleftrightarrow> (\<forall>g \<in> set gs. length g = 8) \<and>
     (if out_ctrlp ob = None then gs = [] \<and> cur = [] \<and> out_bp ob = [] \<and> out_ctrl ob = 0
      else cur \<noteq> [] \<and> length cur \<le> 8 \<and> out_ctrl ob = push_bit (length cur) 1 \<and>
        out_ctrlb ob = ctrl_of cur \<and>
        out_ctrlp ob = Some (length (groups_bytes (map (\<lambda>g. (ctrl_of g, g)) gs))) \<and>
        out_bp ob = groups_bytes (map (\<lambda>g. (ctrl_of g, g)) gs) @ 0 # body cur)"

abbreviation closed_groups :: "item list list \<Rightarrow> item list \<Rightarrow> group list" where
  "closed_groups gs cur \<equiv> map (\<lambda>g. (ctrl_of g, g)) (if cur = [] then gs else gs @ [cur])"

lemma pglz_store_ctrl_inv:
  "out_inv ob gs cur \<Longrightarrow> pglz_store_ctrl ob = groups_bytes (closed_groups gs cur)"
  by (auto simp: out_inv_def pglz_store_ctrl_def split: if_splits)

lemma byte_and_FF: "(w :: byte) AND 0xff = w"
proof -
  have "(0xff :: byte) = - 1" by simp
  then show ?thesis by (simp only: and.right_neutral)
qed

lemma push_bit_one_zero: "n \<le> 8 \<Longrightarrow> push_bit n (1 :: byte) = 0 \<longleftrightarrow> n = 8"
proof -
  have "\<forall>n \<in> set [0..<9]. push_bit n (1 :: byte) = 0 \<longleftrightarrow> n = 8" by code_simp
  then show "n \<le> 8 \<Longrightarrow> ?thesis" by auto
qed

text \<open>\<open>pglz_out_ctrl\<close> closes a full group.\<close>

lemma pglz_out_ctrl_inv:
  assumes "out_inv ob gs cur"
  obtains gs' cur' where "concat gs' @ cur' = concat gs @ cur" "length cur' < 8"
    "\<forall>g \<in> set gs'. length g = 8" "out_ctrl (pglz_out_ctrl ob) = push_bit (length cur') 1"
    "out_ctrlb (pglz_out_ctrl ob) = ctrl_of cur'"
    "out_ctrlp (pglz_out_ctrl ob) = Some (length (groups_bytes (map (\<lambda>g. (ctrl_of g, g)) gs')))"
    "out_bp (pglz_out_ctrl ob) = groups_bytes (map (\<lambda>g. (ctrl_of g, g)) gs') @ 0 # body cur'"
proof (cases "out_ctrl ob = 0")
  case True
  then have o: "pglz_out_ctrl ob = \<lparr>out_bp = pglz_store_ctrl ob @ [0],
      out_ctrlp = Some (length (out_bp ob)), out_ctrlb = 0, out_ctrl = 1\<rparr>"
    by (simp add: pglz_out_ctrl_def byte_and_FF)
  have cur: "cur = [] \<and> gs = [] \<or> length cur = 8 \<and> cur \<noteq> []"
    using True assms push_bit_one_zero [of "length cur"] by (auto simp: out_inv_def split: if_splits)
  have l: "length (out_bp ob) = length (pglz_store_ctrl ob)"
    by (simp add: pglz_store_ctrl_def split: option.splits)
  show ?thesis
    by (rule that [of "if cur = [] then gs else gs @ [cur]" "[]"])
       (use cur assms l pglz_store_ctrl_inv [OF assms] in \<open>auto simp: o out_inv_def split: if_splits\<close>)
next
  case False
  then have o: "pglz_out_ctrl ob = ob" by (simp add: pglz_out_ctrl_def byte_and_FF)
  have "length cur \<noteq> 8" using False assms push_bit_one_zero [of 8]
    by (auto simp: out_inv_def split: if_splits)
  with False assms show ?thesis
    by (intro that [of gs cur]) (auto simp: o out_inv_def split: if_splits)
qed

lemma pglz_out_literal_inv:
  assumes "out_inv ob gs cur"
  shows "\<exists>gs' cur'. out_inv (pglz_out_literal ob b) gs' cur' \<and>
    concat gs' @ cur' = concat gs @ cur @ [Literal b]"
proof -
  obtain gs' cur' where "concat gs' @ cur' = concat gs @ cur" and
    "out_inv (pglz_out_literal ob b) gs' (cur' @ [Literal b])"
    by (rule pglz_out_ctrl_inv [OF assms])
       (simp add: out_inv_def pglz_out_literal_def Let_def ctrl_of_snoc push_bit_push_bit)
  then show ?thesis by (metis append.assoc)
qed

lemma pglz_out_tag_inv:
  assumes "out_inv ob gs cur"
  shows "\<exists>gs' cur'. out_inv (pglz_out_tag ob len off) gs' cur' \<and>
    concat gs' @ cur' = concat gs @ cur @ [Match len off]"
proof -
  obtain gs' cur' where "concat gs' @ cur' = concat gs @ cur" and
    "out_inv (pglz_out_tag ob len off) gs' (cur' @ [Match len off])"
    by (rule pglz_out_ctrl_inv [OF assms])
       (simp add: out_inv_def pglz_out_tag_def Let_def ctrl_of_snoc push_bit_push_bit)
  then show ?thesis by (metis append.assoc)
qed

lemma groups_shape_closed:
  assumes "out_inv ob gs cur"
  shows "groups_shape (closed_groups gs cur)" "groups_items (closed_groups gs cur) = concat gs @ cur"
proof -
  have g8: "groups_shape (map (\<lambda>g. (ctrl_of g, g)) (gs @ (if cur = [] then [] else [cur])))"
    if "\<forall>g \<in> set gs. length g = 8" "length cur \<le> 8" for gs cur
    using that by (induction gs) (auto simp: ctrl_bits_ctrl_of)
  show "groups_shape (closed_groups gs cur)"
    using g8 [of gs cur] assms by (cases "cur = []") (auto simp: out_inv_def split: if_splits)
  show "groups_items (closed_groups gs cur) = concat gs @ cur"
    by (simp add: comp_def)
qed

section \<open>The main loop\<close>

lemma valid_match_apply:
  assumes v: "valid_match src i len off" and i: "i \<le> length src"
  shows "item_apply (take i src) (Match len off) = take (i + len) src"
proof -
  have v': "0 < off" "off \<le> i" "i + len \<le> length src"
    and eq: "\<And>k. k < len \<Longrightarrow> src ! (i + k) = src ! (i - off + k)"
    using v by (simp_all add: valid_match_def)
  have per: "k < len \<Longrightarrow> src ! (i + k) = src ! (i - off + k mod off)" for k
  proof (induction k rule: less_induct)
    case (less k)
    show ?case
    proof (cases "k < off")
      case True
      with eq less.prems show ?thesis by simp
    next
      case False
      have "src ! (i + k) = src ! (i - off + k)" by (rule eq [OF less.prems])
      also have "i - off + k = i + (k - off)" using False v' by simp
      also have "src ! (i + (k - off)) = src ! (i - off + (k - off) mod off)"
        by (rule less.IH) (use less.prems False v' in auto)
      finally show ?thesis using False by (simp add: le_mod_geq)
    qed
  qed
  show ?thesis
  proof (rule nth_equalityI)
    show "length (item_apply (take i src) (Match len off)) = length (take (i + len) src)"
      using v' by simp
    fix k assume "k < length (item_apply (take i src) (Match len off))"
    then have k: "k < i + len" using v' by simp
    have m: "(k - i) mod off < off" using v' by simp
    have "src ! k = src ! (i - off + (k - i) mod off)" if "i \<le> k" using per [of "k - i"] that k by simp
    then show "item_apply (take i src) (Match len off) ! k = take (i + len) src ! k"
      using k v' m by (auto simp: nth_append)
  qed
qed

definition loop_inv :: "bytes \<Rightarrow> nat \<Rightarrow> pglz_out \<Rightarrow> bool" where
  "loop_inv src dp ob \<longleftrightarrow> dp \<le> length src \<and> (\<exists>gs cur. out_inv ob gs cur \<and>
     items_ok 0 (concat gs @ cur) \<and> items_apply [] (concat gs @ cur) = take dp src)"

lemma loop_inv_literal:
  assumes "loop_inv src dp ob" "dp < length src"
  shows "loop_inv src (dp + 1) (pglz_out_literal ob (src ! dp))"
proof -
  obtain gs cur where o: "out_inv ob gs cur" and ok: "items_ok 0 (concat gs @ cur)"
    and ap: "items_apply [] (concat gs @ cur) = take dp src"
    using assms(1) by (auto simp: loop_inv_def)
  obtain gs' cur' where o': "out_inv (pglz_out_literal ob (src ! dp)) gs' cur'"
    and c: "concat gs' @ cur' = (concat gs @ cur) @ [Literal (src ! dp)]"
    using pglz_out_literal_inv [OF o] by (metis append.assoc)
  have "items_ok 0 (concat gs' @ cur')" unfolding c using ok by simp
  moreover have "items_apply [] (concat gs' @ cur') = take (dp + 1) src"
    unfolding c by (subst foldl_append, subst ap) (use assms(2) in \<open>simp add: take_Suc_conv_app_nth\<close>)
  ultimately show ?thesis using o' assms(2) unfolding loop_inv_def by auto
qed

lemma loop_inv_tag:
  assumes "loop_inv src dp ob" "valid_match src dp len off" "2 < len"
  shows "loop_inv src (dp + len) (pglz_out_tag ob len off)"
proof -
  obtain gs cur where o: "out_inv ob gs cur" and ok: "items_ok 0 (concat gs @ cur)"
    and ap: "items_apply [] (concat gs @ cur) = take dp src" and d: "dp \<le> length src"
    using assms(1) by (auto simp: loop_inv_def)
  obtain gs' cur' where o': "out_inv (pglz_out_tag ob len off) gs' cur'"
    and c: "concat gs' @ cur' = (concat gs @ cur) @ [Match len off]"
    using pglz_out_tag_inv [OF o] by (metis append.assoc)
  have "out_len (concat gs @ cur) = dp" using arg_cong [OF ap, of length] d by simp
  then have "items_ok 0 (concat gs' @ cur')"
    unfolding c items_ok_append using ok assms(2,3) by (simp add: valid_match_def PGLZ_MAX_MATCH_def)
  moreover have "items_apply [] (concat gs' @ cur') = take (dp + len) src"
    unfolding c by (subst foldl_append, subst ap) (use valid_match_apply [OF assms(2) d] in simp)
  moreover have "dp + len \<le> length src" using assms(2) by (simp add: valid_match_def)
  ultimately show ?thesis using o' unfolding loop_inv_def by blast
qed

lemma pglz_loop_ok:
  assumes "hist_ok h hsz dp" "0 < hsz" "loop_inv src dp ob"
  shows "\<exists>r. pglz_loop src st rm gm gd (hsz - 1) dp h fm ob = Some r \<and>
    (\<forall>ob'. r = Inr ob' \<longrightarrow> loop_inv src (length src) ob')"
  using assms
proof (induction "length src - dp" arbitrary: dp h fm ob rule: less_induct)
  case less
  have d: "dp \<le> length src" using less.prems(3) by (simp add: loop_inv_def)
  consider (fin) "dp = length src"
    | (fail) "dp < length src" "int (length (out_bp ob)) \<ge> rm \<or>
        \<not> fm \<and> int (length (out_bp ob)) \<ge> first_success_by st"
    | (run) "dp < length src" "\<not> int (length (out_bp ob)) \<ge> rm"
        "\<not> (\<not> fm \<and> int (length (out_bp ob)) \<ge> first_success_by st)"
    using d by linarith
  then show ?case
  proof cases
    case fin
    with less.prems show ?thesis by (subst pglz_loop.simps) auto
  next
    case fail
    then show ?thesis by (subst pglz_loop.simps) auto
  next
    case run
    obtain r where r: "pglz_find_match h src dp gm gd (hsz - 1) = Some r"
      and m: "\<And>len off. r = Some (len, off) \<Longrightarrow> 2 < len \<and> valid_match src dp len off"
      using pglz_find_match_ok [OF less.prems(1,2) d] by blast
    show ?thesis
    proof (cases r)
      case None
      have "pglz_loop src st rm gm gd (hsz - 1) dp h fm ob =
          pglz_loop src st rm gm gd (hsz - 1) (dp + 1) (pglz_hist_add h src dp (hsz - 1)) fm
            (pglz_out_literal ob (src ! dp))"
        using run r None by (subst pglz_loop.simps) auto
      then show ?thesis
        using less.hyps [OF _ pglz_hist_add_ok [OF less.prems(1,2)] less.prems(2)
            loop_inv_literal [OF less.prems(3) run(1)]] run(1) by simp
    next
      case (Some lo)
      obtain len off where lo: "lo = (len, off)" by fastforce
      note v = m [of len off, unfolded Some lo, OF refl]
      have lt: "length src - (dp + len) < length src - dp" using run(1) conjunct1 [OF v] by linarith
      have "pglz_loop src st rm gm gd (hsz - 1) dp h fm ob =
          pglz_loop src st rm gm gd (hsz - 1) (dp + len) (pglz_hist_add_n len h src dp (hsz - 1)) True
            (pglz_out_tag ob len off)"
        using run r Some lo by (subst pglz_loop.simps) auto
      then show ?thesis
        using less.hyps [OF lt pglz_hist_add_n_ok [OF less.prems(1,2)] less.prems(2)
            loop_inv_tag [OF less.prems(3) conjunct2 [OF v] conjunct1 [OF v]]] by metis
    qed
  qed
qed

section \<open>Buffer bounds\<close>

lemma pglz_copy_length:
  "pglz_copy dp off len = Inr dp' \<Longrightarrow> 0 < off \<Longrightarrow> length dp' = length dp + len"
proof -
  assume a: "pglz_copy dp off len = Inr dp'" "0 < off"
  then have "off \<le> length dp" by (subst (asm) pglz_copy.simps) (auto split: if_splits)
  with a show ?thesis by (auto simp: pglz_copy_cyc)
qed

lemma pglz_items_bound:
  "pglz_items source slen rawsize ctrl c sp dp = Inr (Some (sp', dp')) \<Longrightarrow>
     int (length dp) \<le> rawsize \<Longrightarrow> int (length dp') \<le> rawsize"
proof (induction "8 - c" arbitrary: ctrl c sp dp rule: less_induct)
  case less
  show ?case
  proof (cases "c < 8 \<and> int sp < slen \<and> int (length dp) < rawsize")
    case False
    then have "pglz_items source slen rawsize ctrl c sp dp = Inr (Some (sp, dp))"
      by (intro pglz_items_stop) auto
    with less.prems show ?thesis by simp
  next
    case True
    with less.prems(1) [unfolded pglz_items.simps [of source slen rawsize ctrl c sp dp]]
    obtain d q where d: "int (length d) \<le> rawsize"
      "pglz_items source slen rawsize (drop_bit 1 ctrl) (c + 1) q d = Inr (Some (sp', dp'))"
      by (force simp: bindE_eq_Inr_iff split: if_splits dest!: pglz_copy_length)
    have "8 - (c + 1) < 8 - c" using True by linarith
    from less.hyps [OF this d(2,1)] show ?thesis .
  qed
qed

lemma pglz_decompress_loop_bound:
  "pglz_decompress_loop source slen rawsize sp dp = Inr (Some (sp', dp')) \<Longrightarrow>
     int (length dp) \<le> rawsize \<Longrightarrow> int (length dp') \<le> rawsize"
proof (induction "nat (slen - int sp)" arbitrary: sp dp rule: less_induct)
  case less
  show ?case
  proof (cases "int sp < slen \<and> int (length dp) < rawsize")
    case False
    then have "pglz_decompress_loop source slen rawsize sp dp = Inr (Some (sp, dp))"
      by (intro pglz_decompress_loop_stop) auto
    with less.prems show ?thesis by simp
  next
    case True
    with less.prems(1) [unfolded pglz_decompress_loop.simps [of source slen rawsize sp dp]]
    obtain c q d where
      i: "pglz_items source slen rawsize c 0 (sp + 1) dp = Inr (Some (q, d))"
      and l: "pglz_decompress_loop source slen rawsize q d = Inr (Some (sp', dp'))"
      by (auto simp: bindE_eq_Inr_iff split: option.splits)
    have "nat (slen - int q) < nat (slen - int sp)" using pglz_items_sp [OF i] True by simp
    from less.hyps [OF this l pglz_items_bound [OF i less.prems(2)]] show ?thesis .
  qed
qed

lemma length_store_ctrl [simp]: "length (pglz_store_ctrl ob) = length (out_bp ob)"
  by (simp add: pglz_store_ctrl_def split: option.splits)

lemma pglz_out_size:
  "length (out_bp (pglz_out_literal ob b)) \<le> length (out_bp ob) + 4"
  "length (out_bp (pglz_out_tag ob len off)) \<le> length (out_bp ob) + 4"
  by (simp_all add: pglz_out_literal_def pglz_out_tag_def pglz_out_ctrl_def pglz_tag_bytes_def Let_def)

lemma pglz_loop_bound:
  "pglz_loop src st rm gm gd hm dp h fm ob = Some r \<Longrightarrow> int (length (out_bp ob)) \<le> max 0 (rm + 3) \<Longrightarrow>
     r = Inl ob' \<or> r = Inr ob' \<Longrightarrow> int (length (out_bp ob')) \<le> max 0 (rm + 3)"
proof (induction "length src - dp" arbitrary: dp h fm ob rule: less_induct)
  case less
  consider (stop) "r = Inl ob \<or> r = Inr ob"
    | (step) "dp < length src" "int (length (out_bp ob)) < rm"
    using less.prems(1) by (subst (asm) pglz_loop.simps) (auto split: if_splits)
  then show ?case
  proof cases
    case stop
    with less.prems show ?thesis by auto
  next
    case step
    note eq = less.prems(1) [unfolded pglz_loop.simps [of src st rm gm gd hm dp h fm ob]]
    show ?thesis
    proof (cases "\<not> fm \<and> int (length (out_bp ob)) \<ge> first_success_by st")
      case True
      with eq step less.prems show ?thesis by auto
    next
      case go: False
      show ?thesis
      proof (cases "pglz_find_match h src dp gm gd hm")
        case None
        with eq step go show ?thesis by auto
      next
        case (Some m)
        note f = this
        show ?thesis
        proof (cases m)
          case None
          with f eq step go have l: "pglz_loop src st rm gm gd hm (dp + 1) (pglz_hist_add h src dp hm) fm
              (pglz_out_literal ob (src ! dp)) = Some r" by simp
          show ?thesis
            by (rule less.hyps [OF _ l _ less.prems(3)])
               (use step pglz_out_size(1) [of ob "src ! dp"] in auto)
        next
          case (Some lo)
          obtain len off where lo: "lo = (len, off)" by fastforce
          from f Some lo eq step go have l: "pglz_loop src st rm gm gd hm (dp + len)
              (pglz_hist_add_n len h src dp hm) True (pglz_out_tag ob len off) = Some r" by simp
          have "2 < len" using f Some lo pglz_find_match_len by simp
          then show ?thesis
            by (intro less.hyps [OF _ l _ less.prems(3)])
               (use step pglz_out_size(2) [of ob len off] in auto)
        qed
      qed
    qed
  qed
qed

lemma pglz_result_max_le: "0 \<le> slen \<Longrightarrow> pglz_result_max st slen \<le> slen"
proof -
  assume s: "0 \<le> slen"
  define nr where "nr = (if pglz_min_comp_rate st < 0 then 0
     else if pglz_min_comp_rate st > 99 then 99 else pglz_min_comp_rate st)"
  have r: "0 \<le> 100 - nr" "100 - nr \<le> 100" by (simp_all add: nr_def)
  have "slen div 100 * (100 - nr) \<le> slen div 100 * 100" using r s by (intro mult_left_mono) auto
  then have "slen div 100 * (100 - nr) \<le> slen" by linarith
  moreover have "slen * (100 - nr) \<le> slen * 100" using r s by (intro mult_left_mono) auto
  then have "slen * (100 - nr) div 100 \<le> slen" by linarith
  ultimately show ?thesis
    unfolding pglz_result_max_def Let_def nr_def [symmetric] using s r by (simp add: c_div_nonneg)
qed

section \<open>Compression and decompression\<close>

lemma pglz_hashsz_pos: "0 < pglz_hashsz n"
  by (simp add: pglz_hashsz_def)

abbreviation hist_init :: "pglz_hist \<Rightarrow> nat \<Rightarrow> pglz_hist" where
  "hist_init stale hsz \<equiv> stale\<lparr>hist_start := (\<lambda>i. if i < hsz then 0 else hist_start stale i),
     hist_next := 1, hist_recycle := False\<rparr>"

abbreviation out_init :: pglz_out where
  "out_init \<equiv> \<lparr>out_bp = [], out_ctrlp = None, out_ctrlb = 0, out_ctrl = 0\<rparr>"

lemma pglz_loop_from_start:
  "\<exists>r. pglz_loop src st rm gm gd (pglz_hashsz n - 1) 0 (hist_init stale (pglz_hashsz n)) False out_init
     = Some r \<and> (\<forall>ob'. r = Inr ob' \<longrightarrow> loop_inv src (length src) ob')"
proof (rule pglz_loop_ok [OF hist_ok_start pglz_hashsz_pos])
  show "loop_inv src 0 out_init"
    unfolding loop_inv_def by (auto simp: out_inv_def intro!: exI [of _ "[]"])
qed

lemma pglz_compress_cases:
  obtains (refused) "pglz_compress stale src st = Some ([], -1)"
  | (gave_up) ob :: pglz_out where "pglz_compress stale src st = Some (out_bp ob, -1)"
      "length (out_bp ob) \<le> length src + 3"
  | (finished) ob rm where "loop_inv src (length src) ob"
      "pglz_compress stale src st = Some (pglz_store_ctrl ob,
         if int (length (pglz_store_ctrl ob)) \<ge> rm then -1 else int (length (pglz_store_ctrl ob)))"
      "length (out_bp ob) \<le> length src + 3" "rm \<le> int (length src)"
proof -
  define S where "S = (case st of None \<Rightarrow> PGLZ_strategy_default | Some s \<Rightarrow> s)"
  define slen where "slen = int (length src)"
  define rm where "rm = pglz_result_max S slen"
  have rm: "max 0 (rm + 3) \<le> int (length src + 3)" "rm \<le> int (length src)"
    using pglz_result_max_le [of slen S] by (simp_all add: rm_def slen_def)
  show thesis
  proof (cases "match_size_good S \<le> 0 \<or> slen < pglz_min_input_size S \<or> slen > pglz_max_input_size S")
    case True
    then show ?thesis
      by (intro refused) (simp only: pglz_compress_def Let_def S_def [symmetric] slen_def [symmetric] if_True)
  next
    case False
    have "\<exists>gm gd. pglz_compress stale src st =
      (case pglz_loop src S rm gm gd (pglz_hashsz slen - 1) 0 (hist_init stale (pglz_hashsz slen)) False
         out_init of
         None \<Rightarrow> None
       | Some (Inl ob) \<Rightarrow> Some (out_bp ob, -1)
       | Some (Inr ob) \<Rightarrow> Some (pglz_store_ctrl ob, if int (length (pglz_store_ctrl ob)) \<ge> rm then -1
            else int (length (pglz_store_ctrl ob))))"
      by (intro exI, simp only: pglz_compress_def Let_def S_def [symmetric] slen_def [symmetric]
          rm_def [symmetric] False if_False)
    then obtain gm gd where eq: "pglz_compress stale src st =
      (case pglz_loop src S rm gm gd (pglz_hashsz slen - 1) 0 (hist_init stale (pglz_hashsz slen)) False
         out_init of
         None \<Rightarrow> None
       | Some (Inl ob) \<Rightarrow> Some (out_bp ob, -1)
       | Some (Inr ob) \<Rightarrow> Some (pglz_store_ctrl ob, if int (length (pglz_store_ctrl ob)) \<ge> rm then -1
            else int (length (pglz_store_ctrl ob))))" by blast
    obtain r where r: "pglz_loop src S rm gm gd (pglz_hashsz slen - 1) 0
        (hist_init stale (pglz_hashsz slen)) False out_init = Some r"
      "\<And>ob'. r = Inr ob' \<Longrightarrow> loop_inv src (length src) ob'"
      using pglz_loop_from_start [of src S rm gm gd slen stale] by blast
    have len: "length (out_bp ob) \<le> length src + 3" if "r = Inl ob \<or> r = Inr ob" for ob
      using pglz_loop_bound [OF r(1) _ that] rm by simp
    show ?thesis
    proof (cases r)
      case (Inl ob)
      with eq r(1) len show ?thesis by (intro gave_up [of ob]) simp_all
    next
      case (Inr ob)
      with eq r(1) len rm(2) show ?thesis by (intro finished [OF r(2) [OF Inr], of rm]) simp_all
    qed
  qed
qed

text \<open>What a successful call has written: closed groups that decode to the source.\<close>

definition stream_of :: "bytes \<Rightarrow> group list \<Rightarrow> bytes \<Rightarrow> bool" where
  "stream_of dest gs src \<longleftrightarrow> dest = groups_bytes gs \<and> groups_shape gs \<and>
     items_ok 0 (groups_items gs) \<and> items_apply [] (groups_items gs) = src"

lemma stream_of_out_len: "stream_of dest gs src \<Longrightarrow> out_len (groups_items gs) = length src"
  unfolding stream_of_def by (metis add_0 length_items_apply list.size(3))

lemma pglz_compress_stream:
  assumes "pglz_compress stale src st = Some (dest, n)" "0 \<le> n"
  shows "n = int (length dest) \<and> (\<exists>gs. stream_of dest gs src)"
proof (cases rule: pglz_compress_cases [of stale src st])
  case (finished ob rm)
  then obtain gs cur where o: "out_inv ob gs cur" "items_ok 0 (concat gs @ cur)"
    "items_apply [] (concat gs @ cur) = src"
    by (auto simp: loop_inv_def)
  have "stream_of (pglz_store_ctrl ob) (closed_groups gs cur) src"
    unfolding stream_of_def groups_shape_closed(2) [OF o(1)]
    using pglz_store_ctrl_inv [OF o(1)] groups_shape_closed(1) [OF o(1)] o(2,3) by simp
  with finished assms show ?thesis by (auto split: if_splits)
qed (use assms in auto)

lemma pglz_compress_result_size:
  assumes "pglz_compress stale src st = Some (dest, n)"
  shows "n \<le> int (length dest) \<and> n \<le> int (length src)"
  using assms by (cases rule: pglz_compress_cases [of stale src st]) (auto split: if_splits)

lemma pglz_decompress_stream:
  assumes "stream_of dest gs src"
  shows "pglz_decompress (dest @ post) (int (length dest)) (int (length src)) True =
    Inr (src, int (length src))"
proof -
  have g: "dest = groups_bytes gs" "groups_shape gs" "items_ok 0 (groups_items gs)"
    "items_apply [] (groups_items gs) = src"
    using assms by (simp_all add: stream_of_def)
  have b: "begun (length src) 0 (groups_items gs)"
    using begun_full [OF g(3)] stream_of_out_len [OF assms] by simp
  have "pglz_decompress_loop (dest @ post) (int (length dest)) (int (length src)) 0 [] =
      Inr (Some (length dest, src))"
    using pglz_decompress_loop_groups [of gs "[]" "length src" "[]" "int (length dest)" post] g b by simp
  then show ?thesis by (simp add: pglz_decompress_def)
qed

section \<open>Slices\<close>

text \<open>The items, and the groups, that decoding the first \<open>n\<close> bytes reaches.\<close>

fun cut_items :: "nat \<Rightarrow> nat \<Rightarrow> item list \<Rightarrow> item list" where
  "cut_items n d [] = []"
| "cut_items n d (x # xs) = (if d < n then x # cut_items n (d + item_len x) xs else [])"

fun cut_groups :: "nat \<Rightarrow> nat \<Rightarrow> group list \<Rightarrow> group list" where
  "cut_groups n d [] = []"
| "cut_groups n d (g # gs) = (if d < n
     then (fst g, cut_items n d (snd g)) # cut_groups n (d + out_len (snd g)) gs else [])"

lemma cut_items_begun: "begun n d (cut_items n d its)"
  by (induction its arbitrary: d) auto

lemma cut_items_prefix:
  "\<exists>r. its = cut_items n d its @ r \<and> (r = [] \<or> n \<le> d + out_len (cut_items n d its))"
proof (induction its arbitrary: d)
  case (Cons x its)
  obtain r where r: "its = cut_items n (d + item_len x) its @ r"
    "r = [] \<or> n \<le> d + item_len x + out_len (cut_items n (d + item_len x) its)"
    using Cons.IH [of "d + item_len x"] by blast
  show ?case
  proof (cases "d < n")
    case True
    with r show ?thesis by (intro exI [of _ r]) (auto simp: add.assoc)
  next
    case False
    then show ?thesis by auto
  qed
qed simp

lemma cut_items_whole: "begun n d its \<Longrightarrow> cut_items n d its = its"
  by (induction its arbitrary: d) auto

lemma cut_items_append:
  "cut_items n d (xs @ ys) = cut_items n d xs @ cut_items n (d + out_len xs) ys"
proof (induction xs arbitrary: d)
  case (Cons x xs)
  have "cut_items n e ys = []" if "n \<le> e" for e using that by (cases ys) auto
  with Cons.IH [of "d + item_len x"] show ?case by (auto simp: add.assoc)
qed simp

lemma cut_groups_past: "n \<le> d \<Longrightarrow> cut_groups n d gs = []"
  by (cases gs) auto

lemma cut_groups_items: "groups_items (cut_groups n d gs) = cut_items n d (groups_items gs)"
proof (induction gs arbitrary: d)
  case (Cons g gs)
  have "cut_items n e its = []" if "n \<le> e" for e its using that by (cases its) auto
  with Cons.IH [of "d + out_len (snd g)"] show ?case by (auto simp: cut_items_append)
qed simp

lemma begun_less: "items_ok d its \<Longrightarrow> d + out_len its < n \<Longrightarrow> begun n d its"
  using begun_full by simp

lemma ctrl_bits_prefix: "ctrl_bits c (xs @ ys) \<Longrightarrow> ctrl_bits c xs"
  by (auto simp: ctrl_bits_def nth_append split: if_splits)

lemma cut_groups_shape:
  "groups_shape gs \<Longrightarrow> items_ok d (groups_items gs) \<Longrightarrow> groups_shape (cut_groups n d gs)"
proof (induction gs arbitrary: d)
  case (Cons g gs)
  obtain r where r: "snd g = cut_items n d (snd g) @ r" using cut_items_prefix by blast
  have c: "ctrl_bits (fst g) (cut_items n d (snd g))"
    using ctrl_bits_prefix [of "fst g" "cut_items n d (snd g)" r] r Cons.prems(1) by simp
  have l: "length (cut_items n d (snd g)) \<le> 8"
    using arg_cong [OF r, of length] Cons.prems(1) by simp
  have ne: "d < n \<Longrightarrow> cut_items n d (snd g) \<noteq> []" using Cons.prems(1) by (cases "snd g") auto
  have w: "cut_groups n (d + out_len (snd g)) gs \<noteq> [] \<Longrightarrow> cut_items n d (snd g) = snd g"
  proof (rule cut_items_whole, rule begun_less)
    assume "cut_groups n (d + out_len (snd g)) gs \<noteq> []"
    then show "d + out_len (snd g) < n" using cut_groups_past not_le by blast
  qed (use Cons.prems(2) in simp)
  have "cut_groups n (d + out_len (snd g)) gs \<noteq> [] \<Longrightarrow> gs \<noteq> []" by auto
  with Cons c l ne w show ?case by auto
qed simp

lemma cut_groups_prefix: "\<exists>r. groups_bytes gs = groups_bytes (cut_groups n d gs) @ r"
proof (induction gs arbitrary: d)
  case (Cons g gs)
  obtain r where r: "snd g = cut_items n d (snd g) @ r"
    "r = [] \<or> n \<le> d + out_len (cut_items n d (snd g))" using cut_items_prefix by blast
  show ?case
  proof (cases "d < n \<and> r = []")
    case True
    then obtain r' where "groups_bytes gs = groups_bytes (cut_groups n (d + out_len (snd g)) gs) @ r'"
      using Cons.IH by blast
    with True r show ?thesis by auto
  next
    case False
    have "out_len (cut_items n d (snd g)) \<le> out_len (snd g)"
      by (subst (2) r(1)) simp
    then have "d < n \<Longrightarrow> cut_groups n (d + out_len (snd g)) gs = []"
      using False r(2) by (intro cut_groups_past) auto
    moreover have "body (snd g) = body (cut_items n d (snd g)) @ body r"
      by (subst r(1)) simp
    ultimately show ?thesis by auto
  qed
qed simp

lemma groups_shape_count:
  "groups_shape gs \<Longrightarrow> 8 * length gs \<le> length (groups_items gs) + 7"
proof (induction gs)
  case (Cons g gs)
  then show ?case by (cases gs) (auto simp: Suc_le_eq)
qed simp

lemma groups_bytes_length: "length (groups_bytes gs) = length gs + length (body (groups_items gs))"
  by (induction gs) auto

text \<open>The bytes needed to decode the first \<open>n\<close>: every item but the last takes no more bytes
  than it gives, and every eight items add a control byte.\<close>

lemma begun_groups_size:
  assumes "groups_shape gs" "items_ok 0 (groups_items gs)" "begun n 0 (groups_items gs)"
  shows "length (groups_bytes gs) \<le> (9 * n + 7) div 8 + 2"
proof (cases "groups_items gs = []")
  case True
  then have "gs = []" using assms(1) by (cases gs) auto
  then show ?thesis by simp
next
  case False
  then obtain its x where i: "groups_items gs = its @ [x]" by (metis rev_exhaust)
  have "out_len its < n" "items_ok 0 its" "item_ok (out_len its) x"
    using assms(2,3) unfolding i by simp_all
  then have "length its \<le> n - 1" "length (body its) \<le> n - 1" "length (item_bytes x) \<le> 3" "0 < n"
    using items_ok_len [of 0 its] item_bytes_size [of "out_len its" x] by auto
  moreover have "8 * length gs \<le> length its + 8" using groups_shape_count [OF assms(1)] i by simp
  ultimately show ?thesis unfolding groups_bytes_length i by simp
qed

lemma pglz_decompress_slice_stream:
  assumes s: "stream_of dest gs src" and n: "n \<le> length src"
    and m: "pglz_maximum_compressed_size (int n) (int (length dest)) \<le> int m" "m \<le> length dest"
  shows "pglz_decompress (take m dest @ post) (int m) (int n) False = Inr (take n src, int n)"
proof -
  have g: "dest = groups_bytes gs" "groups_shape gs" "items_ok 0 (groups_items gs)"
    "items_apply [] (groups_items gs) = src"
    using s by (simp_all add: stream_of_def)
  define cs where "cs = cut_groups n 0 gs"
  obtain r where r: "groups_items gs = groups_items cs @ r" "r = [] \<or> n \<le> out_len (groups_items cs)"
    using cut_items_prefix [of "groups_items gs" n 0] by (auto simp: cs_def cut_groups_items)
  have ok: "groups_shape cs" "items_ok 0 (groups_items cs)" "begun n 0 (groups_items cs)"
    using cut_groups_shape [OF g(2,3), of n] g(3) [unfolded r(1)] cut_items_begun [of n 0 "groups_items gs"]
    by (simp_all only: items_ok_append cs_def cut_groups_items)
  have len: "n \<le> out_len (groups_items cs)"
    using r stream_of_out_len [OF s] n by auto
  obtain q where q: "dest = groups_bytes cs @ q" using cut_groups_prefix [of gs n 0] g(1) unfolding cs_def by blast
  have "int (length (groups_bytes cs)) \<le> pglz_maximum_compressed_size (int n) (int (length dest))"
    using begun_groups_size [OF ok] q
    by (simp add: pglz_maximum_compressed_size_def c_div_def Let_def zdiv_int)
  then have le: "length (groups_bytes cs) \<le> m" using m(1) by linarith
  then have t: "take m dest @ post = groups_bytes cs @ (take (m - length (groups_bytes cs)) q @ post)"
    by (simp add: q)
  have "take n (items_apply [] (groups_items cs)) = take n src"
  proof -
    have "take (length (items_apply [] (groups_items cs))) src = items_apply [] (groups_items cs)"
      using take_items_apply [of "items_apply [] (groups_items cs)" r] g(4) r(1) by simp
    then have "take n (items_apply [] (groups_items cs)) =
        take n (take (length (items_apply [] (groups_items cs))) src)" by simp
    then show ?thesis using len by (simp add: min_def)
  qed
  then have "pglz_decompress_loop (take m dest @ post) (int m) (int n) 0 [] =
      Inr (Some (length (groups_bytes cs), take n src))"
    using pglz_decompress_loop_groups [of cs "[]" n "[]" "int m"] ok len le unfolding t by simp
  then show ?thesis using n by (simp add: pglz_decompress_def)
qed

section \<open>A small run\<close>

text \<open>A run of six \<open>a\<close>: a literal and one overlapping match.\<close>

definition hist_zero :: pglz_hist where
  "hist_zero = \<lparr>hist_start = (\<lambda>_. 0),
     hist_entries = (\<lambda>_. \<lparr>he_next = 0, he_prev = None, he_hindex = 0, he_pos = 0\<rparr>),
     hist_next = 1, hist_recycle = False\<rparr>"

definition six_a :: bytes where "six_a = [0x61, 0x61, 0x61, 0x61, 0x61, 0x61]"

lemma six_a_idx: "pglz_hist_idx six_a 0 511 = 437" "pglz_hist_idx six_a (Suc 0) 511 = 437"
  by code_simp+

lemma six_a_hist: "pglz_hist_add hist_zero six_a 0 511 = \<lparr>hist_start = (\<lambda>_. 0)(437 := 1),
    hist_entries = (hist_entries hist_zero)(1 := \<lparr>he_next = 0, he_prev = None, he_hindex = 437, he_pos = 0\<rparr>,
      0 := \<lparr>he_next = 0, he_prev = Some 1, he_hindex = 0, he_pos = 0\<rparr>),
    hist_next = 2, hist_recycle = False\<rparr>"
  by (simp add: pglz_hist_add_def six_a_idx Let_def hist_zero_def PGLZ_HISTORY_SIZE_def fun_eq_iff)

lemma six_a_match_len: "pglz_match_len six_a (Suc 0) 0 0 = 5"
  by code_simp

lemma six_a_find:
  "pglz_find_match hist_zero six_a 0 128 6 511 = Some None"
  "pglz_find_match (pglz_hist_add hist_zero six_a 0 511) six_a (Suc 0) 128 6 511 = Some (Some (5, 1))"
proof -
  obtain k where f: "PGLZ_HISTORY_SIZE + 1 = Suc (Suc k)"
    by (rule that [of 4095]) (simp add: PGLZ_HISTORY_SIZE_def)
  show "pglz_find_match hist_zero six_a 0 128 6 511 = Some None"
    unfolding pglz_find_match_def f six_a_idx by (simp add: hist_zero_def)
  show "pglz_find_match (pglz_hist_add hist_zero six_a 0 511) six_a (Suc 0) 128 6 511 = Some (Some (5, 1))"
    unfolding pglz_find_match_def f six_a_idx six_a_hist by (simp add: six_a_match_len)
qed

lemma pglz_compress_six_a:
  "pglz_compress hist_zero six_a (Some PGLZ_strategy_always) = Some ([2, 0x61, 2, 1], 4)"
proof -
  have h: "(\<lambda>i. if i < 512 then 0 else hist_start hist_zero i) = (\<lambda>_. 0)"
    "hist_zero\<lparr>hist_start := \<lambda>_. 0, hist_next := Suc 0, hist_recycle := False\<rparr> = hist_zero"
    by (auto simp: hist_zero_def)
  have l: "length six_a = 6" "six_a ! 0 = 0x61" by (simp_all add: six_a_def)
  have "pglz_loop six_a PGLZ_strategy_always 6 128 6 511 0 hist_zero False
      \<lparr>out_bp = [], out_ctrlp = None, out_ctrlb = 0, out_ctrl = 0\<rparr> =
    Some (Inr \<lparr>out_bp = [0, 0x61, 2, 1], out_ctrlp = Some 0, out_ctrlb = 2, out_ctrl = 4\<rparr>)"
    by (simp add: pglz_loop.simps [of _ _ _ _ _ _ 0] pglz_loop.simps [of _ _ _ _ _ _ "Suc 0"]
        pglz_loop.simps [of _ _ _ _ _ _ 6] l six_a_find PGLZ_strategy_always_def INT_MAX_def
        pglz_out_literal_def pglz_out_ctrl_def pglz_store_ctrl_def pglz_out_tag_def
        pglz_tag_bytes_def Let_def)
  then show ?thesis
    by (simp add: pglz_compress_def PGLZ_strategy_always_def INT_MAX_def l pglz_result_max_def
        pglz_hashsz_def h c_div_def PGLZ_MAX_MATCH_def Let_def pglz_store_ctrl_def)
qed

section \<open>Properties\<close>

text \<open>C29. \<open>pglz_compress\<close> always returns: whatever the static history tables hold from an
  earlier call, no walk along a hash chain exceeds the history size.\<close>

theorem pglz_compress_returns:
  "\<exists>dest n. pglz_compress stale src st = Some (dest, n) \<and> (n = -1 \<or> n = int (length dest))"
  by (cases rule: pglz_compress_cases [of stale src st]) auto

text \<open>C6. Decompressing what \<open>pglz_compress\<close> produced gives back the source, for every
  strategy and every earlier content of the history tables.\<close>

theorem pglz_roundtrip:
  assumes "pglz_compress stale src st = Some (dest, n)" "0 \<le> n"
  shows "pglz_decompress (dest @ post) n (int (length src)) True = Inr (src, int (length src))"
  using pglz_compress_stream [OF assms] pglz_decompress_stream by blast

theorem pglz_roundtrip_witness:
  "pglz_compress hist_zero six_a (Some PGLZ_strategy_always) = Some ([2, 0x61, 2, 1], 4) \<and>
   pglz_decompress [2, 0x61, 2, 1] 4 6 True = Inr (six_a, 6)"
  using pglz_roundtrip [OF pglz_compress_six_a, of "[]"] pglz_compress_six_a
  by (simp add: six_a_def)

text \<open>C30. Of what \<open>pglz_compress\<close> produced, the first \<open>pglz_maximum_compressed_size\<close> bytes
  are enough to decompress a prefix: any stretch at least that long gives exactly the first
  \<open>n\<close> bytes of the source.\<close>

theorem pglz_slice:
  assumes "pglz_compress stale src st = Some (dest, k)" "0 \<le> k" "n \<le> length src"
    and "pglz_maximum_compressed_size (int n) k \<le> int m" "m \<le> length dest"
  shows "pglz_decompress (take m dest @ post) (int m) (int n) False = Inr (take n src, int n)"
  using pglz_compress_stream [OF assms(1,2)] pglz_decompress_slice_stream [OF _ assms(3)] assms(4,5)
  by blast

theorem pglz_slice_witness:
  "pglz_maximum_compressed_size 1 4 = 4 \<and>
   pglz_decompress [2, 0x61, 2, 1] 4 1 False = Inr ([0x61], 1)"
proof -
  have m: "pglz_maximum_compressed_size (int 1) 4 \<le> int 4" by code_simp
  show ?thesis
    using pglz_slice [OF pglz_compress_six_a _ _ m, of "[]"]
    by (simp add: six_a_def pglz_maximum_compressed_size_def c_div_def)
qed

text \<open>C33. \<open>pglz_compress\<close> never writes past a buffer of \<open>PGLZ_MAX_OUTPUT\<close> bytes, whether it
  succeeds or gives up.\<close>

theorem pglz_compress_write_bound:
  "\<exists>dest n. pglz_compress stale src st = Some (dest, n) \<and>
     int (length dest) \<le> PGLZ_MAX_OUTPUT (int (length src))"
  by (cases rule: pglz_compress_cases [of stale src st]) (auto simp: PGLZ_MAX_OUTPUT_def)



end
