(* ===== verification/Varatt.thy ===== *)
theory Varatt
  imports Prelude
begin

text \<open>
  Variable-length datums: the layout macros of \<^verbatim>\<open>src/include/varatt.h\<close> (little-endian
  branch), \<^verbatim>\<open>detoast.h\<close>'s toast-pointer macro and \<^verbatim>\<open>toast_internals.h\<close>'s compression
  header.

  A \<open>struct varlena *\<close> is the list of bytes readable from it. A varlena always has its first
  byte (and a TOAST pointer its tag byte); \<open>hdr\<close> reads those two. All other reads are checked.
  A setter macro returns the header bytes it stores; sizes are \<open>int\<close>.
\<close>

section \<open>Header bytes\<close>

definition hdr :: "bytes \<Rightarrow> nat \<Rightarrow> byte" where
  "hdr p i = (if i < length p then p ! i else 0)"

definition VARHDRSZ :: int where "VARHDRSZ = 4"
definition VARHDRSZ_EXTERNAL :: int where "VARHDRSZ_EXTERNAL = 2"
definition VARHDRSZ_COMPRESSED :: int where "VARHDRSZ_COMPRESSED = 8"
definition VARHDRSZ_SHORT :: int where "VARHDRSZ_SHORT = 1"
definition VARATT_SHORT_MAX :: int where "VARATT_SHORT_MAX = 0x7F"

lemmas varhdrsz = VARHDRSZ_def VARHDRSZ_EXTERNAL_def VARHDRSZ_COMPRESSED_def VARHDRSZ_SHORT_def

definition VARATT_IS_4B :: "bytes \<Rightarrow> bool" where
  "VARATT_IS_4B p \<longleftrightarrow> hdr p 0 AND 0x01 = 0x00"
definition VARATT_IS_4B_U :: "bytes \<Rightarrow> bool" where
  "VARATT_IS_4B_U p \<longleftrightarrow> hdr p 0 AND 0x03 = 0x00"
definition VARATT_IS_4B_C :: "bytes \<Rightarrow> bool" where
  "VARATT_IS_4B_C p \<longleftrightarrow> hdr p 0 AND 0x03 = 0x02"
definition VARATT_IS_1B :: "bytes \<Rightarrow> bool" where
  "VARATT_IS_1B p \<longleftrightarrow> hdr p 0 AND 0x01 = 0x01"
definition VARATT_IS_1B_E :: "bytes \<Rightarrow> bool" where
  "VARATT_IS_1B_E p \<longleftrightarrow> hdr p 0 = 0x01"

definition VARSIZE_4B :: "bytes \<Rightarrow> int res" where
  "VARSIZE_4B p = bindE (rd_u32 p 0) (\<lambda>w. Inr (uint (drop_bit 2 w AND 0x3FFFFFFF)))"
definition VARSIZE_1B :: "bytes \<Rightarrow> int" where
  "VARSIZE_1B p = uint (drop_bit 1 (hdr p 0) AND 0x7F)"
definition VARTAG_1B_E :: "bytes \<Rightarrow> byte" where
  "VARTAG_1B_E p = hdr p 1"

definition SET_VARSIZE_4B :: "int \<Rightarrow> bytes" where
  "SET_VARSIZE_4B len = word_le 4 (push_bit 2 (word_of_int len :: 32 word))"
definition SET_VARSIZE_4B_C :: "int \<Rightarrow> bytes" where
  "SET_VARSIZE_4B_C len = word_le 4 (push_bit 2 (word_of_int len :: 32 word) OR 0x02)"
definition SET_VARSIZE_1B :: "int \<Rightarrow> bytes" where
  "SET_VARSIZE_1B len = [push_bit 1 (word_of_int len) OR 0x01]"
definition SET_VARTAG_1B_E :: "byte \<Rightarrow> bytes" where
  "SET_VARTAG_1B_E tag = [0x01, tag]"

section \<open>Tags of TOAST pointers\<close>

definition VARTAG_INDIRECT :: byte where "VARTAG_INDIRECT = 1"
definition VARTAG_EXPANDED_RO :: byte where "VARTAG_EXPANDED_RO = 2"
definition VARTAG_EXPANDED_RW :: byte where "VARTAG_EXPANDED_RW = 3"
definition VARTAG_ONDISK :: byte where "VARTAG_ONDISK = 18"

lemmas vartags = VARTAG_INDIRECT_def VARTAG_EXPANDED_RO_def VARTAG_EXPANDED_RW_def VARTAG_ONDISK_def

definition VARTAG_IS_EXPANDED :: "byte \<Rightarrow> bool" where
  "VARTAG_IS_EXPANDED tag \<longleftrightarrow> tag AND NOT 1 = VARTAG_EXPANDED_RO"

definition VARTAG_SIZE :: "byte \<Rightarrow> int" where
  "VARTAG_SIZE tag = (if tag = VARTAG_INDIRECT then 8
     else if VARTAG_IS_EXPANDED tag then 8
     else if tag = VARTAG_ONDISK then 16 else 0)"

section \<open>The external macros\<close>

definition VARSIZE_EXTERNAL :: "bytes \<Rightarrow> int" where
  "VARSIZE_EXTERNAL p = VARHDRSZ_EXTERNAL + VARTAG_SIZE (VARTAG_1B_E p)"

definition VARATT_IS_COMPRESSED :: "bytes \<Rightarrow> bool" where
  "VARATT_IS_COMPRESSED p \<longleftrightarrow> VARATT_IS_4B_C p"
definition VARATT_IS_EXTERNAL :: "bytes \<Rightarrow> bool" where
  "VARATT_IS_EXTERNAL p \<longleftrightarrow> VARATT_IS_1B_E p"
definition VARATT_IS_EXTERNAL_ONDISK :: "bytes \<Rightarrow> bool" where
  "VARATT_IS_EXTERNAL_ONDISK p \<longleftrightarrow> VARATT_IS_EXTERNAL p \<and> VARTAG_1B_E p = VARTAG_ONDISK"
definition VARATT_IS_EXTERNAL_INDIRECT :: "bytes \<Rightarrow> bool" where
  "VARATT_IS_EXTERNAL_INDIRECT p \<longleftrightarrow> VARATT_IS_EXTERNAL p \<and> VARTAG_1B_E p = VARTAG_INDIRECT"
definition VARATT_IS_EXTERNAL_EXPANDED :: "bytes \<Rightarrow> bool" where
  "VARATT_IS_EXTERNAL_EXPANDED p \<longleftrightarrow> VARATT_IS_EXTERNAL p \<and> VARTAG_IS_EXPANDED (VARTAG_1B_E p)"
definition VARATT_IS_SHORT :: "bytes \<Rightarrow> bool" where
  "VARATT_IS_SHORT p \<longleftrightarrow> VARATT_IS_1B p"
definition VARATT_IS_EXTENDED :: "bytes \<Rightarrow> bool" where
  "VARATT_IS_EXTENDED p \<longleftrightarrow> \<not> VARATT_IS_4B_U p"

definition VARSIZE_ANY :: "bytes \<Rightarrow> int res" where
  "VARSIZE_ANY p = (if VARATT_IS_1B_E p then Inr (VARSIZE_EXTERNAL p)
     else if VARATT_IS_1B p then Inr (VARSIZE_1B p) else VARSIZE_4B p)"

definition VARSIZE_ANY_EXHDR :: "bytes \<Rightarrow> int res" where
  "VARSIZE_ANY_EXHDR p = (if VARATT_IS_1B_E p then Inr (VARSIZE_EXTERNAL p - VARHDRSZ_EXTERNAL)
     else if VARATT_IS_1B p then Inr (VARSIZE_1B p - VARHDRSZ_SHORT)
     else bindE (VARSIZE_4B p) (\<lambda>n. Inr (n - VARHDRSZ)))"

text \<open>\<open>VARDATA_ANY\<close> as an offset from the start of the datum.\<close>

definition VARDATA_ANY :: "bytes \<Rightarrow> nat" where
  "VARDATA_ANY p = (if VARATT_IS_1B p then nat VARHDRSZ_SHORT else nat VARHDRSZ)"

text \<open>The difference is an unsigned 32-bit number.\<close>

definition VARATT_CONVERTED_SHORT_SIZE :: "bytes \<Rightarrow> int res" where
  "VARATT_CONVERTED_SHORT_SIZE p = bindE (VARSIZE_4B p) (\<lambda>n. Inr ((n - VARHDRSZ) mod 2 ^ 32 + VARHDRSZ_SHORT))"

definition VARATT_CAN_MAKE_SHORT :: "bytes \<Rightarrow> bool res" where
  "VARATT_CAN_MAKE_SHORT p = (if VARATT_IS_4B_U p
     then bindE (VARATT_CONVERTED_SHORT_SIZE p) (\<lambda>n. Inr (n \<le> VARATT_SHORT_MAX)) else Inr False)"

section \<open>Compression headers and TOAST pointers\<close>

definition VARLENA_EXTSIZE_BITS :: nat where "VARLENA_EXTSIZE_BITS = 30"
definition VARLENA_EXTSIZE_MASK :: "32 word" where
  "VARLENA_EXTSIZE_MASK = push_bit VARLENA_EXTSIZE_BITS 1 - 1"

definition VARDATA_COMPRESSED_GET_EXTSIZE :: "bytes \<Rightarrow> int res" where
  "VARDATA_COMPRESSED_GET_EXTSIZE p =
     bindE (rd_u32 p 4) (\<lambda>tcinfo. Inr (uint (tcinfo AND VARLENA_EXTSIZE_MASK)))"
definition VARDATA_COMPRESSED_GET_COMPRESS_METHOD :: "bytes \<Rightarrow> int res" where
  "VARDATA_COMPRESSED_GET_COMPRESS_METHOD p =
     bindE (rd_u32 p 4) (\<lambda>tcinfo. Inr (uint (drop_bit VARLENA_EXTSIZE_BITS tcinfo)))"

text \<open>\<open>TOAST_COMPRESS_SET_SIZE_AND_COMPRESS_METHOD\<close>: the \<open>tcinfo\<close> word it stores.\<close>

definition TOAST_COMPRESS_SET_SIZE_AND_COMPRESS_METHOD :: "int \<Rightarrow> int \<Rightarrow> bytes" where
  "TOAST_COMPRESS_SET_SIZE_AND_COMPRESS_METHOD len cm =
     word_le 4 (word_of_int len OR push_bit VARLENA_EXTSIZE_BITS (word_of_int cm) :: 32 word)"

record varatt_external =
  va_rawsize :: "32 word"
  va_extinfo :: "32 word"
  va_valueid :: "32 word"
  va_toastrelid :: "32 word"

definition VARATT_EXTERNAL_GET_EXTSIZE :: "varatt_external \<Rightarrow> int" where
  "VARATT_EXTERNAL_GET_EXTSIZE tp = uint (va_extinfo tp AND VARLENA_EXTSIZE_MASK)"
definition VARATT_EXTERNAL_GET_COMPRESS_METHOD :: "varatt_external \<Rightarrow> int" where
  "VARATT_EXTERNAL_GET_COMPRESS_METHOD tp = uint (drop_bit VARLENA_EXTSIZE_BITS (va_extinfo tp))"
definition VARATT_EXTERNAL_SET_SIZE_AND_COMPRESS_METHOD ::
  "varatt_external \<Rightarrow> int \<Rightarrow> int \<Rightarrow> varatt_external" where
  "VARATT_EXTERNAL_SET_SIZE_AND_COMPRESS_METHOD tp len cm =
     tp\<lparr>va_extinfo := word_of_int len OR push_bit VARLENA_EXTSIZE_BITS (word_of_int cm)\<rparr>"

text \<open>The comparison is between unsigned 32-bit values, as the macro's operand types make it.\<close>

definition VARATT_EXTERNAL_IS_COMPRESSED :: "varatt_external \<Rightarrow> bool" where
  "VARATT_EXTERNAL_IS_COMPRESSED tp \<longleftrightarrow>
     va_extinfo tp AND VARLENA_EXTSIZE_MASK < va_rawsize tp - word_of_int VARHDRSZ"

definition VARATT_EXTERNAL_GET_POINTER :: "bytes \<Rightarrow> varatt_external res" where
  "VARATT_EXTERNAL_GET_POINTER attr =
     bindE (rd_u32 attr 2) (\<lambda>a. bindE (rd_u32 attr 6) (\<lambda>b.
     bindE (rd_u32 attr 10) (\<lambda>c. bindE (rd_u32 attr 14) (\<lambda>d.
       Inr \<lparr>va_rawsize = a, va_extinfo = b, va_valueid = c, va_toastrelid = d\<rparr>))))"

text \<open>\<open>struct varatt_indirect\<close>: the address an in-memory pointer datum holds.\<close>

definition VARATT_INDIRECT_GET_POINTER :: "bytes \<Rightarrow> (64 word) res" where
  "VARATT_INDIRECT_GET_POINTER attr = rd_u64 attr 2"

text \<open>Building the external datum: \<open>SET_VARTAG_EXTERNAL\<close> followed by the \<open>memcpy\<close> of the struct.\<close>

definition external_bytes :: "varatt_external \<Rightarrow> bytes" where
  "external_bytes tp = SET_VARTAG_1B_E VARTAG_ONDISK @ word_le 4 (va_rawsize tp) @
     word_le 4 (va_extinfo tp) @ word_le 4 (va_valueid tp) @ word_le 4 (va_toastrelid tp)"

section \<open>Bit-level facts\<close>

lemma and_masks:
  "(b :: byte) AND 1 = take_bit 1 b" "(b :: byte) AND 3 = take_bit 2 b"
  "(b :: byte) AND 0x7F = take_bit 7 b" "(w :: 32 word) AND 0x3FFFFFFF = take_bit 30 w"
  "w AND VARLENA_EXTSIZE_MASK = take_bit 30 w"
  by (simp_all add: take_bit_eq_mask mask_eq_exp_minus_1 VARLENA_EXTSIZE_MASK_def
      VARLENA_EXTSIZE_BITS_def)

lemma low_bits_4b: "take_bit 2 (ucast (push_bit 2 (w :: 32 word)) :: byte) = 0"
  by (rule bit_word_eqI) (auto simp: bit_simps)

lemma low_bits_4b_c: "take_bit 2 (ucast (push_bit 2 (w :: 32 word) OR 2) :: byte) = 2"
  by (simp only: unsigned_or_eq take_bit_or low_bits_4b) simp

lemma low_bit_of_two:
  "take_bit 2 (b :: byte) = 0 \<Longrightarrow> take_bit 1 b = 0" "take_bit 2 (b :: byte) = 2 \<Longrightarrow> take_bit 1 b = 0"
  by (drule arg_cong [where f = "take_bit 1"], simp only: take_bit_take_bit, simp)+

lemma uint_take_bit_30:
  "0 \<le> n \<Longrightarrow> n < 2 ^ 30 \<Longrightarrow> uint (take_bit 30 (word_of_int n :: 32 word)) = n"
  by (simp only: unsigned_take_bit_eq uint_word_of_int)
     (simp add: take_bit_int_eq_self flip: take_bit_eq_mod)

lemma size_bits:
  "take_bit 30 (drop_bit 2 (push_bit 2 (w :: 32 word))) = take_bit 30 w"
  "take_bit 30 (drop_bit 2 (push_bit 2 (w :: 32 word) OR 2)) = take_bit 30 w"
  "take_bit 30 (v OR push_bit 30 w :: 32 word) = take_bit 30 v"
  by (rule bit_word_eqI, auto simp: bit_simps)+

lemma method_bits:
  assumes "0 \<le> n" "n < 2 ^ 30" "0 \<le> k" "k < 4"
  shows "uint (drop_bit 30 (word_of_int n OR push_bit 30 (word_of_int k) :: 32 word)) = k"
proof -
  have "uint (drop_bit 30 (word_of_int n :: 32 word)) = 0"
    using assms by (simp only: unsigned_drop_bit_eq uint_word_of_int)
      (simp add: drop_bit_eq_div take_bit_eq_mod)
  then have "drop_bit 30 (word_of_int n :: 32 word) = 0" by (simp add: uint_0_iff)
  moreover have "drop_bit 30 (push_bit 30 (word_of_int k) :: 32 word) = take_bit 2 (word_of_int k)"
    by (rule bit_word_eqI) (auto simp: bit_simps)
  ultimately have "drop_bit 30 (word_of_int n OR push_bit 30 (word_of_int k) :: 32 word)
    = take_bit 2 (word_of_int k)"
    by (simp only: drop_bit_or) simp
  also have "uint \<dots> = k"
    using assms by (simp only: unsigned_take_bit_eq uint_word_of_int)
      (simp add: take_bit_int_eq_self flip: take_bit_eq_mod)
  finally show ?thesis .
qed

section \<open>Well-formed datums\<close>

text \<open>The three in-line forms of a value, as the setters lay them out: plain with a 4-byte
  header, plain with a 1-byte header, compressed in line.\<close>

definition mk_plain :: "bytes \<Rightarrow> bytes" where
  "mk_plain d = SET_VARSIZE_4B (int (length d) + VARHDRSZ) @ d"
definition mk_short :: "bytes \<Rightarrow> bytes" where
  "mk_short d = SET_VARSIZE_1B (int (length d) + VARHDRSZ_SHORT) @ d"
definition mk_compressed :: "int \<Rightarrow> int \<Rightarrow> bytes \<Rightarrow> bytes" where
  "mk_compressed rawsize cm d = SET_VARSIZE_4B_C (int (length d) + VARHDRSZ_COMPRESSED) @
     TOAST_COMPRESS_SET_SIZE_AND_COMPRESS_METHOD rawsize cm @ d"

abbreviation fits_4b :: "bytes \<Rightarrow> bool" where
  "fits_4b d \<equiv> length d < 2 ^ 30 - 8"
abbreviation fits_short :: "bytes \<Rightarrow> bool" where
  "fits_short d \<equiv> length d < 127"

lemma length_mk [simp]:
  "length (mk_plain d) = 4 + length d"
  "length (mk_short d) = 1 + length d"
  "length (mk_compressed r cm d) = 8 + length d"
  by (simp_all add: mk_plain_def mk_short_def mk_compressed_def SET_VARSIZE_4B_def
      SET_VARSIZE_1B_def SET_VARSIZE_4B_C_def TOAST_COMPRESS_SET_SIZE_AND_COMPRESS_METHOD_def)

lemma hdr_word_le: "hdr (word_le 4 w @ r) 0 = ucast w"
  by (simp add: hdr_def word_le_def nth_append)

lemma hdr_plain: "take_bit 2 (hdr (mk_plain d @ r) 0) = 0"
  by (simp add: mk_plain_def SET_VARSIZE_4B_def hdr_word_le low_bits_4b)

lemma hdr_compressed: "take_bit 2 (hdr (mk_compressed n cm d @ r) 0) = 2"
  by (simp add: mk_compressed_def SET_VARSIZE_4B_C_def hdr_word_le low_bits_4b_c)

lemma hdr_short: "hdr (mk_short d @ r) 0 = push_bit 1 (word_of_nat (length d + 1)) OR 1"
  by (simp add: mk_short_def SET_VARSIZE_1B_def hdr_def varhdrsz add.commute)

lemma short_header:
  assumes "k < 127"
  defines "h \<equiv> push_bit 1 (word_of_nat (k + 1)) OR 1 :: byte"
  shows "h AND 1 = 1" "h \<noteq> 1" "uint (drop_bit 1 h AND 0x7F) = int k + 1" "h AND 3 \<noteq> 0" "h AND 3 \<noteq> 2"
proof -
  have "\<forall>k\<in>set [0..<127]. (let h = push_bit 1 (word_of_nat (k + 1)) OR 1 :: byte in
      h AND 1 = 1 \<and> h \<noteq> 1 \<and> uint (drop_bit 1 h AND 0x7F) = int k + 1 \<and> h AND 3 \<noteq> 0 \<and> h AND 3 \<noteq> 2)"
    by code_simp
  with assms show "h AND 1 = 1" "h \<noteq> 1" "uint (drop_bit 1 h AND 0x7F) = int k + 1"
    "h AND 3 \<noteq> 0" "h AND 3 \<noteq> 2"
    by (auto simp: Let_def)
qed

text \<open>Each form is recognised as what it is.\<close>

lemma is_plain [varatt_simps]:
  "VARATT_IS_4B_U (mk_plain d @ r)" "VARATT_IS_4B (mk_plain d @ r)"
  "\<not> VARATT_IS_4B_C (mk_plain d @ r)" "\<not> VARATT_IS_1B (mk_plain d @ r)"
  "\<not> VARATT_IS_1B_E (mk_plain d @ r)"
  using hdr_plain [of d r] low_bit_of_two(1) [OF hdr_plain, of d r]
  by (auto simp: VARATT_IS_4B_U_def VARATT_IS_4B_def VARATT_IS_4B_C_def VARATT_IS_1B_def
      VARATT_IS_1B_E_def and_masks)

lemma is_compressed [varatt_simps]:
  "\<not> VARATT_IS_4B_U (mk_compressed n cm d @ r)" "VARATT_IS_4B (mk_compressed n cm d @ r)"
  "VARATT_IS_4B_C (mk_compressed n cm d @ r)" "\<not> VARATT_IS_1B (mk_compressed n cm d @ r)"
  "\<not> VARATT_IS_1B_E (mk_compressed n cm d @ r)"
  using hdr_compressed [of n cm d r] low_bit_of_two(2) [OF hdr_compressed, of n cm d r]
  by (auto simp: VARATT_IS_4B_U_def VARATT_IS_4B_def VARATT_IS_4B_C_def VARATT_IS_1B_def
      VARATT_IS_1B_E_def and_masks)

lemma is_short [varatt_simps]:
  assumes "fits_short d"
  shows "\<not> VARATT_IS_4B_U (mk_short d @ r)" "\<not> VARATT_IS_4B_C (mk_short d @ r)"
    "VARATT_IS_1B (mk_short d @ r)" "\<not> VARATT_IS_1B_E (mk_short d @ r)"
  using short_header [of "length d"] assms
  by (auto simp: VARATT_IS_4B_U_def VARATT_IS_4B_C_def VARATT_IS_1B_def VARATT_IS_1B_E_def hdr_short)

text \<open>Sizes read back what the setters stored.\<close>

lemma rd_u32_0: "rd_u32 (word_le 4 w @ r) 0 = Inr w"
  using rd_u32_word_le [of "[]" w r] by simp

lemma rd_u32_4: "rd_u32 (word_le 4 v @ word_le 4 w @ r) 4 = Inr w"
  using rd_u32_word_le [of "word_le 4 v" w r] by simp

lemma VARSIZE_SET_VARSIZE:
  assumes "0 \<le> n" "n < 2 ^ 30"
  shows "VARSIZE_4B (SET_VARSIZE_4B n @ r) = Inr n" "VARSIZE_4B (SET_VARSIZE_4B_C n @ r) = Inr n"
  using uint_take_bit_30 [OF assms]
  by (simp_all add: VARSIZE_4B_def SET_VARSIZE_4B_def SET_VARSIZE_4B_C_def rd_u32_0 and_masks size_bits
      del: take_bit_or drop_bit_or)

lemma varsize_plain [varatt_simps]:
  "fits_4b d \<Longrightarrow> VARSIZE_4B (mk_plain d @ r) = Inr (int (length d) + 4)"
  by (simp add: mk_plain_def VARSIZE_SET_VARSIZE varhdrsz)

lemma varsize_compressed [varatt_simps]:
  "fits_4b d \<Longrightarrow> VARSIZE_4B (mk_compressed n cm d @ r) = Inr (int (length d) + 8)"
  by (simp add: mk_compressed_def VARSIZE_SET_VARSIZE varhdrsz)

lemma varsize_short [varatt_simps]:
  "fits_short d \<Longrightarrow> VARSIZE_1B (mk_short d @ r) = int (length d) + 1"
  using short_header [of "length d"] by (simp add: VARSIZE_1B_def hdr_short)

lemma tcinfo_bits:
  assumes "0 \<le> n" "n < 2 ^ 30"
  shows "uint ((word_of_int n OR push_bit 30 w :: 32 word) AND VARLENA_EXTSIZE_MASK) = n"
  by (simp only: and_masks size_bits uint_take_bit_30 [OF assms])

lemma compressed_info [varatt_simps]:
  assumes "0 \<le> n" "n < 2 ^ 30"
  shows "VARDATA_COMPRESSED_GET_EXTSIZE (mk_compressed n cm d @ r) = Inr n"
    and "0 \<le> cm \<Longrightarrow> cm < 4 \<Longrightarrow>
      VARDATA_COMPRESSED_GET_COMPRESS_METHOD (mk_compressed n cm d @ r) = Inr cm"
  unfolding VARDATA_COMPRESSED_GET_EXTSIZE_def VARDATA_COMPRESSED_GET_COMPRESS_METHOD_def
    mk_compressed_def SET_VARSIZE_4B_C_def TOAST_COMPRESS_SET_SIZE_AND_COMPRESS_METHOD_def
    VARLENA_EXTSIZE_BITS_def append_assoc rd_u32_4 bindE_simps
  using assms by (simp_all only: tcinfo_bits method_bits)

lemma external_pointer [varatt_simps]:
  "VARATT_IS_1B_E (external_bytes tp @ r)" "VARTAG_1B_E (external_bytes tp @ r) = VARTAG_ONDISK"
  "VARATT_EXTERNAL_GET_POINTER (external_bytes tp @ r) = Inr tp"
proof -
  let ?a = "word_le 4 (va_rawsize tp)" and ?b = "word_le 4 (va_extinfo tp)"
    and ?c = "word_le 4 (va_valueid tp)" and ?d = "word_le 4 (va_toastrelid tp)"
    and ?h = "SET_VARTAG_1B_E VARTAG_ONDISK"
  have "length ?h = 2" by (simp add: SET_VARTAG_1B_E_def)
  then show "VARATT_EXTERNAL_GET_POINTER (external_bytes tp @ r) = Inr tp"
    using rd_u32_word_le [of ?h "va_rawsize tp" "?b @ ?c @ ?d @ r"]
      rd_u32_word_le [of "?h @ ?a" "va_extinfo tp" "?c @ ?d @ r"]
      rd_u32_word_le [of "?h @ ?a @ ?b" "va_valueid tp" "?d @ r"]
      rd_u32_word_le [of "?h @ ?a @ ?b @ ?c" "va_toastrelid tp" r]
    by (simp add: VARATT_EXTERNAL_GET_POINTER_def external_bytes_def)
qed (simp_all add: VARATT_IS_1B_E_def VARTAG_1B_E_def external_bytes_def SET_VARTAG_1B_E_def hdr_def)

lemmas varatt_class_defs = VARATT_IS_COMPRESSED_def VARATT_IS_EXTERNAL_def
  VARATT_IS_EXTERNAL_ONDISK_def VARATT_IS_EXTERNAL_INDIRECT_def VARATT_IS_EXTERNAL_EXPANDED_def
  VARATT_IS_SHORT_def VARATT_IS_EXTENDED_def

end
