(* ===== verification/Codec.thy ===== *)
theory Codec
  imports Varatt
begin

text \<open>
  The contract between a compression method and TOAST, as an interface: what the callers in
  \<^verbatim>\<open>toast_compression.c\<close> rely on, and the facts about compressed datums that follow from it
  for every method. The run-length codec and PGLZ are shown to satisfy it in
  \<open>Toast_Compression\<close>.
\<close>

text \<open>The body shared by the datum-level decompressors: the header gives the raw size and the
  compressed size, the payload starts after eight bytes.\<close>

definition decompress_datum_with ::
  "(bytes \<Rightarrow> int \<Rightarrow> int \<Rightarrow> bool \<Rightarrow> (bytes \<times> int) res) \<Rightarrow> bytes \<Rightarrow> bytes res" where
  "decompress_datum_with decompress value =
     bindE (VARDATA_COMPRESSED_GET_EXTSIZE value) (\<lambda>extsize.
     bindE (VARSIZE_4B value) (\<lambda>varsize.
     bindE (decompress (drop 8 value) (varsize - VARHDRSZ_COMPRESSED) extsize True) (\<lambda>(dest, rawsize).
       if rawsize < 0 then Inl (Ereport ERRCODE_DATA_CORRUPTED)
       else Inr (SET_VARSIZE_4B (rawsize + VARHDRSZ) @ take (nat rawsize) dest))))"

definition decompress_slice_with ::
  "(bytes \<Rightarrow> int \<Rightarrow> int \<Rightarrow> bool \<Rightarrow> (bytes \<times> int) res) \<Rightarrow> bytes \<Rightarrow> int \<Rightarrow> bytes res" where
  "decompress_slice_with decompress value slicelength =
     bindE (VARSIZE_4B value) (\<lambda>varsize.
     bindE (decompress (drop 8 value) (varsize - VARHDRSZ_COMPRESSED) slicelength False) (\<lambda>(dest, rawsize).
       if rawsize < 0 then Inl (Ereport ERRCODE_DATA_CORRUPTED)
       else Inr (SET_VARSIZE_4B (rawsize + VARHDRSZ) @ take (nat rawsize) dest)))"

lemma drop_mk_compressed [varatt_simps]: "drop 8 (mk_compressed n cm c) = c"
  by (simp add: mk_compressed_def SET_VARSIZE_4B_C_def TOAST_COMPRESS_SET_SIZE_AND_COMPRESS_METHOD_def)

text \<open>A codec: \<open>compress\<close> gives the bytes written and their number (negative if it gave up,
  \<open>None\<close> if it did not return). Decompression never yields a wrong value (\<open>verdict\<close>), it
  yields the value on the sources the codec is \<open>lossless\<close> on (\<open>restore\<close>), and a bounded
  decompression yields at least the prefix asked for (\<open>initial\<close>).\<close>

locale codec =
  fixes compress :: "bytes \<Rightarrow> (bytes \<times> int) option"
    and decompress :: "bytes \<Rightarrow> int \<Rightarrow> int \<Rightarrow> bool \<Rightarrow> (bytes \<times> int) res"
    and lossless :: "bytes \<Rightarrow> bool"
  assumes returns: "compress d \<noteq> None"
    and size: "compress d = Some (dest, n) \<Longrightarrow> n \<le> int (length dest) \<and> n \<le> int (length d)"
    and verdict: "compress d = Some (dest, n) \<Longrightarrow> 0 \<le> n \<Longrightarrow>
      \<exists>out r. decompress (take (nat n) dest @ post) n (int (length d)) True = Inr (out, r) \<and>
        (r < 0 \<or> r = int (length d) \<and> take (length d) out = d)"
    and restore: "compress d = Some (dest, n) \<Longrightarrow> 0 \<le> n \<Longrightarrow> lossless d \<Longrightarrow>
      \<exists>out. decompress (take (nat n) dest @ post) n (int (length d)) True = Inr (out, int (length d)) \<and>
        take (length d) out = d"
    and initial: "compress d = Some (dest, n) \<Longrightarrow> 0 \<le> n \<Longrightarrow> lossless d \<Longrightarrow> k \<le> length d \<Longrightarrow>
      \<exists>out r. decompress (take (nat n) dest @ post) n (int k) False = Inr (out, r) \<and>
        int k \<le> r \<and> r \<le> int (length d) \<and> take (nat r) out = take (nat r) d"
begin

lemma payload_fits:
  "compress d = Some (dest, n) \<Longrightarrow> 0 \<le> n \<Longrightarrow> fits_4b d \<Longrightarrow>
     length (take (nat n) dest) = nat n \<and> fits_4b (take (nat n) dest)"
  using size [of d dest n] by auto

lemma datum_verdict:
  assumes "compress d = Some (dest, n)" "0 \<le> n" "fits_4b d"
  shows "decompress_datum_with decompress (mk_compressed (int (length d)) cm (take (nat n) dest) @ post)
    \<in> {Inr (mk_plain d), Inl (Ereport ERRCODE_DATA_CORRUPTED)}"
proof -
  have l: "length (take (nat n) dest) = nat n" "fits_4b (take (nat n) dest)"
    using payload_fits [OF assms] by simp_all
  obtain out r where "decompress (take (nat n) dest @ post) n (int (length d)) True = Inr (out, r)"
    "r < 0 \<or> r = int (length d) \<and> take (length d) out = d" using verdict [OF assms(1,2)] by blast
  then show ?thesis
    using assms l by (auto simp: decompress_datum_with_def varatt_simps varhdrsz mk_plain_def)
qed

lemma datum_restore:
  assumes "compress d = Some (dest, n)" "0 \<le> n" "fits_4b d" "lossless d"
  shows "decompress_datum_with decompress (mk_compressed (int (length d)) cm (take (nat n) dest) @ post)
    = Inr (mk_plain d)"
proof -
  have l: "length (take (nat n) dest) = nat n" "fits_4b (take (nat n) dest)"
    using payload_fits [OF assms(1-3)] by simp_all
  obtain out where "decompress (take (nat n) dest @ post) n (int (length d)) True
      = Inr (out, int (length d))"
    "take (length d) out = d" using restore [OF assms(1,2,4)] by blast
  then show ?thesis
    using assms l by (simp add: decompress_datum_with_def varatt_simps varhdrsz mk_plain_def)
qed

lemma datum_initial:
  assumes "compress d = Some (dest, n)" "0 \<le> n" "fits_4b d" "lossless d" "k \<le> length d"
  shows "\<exists>m. k \<le> m \<and> m \<le> length d \<and>
    decompress_slice_with decompress (mk_compressed (int (length d)) cm (take (nat n) dest) @ post) (int k)
    = Inr (mk_plain (take m d))"
proof -
  have l: "length (take (nat n) dest) = nat n" "fits_4b (take (nat n) dest)"
    using payload_fits [OF assms(1-3)] by simp_all
  obtain out r where o: "decompress (take (nat n) dest @ post) n (int k) False = Inr (out, r)"
    "int k \<le> r" "r \<le> int (length d)" "take (nat r) out = take (nat r) d"
    using initial [OF assms(1,2,4,5)] by blast
  then have "decompress_slice_with decompress
      (mk_compressed (int (length d)) cm (take (nat n) dest) @ post) (int k)
    = Inr (mk_plain (take (nat r) d))"
    using assms l by (simp add: decompress_slice_with_def varatt_simps varhdrsz mk_plain_def)
  moreover have "k \<le> nat r" "nat r \<le> length d" using o by auto
  ultimately show ?thesis by blast
qed

end

end
