(* ===== verification/Toast_Compression.thy ===== *)
theory Toast_Compression
  imports Rle_Correct Pglz_Correct Codec
begin

text \<open>
  \<^verbatim>\<open>src/backend/access/common/toast_compression.c\<close>: the three compression methods on datums, the
  ids stored in headers and the method names.

  A compressor takes the four bytes \<open>palloc\<close> left where \<open>va_tcinfo\<close> goes (\<open>tcinfo0\<close>; its
  caller sets them) and the datum; \<open>Inr None\<close> is a returned null pointer. liblz4 is not part
  of the sources: it is a parameter, \<open>None\<close> for a build without \<open>USE_LZ4\<close>.
\<close>

section \<open>Method identifiers\<close>

definition TOAST_PGLZ_COMPRESSION_ID :: int where "TOAST_PGLZ_COMPRESSION_ID = 0"
definition TOAST_LZ4_COMPRESSION_ID :: int where "TOAST_LZ4_COMPRESSION_ID = 1"
definition TOAST_INVALID_COMPRESSION_ID :: int where "TOAST_INVALID_COMPRESSION_ID = 2"
definition TOAST_RLE_COMPRESSION_ID :: int where "TOAST_RLE_COMPRESSION_ID = 3"

lemmas compression_ids = TOAST_PGLZ_COMPRESSION_ID_def TOAST_LZ4_COMPRESSION_ID_def
  TOAST_INVALID_COMPRESSION_ID_def TOAST_RLE_COMPRESSION_ID_def

definition TOAST_PGLZ_COMPRESSION :: char where "TOAST_PGLZ_COMPRESSION = CHR ''p''"
definition TOAST_LZ4_COMPRESSION :: char where "TOAST_LZ4_COMPRESSION = CHR ''l''"
definition TOAST_RLE_COMPRESSION :: char where "TOAST_RLE_COMPRESSION = CHR ''r''"
definition InvalidCompressionMethod :: char where "InvalidCompressionMethod = CHR 0x00"

lemmas compression_methods = TOAST_PGLZ_COMPRESSION_def TOAST_LZ4_COMPRESSION_def
  TOAST_RLE_COMPRESSION_def InvalidCompressionMethod_def

definition CompressionMethodIsValid :: "char \<Rightarrow> bool" where
  "CompressionMethodIsValid cm \<longleftrightarrow> cm \<noteq> InvalidCompressionMethod"

section \<open>PGLZ\<close>

definition pglz_compress_datum :: "pglz_hist \<Rightarrow> bytes \<Rightarrow> bytes \<Rightarrow> bytes option res" where
  "pglz_compress_datum hist tcinfo0 value =
     bindE (VARSIZE_ANY_EXHDR value) (\<lambda>valsize.
       if valsize < pglz_min_input_size PGLZ_strategy_default \<or>
          valsize > pglz_max_input_size PGLZ_strategy_default then Inr None
       else bindE (rd_range value (VARDATA_ANY value) (nat valsize)) (\<lambda>data.
         case pglz_compress hist data None of
           None \<Rightarrow> Inl OutOfFuel
         | Some (dest, len) \<Rightarrow>
             if len < 0 then Inr None
             else Inr (Some (SET_VARSIZE_4B_C (len + VARHDRSZ_COMPRESSED) @ tcinfo0 @ take (nat len) dest))))"

definition pglz_decompress_datum :: "bytes \<Rightarrow> bytes res" where
  "pglz_decompress_datum value =
     bindE (VARDATA_COMPRESSED_GET_EXTSIZE value) (\<lambda>extsize.
     bindE (VARSIZE_4B value) (\<lambda>varsize.
     bindE (pglz_decompress (drop 8 value) (varsize - VARHDRSZ_COMPRESSED) extsize True) (\<lambda>(dest, rawsize).
       if rawsize < 0 then Inl (Ereport ERRCODE_DATA_CORRUPTED)
       else Inr (SET_VARSIZE_4B (rawsize + VARHDRSZ) @ take (nat rawsize) dest))))"

definition pglz_decompress_datum_slice :: "bytes \<Rightarrow> int \<Rightarrow> bytes res" where
  "pglz_decompress_datum_slice value slicelength =
     bindE (VARSIZE_4B value) (\<lambda>varsize.
     bindE (pglz_decompress (drop 8 value) (varsize - VARHDRSZ_COMPRESSED) slicelength False) (\<lambda>(dest, rawsize).
       if rawsize < 0 then Inl (Ereport ERRCODE_DATA_CORRUPTED)
       else Inr (SET_VARSIZE_4B (rawsize + VARHDRSZ) @ take (nat rawsize) dest)))"

section \<open>LZ4\<close>

text \<open>The functions of liblz4 the file calls; each destination comes back with the return value.\<close>

record lz4_lib =
  LZ4_compressBound :: "int \<Rightarrow> int"
  LZ4_compress_default :: "bytes \<Rightarrow> int \<Rightarrow> bytes \<times> int"
  LZ4_decompress_safe :: "bytes \<Rightarrow> int \<Rightarrow> bytes \<times> int"
  LZ4_decompress_safe_partial :: "bytes \<Rightarrow> int \<Rightarrow> int \<Rightarrow> bytes \<times> int"
  LZ4_versionNumber :: int

definition NO_LZ4_SUPPORT :: "'a res" where
  "NO_LZ4_SUPPORT = Inl (Ereport ERRCODE_FEATURE_NOT_SUPPORTED)"

definition lz4_compress_datum :: "lz4_lib option \<Rightarrow> bytes \<Rightarrow> bytes \<Rightarrow> bytes option res" where
  "lz4_compress_datum lz4 tcinfo0 value =
     (case lz4 of None \<Rightarrow> NO_LZ4_SUPPORT
      | Some lib \<Rightarrow>
          bindE (VARSIZE_ANY_EXHDR value) (\<lambda>valsize.
          bindE (rd_range value (VARDATA_ANY value) (nat valsize)) (\<lambda>data.
            let max_size = LZ4_compressBound lib valsize;
                (dest, len) = LZ4_compress_default lib data max_size
            in if len \<le> 0 then Inl (Ereport ERRCODE_INTERNAL_ERROR)
               else if len > valsize then Inr None
               else Inr (Some (SET_VARSIZE_4B_C (len + VARHDRSZ_COMPRESSED) @ tcinfo0 @
                      take (nat len) dest)))))"

definition lz4_decompress_datum :: "lz4_lib option \<Rightarrow> bytes \<Rightarrow> bytes res" where
  "lz4_decompress_datum lz4 value =
     (case lz4 of None \<Rightarrow> NO_LZ4_SUPPORT
      | Some lib \<Rightarrow>
          bindE (VARDATA_COMPRESSED_GET_EXTSIZE value) (\<lambda>extsize.
          bindE (VARSIZE_4B value) (\<lambda>varsize.
          bindE (rd_range value 8 (nat (varsize - VARHDRSZ_COMPRESSED))) (\<lambda>data.
            let (dest, rawsize) = LZ4_decompress_safe lib data extsize
            in if rawsize < 0 then Inl (Ereport ERRCODE_DATA_CORRUPTED)
               else Inr (SET_VARSIZE_4B (rawsize + VARHDRSZ) @ take (nat rawsize) dest)))))"

definition lz4_decompress_datum_slice :: "lz4_lib option \<Rightarrow> bytes \<Rightarrow> int \<Rightarrow> bytes res" where
  "lz4_decompress_datum_slice lz4 value slicelength =
     (case lz4 of None \<Rightarrow> NO_LZ4_SUPPORT
      | Some lib \<Rightarrow>
          if LZ4_versionNumber lib < 10803 then lz4_decompress_datum lz4 value
          else
            bindE (VARSIZE_4B value) (\<lambda>varsize.
            bindE (rd_range value 8 (nat (varsize - VARHDRSZ_COMPRESSED))) (\<lambda>data.
              let (dest, rawsize) = LZ4_decompress_safe_partial lib data slicelength slicelength
              in if rawsize < 0 then Inl (Ereport ERRCODE_DATA_CORRUPTED)
                 else Inr (SET_VARSIZE_4B (rawsize + VARHDRSZ) @ take (nat rawsize) dest))))"

section \<open>Ids and names\<close>

definition toast_get_compression_id :: "bytes \<Rightarrow> int res" where
  "toast_get_compression_id attr =
     (if VARATT_IS_EXTERNAL_ONDISK attr then
        bindE (VARATT_EXTERNAL_GET_POINTER attr) (\<lambda>toast_pointer.
          if VARATT_EXTERNAL_IS_COMPRESSED toast_pointer
          then Inr (VARATT_EXTERNAL_GET_COMPRESS_METHOD toast_pointer)
          else Inr TOAST_INVALID_COMPRESSION_ID)
      else if VARATT_IS_COMPRESSED attr then VARDATA_COMPRESSED_GET_COMPRESS_METHOD attr
      else Inr TOAST_INVALID_COMPRESSION_ID)"

definition CompressionNameToMethod :: "bool \<Rightarrow> string \<Rightarrow> char res" where
  "CompressionNameToMethod use_lz4 compression =
     (if compression = ''pglz'' then Inr TOAST_PGLZ_COMPRESSION
      else if compression = ''rle'' then Inr TOAST_RLE_COMPRESSION
      else if compression = ''lz4'' then
        (if \<not> use_lz4 then NO_LZ4_SUPPORT else Inr TOAST_LZ4_COMPRESSION)
      else Inr InvalidCompressionMethod)"

definition GetCompressionMethodName :: "char \<Rightarrow> string res" where
  "GetCompressionMethodName cm =
     (if cm = TOAST_PGLZ_COMPRESSION then Inr ''pglz''
      else if cm = TOAST_LZ4_COMPRESSION then Inr ''lz4''
      else if cm = TOAST_RLE_COMPRESSION then Inr ''rle''
      else Inl (Ereport ERRCODE_INTERNAL_ERROR))"

section \<open>RLE\<close>

definition rle_compress_datum :: "bytes \<Rightarrow> bytes \<Rightarrow> bytes option res" where
  "rle_compress_datum tcinfo0 value =
     bindE (VARSIZE_ANY_EXHDR value) (\<lambda>valsize.
       if valsize < min_input_size RLE_strategy_default \<or>
          valsize > max_input_size RLE_strategy_default then Inr None
       else bindE (rd_range value (VARDATA_ANY value) (nat valsize)) (\<lambda>data.
         let (dest, len) = rle_compress data None
         in if len < 0 then Inr None
            else Inr (Some (SET_VARSIZE_4B_C (len + VARHDRSZ_COMPRESSED) @ tcinfo0 @
                   take (nat len) dest))))"

definition rle_decompress_datum :: "bytes \<Rightarrow> bytes res" where
  "rle_decompress_datum value =
     bindE (VARDATA_COMPRESSED_GET_EXTSIZE value) (\<lambda>extsize.
     bindE (VARSIZE_4B value) (\<lambda>varsize.
     bindE (rle_decompress (drop 8 value) (varsize - VARHDRSZ_COMPRESSED) extsize True) (\<lambda>(dest, rawsize).
       if rawsize < 0 then Inl (Ereport ERRCODE_DATA_CORRUPTED)
       else Inr (SET_VARSIZE_4B (rawsize + VARHDRSZ) @ take (nat rawsize) dest))))"

definition rle_decompress_datum_slice :: "bytes \<Rightarrow> int \<Rightarrow> bytes res" where
  "rle_decompress_datum_slice value slicelength =
     bindE (VARSIZE_4B value) (\<lambda>varsize.
     bindE (rle_decompress (drop 8 value) (varsize - VARHDRSZ_COMPRESSED) slicelength False) (\<lambda>(dest, rawsize).
       if rawsize < 0 then Inl (Ereport ERRCODE_DATA_CORRUPTED)
       else Inr (SET_VARSIZE_4B (rawsize + VARHDRSZ) @ take (nat rawsize) dest)))"

section \<open>Both methods are codecs\<close>

lemma decompress_datum_bodies:
  "pglz_decompress_datum = decompress_datum_with pglz_decompress"
  "rle_decompress_datum = decompress_datum_with rle_decompress"
  "pglz_decompress_datum_slice = decompress_slice_with pglz_decompress"
  "rle_decompress_datum_slice = decompress_slice_with rle_decompress"
  by (intro ext; simp add: pglz_decompress_datum_def rle_decompress_datum_def
      pglz_decompress_datum_slice_def rle_decompress_datum_slice_def
      decompress_datum_with_def decompress_slice_with_def)+

interpretation pglz: codec "\<lambda>d. pglz_compress hist d None" pglz_decompress "\<lambda>d. True"
  for hist
proof
  fix d dest n post
  obtain dest' n' where "pglz_compress hist d None = Some (dest', n')" 
    by (cases rule: pglz_compress_cases [of hist d None]) auto
  then show "pglz_compress hist d None \<noteq> None" by simp
  assume c: "pglz_compress hist d None = Some (dest, n)"
  show "n \<le> int (length dest) \<and> n \<le> int (length d)"
    using pglz_compress_result_size [OF c] .
  assume n: "0 \<le> n"
  obtain gs where s: "n = int (length dest)" "stream_of dest gs d"
    using pglz_compress_stream [OF c n] by blast
  have full: "pglz_decompress (take (nat n) dest @ post) n (int (length d)) True = Inr (d, int (length d))"
    using pglz_decompress_stream [OF s(2), of post] s(1) by simp
  then show "\<exists>out r. pglz_decompress (take (nat n) dest @ post) n (int (length d)) True = Inr (out, r) \<and>
      (r < 0 \<or> r = int (length d) \<and> take (length d) out = d)" by simp
  show "\<exists>out. pglz_decompress (take (nat n) dest @ post) n (int (length d)) True
      = Inr (out, int (length d)) \<and> take (length d) out = d" using full by simp
  fix k assume k: "k \<le> length d"
  have "pglz_decompress (take (nat n) dest @ post) n (int k) False = Inr (take k d, int k)"
    using pglz_decompress_slice_stream [OF s(2) k, of "length dest" post] s(1)
    by (simp add: pglz_maximum_compressed_size_def Let_def)
  then show "\<exists>out r. pglz_decompress (take (nat n) dest @ post) n (int k) False = Inr (out, r) \<and>
      int k \<le> r \<and> r \<le> int (length d) \<and> take (nat r) out = take (nat r) d"
    using k by auto
qed

interpretation rle: codec "\<lambda>d. Some (rle_compress d None)" rle_decompress "runs_in_windows 128"
proof
  fix d dest n post
  show "Some (rle_compress d None) \<noteq> None" by simp
  assume "Some (rle_compress d None) = Some (dest, n)"
  then have c: "rle_compress d None = (dest, n)" by simp
  show "n \<le> int (length dest) \<and> n \<le> int (length d)"
    using rle_compress_result_size [OF c] .
  assume n: "0 \<le> n"
  obtain ts where ts: "toks_ok ts" "dest = enc ts @ [0]" "n = int (length (enc ts))"
    "subseq (dec ts) d" "runs_in_windows 128 d \<longrightarrow> dec ts = d"
    using rle_compress_payload [OF c n] by metis
  have src: "rle_decompress (take (nat n) dest @ post) n =
      rle_decompress (enc ts @ post) (int (length (enc ts)))" by (simp add: ts)
  have all: "tok_prefix (int (length d)) ts = ts"
    using ts(1) list_emb_length [OF ts(4)] by (simp add: tok_prefix_all)
  have "dec ts = d" if "length (dec ts) = length d"
    using ts(4) that by (simp add: subseq_same_length)
  then show "\<exists>out r. rle_decompress (take (nat n) dest @ post) n (int (length d)) True = Inr (out, r) \<and>
      (r < 0 \<or> r = int (length d) \<and> take (length d) out = d)"
    unfolding src using ts(1) all by (auto simp: rle_decompress_enc)
  assume w: "runs_in_windows 128 d"
  then have d: "dec ts = d" using ts(5) by simp
  show "\<exists>out. rle_decompress (take (nat n) dest @ post) n (int (length d)) True
      = Inr (out, int (length d)) \<and> take (length d) out = d"
    unfolding src using ts(1) all d by (auto simp: rle_decompress_enc)
  fix k assume k: "k \<le> length d"
  let ?out = "dec (tok_prefix (int k) ts)"
  obtain rest where rest: "d = ?out @ rest" "rest \<noteq> [] \<longrightarrow> int k \<le> int (length ?out)"
    using tok_prefix_dec [OF ts(1), of "int k"] d by auto
  have "int k \<le> int (length ?out)" using rest k by (cases "rest = []") auto
  then show "\<exists>out r. rle_decompress (take (nat n) dest @ post) n (int k) False = Inr (out, r) \<and>
      int k \<le> r \<and> r \<le> int (length d) \<and> take (nat r) out = take (nat r) d"
    unfolding src rle_decompress_enc [OF ts(1)]
    by (subst (1 2) rest(1)) (simp add: Let_def)
qed

end
