(* ===== verification/Toast_Store.thy ===== *)
theory Toast_Store
  imports Toast_Compression
begin

text \<open>
  Compressing datums and storing them out of line: \<^verbatim>\<open>toast_internals.c\<close> and
  \<open>heap_fetch_toast_slice\<close> of \<^verbatim>\<open>heaptoast.c\<close>.

  A TOAST table is the list of its rows (chunk id, sequence number, chunk datum) in heap order,
  with the \<open>indisvalid\<close> flags of its indexes. An ordered index scan returns the matching rows
  sorted by sequence number. Locks, snapshots and the heap and index access methods are not
  modelled: a stored row is visible, a deleted one is gone. The value OIDs that successive calls
  of \<open>GetNewOidWithIndex\<close> return are a parameter.
\<close>

section \<open>toast\_compress\_datum\<close>

record compression_env =
  default_toast_compression :: char
  env_lz4 :: "lz4_lib option"
  env_hist :: pglz_hist
  env_tcinfo0 :: bytes

text \<open>\<open>VARSIZE(tmp) < valsize - 2\<close> compares unsigned 32-bit numbers.\<close>

definition toast_compress_datum :: "compression_env \<Rightarrow> bytes \<Rightarrow> char \<Rightarrow> bytes option res" where
  "toast_compress_datum env value cmethod =
     bindE (VARSIZE_ANY_EXHDR value) (\<lambda>valsize.
       let cmethod = (if \<not> CompressionMethodIsValid cmethod then default_toast_compression env
                      else cmethod) in
       bindE (if cmethod = TOAST_PGLZ_COMPRESSION then
                bindE (pglz_compress_datum (env_hist env) (env_tcinfo0 env) value) (\<lambda>tmp.
                  Inr (tmp, TOAST_PGLZ_COMPRESSION_ID))
              else if cmethod = TOAST_LZ4_COMPRESSION then
                bindE (lz4_compress_datum (env_lz4 env) (env_tcinfo0 env) value) (\<lambda>tmp.
                  Inr (tmp, TOAST_LZ4_COMPRESSION_ID))
              else if cmethod = TOAST_RLE_COMPRESSION then
                bindE (rle_compress_datum (env_tcinfo0 env) value) (\<lambda>tmp.
                  Inr (tmp, TOAST_RLE_COMPRESSION_ID))
              else Inl (Ereport ERRCODE_INTERNAL_ERROR)) (\<lambda>(tmp, cmid).
         case tmp of
           None \<Rightarrow> Inr None
         | Some tmp \<Rightarrow>
             bindE (VARSIZE_4B tmp) (\<lambda>varsize.
               if varsize < uint (word_of_int (valsize - 2) :: 32 word) then
                 Inr (Some (take 4 tmp @ TOAST_COMPRESS_SET_SIZE_AND_COMPRESS_METHOD valsize cmid @
                        drop 8 tmp))
               else Inr None)))"

section \<open>TOAST tables\<close>

type_synonym oid = "32 word"

definition InvalidOid :: oid where "InvalidOid = 0"
definition OidIsValid :: "oid \<Rightarrow> bool" where "OidIsValid objectId \<longleftrightarrow> objectId \<noteq> InvalidOid"

definition TOAST_MAX_CHUNK_SIZE :: int where "TOAST_MAX_CHUNK_SIZE = 1996"

record toast_chunk =
  chunk_id :: oid
  chunk_seq :: int
  chunk_data :: bytes

record toast_rel =
  tr_rows :: "toast_chunk list"
  tr_indexes :: "bool list"

type_synonym toast_store = "oid \<Rightarrow> toast_rel option"

record heap_rel =
  reltoastrelid :: oid
  rd_toastoid :: oid

definition table_open :: "toast_store \<Rightarrow> oid \<Rightarrow> toast_rel res" where
  "table_open store relid =
     (case store relid of None \<Rightarrow> Inl (Ereport ERRCODE_INTERNAL_ERROR) | Some rel \<Rightarrow> Inr rel)"

fun first_valid :: "bool list \<Rightarrow> nat \<Rightarrow> nat option" where
  "first_valid [] i = None"
| "first_valid (indisvalid # xs) i = (if indisvalid then Some i else first_valid xs (i + 1))"

definition toast_open_indexes :: "toast_rel \<Rightarrow> nat res" where
  "toast_open_indexes toastrel =
     (case first_valid (tr_indexes toastrel) 0 of
        None \<Rightarrow> Inl (Ereport ERRCODE_INTERNAL_ERROR) | Some i \<Rightarrow> Inr i)"

text \<open>\<open>systable_beginscan_ordered\<close> on the (chunk id, chunk seq) index.\<close>

definition scan_ordered :: "toast_rel \<Rightarrow> (toast_chunk \<Rightarrow> bool) \<Rightarrow> toast_chunk list" where
  "scan_ordered toastrel key = sort_key chunk_seq (filter key (tr_rows toastrel))"

definition toastrel_valueid_exists :: "toast_rel \<Rightarrow> oid \<Rightarrow> bool res" where
  "toastrel_valueid_exists toastrel valueid =
     bindE (toast_open_indexes toastrel) (\<lambda>validIndex.
       Inr (\<exists>c \<in> set (tr_rows toastrel). chunk_id c = valueid))"

definition toastid_valueid_exists :: "toast_store \<Rightarrow> oid \<Rightarrow> oid \<Rightarrow> bool res" where
  "toastid_valueid_exists store toastrelid valueid =
     bindE (table_open store toastrelid) (\<lambda>toastrel. toastrel_valueid_exists toastrel valueid)"

section \<open>toast\_save\_datum\<close>

text \<open>The loop that splits the data into chunks; \<open>data_p\<close> is the memory from the data
  pointer on.\<close>

function toast_save_chunks ::
  "oid \<Rightarrow> int \<Rightarrow> bytes \<Rightarrow> int \<Rightarrow> toast_chunk list \<Rightarrow> toast_chunk list res" where
  "toast_save_chunks valueid seqno data_p data_todo rows =
     (if data_todo > 0 then
        let chunk_size = min TOAST_MAX_CHUNK_SIZE data_todo in
        bindE (rd_range data_p 0 (nat chunk_size)) (\<lambda>d.
          toast_save_chunks valueid (seqno + 1) (drop (nat chunk_size) data_p)
            (data_todo - chunk_size)
            (rows @ [\<lparr>chunk_id = valueid, chunk_seq = seqno,
                      chunk_data = SET_VARSIZE_4B (chunk_size + VARHDRSZ) @ d\<rparr>]))
      else Inr rows)"
  by pat_completeness auto
termination
  by (relation "measure (\<lambda>(v, s, p, todo, rows). nat todo)") (auto simp: TOAST_MAX_CHUNK_SIZE_def)

declare toast_save_chunks.simps [simp del]

text \<open>The \<open>do ... while (toastid_valueid_exists(...))\<close> loop over the OIDs offered.\<close>

fun toast_new_oid :: "toast_store \<Rightarrow> oid \<Rightarrow> oid list \<Rightarrow> oid res" where
  "toast_new_oid store toastoid [] = Inl OutOfFuel"
| "toast_new_oid store toastoid (new # oids) =
     bindE (toastid_valueid_exists store toastoid new) (\<lambda>exists.
       if exists then toast_new_oid store toastoid oids else Inr new)"

text \<open>Choosing the value OID: the OID and whether its data is stored already.\<close>

definition toast_choose_valueid ::
  "toast_store \<Rightarrow> heap_rel \<Rightarrow> oid list \<Rightarrow> toast_rel \<Rightarrow> bytes option \<Rightarrow> (oid \<times> bool) res" where
  "toast_choose_valueid store rel oids toastrel oldexternal =
     (if \<not> OidIsValid (rd_toastoid rel) then
        (case oids of [] \<Rightarrow> Inl OutOfFuel | new # _ \<Rightarrow> Inr (new, False))
      else
        bindE (case oldexternal of
            None \<Rightarrow> Inr (InvalidOid, False)
          | Some old \<Rightarrow>
              bindE (VARATT_EXTERNAL_GET_POINTER old) (\<lambda>old_toast_pointer.
                if va_toastrelid old_toast_pointer = rd_toastoid rel then
                  bindE (toastrel_valueid_exists toastrel (va_valueid old_toast_pointer)) (\<lambda>exists.
                    Inr (va_valueid old_toast_pointer, exists))
                else Inr (InvalidOid, False))) (\<lambda>(valueid, present).
          if valueid = InvalidOid then
            bindE (toast_new_oid store (rd_toastoid rel) oids) (\<lambda>new. Inr (new, present))
          else Inr (valueid, present)))"

text \<open>The data pointer (as an offset), the size to store, \<open>va_rawsize\<close> and \<open>va_extinfo\<close>.\<close>

definition toast_save_sizes :: "bytes \<Rightarrow> (nat \<times> int \<times> 32 word \<times> 32 word) res" where
  "toast_save_sizes dval =
     (if VARATT_IS_SHORT dval then
        let data_todo = VARSIZE_1B dval - VARHDRSZ_SHORT
        in Inr (1, data_todo, word_of_int (data_todo + VARHDRSZ), word_of_int data_todo)
      else if VARATT_IS_COMPRESSED dval then
        bindE (VARSIZE_4B dval) (\<lambda>varsize.
        bindE (VARDATA_COMPRESSED_GET_EXTSIZE dval) (\<lambda>extsize.
        bindE (VARDATA_COMPRESSED_GET_COMPRESS_METHOD dval) (\<lambda>cm.
          Inr (4, varsize - VARHDRSZ, word_of_int (extsize + VARHDRSZ),
               word_of_int (varsize - VARHDRSZ) OR push_bit VARLENA_EXTSIZE_BITS (word_of_int cm)))))
      else
        bindE (VARSIZE_4B dval) (\<lambda>varsize.
          Inr (4, varsize - VARHDRSZ, word_of_int varsize, word_of_int (varsize - VARHDRSZ))))"

definition toast_save_datum ::
  "toast_store \<Rightarrow> heap_rel \<Rightarrow> oid list \<Rightarrow> bytes \<Rightarrow> bytes option \<Rightarrow> (toast_store \<times> bytes) res" where
  "toast_save_datum store rel oids dval oldexternal =
     bindE (table_open store (reltoastrelid rel)) (\<lambda>toastrel.
     bindE (toast_open_indexes toastrel) (\<lambda>validIndex.
     bindE (toast_save_sizes dval) (\<lambda>(data_p, data_todo, rawsize, extinfo).
       let toastrelid = (if OidIsValid (rd_toastoid rel) then rd_toastoid rel else reltoastrelid rel) in
     bindE (toast_choose_valueid store rel oids toastrel oldexternal) (\<lambda>(valueid, present).
       let data_todo = (if present then 0 else data_todo) in
     bindE (toast_save_chunks valueid 0 (drop data_p dval) data_todo (tr_rows toastrel)) (\<lambda>rows.
       Inr (store(reltoastrelid rel \<mapsto> toastrel\<lparr>tr_rows := rows\<rparr>),
            external_bytes \<lparr>va_rawsize = rawsize, va_extinfo = extinfo,
              va_valueid = valueid, va_toastrelid = toastrelid\<rparr>))))))"

section \<open>toast\_delete\_datum\<close>

text \<open>Every chunk the scan finds is removed, by \<open>heap_abort_speculative\<close> or
  \<open>simple_heap_delete\<close>.\<close>

definition toast_delete_datum :: "toast_store \<Rightarrow> bytes \<Rightarrow> bool \<Rightarrow> toast_store res" where
  "toast_delete_datum store attr is_speculative =
     (if \<not> VARATT_IS_EXTERNAL_ONDISK attr then Inr store
      else
        bindE (VARATT_EXTERNAL_GET_POINTER attr) (\<lambda>toast_pointer.
        bindE (table_open store (va_toastrelid toast_pointer)) (\<lambda>toastrel.
        bindE (toast_open_indexes toastrel) (\<lambda>validIndex.
          let scan = scan_ordered toastrel (\<lambda>c. chunk_id c = va_valueid toast_pointer) in
          Inr (store(va_toastrelid toast_pointer \<mapsto>
            toastrel\<lparr>tr_rows := filter (\<lambda>c. c \<notin> set scan) (tr_rows toastrel)\<rparr>))))))"

section \<open>heap\_fetch\_toast\_slice\<close>

text \<open>The size and data of one chunk datum.\<close>

definition toast_chunk_payload :: "bytes \<Rightarrow> (int \<times> nat) res" where
  "toast_chunk_payload chunk =
     (if \<not> VARATT_IS_EXTENDED chunk then
        bindE (VARSIZE_4B chunk) (\<lambda>varsize. Inr (varsize - VARHDRSZ, 4))
      else if VARATT_IS_SHORT chunk then Inr (VARSIZE_1B chunk - VARHDRSZ_SHORT, 1)
      else Inl (Ereport ERRCODE_INTERNAL_ERROR))"

text \<open>\<open>TOAST_MAX_CHUNK_SIZE\<close> has type \<open>size_t\<close>.\<close>

fun toast_fetch_loop :: "int \<Rightarrow> int \<Rightarrow> int \<Rightarrow> int \<Rightarrow> int \<Rightarrow> int \<Rightarrow> toast_chunk list \<Rightarrow> int \<Rightarrow> bytes \<Rightarrow>
    (int \<times> bytes) res" where
  "toast_fetch_loop attrsize totalchunks startchunk endchunk sliceoffset slicelength [] expectedchunk result
     = Inr (expectedchunk, result)"
| "toast_fetch_loop attrsize totalchunks startchunk endchunk sliceoffset slicelength (ttup # ttups)
     expectedchunk result =
     (let curchunk = chunk_seq ttup; chunk = chunk_data ttup in
      bindE (toast_chunk_payload chunk) (\<lambda>(chunksize, chunkdata).
        if curchunk \<noteq> expectedchunk then Inl (Ereport ERRCODE_DATA_CORRUPTED)
        else if curchunk > endchunk then Inl (Ereport ERRCODE_DATA_CORRUPTED)
        else
          let expected_size = (if curchunk < totalchunks - 1 then TOAST_MAX_CHUNK_SIZE
                               else to_int32 (attrsize - (totalchunks - 1) * TOAST_MAX_CHUNK_SIZE)) in
          if chunksize \<noteq> expected_size then Inl (Ereport ERRCODE_DATA_CORRUPTED)
          else
            let chcpystrt = (if curchunk = startchunk then size_mod sliceoffset TOAST_MAX_CHUNK_SIZE else 0);
                chcpyend = (if curchunk = endchunk
                            then size_mod (sliceoffset + slicelength - 1) TOAST_MAX_CHUNK_SIZE
                            else chunksize - 1)
            in bindE (rd_range chunk (chunkdata + nat chcpystrt) (nat (chcpyend - chcpystrt + 1))) (\<lambda>bs.
               bindE (buf_write result (curchunk * TOAST_MAX_CHUNK_SIZE - sliceoffset + chcpystrt) bs)
                 (\<lambda>result.
                   toast_fetch_loop attrsize totalchunks startchunk endchunk sliceoffset slicelength ttups
                     (expectedchunk + 1) result))))"

definition heap_fetch_toast_slice :: "toast_rel \<Rightarrow> oid \<Rightarrow> int \<Rightarrow> int \<Rightarrow> int \<Rightarrow> bytes \<Rightarrow> bytes res" where
  "heap_fetch_toast_slice toastrel valueid attrsize sliceoffset slicelength result =
     (let totalchunks = to_int32 ((attrsize - 1) mod 2 ^ 64 div TOAST_MAX_CHUNK_SIZE + 1) in
      bindE (toast_open_indexes toastrel) (\<lambda>validIndex.
        let startchunk = size_div sliceoffset TOAST_MAX_CHUNK_SIZE;
            endchunk = size_div (sliceoffset + slicelength - 1) TOAST_MAX_CHUNK_SIZE;
            key = (\<lambda>c. chunk_id c = valueid \<and>
              (if startchunk = 0 \<and> endchunk = totalchunks - 1 then True
               else if startchunk = endchunk then chunk_seq c = startchunk
               else startchunk \<le> chunk_seq c \<and> chunk_seq c \<le> endchunk))
        in bindE (toast_fetch_loop attrsize totalchunks startchunk endchunk sliceoffset slicelength
                    (scan_ordered toastrel key) startchunk result) (\<lambda>(expectedchunk, result).
             if expectedchunk \<noteq> endchunk + 1 then Inl (Ereport ERRCODE_DATA_CORRUPTED)
             else Inr result)))"

end
