(* ===== verification/Toast_Correct.thy ===== *)
theory Toast_Correct
  imports Toast_Store
begin

text \<open>
  What \<open>toast_compress_datum\<close> and the TOAST table operations guarantee: a compressed datum has
  the header the readers expect and is smaller than the value, and the table behaves as a map
  from value OIDs to byte strings.
\<close>

section \<open>Values\<close>

text \<open>\<open>text_datum v d\<close>: the memory \<open>v\<close> starts with an uncompressed in-line datum holding \<open>d\<close>.\<close>

definition text_datum :: "bytes \<Rightarrow> bytes \<Rightarrow> bool" where
  "text_datum v d \<longleftrightarrow> (\<exists>r. v = mk_plain d @ r \<and> fits_4b d \<or> v = mk_short d @ r \<and> fits_short d)"

lemma rd_range_plain [varatt_simps]: "rd_range (mk_plain d @ r) 4 (length d) = Inr d"
  using rd_range_at [of "SET_VARSIZE_4B (int (length d) + VARHDRSZ)" d r]
  by (simp add: mk_plain_def SET_VARSIZE_4B_def)

lemma rd_range_short [varatt_simps]: "rd_range (mk_short d @ r) (Suc 0) (length d) = Inr d"
  using rd_range_at [of "SET_VARSIZE_1B (int (length d) + VARHDRSZ_SHORT)" d r]
  by (simp add: mk_short_def SET_VARSIZE_1B_def)

lemma drop_mk [varatt_simps]: "drop 4 (mk_plain d) = d" "drop (Suc 0) (mk_short d) = d"
  by (simp_all add: mk_plain_def SET_VARSIZE_4B_def mk_short_def SET_VARSIZE_1B_def)

lemma text_datum_fits: "text_datum v d \<Longrightarrow> fits_4b d"
  by (auto simp: text_datum_def)

lemma text_datum_read:
  assumes "text_datum v d"
  shows "VARSIZE_ANY_EXHDR v = Inr (int (length d))" "rd_range v (VARDATA_ANY v) (length d) = Inr d"
    "\<not> VARATT_IS_EXTERNAL v" "\<not> VARATT_IS_COMPRESSED v"
  using assms unfolding text_datum_def
  by (auto simp: VARSIZE_ANY_EXHDR_def VARDATA_ANY_def varatt_simps varatt_class_defs varhdrsz)

section \<open>toast\_compress\_datum\<close>

text \<open>What a datum-level compressor returns for the bytes \<open>c\<close>.\<close>

abbreviation compressed_tmp :: "bytes \<Rightarrow> bytes \<Rightarrow> bytes" where
  "compressed_tmp tcinfo0 c \<equiv> SET_VARSIZE_4B_C (int (length c) + VARHDRSZ_COMPRESSED) @ tcinfo0 @ c"

lemma VARSIZE_tmp: "fits_4b c \<Longrightarrow> VARSIZE_4B (compressed_tmp t c) = Inr (int (length c) + 8)"
  by (simp add: VARSIZE_SET_VARSIZE varhdrsz)

lemma tmp_set_tcinfo:
  "length t = 4 \<Longrightarrow> take 4 (compressed_tmp t c) @ TOAST_COMPRESS_SET_SIZE_AND_COMPRESS_METHOD n cm @
     drop 8 (compressed_tmp t c) = mk_compressed n cm c"
  by (simp add: mk_compressed_def SET_VARSIZE_4B_C_def)

lemma toast_compress_finish:
  assumes "length t = 4" "fits_4b c" "2 \<le> valsize" "valsize < 2 ^ 30"
  shows "(case Some (compressed_tmp t c) of
       None \<Rightarrow> Inr None
     | Some tmp \<Rightarrow> bindE (VARSIZE_4B tmp) (\<lambda>varsize. if varsize < uint (word_of_int (valsize - 2) :: 32 word)
         then Inr (Some (take 4 tmp @ TOAST_COMPRESS_SET_SIZE_AND_COMPRESS_METHOD valsize cm @ drop 8 tmp))
         else Inr None)) =
     (if int (length c) + 8 < valsize - 2 then Inr (Some (mk_compressed valsize cm c)) else Inr None)"
proof -
  have "uint (word_of_int (valsize - 2) :: 32 word) = valsize - 2"
    by (subst uint_word_of_int) (use assms(3,4) in simp)
  then show ?thesis using assms(1,2) by (simp only: option.case VARSIZE_tmp tmp_set_tcinfo bindE_simps)
qed

text \<open>The two compressors on a well-formed value, in terms of the codecs.\<close>

lemma pglz_compress_datum_cases:
  assumes "text_datum v d"
  obtains (no) "pglz_compress_datum h t v = Inr None"
    | (yes) dest n where "pglz_compress h d None = Some (dest, n)" "0 \<le> n" "2 \<le> int (length d)"
      "pglz_compress_datum h t v = Inr (Some (compressed_tmp t (take (nat n) dest)))"
proof -
  obtain dest n where c: "pglz_compress h d None = Some (dest, n)" using pglz.returns by fastforce
  have len: "0 \<le> n \<Longrightarrow> int (length (take (nat n) dest)) = n"
    using pglz.payload_fits [OF c _ text_datum_fits [OF assms]] by auto
  have eq: "pglz_compress_datum h t v = (if int (length d) < pglz_min_input_size PGLZ_strategy_default \<or>
          int (length d) > pglz_max_input_size PGLZ_strategy_default \<or> n < 0 then Inr None
       else Inr (Some (compressed_tmp t (take (nat n) dest))))"
    unfolding pglz_compress_datum_def text_datum_read [OF assms] bindE_simps
    using text_datum_read(2) [OF assms] c len by (simp del: length_take)
  show thesis
    by (cases "int (length d) < pglz_min_input_size PGLZ_strategy_default \<or>
          int (length d) > pglz_max_input_size PGLZ_strategy_default \<or> n < 0")
       (use eq c no yes in \<open>auto simp: PGLZ_strategy_default_def simp del: length_take\<close>)
qed

lemma rle_compress_datum_cases:
  assumes "text_datum v d"
  obtains (no) "rle_compress_datum t v = Inr None"
    | (yes) dest n where "rle_compress d None = (dest, n)" "0 \<le> n" "2 \<le> int (length d)"
      "rle_compress_datum t v = Inr (Some (compressed_tmp t (take (nat n) dest)))"
proof -
  obtain dest n where c: "rle_compress d None = (dest, n)" by fastforce
  then have c': "Some (rle_compress d None) = Some (dest, n)" by simp
  have len: "0 \<le> n \<Longrightarrow> int (length (take (nat n) dest)) = n"
    using rle.payload_fits [OF c' _ text_datum_fits [OF assms]] by auto
  have eq: "rle_compress_datum t v = (if int (length d) < min_input_size RLE_strategy_default \<or>
          int (length d) > max_input_size RLE_strategy_default \<or> n < 0 then Inr None
       else Inr (Some (compressed_tmp t (take (nat n) dest))))"
    unfolding rle_compress_datum_def text_datum_read [OF assms] bindE_simps
    using text_datum_read(2) [OF assms] c len by (simp del: length_take)
  show thesis
    by (cases "int (length d) < min_input_size RLE_strategy_default \<or>
          int (length d) > max_input_size RLE_strategy_default \<or> n < 0")
       (use eq c no yes in \<open>auto simp: RLE_strategy_default_def simp del: length_take\<close>)
qed

text \<open>The method a call of \<open>toast_compress_datum\<close> uses.\<close>

abbreviation chosen_method :: "compression_env \<Rightarrow> char \<Rightarrow> char" where
  "chosen_method env cm \<equiv> if CompressionMethodIsValid cm then cm else default_toast_compression env"

lemma toast_compress_pglz:
  assumes v: "text_datum v d" and t: "length (env_tcinfo0 env) = 4"
    and m: "chosen_method env cm = TOAST_PGLZ_COMPRESSION"
  obtains (no) "toast_compress_datum env v cm = Inr None"
    | (yes) dest n where "pglz_compress (env_hist env) d None = Some (dest, n)" "0 \<le> n"
      "n + 10 < int (length d)"
      "toast_compress_datum env v cm =
         Inr (Some (mk_compressed (int (length d)) TOAST_PGLZ_COMPRESSION_ID (take (nat n) dest)))"
proof (cases rule: pglz_compress_datum_cases [OF v, of "env_hist env" "env_tcinfo0 env", case_names no yes])
  case no
  then show thesis
    using that(1) m text_datum_read(1) [OF v]
    by (simp add: toast_compress_datum_def Let_def compression_methods split: if_splits)
next
  case (yes dest n)
  let ?c = "take (nat n) dest"
  have f: "length ?c = nat n" "fits_4b ?c"
    using pglz.payload_fits [OF yes(1,2) text_datum_fits [OF v]] by simp_all
  have small: "int (length d) < 2 ^ 30" using text_datum_fits [OF v] by simp
  have m': "(if \<not> CompressionMethodIsValid cm then default_toast_compression env else cm) =
      TOAST_PGLZ_COMPRESSION" using m by (simp split: if_splits)
  have "toast_compress_datum env v cm = (if int (length ?c) + 8 < int (length d) - 2
      then Inr (Some (mk_compressed (int (length d)) TOAST_PGLZ_COMPRESSION_ID ?c)) else Inr None)"
    unfolding toast_compress_finish [OF t f(2) yes(3) small, symmetric] toast_compress_datum_def
      text_datum_read(1) [OF v] bindE_simps Let_def m'
    using yes(4) by simp
  then show thesis
    using that yes(1,2) f(1) by (cases "n + 10 < int (length d)") auto
qed

lemma toast_compress_rle:
  assumes v: "text_datum v d" and t: "length (env_tcinfo0 env) = 4"
    and m: "chosen_method env cm = TOAST_RLE_COMPRESSION"
  obtains (no) "toast_compress_datum env v cm = Inr None"
    | (yes) dest n where "rle_compress d None = (dest, n)" "0 \<le> n"
      "n + 10 < int (length d)"
      "toast_compress_datum env v cm =
         Inr (Some (mk_compressed (int (length d)) TOAST_RLE_COMPRESSION_ID (take (nat n) dest)))"
proof (cases rule: rle_compress_datum_cases [OF v, of "env_tcinfo0 env", case_names no yes])
  case no
  then show thesis
    using that(1) m text_datum_read(1) [OF v]
    by (simp add: toast_compress_datum_def Let_def compression_methods split: if_splits)
next
  case (yes dest n)
  let ?c = "take (nat n) dest"
  have f: "length ?c = nat n" "fits_4b ?c"
    using rle.payload_fits [OF _ yes(2) text_datum_fits [OF v], of dest] yes(1) by simp_all
  have small: "int (length d) < 2 ^ 30" using text_datum_fits [OF v] by simp
  have m': "(if \<not> CompressionMethodIsValid cm then default_toast_compression env else cm) =
      TOAST_RLE_COMPRESSION" using m by (simp split: if_splits)
  have "toast_compress_datum env v cm = (if int (length ?c) + 8 < int (length d) - 2
      then Inr (Some (mk_compressed (int (length d)) TOAST_RLE_COMPRESSION_ID ?c)) else Inr None)"
    unfolding toast_compress_finish [OF t f(2) yes(3) small, symmetric] toast_compress_datum_def
      text_datum_read(1) [OF v] bindE_simps Let_def m'
    using yes(4) by (simp add: compression_methods)
  then show thesis
    using that yes(1,2) f(1) by (cases "n + 10 < int (length d)") auto
qed

section \<open>Chunks\<close>

abbreviation max_chunk :: nat where "max_chunk \<equiv> 1996"

definition chunk_of :: "oid \<Rightarrow> bytes \<Rightarrow> nat \<Rightarrow> toast_chunk" where
  "chunk_of vid data i = \<lparr>chunk_id = vid, chunk_seq = int i,
     chunk_data = mk_plain (take max_chunk (drop (i * max_chunk) data))\<rparr>"

definition nchunks :: "bytes \<Rightarrow> nat" where
  "nchunks data = (length data + (max_chunk - 1)) div max_chunk"

definition chunks :: "oid \<Rightarrow> bytes \<Rightarrow> toast_chunk list" where
  "chunks vid data = map (chunk_of vid data) [0..<nchunks data]"

lemma chunk_of_sel [simp]: "chunk_id (chunk_of vid data i) = vid" "chunk_seq (chunk_of vid data i) = int i"
  by (simp_all add: chunk_of_def)

lemma nchunks_iff: "i < nchunks data \<longleftrightarrow> i * max_chunk < length data"
  unfolding nchunks_def by linarith

text \<open>The table as a map: \<open>stored rel vid data\<close>.\<close>

definition stored :: "toast_rel \<Rightarrow> oid \<Rightarrow> bytes \<Rightarrow> bool" where
  "stored rel vid data \<longleftrightarrow> scan_ordered rel (\<lambda>c. chunk_id c = vid) = chunks vid data"

definition has_valid_index :: "toast_rel \<Rightarrow> bool" where
  "has_valid_index rel \<longleftrightarrow> True \<in> set (tr_indexes rel)"

lemma first_valid_Some: "True \<in> set xs \<Longrightarrow> \<exists>j. first_valid xs i = Some j"
  by (induction xs arbitrary: i) auto

lemma toast_open_indexes_valid: "has_valid_index rel \<Longrightarrow> \<exists>i. toast_open_indexes rel = Inr i"
  using first_valid_Some [of "tr_indexes rel" 0]
  by (auto simp: has_valid_index_def toast_open_indexes_def)

lemma toast_open_indexes_update [simp]:
  "toast_open_indexes (rel\<lparr>tr_rows := rows\<rparr>) = toast_open_indexes rel"
  by (simp add: toast_open_indexes_def)

section \<open>Saving\<close>

lemma toast_save_chunks_run:
  assumes "i \<le> nchunks data"
  shows "toast_save_chunks vid (int i) (drop (i * max_chunk) data @ r) (int (length data - i * max_chunk)) rows
    = Inr (rows @ map (chunk_of vid data) [i..<nchunks data])"
  using assms
proof (induction "nchunks data - i" arbitrary: i rows)
  case 0
  then have "i = nchunks data" by simp
  then have "length data - i * max_chunk = 0" using nchunks_iff [of i data] by simp
  with \<open>i = nchunks data\<close> show ?case by (subst toast_save_chunks.simps) simp
next
  case (Suc k)
  then have i: "i < nchunks data" "i * max_chunk < length data" using nchunks_iff [of i data] by auto
  define n where "n = min max_chunk (length data - i * max_chunk)"
  define d where "d = take max_chunk (drop (i * max_chunk) data)"
  have d: "length d = n" "take n (drop (i * max_chunk) data) = d"
    using i(2) by (simp_all add: n_def d_def min_def)
  have sz: "min TOAST_MAX_CHUNK_SIZE (int (length data - i * max_chunk)) = int n"
    by (simp add: n_def TOAST_MAX_CHUNK_SIZE_def of_nat_min)
  have todo: "int (length data - i * max_chunk) - int n = int (length data - (i + 1) * max_chunk)"
    using i(2) by (simp add: n_def min_def)
  have rest: "drop n (drop (i * max_chunk) data @ r) = drop ((i + 1) * max_chunk) data @ r"
    if "i + 1 < nchunks data"
    using that nchunks_iff [of "i + 1" data] by (simp add: n_def min_def add.commute)
  have rd: "rd_range (drop (i * max_chunk) data @ r) 0 n = Inr d"
    using i(2) d by (simp add: rd_range_def n_def min_def split: if_splits)
  have ch: "\<lparr>chunk_id = vid, chunk_seq = int i, chunk_data = SET_VARSIZE_4B (int n + VARHDRSZ) @ d\<rparr>
      = chunk_of vid data i"
    using d(1) by (simp add: chunk_of_def mk_plain_def d_def [symmetric])
  have step: "toast_save_chunks vid (int i) (drop (i * max_chunk) data @ r)
       (int (length data - i * max_chunk)) rows =
     toast_save_chunks vid (int (i + 1)) (drop n (drop (i * max_chunk) data @ r))
       (int (length data - (i + 1) * max_chunk)) (rows @ [chunk_of vid data i])"
    using i(2) by (subst toast_save_chunks.simps)
      (simp only: Let_def sz nat_int rd bindE_simps ch todo, simp add: add.commute)
  show ?case
  proof (cases "i + 1 < nchunks data")
    case True
    show ?thesis
      unfolding step rest [OF True]
      using Suc.hyps(1) [of "i + 1" "rows @ [chunk_of vid data i]"] Suc.hyps(2) True i(1)
      by (simp add: upt_conv_Cons)
  next
    case False
    then have "length data - (i + 1) * max_chunk = 0" using nchunks_iff [of "i + 1" data] by simp
    moreover have "[i..<nchunks data] = [i]" using False i(1) by (simp add: upt_conv_Cons)
    ultimately show ?thesis unfolding step by (subst toast_save_chunks.simps) simp
  qed
qed

lemma toast_save_chunks_all:
  "toast_save_chunks vid 0 (data @ r) (int (length data)) rows = Inr (rows @ chunks vid data)"
  using toast_save_chunks_run [of 0 data vid r rows] by (simp add: chunks_def)

lemma sorted_chunks: "sort_key chunk_seq (chunks vid data) = chunks vid data"
  by (rule sort_key_id_if_sorted) (simp add: chunks_def sorted_map comp_def)

lemma filter_chunks: "filter (\<lambda>c. chunk_id c = v) (chunks vid data) = (if v = vid then chunks vid data else [])"
  by (simp add: chunks_def filter_map comp_def)

lemma stored_append:
  assumes "\<forall>c \<in> set (tr_rows rel). chunk_id c \<noteq> vid"
  shows "stored (rel\<lparr>tr_rows := tr_rows rel @ chunks vid data\<rparr>) vid data"
proof -
  have "filter (\<lambda>c. chunk_id c = vid) (tr_rows rel) = []" using assms by (simp add: filter_empty_conv)
  then show ?thesis by (simp add: stored_def scan_ordered_def filter_chunks sorted_chunks)
qed

lemma stored_append_other:
  assumes "v \<noteq> vid"
  shows "stored (rel\<lparr>tr_rows := tr_rows rel @ chunks vid data\<rparr>) v x \<longleftrightarrow> stored rel v x"
  using assms by (simp add: stored_def scan_ordered_def filter_chunks)

section \<open>Fetching\<close>

lemma toast_chunk_payload_of:
  "toast_chunk_payload (chunk_data (chunk_of vid data i)) =
     Inr (int (length (take max_chunk (drop (i * max_chunk) data))), 4)"
proof -
  let ?d = "take max_chunk (drop (i * max_chunk) data)"
  have "fits_4b ?d" by (rule le_less_trans [of _ max_chunk]) auto
  then have "VARSIZE_4B (mk_plain ?d) = Inr (int (length ?d) + 4)"
    using varsize_plain [of ?d "[]"] by simp
  moreover have "VARATT_IS_4B_U (mk_plain ?d)" using is_plain(1) [of ?d "[]"] by simp
  ultimately show ?thesis
    by (simp add: toast_chunk_payload_def chunk_of_def varatt_class_defs varhdrsz del: length_take)
qed

lemma chunk_range:
  assumes "a + n \<le> length (take max_chunk (drop (i * max_chunk) data))" "0 < n"
  shows "rd_range (chunk_data (chunk_of vid data i)) (4 + a) n = Inr (take n (drop (i * max_chunk + a) data))"
proof -
  let ?d = "take max_chunk (drop (i * max_chunk) data)"
  have "rd_range (mk_plain ?d) (4 + a) n = Inr (take n (drop a ?d))"
    using assms by (simp add: rd_range_def mk_plain_def SET_VARSIZE_4B_def del: length_take)
  moreover have "take n (drop a ?d) = take n (drop (i * max_chunk + a) data)"
    using assms by (simp add: drop_take add.commute min_def split: if_splits)
  ultimately show ?thesis by (simp add: chunk_of_def)
qed

text \<open>One round of the loop: chunk \<open>i\<close> extends the part of the slice already copied.\<close>

lemma chunk_copy_bounds:
  fixes off l i e total len :: nat
  defines "strt \<equiv> if i = off div max_chunk then off mod max_chunk else 0"
  defines "csz \<equiv> if i + 1 < total then max_chunk else len - i * max_chunk"
  defines "cend \<equiv> if i = e then (off + l - 1) mod max_chunk else csz - 1"
  assumes l: "0 < l" "off + l \<le> len" and e: "e = (off + l - 1) div max_chunk"
    and i: "off div max_chunk \<le> i" "i \<le> e"
    and t: "\<And>j. j < total \<longleftrightarrow> j * max_chunk < len"
  shows "off \<le> i * max_chunk + strt" "strt \<le> cend" "cend < csz"
    "i * max_chunk + cend + 1 = (if i = e then off + l else (i + 1) * max_chunk)"
    "i = off div max_chunk \<Longrightarrow> i * max_chunk + strt = off"
    "i \<noteq> off div max_chunk \<Longrightarrow> off < i * max_chunk \<and> strt = 0"
    "i < total" "\<not> i + 1 < total \<Longrightarrow> total = i + 1"
proof -
  have d: "off = off div max_chunk * max_chunk + off mod max_chunk" "off mod max_chunk < max_chunk"
    "off + l - 1 = e * max_chunk + (off + l - 1) mod max_chunk" "(off + l - 1) mod max_chunk < max_chunk"
    unfolding e by simp_all
  have il: "i * max_chunk \<le> off + l - 1" using i(2) d(3) mult_le_mono1 [OF i(2), of max_chunk] by linarith
  show it: "i < total" using il l t [of i] by linarith
  show last: "\<not> i + 1 < total \<Longrightarrow> total = i + 1" using it by linarith
  show s1: "i = off div max_chunk \<Longrightarrow> i * max_chunk + strt = off" using d(1) by (simp add: strt_def)
  show s2: "i \<noteq> off div max_chunk \<Longrightarrow> off < i * max_chunk \<and> strt = 0"
  proof -
    assume a: "i \<noteq> off div max_chunk"
    then have "off div max_chunk + 1 \<le> i" using i(1) by simp
    then have "(off div max_chunk + 1) * max_chunk \<le> i * max_chunk" by (rule mult_le_mono1)
    with a d(1,2) show ?thesis by (simp add: strt_def)
  qed
  show "off \<le> i * max_chunk + strt" using s1 s2 by (cases "i = off div max_chunk") auto
  have lt: "i < e \<Longrightarrow> (i + 1) * max_chunk \<le> off + l - 1"
    using d(3) mult_le_mono1 [of "i + 1" e max_chunk] by simp
  have full: "i < e \<Longrightarrow> csz = max_chunk" using lt l t [of "i + 1"] by (simp add: csz_def)
  have me: "i = e \<Longrightarrow> i * max_chunk + (off + l - 1) mod max_chunk = off + l - 1" using d(3) by simp
  show c1: "i * max_chunk + cend + 1 = (if i = e then off + l else (i + 1) * max_chunk)"
    using full me l i(2) by (auto simp: cend_def)
  have sm: "strt < max_chunk" using d(2) by (simp add: strt_def)
  show "strt \<le> cend"
    using c1 sm s1 s2 l by (cases "i = e"; cases "i = off div max_chunk") auto
  show "cend < csz"
  proof (cases "i = e")
    case True
    with c1 l d(4) show ?thesis by (auto simp: csz_def cend_def)
  next
    case False
    with full i(2) show ?thesis by (simp add: cend_def)
  qed
qed

lemma toast_fetch_step:
  fixes off l i :: nat
  assumes l: "0 < l" "off + l \<le> length data" and small: "length data < 2 ^ 31"
    and i: "off div max_chunk \<le> i" "i \<le> (off + l - 1) div max_chunk"
    and buf: "length buf = l"
      "take (i * max_chunk - off) buf = take (i * max_chunk - off) (take l (drop off data))"
  shows "\<exists>buf'. length buf' = l \<and>
    take ((i + 1) * max_chunk - off) buf' = take ((i + 1) * max_chunk - off) (take l (drop off data)) \<and>
    toast_fetch_loop (int (length data)) (int (nchunks data)) (int (off div max_chunk))
      (int ((off + l - 1) div max_chunk)) (int off) (int l) (chunk_of vid data i # cs) (int i) buf =
    toast_fetch_loop (int (length data)) (int (nchunks data)) (int (off div max_chunk))
      (int ((off + l - 1) div max_chunk)) (int off) (int l) cs (int (i + 1)) buf'"
proof -
  define s where "s = take l (drop off data)"
  define e where "e = (off + l - 1) div max_chunk"
  define strt where "strt = (if i = off div max_chunk then off mod max_chunk else 0)"
  define csz where "csz = (if i + 1 < nchunks data then max_chunk else length data - i * max_chunk)"
  define cend where "cend = (if i = e then (off + l - 1) mod max_chunk else csz - 1)"
  note B = chunk_copy_bounds [OF l e_def i(1) i(2) [folded e_def] nchunks_iff,
      folded strt_def csz_def, folded cend_def]
  have csz: "length (take max_chunk (drop (i * max_chunk) data)) = csz"
    using nchunks_iff [of "i + 1" data] nchunks_iff [of i data] by (auto simp: csz_def min_def)
  have size: "int csz = (if int i < int (nchunks data) - 1 then TOAST_MAX_CHUNK_SIZE
      else to_int32 (int (length data) - (int (nchunks data) - 1) * TOAST_MAX_CHUNK_SIZE))"
  proof (cases "i + 1 < nchunks data")
    case False
    then have eq: "int csz = int (length data) - (int (nchunks data) - 1) * TOAST_MAX_CHUNK_SIZE"
      using B(7,8) nchunks_iff [of i data] by (auto simp: TOAST_MAX_CHUNK_SIZE_def csz_def)
    moreover have "csz < 2 ^ 31" using False small by (simp add: csz_def)
    then have "to_int32 (int csz) = int csz" by (intro to_int32_small) simp_all
    ultimately show ?thesis using False by simp
  qed (simp add: TOAST_MAX_CHUNK_SIZE_def csz_def)
  define p where "p = i * max_chunk + strt - off"
  define n where "n = cend + 1 - strt"
  have p: "off + p = i * max_chunk + strt" "p + n \<le> l" "int p = int i * TOAST_MAX_CHUNK_SIZE - int off + int strt"
    using B(1,2,4) i(2) l by (auto simp: p_def n_def e_def TOAST_MAX_CHUNK_SIZE_def split: if_splits)
  have rd: "rd_range (chunk_data (chunk_of vid data i)) (4 + strt) n = Inr (take n (drop p s))"
  proof -
    have "rd_range (chunk_data (chunk_of vid data i)) (4 + strt) n =
        Inr (take n (drop (i * max_chunk + strt) data))"
      by (rule chunk_range) (use csz B(2,3) in \<open>auto simp: n_def\<close>)
    moreover have "take n (drop p s) = take n (drop (i * max_chunk + strt) data)"
      using p by (simp add: s_def drop_take add.commute min_def)
    ultimately show ?thesis by simp
  qed
  have pre: "take p buf = take p s"
    using buf(2) B(5,6) by (cases "i = off div max_chunk") (auto simp: p_def s_def)
  obtain buf' where w: "buf_write buf (int p) (take n (drop p s)) = Inr buf'" "length buf' = l"
    "take (p + n) buf' = take (p + n) s"
    using buf_write_prefix [of buf s p n] pre p(2) buf(1) l by (auto simp: s_def)
  have "take ((i + 1) * max_chunk - off) buf' = take ((i + 1) * max_chunk - off) s"
  proof (cases "i = e")
    case True
    then have "p + n = l" using B(1,2,4) by (simp add: p_def n_def)
    then have "buf' = s" using w(2,3) l by (simp add: s_def)
    then show ?thesis by simp
  next
    case False
    then have "p + n = (i + 1) * max_chunk - off" using B(1,2,4) by (simp add: p_def n_def)
    with w(3) show ?thesis by simp
  qed
  moreover have "toast_fetch_loop (int (length data)) (int (nchunks data)) (int (off div max_chunk))
      (int e) (int off) (int l) (chunk_of vid data i # cs) (int i) buf =
    toast_fetch_loop (int (length data)) (int (nchunks data)) (int (off div max_chunk))
      (int e) (int off) (int l) cs (int (i + 1)) buf'"
  proof -
    have m1: "(if int i = int (off div max_chunk) then size_mod (int off) TOAST_MAX_CHUNK_SIZE else 0) = int strt"
      using size_mod_int [of off max_chunk] l small by (simp add: strt_def TOAST_MAX_CHUNK_SIZE_def)
    have m2: "(if int i = int e then size_mod (int off + int l - 1) TOAST_MAX_CHUNK_SIZE else int csz - 1)
        = int cend"
    proof -
      have "size_mod (int off + int l - 1) TOAST_MAX_CHUNK_SIZE = size_mod (int (off + l - 1)) (int max_chunk)"
        using l by (simp only: TOAST_MAX_CHUNK_SIZE_def of_nat_numeral) (simp add: of_nat_diff)
      then have "size_mod (int off + int l - 1) TOAST_MAX_CHUNK_SIZE = int ((off + l - 1) mod max_chunk)"
        using size_mod_int [of "off + l - 1" max_chunk] l small by simp
      then show ?thesis using B(3) by (cases "i = e") (simp_all add: cend_def)
    qed
    have m3: "nat (int cend - int strt + 1) = n" using B(2) by (simp add: n_def)
    have ie: "\<not> int i > int e" using i(2) by (simp add: e_def)
    show ?thesis
      unfolding toast_fetch_loop.simps Let_def toast_chunk_payload_of csz chunk_of_sel bindE_simps
        prod.case m1 m2 m3 nat_int rd p(3) [symmetric] w(1) size [symmetric]
      using ie by (simp add: add.commute)
  qed
  ultimately show ?thesis using w(2) unfolding s_def e_def by blast
qed

lemma toast_fetch_run:
  fixes off l i :: nat
  defines "e \<equiv> (off + l - 1) div max_chunk"
  assumes l: "0 < l" "off + l \<le> length data" and small: "length data < 2 ^ 31"
    and i: "off div max_chunk \<le> i" "i \<le> e + 1"
    and buf: "length buf = l"
      "take (i * max_chunk - off) buf = take (i * max_chunk - off) (take l (drop off data))"
  shows "toast_fetch_loop (int (length data)) (int (nchunks data)) (int (off div max_chunk)) (int e)
      (int off) (int l) (map (chunk_of vid data) [i..<e + 1]) (int i) buf =
    Inr (int (e + 1), take l (drop off data))"
  using i buf
proof (induction "e + 1 - i" arbitrary: i buf)
  case 0
  then have ie: "i = e + 1" by simp
  have "off + l \<le> i * max_chunk" unfolding ie e_def using div_mult_mod_eq [of "off + l - 1" max_chunk]
      mod_less_divisor [of max_chunk "off + l - 1"] by (simp add: algebra_simps)
  with 0 l have "buf = take l (drop off data)" by simp
  with ie show ?case by simp
next
  case (Suc k)
  then have ie: "i \<le> e" by simp
  obtain buf' where b: "length buf' = l"
    "take ((i + 1) * max_chunk - off) buf' = take ((i + 1) * max_chunk - off) (take l (drop off data))"
    "toast_fetch_loop (int (length data)) (int (nchunks data)) (int (off div max_chunk)) (int e)
      (int off) (int l) (chunk_of vid data i # map (chunk_of vid data) [i + 1..<e + 1]) (int i) buf =
     toast_fetch_loop (int (length data)) (int (nchunks data)) (int (off div max_chunk)) (int e)
      (int off) (int l) (map (chunk_of vid data) [i + 1..<e + 1]) (int (i + 1)) buf'"
    using toast_fetch_step [OF l small Suc.prems(1) ie [unfolded e_def] Suc.prems(3,4)] unfolding e_def by blast
  have "[i..<e + 1] = i # [i + 1..<e + 1]" using ie by (simp add: upt_conv_Cons)
  then show ?case
    using b(3) Suc.hyps(1) [of "i + 1" buf'] Suc.hyps(2) Suc.prems(1) ie b(1,2) by simp
qed

lemma filter_seq_chunks:
  assumes "e < nchunks data"
  shows "filter (\<lambda>c. int s \<le> chunk_seq c \<and> chunk_seq c \<le> int e) (chunks vid data) =
    map (chunk_of vid data) [s..<e + 1]"
proof -
  have "filter (\<lambda>i. s \<le> i \<and> i \<le> e) [0..<n] = [s..<e + 1]" if "e < n" for n
  proof -
    have "[0..<n] = [0..<s] @ [s..<e + 1] @ [e + 1..<n]" if "s \<le> e + 1"
      using that \<open>e < n\<close> upt_add_eq_append [of 0 s "n - s"] upt_add_eq_append [of s "e + 1" "n - (e + 1)"]
      by simp
    moreover have "filter (\<lambda>i. s \<le> i \<and> i \<le> e) [0..<n] = []" if "\<not> s \<le> e + 1"
      using that by (auto simp: filter_empty_conv)
    ultimately show ?thesis by (cases "s \<le> e + 1") (auto simp: filter_empty_conv filter_id_conv)
  qed
  then show ?thesis using assms by (simp add: chunks_def filter_map comp_def)
qed

text \<open>Every slice of a stored value can be read back, whatever the buffer held.\<close>

lemma heap_fetch_stored:
  assumes st: "stored rel vid data" and ix: "has_valid_index rel"
    and l: "0 < l" "off + l \<le> length data" and small: "length data < 2 ^ 31" and buf: "length buf = l"
  shows "heap_fetch_toast_slice rel vid (int (length data)) (int off) (int l) buf =
    Inr (take l (drop off data))"
proof -
  define sc where "sc = off div max_chunk"
  define ec where "ec = (off + l - 1) div max_chunk"
  obtain ix where ix: "toast_open_indexes rel = Inr ix" using toast_open_indexes_valid [OF ix] by blast
  have total: "to_int32 ((int (length data) - 1) mod 2 ^ 64 div TOAST_MAX_CHUNK_SIZE + 1) = int (nchunks data)"
  proof -
    have "(int (length data) - 1) mod 2 ^ 64 = int (length data - 1)"
      using l small by (intro trans [OF mod_pos_pos_trivial]) auto
    then have "(int (length data) - 1) mod 2 ^ 64 div TOAST_MAX_CHUNK_SIZE + 1 = int ((length data - 1) div max_chunk + 1)"
      by (simp only: TOAST_MAX_CHUNK_SIZE_def of_nat_add zdiv_int) simp
    moreover have "nchunks data = (length data - 1) div max_chunk + 1" using l by (simp add: nchunks_def)
    moreover have "nchunks data < 2 ^ 31" using l small by (simp add: nchunks_def)
    ultimately show ?thesis by (simp add: to_int32_small)
  qed
  have s: "size_div (int off) TOAST_MAX_CHUNK_SIZE = int sc"
    using size_div_int [of off max_chunk] l small by (simp add: sc_def TOAST_MAX_CHUNK_SIZE_def)
  have e: "size_div (int off + int l - 1) TOAST_MAX_CHUNK_SIZE = int ec"
  proof -
    have "int off + int l - 1 = int (off + l - 1)" using l by simp
    then show ?thesis
      using size_div_int [of "off + l - 1" max_chunk] l small
      by (simp add: ec_def TOAST_MAX_CHUNK_SIZE_def of_nat_numeral)
  qed
  have el: "ec < nchunks data" using l nchunks_iff [of ec data] div_mult_mod_eq [of "off + l - 1" max_chunk]
    unfolding ec_def by linarith
  have se: "sc \<le> ec + 1" unfolding sc_def ec_def using l div_le_mono [of off "off + l - 1" max_chunk] by simp
  define key where "key c \<longleftrightarrow> (if int sc = 0 \<and> int ec = int (nchunks data) - 1 then True
      else if int sc = int ec then chunk_seq c = int sc
      else int sc \<le> chunk_seq c \<and> chunk_seq c \<le> int ec)" for c :: toast_chunk
  have "scan_ordered rel (\<lambda>c. chunk_id c = vid \<and> key c) = filter key (chunks vid data)"
    unfolding st [unfolded stored_def, symmetric] by (simp add: scan_ordered_def filter_sort)
  also have "\<dots> = filter (\<lambda>c. int sc \<le> chunk_seq c \<and> chunk_seq c \<le> int ec) (chunks vid data)"
    by (rule filter_cong) (auto simp: key_def chunks_def)
  finally have scan: "scan_ordered rel (\<lambda>c. chunk_id c = vid \<and> key c) = map (chunk_of vid data) [sc..<ec + 1]"
    using filter_seq_chunks [OF el] by simp
  have "toast_fetch_loop (int (length data)) (int (nchunks data)) (int sc) (int ec) (int off) (int l)
      (map (chunk_of vid data) [sc..<ec + 1]) (int sc) buf = Inr (int (ec + 1), take l (drop off data))"
    unfolding sc_def ec_def
    by (rule toast_fetch_run) (use l small buf se in \<open>simp_all add: sc_def ec_def\<close>)
  then show ?thesis
    unfolding heap_fetch_toast_slice_def Let_def total s e ix bindE_simps key_def [symmetric] scan by simp
qed

text \<open>What the loop accepts: consecutive chunk numbers.\<close>

lemma toast_fetch_loop_seq:
  "toast_fetch_loop a t s e off l rows ex buf = Inr (ex', buf') \<Longrightarrow>
     ex' = ex + int (length rows) \<and> map chunk_seq rows = map (\<lambda>i. ex + int i) [0..<length rows] \<and>
     (\<forall>c \<in> set rows. chunk_seq c \<le> e)"
proof (induction rows arbitrary: ex buf)
  case (Cons c rows)
  have up: "map (\<lambda>i. ex + int i) [0..<Suc n] = ex # map (\<lambda>i. ex + 1 + int i) [0..<n]" for n
    by (simp add: upt_conv_Cons map_Suc_upt [symmetric] comp_def del: upt_Suc)
  from Cons.prems have seq: "chunk_seq c = ex" "chunk_seq c \<le> e"
    by (auto simp: Let_def bindE_eq_Inr_iff split: if_splits)
  from Cons.prems obtain b where
    "toast_fetch_loop a t s e off l rows (ex + 1) b = Inr (ex', buf')"
    by (auto simp: Let_def bindE_eq_Inr_iff split: if_splits)
  from Cons.IH [OF this] seq show ?case unfolding length_Cons up by auto
qed simp

lemma scan_absent: "\<forall>c \<in> set (tr_rows rel). chunk_id c \<noteq> vid \<Longrightarrow>
    scan_ordered rel (\<lambda>c. chunk_id c = vid \<and> P c) = []"
  by (simp add: scan_ordered_def filter_empty_conv)

lemma heap_fetch_absent:
  assumes "\<forall>c \<in> set (tr_rows rel). chunk_id c \<noteq> vid" "has_valid_index rel" "0 < l"
    "off + l \<le> 2 ^ 31"
  shows "heap_fetch_toast_slice rel vid a (int off) (int l) buf = Inl (Ereport ERRCODE_DATA_CORRUPTED)"
proof -
  obtain ix where ix: "toast_open_indexes rel = Inr ix" using toast_open_indexes_valid [OF assms(2)] by blast
  have "int off + int l - 1 = int (off + l - 1)" using assms(3) by simp
  then have "size_div (int off) TOAST_MAX_CHUNK_SIZE = int (off div max_chunk)"
    "size_div (int off + int l - 1) TOAST_MAX_CHUNK_SIZE = int ((off + l - 1) div max_chunk)"
    using size_div_int [of off max_chunk] size_div_int [of "off + l - 1" max_chunk] assms(3,4)
    by (simp_all add: TOAST_MAX_CHUNK_SIZE_def of_nat_numeral)
  moreover have "off div max_chunk \<le> (off + l - 1) div max_chunk" using assms(3) by (intro div_le_mono) simp
  ultimately show ?thesis
    by (simp add: heap_fetch_toast_slice_def Let_def ix scan_absent [OF assms(1)])
qed

section \<open>Saving and deleting\<close>

lemma toast_save_sizes_forms [varatt_simps]:
  "fits_4b d \<Longrightarrow> toast_save_sizes (mk_plain d @ r) =
     Inr (4, int (length d), word_of_int (int (length d) + 4), word_of_int (int (length d)))"
  "fits_short d \<Longrightarrow> toast_save_sizes (mk_short d @ r) =
     Inr (1, int (length d), word_of_int (int (length d) + 4), word_of_int (int (length d)))"
  "fits_4b c \<Longrightarrow> 0 \<le> n \<Longrightarrow> n < 2 ^ 30 \<Longrightarrow> 0 \<le> cm \<Longrightarrow> cm < 4 \<Longrightarrow>
     toast_save_sizes (mk_compressed n cm c @ r) =
     Inr (4, int (length c) + 4, word_of_int (n + 4),
       word_of_int (int (length c) + 4) OR push_bit VARLENA_EXTSIZE_BITS (word_of_int cm))"
  by (simp_all add: toast_save_sizes_def varatt_simps varatt_class_defs varhdrsz Let_def add.commute)

lemma toast_save_datum_stored:
  assumes rel: "store (reltoastrelid rel) = Some trel" "has_valid_index trel" "rd_toastoid rel = InvalidOid"
    and new: "\<forall>c \<in> set (tr_rows trel). chunk_id c \<noteq> vid"
    and sz: "toast_save_sizes dval = Inr (p, int (length data), rawsize, extinfo)" "drop p dval = data @ r"
  shows "toast_save_datum store rel (vid # oids) dval old =
    Inr (store(reltoastrelid rel \<mapsto> trel\<lparr>tr_rows := tr_rows trel @ chunks vid data\<rparr>),
         external_bytes \<lparr>va_rawsize = rawsize, va_extinfo = extinfo, va_valueid = vid,
           va_toastrelid = reltoastrelid rel\<rparr>)"
proof -
  obtain ix where "toast_open_indexes trel = Inr ix" using toast_open_indexes_valid [OF rel(2)] by blast
  then show ?thesis
    using rel sz by (simp add: toast_save_datum_def table_open_def toast_choose_valueid_def OidIsValid_def
        toast_save_chunks_all)
qed

lemma toast_delete_datum_rows:
  assumes "store (va_toastrelid tp) = Some trel" "has_valid_index trel"
  shows "toast_delete_datum store (external_bytes tp @ r) spec =
    Inr (store(va_toastrelid tp \<mapsto>
      trel\<lparr>tr_rows := filter (\<lambda>c. chunk_id c \<noteq> va_valueid tp) (tr_rows trel)\<rparr>))"
proof -
  obtain ix where ix: "toast_open_indexes trel = Inr ix" using toast_open_indexes_valid [OF assms(2)] by blast
  have "filter (\<lambda>c. c \<notin> set (scan_ordered trel (\<lambda>c. chunk_id c = va_valueid tp))) (tr_rows trel) =
      filter (\<lambda>c. chunk_id c \<noteq> va_valueid tp) (tr_rows trel)"
    by (rule filter_cong) (auto simp: scan_ordered_def)
  with ix assms show ?thesis
    by (simp add: toast_delete_datum_def varatt_simps varatt_class_defs table_open_def)
qed

text \<open>Deleting a TOAST pointer removes every chunk of its value and no other row: reading
  any part of the value afterwards is reported as corruption, every other value is untouched.\<close>

lemma toast_delete_datum_removes:
  assumes "store (va_toastrelid tp) = Some trel" "has_valid_index trel"
  shows "\<exists>trel'. toast_delete_datum store (external_bytes tp @ r) spec =
      Inr (store(va_toastrelid tp \<mapsto> trel')) \<and>
    (\<forall>a off l buf. 0 < l \<longrightarrow> off + l \<le> 2 ^ 31 \<longrightarrow> heap_fetch_toast_slice trel' (va_valueid tp) a (int off) (int l) buf =
       Inl (Ereport ERRCODE_DATA_CORRUPTED)) \<and>
    (\<forall>v x. v \<noteq> va_valueid tp \<longrightarrow> stored trel' v x = stored trel v x)"
proof -
  let ?trel = "trel\<lparr>tr_rows := filter (\<lambda>c. chunk_id c \<noteq> va_valueid tp) (tr_rows trel)\<rparr>"
  have "heap_fetch_toast_slice ?trel (va_valueid tp) a (int off) (int l) buf =
      Inl (Ereport ERRCODE_DATA_CORRUPTED)" if "0 < l" "off + l \<le> 2 ^ 31" for a off l buf
    using assms(2) that by (intro heap_fetch_absent) (auto simp: has_valid_index_def)
  moreover have "stored ?trel v x = stored trel v x" if "v \<noteq> va_valueid tp" for v x
    using that by (simp add: stored_def scan_ordered_def conj_commute cong: conj_cong)
  ultimately show ?thesis using toast_delete_datum_rows [of store, OF assms] by blast
qed

text \<open>A read that succeeds saw exactly the chunks of its range, each once and in order:
  missing, duplicate, reordered or surplus chunks are reported.\<close>

lemma heap_fetch_complete:
  assumes "heap_fetch_toast_slice rel vid attrsize sliceoffset slicelength buf = Inr out"
  defines "s \<equiv> size_div sliceoffset TOAST_MAX_CHUNK_SIZE"
    and "e \<equiv> size_div (sliceoffset + slicelength - 1) TOAST_MAX_CHUNK_SIZE"
  shows "map chunk_seq (scan_ordered rel (\<lambda>c. chunk_id c = vid \<and> s \<le> chunk_seq c \<and> chunk_seq c \<le> e))
    = map (\<lambda>i. s + int i) [0..<nat (e + 1 - s)]"
proof -
  define total where "total = to_int32 ((attrsize - 1) mod 2 ^ 64 div TOAST_MAX_CHUNK_SIZE + 1)"
  define key where "key c \<longleftrightarrow> (if s = 0 \<and> e = total - 1 then True
      else if s = e then chunk_seq c = s else s \<le> chunk_seq c \<and> chunk_seq c \<le> e)" for c :: toast_chunk
  define rows where "rows = scan_ordered rel (\<lambda>c. chunk_id c = vid \<and> key c)"
  obtain out' where
    l: "toast_fetch_loop attrsize total s e sliceoffset slicelength rows s buf = Inr (e + 1, out')"
    using assms(1) unfolding heap_fetch_toast_slice_def Let_def s_def [symmetric] e_def [symmetric]
      total_def [symmetric] key_def [symmetric] rows_def
    by (auto simp: bindE_eq_Inr_iff split: if_splits)
  note seq = toast_fetch_loop_seq [OF l]
  have "s \<le> chunk_seq c" if "c \<in> set rows" for c
  proof -
    have "chunk_seq c \<in> set (map chunk_seq rows)" using that by simp
    then show ?thesis using seq by auto
  qed
  then have "filter (\<lambda>c. s \<le> chunk_seq c \<and> chunk_seq c \<le> e) rows = rows"
    using seq by (simp add: filter_id_conv)
  moreover have "filter (\<lambda>c. s \<le> chunk_seq c \<and> chunk_seq c \<le> e) rows =
      scan_ordered rel (\<lambda>c. chunk_id c = vid \<and> s \<le> chunk_seq c \<and> chunk_seq c \<le> e)"
    unfolding rows_def scan_ordered_def filter_sort filter_filter
    by (rule arg_cong [where f = "sort_key chunk_seq"], rule filter_cong) (auto simp: key_def)
  ultimately show ?thesis using seq by (simp add: nat_diff_distrib')
qed

text \<open>A two-chunk value in an otherwise empty table.\<close>

definition demo_data :: bytes where "demo_data = replicate 2000 7"
definition demo_rel :: toast_rel where
  "demo_rel = \<lparr>tr_rows = chunks 5 demo_data, tr_indexes = [False, True]\<rparr>"
definition demo_tp :: varatt_external where
  "demo_tp = \<lparr>va_rawsize = 2004, va_extinfo = 2000, va_valueid = 5, va_toastrelid = 9\<rparr>"

end
