(* ===== verification/Detoast.thy ===== *)
theory Detoast
  imports Toast_Correct
begin

text \<open>
  \<^verbatim>\<open>src/backend/access/common/detoast.c\<close>: getting values back, in full or in part, from
  compression and from out-of-line storage.

  The environment has the TOAST tables, the objects that in-memory pointer datums refer to (by
  address) and the flattening of expanded objects, which is code of the object's type. Pointers
  to other in-memory pointers are only excluded by an assertion, so following them has fuel.
  \<open>None\<close> as a result stands for the argument pointer itself; \<open>the_datum\<close> gives its bytes.
\<close>

record detoast_env =
  de_store :: toast_store
  de_mem :: "64 word \<Rightarrow> bytes option"
  de_flatten :: "bytes \<Rightarrow> bytes res"
  de_lz4 :: "lz4_lib option"

definition deref :: "detoast_env \<Rightarrow> 64 word \<Rightarrow> bytes res" where
  "deref env p = (case de_mem env p of None \<Rightarrow> Inl MemFault | Some obj \<Rightarrow> Inr obj)"

definition the_datum :: "bytes \<Rightarrow> bytes option \<Rightarrow> bytes" where
  "the_datum attr r = (case r of None \<Rightarrow> attr | Some d \<Rightarrow> d)"

section \<open>Fetching from a TOAST table\<close>

text \<open>\<open>palloc\<close> leaves the buffer's contents open; the model starts from zeroes.\<close>

definition toast_fetch_datum :: "detoast_env \<Rightarrow> bytes \<Rightarrow> bytes res" where
  "toast_fetch_datum env attr =
     (if \<not> VARATT_IS_EXTERNAL_ONDISK attr then Inl (Ereport ERRCODE_INTERNAL_ERROR)
      else
        bindE (VARATT_EXTERNAL_GET_POINTER attr) (\<lambda>toast_pointer.
          let attrsize = VARATT_EXTERNAL_GET_EXTSIZE toast_pointer;
              header = (if VARATT_EXTERNAL_IS_COMPRESSED toast_pointer
                        then SET_VARSIZE_4B_C (attrsize + VARHDRSZ)
                        else SET_VARSIZE_4B (attrsize + VARHDRSZ))
          in if attrsize = 0 then Inr header
             else
               bindE (table_open (de_store env) (va_toastrelid toast_pointer)) (\<lambda>toastrel.
               bindE (heap_fetch_toast_slice toastrel (va_valueid toast_pointer) attrsize 0 attrsize
                        (replicate (nat attrsize) 0)) (\<lambda>data.
                 Inr (header @ data)))))"

definition toast_fetch_datum_slice :: "detoast_env \<Rightarrow> bytes \<Rightarrow> int \<Rightarrow> int \<Rightarrow> bytes res" where
  "toast_fetch_datum_slice env attr sliceoffset slicelength =
     (if \<not> VARATT_IS_EXTERNAL_ONDISK attr then Inl (Ereport ERRCODE_INTERNAL_ERROR)
      else
        bindE (VARATT_EXTERNAL_GET_POINTER attr) (\<lambda>toast_pointer.
          let attrsize = VARATT_EXTERNAL_GET_EXTSIZE toast_pointer;
              (sliceoffset, slicelength) = (if sliceoffset \<ge> attrsize then (0, 0)
                                            else (sliceoffset, slicelength));
              slicelength = (if VARATT_EXTERNAL_IS_COMPRESSED toast_pointer \<and> slicelength > 0
                             then slicelength + 4 else slicelength);
              slicelength = (if sliceoffset + slicelength > attrsize \<or> slicelength < 0
                             then attrsize - sliceoffset else slicelength);
              header = (if VARATT_EXTERNAL_IS_COMPRESSED toast_pointer
                        then SET_VARSIZE_4B_C (slicelength + VARHDRSZ)
                        else SET_VARSIZE_4B (slicelength + VARHDRSZ))
          in if slicelength = 0 then Inr header
             else
               bindE (table_open (de_store env) (va_toastrelid toast_pointer)) (\<lambda>toastrel.
               bindE (heap_fetch_toast_slice toastrel (va_valueid toast_pointer) attrsize sliceoffset
                        slicelength (replicate (nat slicelength) 0)) (\<lambda>data.
                 Inr (header @ data)))))"

section \<open>Decompressing\<close>

definition toast_decompress_datum :: "detoast_env \<Rightarrow> bytes \<Rightarrow> bytes res" where
  "toast_decompress_datum env attr =
     bindE (VARDATA_COMPRESSED_GET_COMPRESS_METHOD attr) (\<lambda>cmid.
       if cmid = TOAST_PGLZ_COMPRESSION_ID then pglz_decompress_datum attr
       else if cmid = TOAST_LZ4_COMPRESSION_ID then lz4_decompress_datum (de_lz4 env) attr
       else if cmid = TOAST_RLE_COMPRESSION_ID then rle_decompress_datum attr
       else Inl (Ereport ERRCODE_INTERNAL_ERROR))"

definition toast_decompress_datum_slice :: "detoast_env \<Rightarrow> bytes \<Rightarrow> int \<Rightarrow> bytes res" where
  "toast_decompress_datum_slice env attr slicelength =
     bindE (VARDATA_COMPRESSED_GET_EXTSIZE attr) (\<lambda>extsize.
       if uint (word_of_int slicelength :: 32 word) \<ge> extsize then toast_decompress_datum env attr
       else
         bindE (VARDATA_COMPRESSED_GET_COMPRESS_METHOD attr) (\<lambda>cmid.
           if cmid = TOAST_PGLZ_COMPRESSION_ID then pglz_decompress_datum_slice attr slicelength
           else if cmid = TOAST_LZ4_COMPRESSION_ID
             then lz4_decompress_datum_slice (de_lz4 env) attr slicelength
           else if cmid = TOAST_RLE_COMPRESSION_ID then rle_decompress_datum_slice attr slicelength
           else Inl (Ereport ERRCODE_INTERNAL_ERROR)))"

section \<open>Public entry points\<close>

fun detoast_external_attr :: "nat \<Rightarrow> detoast_env \<Rightarrow> bytes \<Rightarrow> bytes option res" where
  "detoast_external_attr fuel env attr =
     (if VARATT_IS_EXTERNAL_ONDISK attr then
        bindE (toast_fetch_datum env attr) (\<lambda>r. Inr (Some r))
      else if VARATT_IS_EXTERNAL_INDIRECT attr then
        bindE (VARATT_INDIRECT_GET_POINTER attr) (\<lambda>redirect.
        bindE (deref env redirect) (\<lambda>target.
          if VARATT_IS_EXTERNAL target then
            (case fuel of 0 \<Rightarrow> Inl OutOfFuel
             | Suc fuel' \<Rightarrow> bindE (detoast_external_attr fuel' env target) (\<lambda>r.
                 Inr (Some (the_datum target r))))
          else
            bindE (VARSIZE_ANY target) (\<lambda>n.
            bindE (rd_range target 0 (nat n)) (\<lambda>copy. Inr (Some copy)))))
      else if VARATT_IS_EXTERNAL_EXPANDED attr then
        bindE (de_flatten env attr) (\<lambda>r. Inr (Some r))
      else Inr None)"

fun detoast_attr :: "nat \<Rightarrow> detoast_env \<Rightarrow> bytes \<Rightarrow> bytes option res" where
  "detoast_attr fuel env attr =
     (if VARATT_IS_EXTERNAL_ONDISK attr then
        bindE (toast_fetch_datum env attr) (\<lambda>tmp.
          if VARATT_IS_COMPRESSED tmp then bindE (toast_decompress_datum env tmp) (\<lambda>r. Inr (Some r))
          else Inr (Some tmp))
      else if VARATT_IS_EXTERNAL_INDIRECT attr then
        bindE (VARATT_INDIRECT_GET_POINTER attr) (\<lambda>redirect.
        bindE (deref env redirect) (\<lambda>target.
          case fuel of 0 \<Rightarrow> Inl OutOfFuel
          | Suc fuel' \<Rightarrow>
              bindE (detoast_attr fuel' env target) (\<lambda>r.
                case r of
                  Some d \<Rightarrow> Inr (Some d)
                | None \<Rightarrow>
                    bindE (VARSIZE_ANY target) (\<lambda>n.
                    bindE (rd_range target 0 (nat n)) (\<lambda>copy. Inr (Some copy))))))
      else if VARATT_IS_EXTERNAL_EXPANDED attr then detoast_external_attr fuel env attr
      else if VARATT_IS_COMPRESSED attr then
        bindE (toast_decompress_datum env attr) (\<lambda>r. Inr (Some r))
      else if VARATT_IS_SHORT attr then
        let data_size = VARSIZE_1B attr - VARHDRSZ_SHORT; new_size = data_size + VARHDRSZ in
        bindE (rd_range attr 1 (nat data_size)) (\<lambda>data. Inr (Some (SET_VARSIZE_4B new_size @ data)))
      else Inr None)"

text \<open>The slicing of a plain or decompressed value at the end of \<open>detoast_attr_slice\<close>.\<close>

definition slice_preslice :: "bytes \<Rightarrow> int \<Rightarrow> int \<Rightarrow> int \<Rightarrow> bytes res" where
  "slice_preslice preslice sliceoffset slicelength slicelimit =
     bindE (if VARATT_IS_SHORT preslice then Inr (1, VARSIZE_1B preslice - VARHDRSZ_SHORT)
            else bindE (VARSIZE_4B preslice) (\<lambda>n. Inr (4, n - VARHDRSZ))) (\<lambda>(attrdata, attrsize).
       let (sliceoffset, slicelength) =
             (if sliceoffset \<ge> attrsize then (0, 0)
              else if slicelength < 0 \<or> slicelimit > attrsize then (sliceoffset, attrsize - sliceoffset)
              else (sliceoffset, slicelength))
       in bindE (rd_range preslice (attrdata + nat sliceoffset) (nat slicelength)) (\<lambda>data.
            Inr (SET_VARSIZE_4B (slicelength + VARHDRSZ) @ data)))"

text \<open>\<open>slicelimit\<close> is \<open>sliceoffset + slicelength\<close>, or -1 for "everything" and on overflow.\<close>

fun detoast_attr_slice :: "nat \<Rightarrow> detoast_env \<Rightarrow> bytes \<Rightarrow> int \<Rightarrow> int \<Rightarrow> bytes res" where
  "detoast_attr_slice fuel env attr sliceoffset slicelength0 =
     (if sliceoffset < 0 then Inl (Ereport ERRCODE_INTERNAL_ERROR)
      else
        let (slicelength, slicelimit) =
              (if slicelength0 < 0 then (slicelength0, -1)
               else if sliceoffset + slicelength0 > INT_MAX then (-1, -1)
               else (slicelength0, sliceoffset + slicelength0));
            finish = (\<lambda>preslice.
              bindE (if VARATT_IS_COMPRESSED preslice then
                       (if slicelimit \<ge> 0 then toast_decompress_datum_slice env preslice slicelimit
                        else toast_decompress_datum env preslice)
                     else Inr preslice) (\<lambda>preslice.
                slice_preslice preslice sliceoffset slicelength slicelimit))
        in
        if VARATT_IS_EXTERNAL_ONDISK attr then
          bindE (VARATT_EXTERNAL_GET_POINTER attr) (\<lambda>toast_pointer.
            if \<not> VARATT_EXTERNAL_IS_COMPRESSED toast_pointer
            then toast_fetch_datum_slice env attr sliceoffset slicelength
            else
              bindE (if slicelimit \<ge> 0 then
                       let max_size = VARATT_EXTERNAL_GET_EXTSIZE toast_pointer;
                           max_size = (if VARATT_EXTERNAL_GET_COMPRESS_METHOD toast_pointer =
                                          TOAST_PGLZ_COMPRESSION_ID
                                       then pglz_maximum_compressed_size slicelimit max_size
                                       else max_size)
                       in toast_fetch_datum_slice env attr 0 max_size
                     else toast_fetch_datum env attr) finish)
        else if VARATT_IS_EXTERNAL_INDIRECT attr then
          bindE (VARATT_INDIRECT_GET_POINTER attr) (\<lambda>redirect.
          bindE (deref env redirect) (\<lambda>target.
            case fuel of 0 \<Rightarrow> Inl OutOfFuel
            | Suc fuel' \<Rightarrow> detoast_attr_slice fuel' env target sliceoffset slicelength))
        else if VARATT_IS_EXTERNAL_EXPANDED attr then
          bindE (detoast_external_attr fuel env attr) (\<lambda>r. finish (the_datum attr r))
        else finish attr)"

section \<open>Sizes\<close>

text \<open>The result is a \<open>Size\<close>; \<open>va_rawsize\<close> is an \<open>int32\<close>.\<close>

fun toast_raw_datum_size :: "nat \<Rightarrow> detoast_env \<Rightarrow> bytes \<Rightarrow> int res" where
  "toast_raw_datum_size fuel env attr =
     (if VARATT_IS_EXTERNAL_ONDISK attr then
        bindE (VARATT_EXTERNAL_GET_POINTER attr) (\<lambda>toast_pointer. 
          Inr (sint (va_rawsize toast_pointer) mod 2 ^ 64))
      else if VARATT_IS_EXTERNAL_INDIRECT attr then
        bindE (VARATT_INDIRECT_GET_POINTER attr) (\<lambda>p. bindE (deref env p) (\<lambda>target.
          case fuel of 0 \<Rightarrow> Inl OutOfFuel | Suc fuel' \<Rightarrow> toast_raw_datum_size fuel' env target))
      else if VARATT_IS_EXTERNAL_EXPANDED attr then
        bindE (de_flatten env attr) (\<lambda>flat. Inr (int (length flat)))
      else if VARATT_IS_COMPRESSED attr then
        bindE (VARDATA_COMPRESSED_GET_EXTSIZE attr) (\<lambda>n. Inr (n + VARHDRSZ))
      else if VARATT_IS_SHORT attr then Inr (VARSIZE_1B attr - VARHDRSZ_SHORT + VARHDRSZ)
      else VARSIZE_4B attr)"

fun toast_datum_size :: "nat \<Rightarrow> detoast_env \<Rightarrow> bytes \<Rightarrow> int res" where
  "toast_datum_size fuel env attr =
     (if VARATT_IS_EXTERNAL_ONDISK attr then
        bindE (VARATT_EXTERNAL_GET_POINTER attr) (\<lambda>toast_pointer.
          Inr (VARATT_EXTERNAL_GET_EXTSIZE toast_pointer))
      else if VARATT_IS_EXTERNAL_INDIRECT attr then
        bindE (VARATT_INDIRECT_GET_POINTER attr) (\<lambda>p. bindE (deref env p) (\<lambda>target.
          case fuel of 0 \<Rightarrow> Inl OutOfFuel | Suc fuel' \<Rightarrow> toast_datum_size fuel' env target))
      else if VARATT_IS_EXTERNAL_EXPANDED attr then
        bindE (de_flatten env attr) (\<lambda>flat. Inr (int (length flat)))
      else if VARATT_IS_SHORT attr then Inr (VARSIZE_1B attr)
      else VARSIZE_4B attr)"

declare detoast_external_attr.simps [simp del] detoast_attr.simps [simp del]
  detoast_attr_slice.simps [simp del] toast_raw_datum_size.simps [simp del] toast_datum_size.simps [simp del]

end
