(* ===== verification/Detoast_Correct.thy ===== *)
theory Detoast_Correct
  imports Detoast
begin

text \<open>
  A datum, however it is stored, represents a byte string; the readers of \<^verbatim>\<open>detoast.c\<close> return
  that byte string, its slices and its size, and the writers of \<^verbatim>\<open>toast_internals.c\<close> produce
  datums that represent what they were given.
\<close>

section \<open>Stored forms\<close>

text \<open>\<open>payload_of cm d c\<close>: the method with id \<open>cm\<close> compresses \<open>d\<close>, without loss, to \<open>c\<close>.\<close>

definition payload_of :: "int \<Rightarrow> bytes \<Rightarrow> bytes \<Rightarrow> bool" where
  "payload_of cm d c \<longleftrightarrow> fits_4b d \<and> length c + 10 < length d \<and>
     ((cm = TOAST_PGLZ_COMPRESSION_ID \<and> (\<exists>h dest n. pglz_compress h d None = Some (dest, n) \<and> 0 \<le> n \<and>
         c = take (nat n) dest)) \<or>
      (cm = TOAST_RLE_COMPRESSION_ID \<and> runs_in_windows 128 d \<and> (\<exists>dest n. rle_compress d None = (dest, n) \<and>
         0 \<le> n \<and> c = take (nat n) dest)))"

lemma payload_of_facts:
  assumes "payload_of cm d c"
  shows "fits_4b d" "fits_4b c" "length c + 10 < length d" "0 \<le> cm" "cm < 4" "0 < length d"
  using assms unfolding payload_of_def by (auto simp: compression_ids)

lemma toast_decompress_payload:
  assumes "payload_of cm d c"
  shows "toast_decompress_datum env (mk_compressed (int (length d)) cm c @ r) = Inr (mk_plain d)"
proof -
  note f = payload_of_facts [OF assms]
  have m: "VARDATA_COMPRESSED_GET_COMPRESS_METHOD (mk_compressed (int (length d)) cm c @ r) = Inr cm"
    using f by (simp add: varatt_simps)
  from assms consider
      (pglz) h dest n where "cm = TOAST_PGLZ_COMPRESSION_ID" "pglz_compress h d None = Some (dest, n)"
        "0 \<le> n" "c = take (nat n) dest"
    | (rle) dest n where "cm = TOAST_RLE_COMPRESSION_ID" "runs_in_windows 128 d"
        "rle_compress d None = (dest, n)" "0 \<le> n" "c = take (nat n) dest"
    unfolding payload_of_def by blast
  then show ?thesis
  proof cases
    case pglz
    have "decompress_datum_with pglz_decompress (mk_compressed (int (length d)) cm c @ r) = Inr (mk_plain d)"
      unfolding pglz(4) by (rule pglz.datum_restore [OF pglz(2,3) f(1)]) simp
    with pglz(1) m show ?thesis by (simp add: toast_decompress_datum_def decompress_datum_bodies)
  next
    case rle
    have "Some (rle_compress d None) = Some (dest, n)" using rle(3) by simp
    then have "decompress_datum_with rle_decompress (mk_compressed (int (length d)) cm c @ r) = Inr (mk_plain d)"
      unfolding rle(5) by (rule rle.datum_restore [OF _ rle(4) f(1) rle(2)])
    with rle(1) m show ?thesis
      by (simp add: toast_decompress_datum_def decompress_datum_bodies compression_ids)
  qed
qed

text \<open>Decompressing a prefix of at least \<open>k\<close> bytes, of all the payload or, for PGLZ, of the
  stretch \<open>detoast_attr_slice\<close> fetches.\<close>

definition enough :: "int \<Rightarrow> nat \<Rightarrow> bytes \<Rightarrow> nat \<Rightarrow> bool" where
  "enough cm k c m \<longleftrightarrow> m = length c \<or> m \<le> length c \<and> cm = TOAST_PGLZ_COMPRESSION_ID \<and>
     pglz_maximum_compressed_size (int k) (int (length c)) \<le> int m"

lemma toast_decompress_slice_payload:
  assumes p: "payload_of cm d c" and k: "k < length d" and m: "enough cm k c m"
  shows "\<exists>j. k \<le> j \<and> j \<le> length d \<and>
    toast_decompress_datum_slice env (mk_compressed (int (length d)) cm (take m c) @ r) (int k) =
      Inr (mk_plain (take j d))"
proof -
  note f = payload_of_facts [OF p]
  let ?v = "mk_compressed (int (length d)) cm (take m c) @ r"
  have md: "VARDATA_COMPRESSED_GET_COMPRESS_METHOD ?v = Inr cm"
    "VARDATA_COMPRESSED_GET_EXTSIZE ?v = Inr (int (length d))"
    "VARSIZE_4B ?v = Inr (int (length (take m c)) + 8)"
    using f by (simp_all add: varatt_simps)
  have "uint (word_of_int (int k) :: 32 word) = int k"
    by (subst uint_word_of_int) (use k f(1) in simp)
  then have step: "toast_decompress_datum_slice env ?v (int k) =
      (if cm = TOAST_PGLZ_COMPRESSION_ID then pglz_decompress_datum_slice ?v (int k)
       else if cm = TOAST_LZ4_COMPRESSION_ID then lz4_decompress_datum_slice (de_lz4 env) ?v (int k)
       else if cm = TOAST_RLE_COMPRESSION_ID then rle_decompress_datum_slice ?v (int k)
       else Inl (Ereport ERRCODE_INTERNAL_ERROR))"
    unfolding toast_decompress_datum_slice_def md bindE_simps using k by simp
  from p consider
      (pglz) h dest n where "cm = TOAST_PGLZ_COMPRESSION_ID" "pglz_compress h d None = Some (dest, n)"
        "0 \<le> n" "c = take (nat n) dest"
    | (rle) dest n where "cm = TOAST_RLE_COMPRESSION_ID" "runs_in_windows 128 d"
        "rle_compress d None = (dest, n)" "0 \<le> n" "c = take (nat n) dest"
    unfolding payload_of_def by blast
  then show ?thesis
  proof cases
    case pglz
    obtain gs where s: "n = int (length dest)" "stream_of dest gs d"
      using pglz_compress_stream [OF pglz(2,3)] by blast
    then have c: "c = dest" using pglz(4) by simp
    have mm: "m \<le> length dest" "pglz_maximum_compressed_size (int k) (int (length dest)) \<le> int m"
      using m by (auto simp: enough_def c pglz_maximum_compressed_size_def Let_def)
    have "pglz_decompress (take m dest @ r) (int m) (int k) False = Inr (take k d, int k)"
      by (rule pglz_decompress_slice_stream [OF s(2) _ mm(2,1)]) (use k in simp)
    then have "pglz_decompress_datum_slice ?v (int k) = Inr (mk_plain (take k d))"
      unfolding pglz_decompress_datum_slice_def md bindE_simps
      using mm(1) k by (simp add: c varatt_simps varhdrsz mk_plain_def)
    then show ?thesis using step pglz(1) k by auto
  next
    case rle
    have "take m c = c" using m rle(1) by (auto simp: enough_def compression_ids)
    note m' = trans [OF this rle(5)]
    have "Some (rle_compress d None) = Some (dest, n)" using rle(3) by simp
    from rle.datum_initial [OF this rle(4) f(1) rle(2), of k cm r] k
    obtain j where "k \<le> j" "j \<le> length d" "rle_decompress_datum_slice ?v (int k) = Inr (mk_plain (take j d))"
      unfolding m' decompress_datum_bodies by auto
    then show ?thesis using step rle(1) by (auto simp: compression_ids)
  qed
qed

section \<open>Slicing\<close>

definition text_slice :: "int \<Rightarrow> int \<Rightarrow> bytes \<Rightarrow> bytes" where
  "text_slice off len d = (if len < 0 then drop (nat off) d else take (nat len) (drop (nat off) d))"

lemma rd_range_mid:
  assumes "length h = a" "i + n \<le> length e"
  shows "rd_range (h @ e @ r) (a + i) n = Inr (take n (drop i e))"
  using assms by (simp add: rd_range_def)

lemma slice_finish:
  assumes h: "length h = a" and off: "0 \<le> off"
    and lim: "len < 0 \<or> lim = off + len"
  shows "(let (off', len') = (if off \<ge> int (length e) then (0, 0)
              else if len < 0 \<or> lim > int (length e) then (off, int (length e) - off)
              else (off, len))
       in bindE (rd_range (h @ e @ r) (a + nat off') (nat len')) (\<lambda>data.
            Inr (SET_VARSIZE_4B (len' + VARHDRSZ) @ data))) = Inr (mk_plain (text_slice off len e))"
proof (cases "off \<ge> int (length e)")
  case True
  then have "text_slice off len e = []" by (simp add: text_slice_def)
  with True show ?thesis by (simp add: rd_range_def mk_plain_def)
next
  case False
  define n where "n = (if len < 0 \<or> lim > int (length e) then int (length e) - off else len)"
  have n: "0 \<le> n" "nat off + nat n \<le> length e" using False off lim by (auto simp: n_def)
  have sl: "text_slice off len e = take (nat n) (drop (nat off) e)"
    using False off lim by (auto simp: text_slice_def n_def)
  then have "length (text_slice off len e) = nat n" using n by simp
  moreover have "rd_range (h @ e @ r) (a + nat off) (nat n) = Inr (text_slice off len e)"
    unfolding sl by (rule rd_range_mid [OF h n(2)])
  ultimately show ?thesis
    using False n(1) by (simp add: Let_def n_def [symmetric] if_distrib [where f = "Pair off"] mk_plain_def
        flip: if_distrib [where f = "\<lambda>x. (off, x)"])
qed

lemma slice_preslice_plain:
  assumes "fits_4b e" "0 \<le> off" "len < 0 \<or> lim = off + len"
  shows "slice_preslice (mk_plain e @ r) off len lim = Inr (mk_plain (text_slice off len e))"
proof -
  let ?h = "SET_VARSIZE_4B (int (length e) + VARHDRSZ)"
  have h: "length ?h = 4" by (simp add: SET_VARSIZE_4B_def)
  have "mk_plain e @ r = ?h @ e @ r" by (simp add: mk_plain_def)
  moreover have "\<not> VARATT_IS_SHORT (mk_plain e @ r)" "VARSIZE_4B (mk_plain e @ r) = Inr (int (length e) + 4)"
    using assms(1) by (simp_all add: varatt_simps varatt_class_defs)
  ultimately show ?thesis
    using slice_finish [OF h assms(2,3), of e r] by (simp add: slice_preslice_def varhdrsz)
qed

lemma slice_preslice_short:
  assumes "fits_short e" "0 \<le> off" "len < 0 \<or> lim = off + len"
  shows "slice_preslice (mk_short e @ r) off len lim = Inr (mk_plain (text_slice off len e))"
proof -
  let ?h = "SET_VARSIZE_1B (int (length e) + VARHDRSZ_SHORT)"
  have h: "length ?h = 1" by (simp add: SET_VARSIZE_1B_def)
  have "mk_short e @ r = ?h @ e @ r" by (simp add: mk_short_def)
  moreover have "VARATT_IS_SHORT (mk_short e @ r)" "VARSIZE_1B (mk_short e @ r) = int (length e) + 1"
    using assms(1) by (simp_all add: varatt_simps varatt_class_defs)
  ultimately show ?thesis
    using slice_finish [OF h assms(2,3), of e r] by (simp add: slice_preslice_def varhdrsz)
qed

lemma slice_take:
  "0 \<le> off \<Longrightarrow> 0 \<le> len \<Longrightarrow> nat (off + len) \<le> j \<Longrightarrow> text_slice off len (take j d) = text_slice off len d"
  by (simp add: text_slice_def drop_take min_def nat_add_distrib)

text \<open>The normalised length and limit that \<open>detoast_attr_slice\<close> computes.\<close>

definition slice_limits :: "int \<Rightarrow> int \<Rightarrow> int \<times> int" where
  "slice_limits off len = (if len < 0 then (len, -1) else if off + len > INT_MAX then (-1, -1)
     else (len, off + len))"

definition decompress_finish :: "detoast_env \<Rightarrow> int \<Rightarrow> int \<Rightarrow> int \<Rightarrow> bytes \<Rightarrow> bytes res" where
  "decompress_finish env off len lim preslice =
     bindE (if VARATT_IS_COMPRESSED preslice then
              (if lim \<ge> 0 then toast_decompress_datum_slice env preslice lim
               else toast_decompress_datum env preslice)
            else Inr preslice) (\<lambda>preslice. slice_preslice preslice off len lim)"

lemma decompress_finish_eta: "decompress_finish env off len lim = (\<lambda>preslice.
     bindE (if VARATT_IS_COMPRESSED preslice then
              (if lim \<ge> 0 then toast_decompress_datum_slice env preslice lim
               else toast_decompress_datum env preslice)
            else Inr preslice) (\<lambda>preslice. slice_preslice preslice off len lim))"
  by (rule ext) (simp only: decompress_finish_def)

lemma slice_limits_cases:
  assumes "slice_limits off len0 = (len, lim)" "0 \<le> off" "int (length d) \<le> INT_MAX"
  shows "len < 0 \<and> lim = -1 \<or> 0 \<le> len \<and> lim = off + len" "lim \<le> INT_MAX"
    "text_slice off len d = text_slice off len0 d"
  using assms by (auto simp: slice_limits_def text_slice_def INT_MAX_def split: if_splits)

lemma decompress_finish_payload:
  assumes p: "payload_of cm d c" and off: "0 \<le> off"
    and lim: "len < 0 \<and> lim = -1 \<or> 0 \<le> len \<and> lim = off + len" "lim \<le> INT_MAX"
    and m: "lim = -1 \<or> int (length d) \<le> lim \<Longrightarrow> m = length c"
      "0 \<le> lim \<Longrightarrow> lim < int (length d) \<Longrightarrow> enough cm (nat lim) c m"
  shows "decompress_finish env off len lim (mk_compressed (int (length d)) cm (take m c) @ r) =
    Inr (mk_plain (text_slice off len d))"
proof -
  note f = payload_of_facts [OF p]
  have comp: "VARATT_IS_COMPRESSED (mk_compressed (int (length d)) cm (take m c) @ r)"
    by (simp add: varatt_simps varatt_class_defs)
  have nr: "len < 0 \<or> lim = off + len" using lim by blast
  have full: "slice_preslice (mk_plain d @ []) off len lim = Inr (mk_plain (text_slice off len d))"
    by (rule slice_preslice_plain [OF f(1) off nr])
  show ?thesis
  proof (cases "0 \<le> lim \<and> lim < int (length d)")
    case True
    then have k: "nat lim < length d" "int (nat lim) = lim" by auto
    obtain j where j: "nat lim \<le> j" "j \<le> length d"
      "toast_decompress_datum_slice env (mk_compressed (int (length d)) cm (take m c) @ r) lim =
        Inr (mk_plain (take j d))"
      using toast_decompress_slice_payload [OF p k(1) m(2), of env r] True k(2) by auto
    have "slice_preslice (mk_plain (take j d) @ []) off len lim = Inr (mk_plain (text_slice off len (take j d)))"
      by (rule slice_preslice_plain [OF _ off nr]) (use f(1) in simp)
    moreover have "text_slice off len (take j d) = text_slice off len d"
      by (rule slice_take) (use off lim j(1) True in auto)
    ultimately show ?thesis using comp True j(3) by (simp add: decompress_finish_def)
  next
    case False
    then have mc: "take m c = c" using m(1) lim off by auto
    have dc: "toast_decompress_datum env (mk_compressed (int (length d)) cm c @ r) = Inr (mk_plain d)"
      by (rule toast_decompress_payload [OF p])
    have "toast_decompress_datum_slice env (mk_compressed (int (length d)) cm c @ r) lim = Inr (mk_plain d)"
      if "0 \<le> lim" "lim \<le> INT_MAX"
    proof -
      have "uint (word_of_int lim :: 32 word) = lim"
        by (subst uint_word_of_int) (use that in \<open>simp add: INT_MAX_def\<close>)
      with False that dc f(1) show ?thesis
        by (simp add: toast_decompress_datum_slice_def varatt_simps)
    qed
    with full dc comp False mc lim show ?thesis
      by (auto simp: decompress_finish_def)
  qed
qed

section \<open>TOAST pointers\<close>

text \<open>The pointer \<open>toast_save_datum\<close> builds for \<open>n\<close> raw bytes stored as \<open>data\<close>.\<close>

definition ext_pointer :: "int \<Rightarrow> int \<Rightarrow> int \<Rightarrow> oid \<Rightarrow> oid \<Rightarrow> varatt_external" where
  "ext_pointer n extsize cm vid relid = \<lparr>va_rawsize = word_of_int (n + 4),
     va_extinfo = word_of_int extsize OR push_bit VARLENA_EXTSIZE_BITS (word_of_int cm),
     va_valueid = vid, va_toastrelid = relid\<rparr>"

lemma ext_pointer_info:
  assumes "0 \<le> n" "n < 2 ^ 30 - 8" "0 \<le> e" "e < 2 ^ 30" "0 \<le> cm" "cm < 4"
  shows "VARATT_EXTERNAL_GET_EXTSIZE (ext_pointer n e cm vid relid) = e"
    "VARATT_EXTERNAL_GET_COMPRESS_METHOD (ext_pointer n e cm vid relid) = cm"
    "VARATT_EXTERNAL_IS_COMPRESSED (ext_pointer n e cm vid relid) \<longleftrightarrow> e < n"
    "sint (va_rawsize (ext_pointer n e cm vid relid)) = n + 4"
proof -
  show e: "VARATT_EXTERNAL_GET_EXTSIZE (ext_pointer n e cm vid relid) = e"
    unfolding VARATT_EXTERNAL_GET_EXTSIZE_def ext_pointer_def VARLENA_EXTSIZE_BITS_def
    using tcinfo_bits [OF assms(3,4)] by simp
  show "VARATT_EXTERNAL_GET_COMPRESS_METHOD (ext_pointer n e cm vid relid) = cm"
    unfolding VARATT_EXTERNAL_GET_COMPRESS_METHOD_def ext_pointer_def VARLENA_EXTSIZE_BITS_def
    using method_bits [OF assms(3-6)] by simp
  have w: "va_rawsize (ext_pointer n e cm vid relid) - word_of_int VARHDRSZ = word_of_int n"
    by (simp add: ext_pointer_def VARHDRSZ_def)
  have u: "uint (word_of_int n :: 32 word) = n"
    by (subst uint_word_of_int) (use assms in simp)
  show "VARATT_EXTERNAL_IS_COMPRESSED (ext_pointer n e cm vid relid) \<longleftrightarrow> e < n"
    unfolding VARATT_EXTERNAL_IS_COMPRESSED_def w word_less_def u
    using e [unfolded VARATT_EXTERNAL_GET_EXTSIZE_def] by simp
  show "sint (va_rawsize (ext_pointer n e cm vid relid)) = n + 4"
  proof -
    have "sint (word_of_int m :: 32 word) = m" if "0 \<le> m" "m < 2 ^ 31" for m
      using to_int32_small [OF that] by (simp add: to_int32_def)
    then show ?thesis using assms(1,2) by (simp add: ext_pointer_def del: of_int_add)
  qed
qed

text \<open>A value in a TOAST table of the environment.\<close>

definition in_store :: "detoast_env \<Rightarrow> oid \<Rightarrow> oid \<Rightarrow> bytes \<Rightarrow> bool" where
  "in_store env relid vid data \<longleftrightarrow> (\<exists>trel. de_store env relid = Some trel \<and> has_valid_index trel \<and>
     stored trel vid data)"

lemma toast_fetch_datum_stored:
  assumes st: "in_store env relid vid data" and f: "length data < 2 ^ 30 - 4" "0 < length data"
    and n: "0 \<le> n" "n < 2 ^ 30 - 8" "0 \<le> cm" "cm < 4"
  shows "toast_fetch_datum env (external_bytes (ext_pointer n (int (length data)) cm vid relid) @ r) =
    Inr ((if int (length data) < n then SET_VARSIZE_4B_C (int (length data) + 4)
          else SET_VARSIZE_4B (int (length data) + 4)) @ data)"
proof -
  obtain trel where t: "de_store env relid = Some trel" "has_valid_index trel" "stored trel vid data"
    using st by (auto simp: in_store_def)
  have "heap_fetch_toast_slice trel vid (int (length data)) 0 (int (length data)) (replicate (length data) 0)
      = Inr data"
    using heap_fetch_stored [OF t(3,2) f(2), of 0 "replicate (length data) 0"] f(1) by simp
  moreover have "va_valueid (ext_pointer n e cm vid relid) = vid"
    "va_toastrelid (ext_pointer n e cm vid relid) = relid" for e by (simp_all add: ext_pointer_def)
  moreover note ext_pointer_info [OF n(1,2) _ _ n(3,4), of "int (length data)" vid relid]
  ultimately show ?thesis
    using f t(1) by (simp add: toast_fetch_datum_def varatt_simps varatt_class_defs table_open_def varhdrsz)
qed

lemma toast_fetch_slice_stored:
  assumes st: "in_store env relid vid data" and f: "length data < 2 ^ 30 - 4" "0 < length data"
    and n: "0 \<le> n" "n < 2 ^ 30 - 8" "0 \<le> cm" "cm < 4"
    and off: "0 \<le> off" "int (length data) < n \<Longrightarrow> off = 0"
  shows "toast_fetch_datum_slice env (external_bytes (ext_pointer n (int (length data)) cm vid relid) @ r) off len =
    (let s = text_slice off (if int (length data) < n \<and> 0 < len then len + 4 else len) data
     in Inr ((if int (length data) < n then SET_VARSIZE_4B_C (int (length s) + 4)
              else SET_VARSIZE_4B (int (length s) + 4)) @ s))"
proof -
  obtain trel where t: "de_store env relid = Some trel" "has_valid_index trel" "stored trel vid data"
    using st by (auto simp: in_store_def)
  define len' where "len' = (if int (length data) < n \<and> 0 < len then len + 4 else len)"
  define l where "l = (if int (length data) \<le> off then 0
      else if off + len' > int (length data) \<or> len' < 0 then int (length data) - off else len')"
  have sl: "length (text_slice off len' data) = nat l" "0 \<le> l" "l = 0 \<Longrightarrow> text_slice off len' data = []"
    "l \<noteq> 0 \<Longrightarrow> text_slice off len' data = take (nat l) (drop (nat off) data)"
    "l \<noteq> 0 \<Longrightarrow> nat off + nat l \<le> length data"
    using off(1) by (auto simp: text_slice_def l_def min_def split: if_splits)
  have fetch: "heap_fetch_toast_slice trel vid (int (length data)) off l (replicate (nat l) 0) =
      Inr (text_slice off len' data)" if "l \<noteq> 0"
    using heap_fetch_stored [OF t(3,2), of "nat l" "nat off" "replicate (nat l) 0"] that sl off(1) f(1) by simp
  have ids: "va_valueid (ext_pointer n e cm vid relid) = vid"
    "va_toastrelid (ext_pointer n e cm vid relid) = relid" for e by (simp_all add: ext_pointer_def)
  note info = ext_pointer_info [OF n(1,2) _ _ n(3,4), of "int (length data)" vid relid]
  have "toast_fetch_datum_slice env (external_bytes (ext_pointer n (int (length data)) cm vid relid) @ r) off len =
    (if l = 0 then Inr (if int (length data) < n then SET_VARSIZE_4B_C (l + 4) else SET_VARSIZE_4B (l + 4))
     else bindE (heap_fetch_toast_slice trel vid (int (length data)) off l (replicate (nat l) 0)) (\<lambda>data'.
       Inr ((if int (length data) < n then SET_VARSIZE_4B_C (l + 4) else SET_VARSIZE_4B (l + 4)) @ data')))"
  proof (cases "int (length data) \<le> off")
    case True
    then have "l = 0" by (simp add: l_def)
    with True info f show ?thesis
      by (simp add: toast_fetch_datum_slice_def varatt_simps varatt_class_defs varhdrsz)
  next
    case False
    then have "l = (if off + len' > int (length data) \<or> len' < 0 then int (length data) - off else len')"
      by (simp add: l_def)
    with False info f t(1) show ?thesis
      by (cases "int (length data) < n"; cases "0 < len"; cases "off + len' > int (length data) \<or> len' < 0")
         (simp_all add: toast_fetch_datum_slice_def varatt_simps varatt_class_defs varhdrsz table_open_def
           ids len'_def Let_def)
  qed
  then show ?thesis
    unfolding len'_def [symmetric] Let_def using fetch sl by auto
qed

section \<open>Representation\<close>

definition indirect_bytes :: "64 word \<Rightarrow> bytes" where
  "indirect_bytes p = SET_VARTAG_1B_E VARTAG_INDIRECT @ word_le 8 p"

abbreviation tcinfo :: "bytes \<Rightarrow> int \<Rightarrow> bytes" where
  "tcinfo d cm \<equiv> TOAST_COMPRESS_SET_SIZE_AND_COMPRESS_METHOD (int (length d)) cm"

definition inline_datum :: "int set \<Rightarrow> bytes \<Rightarrow> bytes \<Rightarrow> bool" where
  "inline_datum ms v d \<longleftrightarrow> text_datum v d \<or>
     (\<exists>cm c r. cm \<in> ms \<and> payload_of cm d c \<and> v = mk_compressed (int (length d)) cm c @ r)"

text \<open>\<open>represents ms env v d\<close>: the memory \<open>v\<close> starts with a datum for the value \<open>d\<close>: in line,
  out of line as is, out of line compressed, or by an in-memory pointer to one of these;
  \<open>ms\<close> are the ids of the compression methods that may have been used.\<close>

inductive represents :: "int set \<Rightarrow> detoast_env \<Rightarrow> bytes \<Rightarrow> bytes \<Rightarrow> bool" for ms env where
  inline: "inline_datum ms v d \<Longrightarrow> represents ms env v d"
| external: "fits_4b d \<Longrightarrow> 0 < length d \<Longrightarrow> in_store env relid vid d \<Longrightarrow>
    represents ms env (external_bytes (ext_pointer (int (length d)) (int (length d)) 0 vid relid) @ r) d"
| external_compressed: "cm \<in> ms \<Longrightarrow> payload_of cm d c \<Longrightarrow> in_store env relid vid (tcinfo d cm @ c) \<Longrightarrow>
    represents ms env (external_bytes (ext_pointer (int (length d)) (int (length c) + 4) cm vid relid) @ r) d"
| indirect: "de_mem env p = Some obj \<Longrightarrow> represents ms env obj d \<Longrightarrow> \<not> VARATT_IS_EXTERNAL_INDIRECT obj \<Longrightarrow>
    represents ms env (indirect_bytes p @ r) d"

lemma length_tcinfo [simp]: "length (tcinfo d cm) = 4"
  by (simp add: TOAST_COMPRESS_SET_SIZE_AND_COMPRESS_METHOD_def)

lemma mk_compressed_fold: "SET_VARSIZE_4B_C (int (length c) + 8) @ tcinfo d cm @ c =
    mk_compressed (int (length d)) cm c"
  by (simp add: mk_compressed_def varhdrsz)

lemma mk_plain_fold: "SET_VARSIZE_4B (int (length d) + 4) @ d = mk_plain d"
  by (simp add: mk_plain_def varhdrsz)

lemma is_indirect [varatt_simps]:
  "VARATT_IS_1B_E (indirect_bytes p @ r)" "VARTAG_1B_E (indirect_bytes p @ r) = VARTAG_INDIRECT"
  "VARATT_INDIRECT_GET_POINTER (indirect_bytes p @ r) = Inr p"
proof -
  have "length (SET_VARTAG_1B_E VARTAG_INDIRECT) = 2" by (simp add: SET_VARTAG_1B_E_def)
  then show "VARATT_INDIRECT_GET_POINTER (indirect_bytes p @ r) = Inr p"
    using rd_u64_word_le [of "SET_VARTAG_1B_E VARTAG_INDIRECT" p r]
    by (simp add: VARATT_INDIRECT_GET_POINTER_def indirect_bytes_def)
qed (simp_all add: VARATT_IS_1B_E_def VARTAG_1B_E_def indirect_bytes_def SET_VARTAG_1B_E_def hdr_def)

lemma inline_not_external:
  "inline_datum ms v d \<Longrightarrow> \<not> VARATT_IS_EXTERNAL v"
  unfolding inline_datum_def using text_datum_read(3) by (auto simp: varatt_simps varatt_class_defs)

lemma not_external [simp]:
  "\<not> VARATT_IS_EXTERNAL v \<Longrightarrow> \<not> VARATT_IS_EXTERNAL_ONDISK v"
  "\<not> VARATT_IS_EXTERNAL v \<Longrightarrow> \<not> VARATT_IS_EXTERNAL_INDIRECT v"
  "\<not> VARATT_IS_EXTERNAL v \<Longrightarrow> \<not> VARATT_IS_EXTERNAL_EXPANDED v"
  by (simp_all add: varatt_class_defs)

lemma ondisk_pointer [simp]:
  "VARATT_IS_EXTERNAL_ONDISK (external_bytes tp @ r)"
  "\<not> VARATT_IS_EXTERNAL_INDIRECT (external_bytes tp @ r)"
  "\<not> VARATT_IS_EXTERNAL_ONDISK (indirect_bytes p @ r)"
  "VARATT_IS_EXTERNAL_INDIRECT (indirect_bytes p @ r)"
  by (simp_all add: varatt_simps varatt_class_defs vartags)

lemma fetch_external:
  assumes "fits_4b d" "0 < length d" "in_store env relid vid d"
  shows "toast_fetch_datum env (external_bytes (ext_pointer (int (length d)) (int (length d)) 0 vid relid) @ r)
    = Inr (mk_plain d)"
  using toast_fetch_datum_stored [OF assms(3), of "int (length d)" 0 r] assms(1,2)
  by (simp add: mk_plain_fold)

lemma fetch_external_compressed:
  assumes "payload_of cm d c" "in_store env relid vid (tcinfo d cm @ c)"
  shows "toast_fetch_datum env (external_bytes (ext_pointer (int (length d)) (int (length c) + 4) cm vid relid) @ r)
    = Inr (mk_compressed (int (length d)) cm c)"
proof -
  note f = payload_of_facts [OF assms(1)]
  have l: "int (length (tcinfo d cm @ c)) = int (length c) + 4" by simp
  show ?thesis
    using toast_fetch_datum_stored [OF assms(2) _ _ _ _ f(4,5), of "int (length d)" r] f
    unfolding l by (simp add: mk_compressed_def varhdrsz add.commute)
qed

text \<open>\<open>detoast_attr\<close> on each form.\<close>

lemma detoast_attr_inline:
  assumes "inline_datum ms v d"
  shows "\<exists>o' x. detoast_attr fuel env v = Inr o' \<and> the_datum v o' = mk_plain d @ x \<and>
    (o' = None \<longrightarrow> fits_4b d)"
proof -
  note ne = inline_not_external [OF assms]
  from assms consider (plain) r where "v = mk_plain d @ r" "fits_4b d"
    | (short) r where "v = mk_short d @ r" "fits_short d"
    | (comp) cm c r where "payload_of cm d c" "v = mk_compressed (int (length d)) cm c @ r" "cm \<in> ms"
    unfolding inline_datum_def text_datum_def by blast
  then show ?thesis
  proof cases
    case plain
    then have "detoast_attr fuel env v = Inr None"
      using ne by (subst detoast_attr.simps) (simp add: varatt_simps varatt_class_defs)
    with plain show ?thesis by (auto simp: the_datum_def)
  next
    case short
    then have "detoast_attr fuel env v = Inr (Some (mk_plain d))"
      using ne by (subst detoast_attr.simps)
        (simp add: varatt_simps varatt_class_defs varhdrsz mk_plain_def)
    then show ?thesis by (auto simp: the_datum_def)
  next
    case comp
    then have "detoast_attr fuel env v = Inr (Some (mk_plain d))"
      using ne toast_decompress_payload [OF comp(1), of env r] by (subst detoast_attr.simps)
        (simp add: varatt_simps varatt_class_defs)
    then show ?thesis by (auto simp: the_datum_def)
  qed
qed

lemma rd_range_whole: "rd_range (mk_plain d @ r) 0 (length d + 4) = Inr (mk_plain d)"
  using rd_range_at [of "[]" "mk_plain d" r] by (simp add: add.commute)

lemma detoast_attr_represents:
  assumes "represents ms env v d"
  shows "\<exists>o' x. detoast_attr (if VARATT_IS_EXTERNAL_INDIRECT v then Suc fuel else fuel) env v = Inr o' \<and>
    the_datum v o' = mk_plain d @ x \<and> (o' = None \<longrightarrow> fits_4b d)"
  using assms
proof (induction rule: represents.induct)
  case (inline v d)
  then show ?case using detoast_attr_inline inline_not_external not_external(2) by presburger
next
  case (external d relid vid r)
  let ?v = "external_bytes (ext_pointer (int (length d)) (int (length d)) 0 vid relid) @ r"
  have "detoast_attr fuel env ?v = Inr (Some (mk_plain d))"
    using fetch_external [OF external, of r] is_plain(3) [of d "[]"]
    by (subst detoast_attr.simps) (simp add: varatt_class_defs(1))
  then show ?case by (simp add: the_datum_def)
next
  case (external_compressed cm d c relid vid r)
  let ?v = "external_bytes (ext_pointer (int (length d)) (int (length c) + 4) cm vid relid) @ r"
  have "detoast_attr fuel env ?v = Inr (Some (mk_plain d))"
    using fetch_external_compressed [OF external_compressed(2,3), of r] is_compressed(3) [of _ cm c "[]"]
      toast_decompress_payload [OF external_compressed(2), of env "[]"]
    by (subst detoast_attr.simps) (simp add: varatt_class_defs(1))
  then show ?case by (simp add: the_datum_def)
next
  case (indirect p obj d r)
  then obtain o' x where o: "detoast_attr fuel env obj = Inr o'" "the_datum obj o' = mk_plain d @ x"
    "o' = None \<longrightarrow> fits_4b d" by auto
  show ?case
  proof (cases o')
    case None
    with o have "VARSIZE_ANY obj = Inr (int (length d) + 4)" "obj = mk_plain d @ x"
      by (simp_all add: the_datum_def VARSIZE_ANY_def varatt_simps)
    with o None indirect(1) have "detoast_attr (Suc fuel) env (indirect_bytes p @ r) = Inr (Some (mk_plain d))"
      by (subst detoast_attr.simps) (simp add: varatt_simps deref_def rd_range_whole nat_add_distrib)
    then show ?thesis by (simp add: the_datum_def)
  next
    case (Some y)
    with o indirect(1) have "detoast_attr (Suc fuel) env (indirect_bytes p @ r) = Inr (Some y)"
      by (subst detoast_attr.simps) (simp add: varatt_simps deref_def)
    with o Some show ?thesis by (simp add: the_datum_def)
  qed
qed

text \<open>\<open>detoast_attr_slice\<close>, unfolded into its four branches.\<close>

lemma detoast_attr_slice_unfold:
  assumes "0 \<le> off" "slice_limits off len0 = (len, lim)"
  shows "\<not> VARATT_IS_EXTERNAL v \<Longrightarrow> detoast_attr_slice fuel env v off len0 = decompress_finish env off len lim v"
    and "detoast_attr_slice fuel env (external_bytes tp @ r) off len0 =
      (if \<not> VARATT_EXTERNAL_IS_COMPRESSED tp
       then toast_fetch_datum_slice env (external_bytes tp @ r) off len
       else bindE (if lim \<ge> 0 then toast_fetch_datum_slice env (external_bytes tp @ r) 0
                (if VARATT_EXTERNAL_GET_COMPRESS_METHOD tp = TOAST_PGLZ_COMPRESSION_ID
                 then pglz_maximum_compressed_size lim (VARATT_EXTERNAL_GET_EXTSIZE tp)
                 else VARATT_EXTERNAL_GET_EXTSIZE tp)
              else toast_fetch_datum env (external_bytes tp @ r)) (decompress_finish env off len lim))"
    and "de_mem env p = Some obj \<Longrightarrow> detoast_attr_slice (Suc fuel) env (indirect_bytes p @ r) off len0 =
      detoast_attr_slice fuel env obj off len"
proof -
  have lim: "(if len0 < 0 then (len0, - 1) else if off + len0 > INT_MAX then (- 1, - 1)
      else (len0, off + len0)) = (len, lim)" using assms(2) by (simp add: slice_limits_def)
  have off: "\<not> off < 0" using assms(1) by simp
  show "\<not> VARATT_IS_EXTERNAL v \<Longrightarrow> detoast_attr_slice fuel env v off len0 = decompress_finish env off len lim v"
    by (subst detoast_attr_slice.simps) (simp only: off lim Let_def prod.case if_False not_external
      simp_thms decompress_finish_def)
  show "detoast_attr_slice fuel env (external_bytes tp @ r) off len0 =
      (if \<not> VARATT_EXTERNAL_IS_COMPRESSED tp
       then toast_fetch_datum_slice env (external_bytes tp @ r) off len
       else bindE (if lim \<ge> 0 then toast_fetch_datum_slice env (external_bytes tp @ r) 0
                (if VARATT_EXTERNAL_GET_COMPRESS_METHOD tp = TOAST_PGLZ_COMPRESSION_ID
                 then pglz_maximum_compressed_size lim (VARATT_EXTERNAL_GET_EXTSIZE tp)
                 else VARATT_EXTERNAL_GET_EXTSIZE tp)
              else toast_fetch_datum env (external_bytes tp @ r)) (decompress_finish env off len lim))"
    by (subst detoast_attr_slice.simps) (simp only: off lim Let_def prod.case if_False if_True
      ondisk_pointer external_pointer bindE_simps decompress_finish_eta)
  show "de_mem env p = Some obj \<Longrightarrow> detoast_attr_slice (Suc fuel) env (indirect_bytes p @ r) off len0 =
      detoast_attr_slice fuel env obj off len"
    by (subst detoast_attr_slice.simps) (simp only: off lim Let_def prod.case if_False if_True
      ondisk_pointer is_indirect bindE_simps deref_def option.case nat.case)
qed

lemma slice_external:
  assumes "fits_4b d" "0 < length d" "in_store env relid vid d" "0 \<le> off"
  shows "toast_fetch_datum_slice env
      (external_bytes (ext_pointer (int (length d)) (int (length d)) 0 vid relid) @ r) off len =
    Inr (mk_plain (text_slice off len d))"
  using toast_fetch_slice_stored [OF assms(3), of "int (length d)" 0 off r len] assms
  by (simp add: Let_def mk_plain_fold)

lemma slice_external_compressed:
  assumes p: "payload_of cm d c" and st: "in_store env relid vid (tcinfo d cm @ c)" and k: "0 < k"
  shows "toast_fetch_datum_slice env
      (external_bytes (ext_pointer (int (length d)) (int (length c) + 4) cm vid relid) @ r) 0 k =
    Inr (mk_compressed (int (length d)) cm (take (nat k) c))"
proof -
  note f = payload_of_facts [OF p]
  have l: "int (length (tcinfo d cm @ c)) = int (length c) + 4" by simp
  have "text_slice 0 (k + 4) (tcinfo d cm @ c) = tcinfo d cm @ take (nat k) c"
    using k by (simp add: text_slice_def nat_add_distrib)
  then show ?thesis
    using toast_fetch_slice_stored [OF st _ _ _ _ f(4,5), of "int (length d)" 0 r k] f k
    unfolding l by (simp add: Let_def mk_compressed_def varhdrsz add.commute)
qed

lemma detoast_slice_inline:
  assumes "inline_datum ms v d" "0 \<le> off" "slice_limits off len0 = (len, lim)"
    "len < 0 \<and> lim = -1 \<or> 0 \<le> len \<and> lim = off + len" "lim \<le> INT_MAX"
  shows "decompress_finish env off len lim v = Inr (mk_plain (text_slice off len d))"
proof -
  have nr: "len < 0 \<or> lim = off + len" using assms(4) by blast
  from assms(1) consider (plain) r where "v = mk_plain d @ r" "fits_4b d"
    | (short) r where "v = mk_short d @ r" "fits_short d"
    | (comp) cm c r where "payload_of cm d c" "v = mk_compressed (int (length d)) cm c @ r" "cm \<in> ms"
    unfolding inline_datum_def text_datum_def by blast
  then show ?thesis
  proof cases
    case plain
    then show ?thesis using slice_preslice_plain [OF plain(2) assms(2) nr]
      by (simp add: decompress_finish_def varatt_simps varatt_class_defs)
  next
    case short
    then show ?thesis using slice_preslice_short [OF short(2) assms(2) nr]
      by (simp add: decompress_finish_def varatt_simps varatt_class_defs)
  next
    case comp
    show ?thesis
      using decompress_finish_payload [OF comp(1) assms(2,4,5), of "length c" env r]
      by (simp add: comp(2) enough_def)
  qed
qed

text \<open>The PGLZ prefix that is fetched is always enough.\<close>

lemma fetched_enough:
  assumes p: "payload_of cm d c" and lim: "0 \<le> lim"
    and k: "k = (if cm = TOAST_PGLZ_COMPRESSION_ID
      then pglz_maximum_compressed_size lim (int (length c) + 4) else int (length c) + 4)"
  shows "0 < k" "int (length d) \<le> lim \<Longrightarrow> min (nat k) (length c) = length c"
    "enough cm (nat lim) c (min (nat k) (length c))"
proof -
  have need: "pglz_maximum_compressed_size lim t = min ((lim * 9 + 7) div 8 + 2) t" for t
    using lim by (simp add: pglz_maximum_compressed_size_def Let_def c_div_nonneg)
  show "0 < k" using lim by (auto simp: k need)
  have "length c < length d" using payload_of_facts(3) [OF p] by simp
  then show "int (length d) \<le> lim \<Longrightarrow> min (nat k) (length c) = length c"
    by (auto simp: k need min_def)
  show "enough cm (nat lim) c (min (nat k) (length c))"
    using lim by (auto simp: enough_def k need min_def)
qed

lemma represents_fits: "represents ms env v d \<Longrightarrow> fits_4b d"
proof (induction rule: represents.induct)
  case (inline v d)
  then show ?case using text_datum_fits payload_of_facts(1) by (auto simp: inline_datum_def)
next
  case (external_compressed cm d c relid vid r)
  then show ?case using payload_of_facts(1) by blast
qed

lemma detoast_slice_represents:
  assumes "represents ms env v d" "0 \<le> off"
  shows "detoast_attr_slice (if VARATT_IS_EXTERNAL_INDIRECT v then Suc fuel else fuel) env v off len0 =
    Inr (mk_plain (text_slice off len0 d))"
  using assms
proof (induction arbitrary: len0 rule: represents.induct)
  case (inline v d)
  obtain len lim where l: "slice_limits off len0 = (len, lim)" by fastforce
  have "fits_4b d" using inline(1) text_datum_fits payload_of_facts(1) by (auto simp: inline_datum_def)
  then have "int (length d) \<le> INT_MAX" by (simp add: INT_MAX_def)
  note c = slice_limits_cases [OF l inline(2) this]
  show ?case
    using detoast_attr_slice_unfold(1) [OF inline(2) l inline_not_external [OF inline(1)]]
      detoast_slice_inline [OF inline(1,2) l c(1,2)] c(3) inline_not_external [OF inline(1)] by simp
next
  case (external d relid vid r)
  obtain len lim where l: "slice_limits off len0 = (len, lim)" by fastforce
  have m: "int (length d) \<le> INT_MAX" using external(1) by (simp add: INT_MAX_def)
  have "\<not> VARATT_EXTERNAL_IS_COMPRESSED (ext_pointer (int (length d)) (int (length d)) 0 vid relid)"
    using ext_pointer_info(3) [of "int (length d)" "int (length d)" 0 vid relid] external(1) by simp
  then show ?case
    using detoast_attr_slice_unfold(2) [OF external(4) l] slice_external [OF external(1-4)]
      slice_limits_cases(3) [OF l external(4) m] by simp
next
  case (external_compressed cm d c relid vid r)
  note p = external_compressed(2)
  note f = payload_of_facts [OF p]
  obtain len lim where l: "slice_limits off len0 = (len, lim)" by fastforce
  have md: "int (length d) \<le> INT_MAX" using f(1) by (simp add: INT_MAX_def)
  note cs = slice_limits_cases [OF l external_compressed(4) md]
  let ?tp = "ext_pointer (int (length d)) (int (length c) + 4) cm vid relid"
  have info: "VARATT_EXTERNAL_IS_COMPRESSED ?tp" "VARATT_EXTERNAL_GET_EXTSIZE ?tp = int (length c) + 4"
    "VARATT_EXTERNAL_GET_COMPRESS_METHOD ?tp = cm"
    using ext_pointer_info [of "int (length d)" "int (length c) + 4" cm vid relid] f by simp_all
  define k where "k = (if cm = TOAST_PGLZ_COMPRESSION_ID
      then pglz_maximum_compressed_size lim (int (length c) + 4) else int (length c) + 4)"
  have "detoast_attr_slice fuel env (external_bytes ?tp @ r) off len0 = Inr (mk_plain (text_slice off len d))"
  proof (cases "0 \<le> lim")
    case True
    note e = fetched_enough [OF p True k_def]
    have t: "take (min (nat k) (length c)) c = take (nat k) c" by (simp add: min_def)
    have "decompress_finish env off len lim (mk_compressed (int (length d)) cm (take (nat k) c) @ []) =
        Inr (mk_plain (text_slice off len d))"
      unfolding t [symmetric]
      by (rule decompress_finish_payload [OF p external_compressed(4) cs(1,2)]) (use True e in auto)
    moreover have "detoast_attr_slice fuel env (external_bytes ?tp @ r) off len0 =
        bindE (toast_fetch_datum_slice env (external_bytes ?tp @ r) 0 k) (decompress_finish env off len lim)"
      unfolding k_def detoast_attr_slice_unfold(2) [OF external_compressed(4) l] info
      using True by (simp add: info)
    ultimately show ?thesis
      using slice_external_compressed [OF p external_compressed(3) e(1), of r] by simp
  next
    case False
    have "decompress_finish env off len lim (mk_compressed (int (length d)) cm (take (length c) c) @ []) =
        Inr (mk_plain (text_slice off len d))"
      by (rule decompress_finish_payload [OF p external_compressed(4) cs(1,2)]) (use False in auto)
    then show ?thesis
      using detoast_attr_slice_unfold(2) [OF external_compressed(4) l, of fuel env ?tp r] info False
        fetch_external_compressed [OF p external_compressed(3), of r] by simp
  qed
  then show ?case using cs(3) by simp
next
  case (indirect p obj d r)
  obtain len lim where l: "slice_limits off len0 = (len, lim)" by fastforce
  have m: "int (length d) \<le> INT_MAX" using represents_fits [OF indirect(2)] by (simp add: INT_MAX_def)
  show ?case
    using detoast_attr_slice_unfold(3) [OF indirect.prems l indirect(1), of fuel r]
      indirect.IH [OF indirect.prems, of len] indirect(3) slice_limits_cases(3) [OF l indirect.prems m]
    by simp
qed

lemma toast_raw_size_represents:
  assumes "represents ms env v d"
  shows "toast_raw_datum_size (if VARATT_IS_EXTERNAL_INDIRECT v then Suc fuel else fuel) env v =
    Inr (int (length d) + 4)"
  using assms
proof (induction rule: represents.induct)
  case (inline v d)
  note ne = inline_not_external [OF inline]
  from inline consider (plain) r where "v = mk_plain d @ r" "fits_4b d"
    | (short) r where "v = mk_short d @ r" "fits_short d"
    | (comp) cm c r where "payload_of cm d c" "v = mk_compressed (int (length d)) cm c @ r" "cm \<in> ms"
    unfolding inline_datum_def text_datum_def by blast
  then show ?case
  proof cases
    case plain
    with ne show ?thesis
      by (subst toast_raw_datum_size.simps) (simp add: varatt_simps varatt_class_defs)
  next
    case short
    with ne show ?thesis
      by (subst toast_raw_datum_size.simps) (simp add: varatt_simps varatt_class_defs varhdrsz)
  next
    case comp
    with ne payload_of_facts [OF comp(1)] show ?thesis
      by (subst toast_raw_datum_size.simps) (simp add: varatt_simps varatt_class_defs varhdrsz)
  qed
next
  case (external d relid vid r)
  then show ?case
    using ext_pointer_info(4) [of "int (length d)" "int (length d)" 0 vid relid]
    by (subst toast_raw_datum_size.simps) (simp add: external_pointer)
next
  case (external_compressed cm d c relid vid r)
  then show ?case
    using ext_pointer_info(4) [of "int (length d)" "int (length c) + 4" cm vid relid]
      payload_of_facts [OF external_compressed(2)]
    by (subst toast_raw_datum_size.simps) (simp add: external_pointer)
next
  case (indirect p obj d r)
  then show ?case by (subst toast_raw_datum_size.simps) (simp add: is_indirect deref_def)
qed

section \<open>What the writers produce\<close>

definition method_id :: "char \<Rightarrow> int" where
  "method_id cm = (if cm = TOAST_PGLZ_COMPRESSION then TOAST_PGLZ_COMPRESSION_ID
     else TOAST_RLE_COMPRESSION_ID)"

lemma toast_compress_payload:
  assumes v: "text_datum v d" "length (env_tcinfo0 cenv) = 4"
    and m: "chosen_method cenv cm = TOAST_PGLZ_COMPRESSION \<or>
      chosen_method cenv cm = TOAST_RLE_COMPRESSION \<and> runs_in_windows 128 d"
    and r: "toast_compress_datum cenv v cm = Inr (Some c)"
  shows "\<exists>p. payload_of (method_id (chosen_method cenv cm)) d p \<and>
    c = mk_compressed (int (length d)) (method_id (chosen_method cenv cm)) p"
  using m
proof
  assume m: "chosen_method cenv cm = TOAST_PGLZ_COMPRESSION"
  show ?thesis
  proof (cases rule: toast_compress_pglz [OF v m, case_names no yes])
    case (yes dest n)
    have "length (take (nat n) dest) = nat n"
      using pglz.payload_fits [OF yes(1,2) text_datum_fits [OF v(1)]] by simp
    moreover have "\<exists>h dest' n'. pglz_compress h d None = Some (dest', n') \<and> 0 \<le> n' \<and>
        take (nat n) dest = take (nat n') dest'" using yes(1,2) by blast
    ultimately have "payload_of TOAST_PGLZ_COMPRESSION_ID d (take (nat n) dest)"
      unfolding payload_of_def using yes(2,3) text_datum_fits [OF v(1)] by simp
    with yes(4) r show ?thesis unfolding m by (auto simp: method_id_def)
  qed (use r in simp)
next
  assume m: "chosen_method cenv cm = TOAST_RLE_COMPRESSION \<and> runs_in_windows 128 d"
  show ?thesis
  proof (cases rule: toast_compress_rle [OF v conjunct1 [OF m], case_names no yes])
    case (yes dest n)
    have "length (take (nat n) dest) = nat n"
      using rle.payload_fits [of d dest n] yes(1,2) text_datum_fits [OF v(1)] by simp
    with yes m text_datum_fits [OF v(1)] have "payload_of TOAST_RLE_COMPRESSION_ID d (take (nat n) dest)"
      unfolding payload_of_def by auto
    with yes(4) r show ?thesis
      unfolding conjunct1 [OF m] by (auto simp: method_id_def compression_methods)
  qed (use r in simp)
qed

lemma stored_not_fresh:
  assumes "stored trel vid data" "\<forall>c \<in> set (tr_rows trel). chunk_id c \<noteq> vid"
  shows "data = []"
proof -
  have "scan_ordered trel (\<lambda>c. chunk_id c = vid) = []"
    using scan_absent [OF assms(2), of "\<lambda>c. True"] by simp
  then have "nchunks data = 0" using assms(1) by (simp add: stored_def chunks_def)
  then show ?thesis using nchunks_iff [of 0 data] by simp
qed

text \<open>Adding a fresh value to a table keeps every representation.\<close>

abbreviation add_value :: "detoast_env \<Rightarrow> oid \<Rightarrow> toast_rel \<Rightarrow> oid \<Rightarrow> bytes \<Rightarrow> detoast_env" where
  "add_value env relid trel vid data \<equiv> env\<lparr>de_store := (de_store env)(relid \<mapsto>
     trel\<lparr>tr_rows := tr_rows trel @ chunks vid data\<rparr>)\<rparr>"

lemma in_store_add_value:
  assumes t: "de_store env relid = Some trel" "\<forall>c \<in> set (tr_rows trel). chunk_id c \<noteq> vid"
    and s: "in_store env relid' vid' x" "x \<noteq> []"
  shows "in_store (add_value env relid trel vid data) relid' vid' x"
proof (cases "relid' = relid")
  case True
  with s t have st: "has_valid_index trel" "stored trel vid' x" by (auto simp: in_store_def)
  then have "vid' \<noteq> vid" using stored_not_fresh [of trel vid x] t(2) s(2) by auto
  then have "stored (trel\<lparr>tr_rows := tr_rows trel @ chunks vid data\<rparr>) vid' x"
    using stored_append_other [of vid' vid trel data x] st(2) by simp
  with True st(1) show ?thesis by (simp add: in_store_def has_valid_index_def)
next
  case False
  with s show ?thesis by (auto simp: in_store_def)
qed

lemma represents_add_value:
  assumes t: "de_store env relid = Some trel" "\<forall>c \<in> set (tr_rows trel). chunk_id c \<noteq> vid"
    and r: "represents ms env v d"
  shows "represents ms (add_value env relid trel vid data) v d"
  using r
proof (induction rule: represents.induct)
  case (inline v d)
  then show ?case by (rule represents.inline)
next
  case (external d relid' vid' r)
  have "d \<noteq> []" using external(2) by simp
  show ?case
    by (rule represents.external [OF external(1,2) in_store_add_value [OF t external(3) \<open>d \<noteq> []\<close>]])
next
  case (external_compressed cm d c relid' vid' r)
  have ne: "tcinfo d cm @ c \<noteq> []"
    using length_tcinfo [of d cm] by (metis append_is_Nil_conv list.size(3) zero_neq_numeral)
  show ?case
    by (rule represents.external_compressed [OF external_compressed(1,2)
          in_store_add_value [OF t external_compressed(3) ne]])
next
  case (indirect p obj d r)
  then show ?case by (intro represents.indirect) auto
qed

lemma toast_save_inline:
  assumes v: "inline_datum ms v d" "0 < length d"
    and t: "de_store env (reltoastrelid rel) = Some trel" "has_valid_index trel" "rd_toastoid rel = InvalidOid"
      "\<forall>c \<in> set (tr_rows trel). chunk_id c \<noteq> vid"
  shows "\<exists>data p. toast_save_datum (de_store env) rel (vid # oids) v old =
      Inr (de_store (add_value env (reltoastrelid rel) trel vid data), p) \<and> VARATT_IS_EXTERNAL_ONDISK p \<and>
    (\<exists>tp. p = external_bytes tp \<and> va_toastrelid tp = reltoastrelid rel \<and> va_valueid tp = vid) \<and>
    (\<forall>r. represents ms (add_value env (reltoastrelid rel) trel vid data) (p @ r) d)"
proof -
  have od: "VARATT_IS_EXTERNAL_ONDISK (external_bytes tp)" for tp
    using ondisk_pointer(1) [of tp "[]"] by simp
  have ids: "va_toastrelid (ext_pointer n e cm w relid) = relid" "va_valueid (ext_pointer n e cm w relid) = w"
    for n e cm w relid by (simp_all add: ext_pointer_def)
  have ins: "in_store (add_value env (reltoastrelid rel) trel vid data) (reltoastrelid rel) vid data" for data
    using stored_append [OF t(4)] t(2) by (simp add: in_store_def has_valid_index_def)
  have ptr: "ext_pointer n e 0 w relid = \<lparr>va_rawsize = word_of_int (n + 4), va_extinfo = word_of_int e,
      va_valueid = w, va_toastrelid = relid\<rparr>" for n e w relid
    by (simp add: ext_pointer_def)
  from v(1) consider (plain) r where "v = mk_plain d @ r" "fits_4b d"
    | (short) r where "v = mk_short d @ r" "fits_short d"
    | (comp) cm c r where "payload_of cm d c" "v = mk_compressed (int (length d)) cm c @ r" "cm \<in> ms"
    unfolding inline_datum_def text_datum_def by blast
  then show ?thesis
  proof cases
    case plain
    have d: "drop 4 v = d @ r" using plain(1) drop_mk(1) [of d] by simp
    note s = toast_save_datum_stored [where store = "de_store env", OF t
        toast_save_sizes_forms(1) [OF plain(2), of r, folded plain(1)] d]
    have "toast_save_datum (de_store env) rel (vid # oids) v old =
        Inr (de_store (add_value env (reltoastrelid rel) trel vid d),
             external_bytes (ext_pointer (int (length d)) (int (length d)) 0 vid (reltoastrelid rel)))"
      using s [of oids old] by (simp add: ptr)
    then show ?thesis using represents.external [OF plain(2) v(2) ins] od ids by blast
  next
    case short
    have d: "drop 1 v = d @ r" using short(1) drop_mk(2) [of d] by simp
    have f: "fits_4b d" using short(2) by simp
    note s = toast_save_datum_stored [where store = "de_store env", OF t
        toast_save_sizes_forms(2) [OF short(2), of r, folded short(1)] d]
    have "toast_save_datum (de_store env) rel (vid # oids) v old =
        Inr (de_store (add_value env (reltoastrelid rel) trel vid d),
             external_bytes (ext_pointer (int (length d)) (int (length d)) 0 vid (reltoastrelid rel)))"
      using s [of oids old] by (simp add: ptr)
    then show ?thesis using represents.external [OF f v(2) ins] od ids by blast
  next
    case comp
    note f = payload_of_facts [OF comp(1)]
    have d: "drop 4 v = (tcinfo d cm @ c) @ r"
      using comp(2) by (simp add: mk_compressed_def SET_VARSIZE_4B_C_def)
    have l: "int (length c) + 4 = int (length (tcinfo d cm @ c))" by simp
    have n: "0 \<le> int (length d)" "int (length d) < 2 ^ 30" using f by simp_all
    note s = toast_save_datum_stored [where store = "de_store env", OF t
        toast_save_sizes_forms(3) [OF f(2) n f(4,5), of r, folded comp(2), unfolded l] d]
    have "toast_save_datum (de_store env) rel (vid # oids) v old =
        Inr (de_store (add_value env (reltoastrelid rel) trel vid (tcinfo d cm @ c)),
             external_bytes (ext_pointer (int (length d)) (int (length c) + 4) cm vid (reltoastrelid rel)))"
      using s [of oids old] by (simp add: ext_pointer_def add.commute)
    then show ?thesis using represents.external_compressed [OF comp(3,1) ins] od ids by blast
  qed
qed

section \<open>A small value\<close>

text \<open>Forty equal bytes, stored compressed in line, and an empty TOAST table.\<close>

definition demo_text :: bytes where "demo_text = replicate 40 7"
definition demo_cenv :: compression_env where
  "demo_cenv = \<lparr>default_toast_compression = CHR ''r'', env_lz4 = None, env_hist = hist_zero,
     env_tcinfo0 = [0, 0, 0, 0]\<rparr>"
definition demo_comp :: bytes where "demo_comp = mk_compressed 40 TOAST_RLE_COMPRESSION_ID [165, 7]"
definition demo_table :: toast_rel where "demo_table = \<lparr>tr_rows = [], tr_indexes = [True]\<rparr>"
definition demo_heap :: heap_rel where "demo_heap = \<lparr>reltoastrelid = 9, rd_toastoid = 0\<rparr>"
definition demo_env :: detoast_env where
  "demo_env = \<lparr>de_store = [9 \<mapsto> demo_table], de_mem = (\<lambda>_. None), de_flatten = (\<lambda>_. Inl MemFault),
     de_lz4 = None\<rparr>"

lemma demo_rle: "rle_compress demo_text None = ([165, 7, 0], 2)"
  by code_simp

lemma demo_runs: "runs_in_windows 128 demo_text"
  by code_simp

lemma demo_compress: "toast_compress_datum demo_cenv (mk_plain demo_text) (CHR 0x00) = Inr (Some demo_comp)"
  by code_simp

lemma demo_text_datum: "text_datum (mk_plain demo_text) demo_text"
  unfolding text_datum_def by (intro exI [of _ "[]"]) (simp add: demo_text_def)

lemma demo_method: "chosen_method demo_cenv (CHR 0x00) = TOAST_RLE_COMPRESSION"
  by (simp add: CompressionMethodIsValid_def compression_methods demo_cenv_def)

lemma demo_inline: "inline_datum {TOAST_RLE_COMPRESSION_ID} (demo_comp @ r) demo_text"
proof -
  have "length demo_text = 40" by (simp add: demo_text_def)
  then have "payload_of TOAST_RLE_COMPRESSION_ID demo_text [165, 7]"
    using demo_rle demo_runs unfolding payload_of_def by auto
  then show ?thesis
    unfolding inline_datum_def demo_comp_def using \<open>length demo_text = 40\<close> by fastforce
qed

section \<open>Properties\<close>

text \<open>C7. \<open>detoast_attr\<close> returns the value a datum represents, as a plain datum with a 4-byte
  header, for every stored form: plain, short, compressed in line by RLE or PGLZ, out of line,
  out of line and compressed, or behind an in-memory pointer.\<close>

theorem detoast_attr_correct:
  assumes "represents ms env v d"
  shows "\<exists>r x. detoast_attr (Suc fuel) env v = Inr r \<and> the_datum v r = mk_plain d @ x"
  using detoast_attr_represents [OF assms, of "if VARATT_IS_EXTERNAL_INDIRECT v then fuel else Suc fuel"]
  by (auto split: if_splits)

theorem detoast_attr_correct_witness:
  "\<exists>r x. detoast_attr (Suc 0) demo_env (demo_comp @ []) = Inr r \<and>
     the_datum (demo_comp @ []) r = mk_plain demo_text @ x"
  by (rule detoast_attr_correct [OF represents.inline [OF demo_inline]])



text \<open>\<open>toast_raw_datum_size\<close> is the size of the detoasted value with its header, for every
  stored form, without reading the value.\<close>

lemma toast_raw_datum_size_correct:
  assumes "represents ms env v d"
  shows "toast_raw_datum_size (Suc fuel) env v = Inr (int (length d) + VARHDRSZ)"
  using toast_raw_size_represents [OF assms, of "if VARATT_IS_EXTERNAL_INDIRECT v then fuel else Suc fuel"]
  by (auto simp: VARHDRSZ_def split: if_splits)



text \<open>C31. With RLE on arbitrary values, the lossy ones included, a compressed datum never
  detoasts to a wrong value: the result is the value or a data-corruption error.\<close>

theorem toast_compress_rle_never_wrong:
  assumes "text_datum v d" "length (env_tcinfo0 cenv) = 4"
    and "chosen_method cenv cm = TOAST_RLE_COMPRESSION"
    and "toast_compress_datum cenv v cm = Inr (Some c)"
  shows "detoast_attr fuel env (c @ r) \<in> {Inr (Some (mk_plain d)), Inl (Ereport ERRCODE_DATA_CORRUPTED)}"
proof (cases rule: toast_compress_rle [OF assms(1-3), case_names no yes])
  case (yes dest n)
  have f: "fits_4b d" by (rule text_datum_fits [OF assms(1)])
  have c: "c = mk_compressed (int (length d)) TOAST_RLE_COMPRESSION_ID (take (nat n) dest)"
    using yes(4) assms(4) by simp
  have "Some (rle_compress d None) = Some (dest, n)" using yes(1) by simp
  from rle.datum_verdict [OF this yes(2) f, of TOAST_RLE_COMPRESSION_ID r]
  have "toast_decompress_datum env (c @ r) \<in> {Inr (mk_plain d), Inl (Ereport ERRCODE_DATA_CORRUPTED)}"
    using f by (simp add: toast_decompress_datum_def c varatt_simps compression_ids decompress_datum_bodies)
  moreover have "detoast_attr fuel env (c @ r) = bindE (toast_decompress_datum env (c @ r)) (\<lambda>r. Inr (Some r))"
    by (subst detoast_attr.simps) (simp add: c varatt_simps varatt_class_defs)
  ultimately show ?thesis by auto
qed (use assms(4) in simp)

theorem toast_compress_rle_never_wrong_witness:
  "detoast_attr 0 demo_env (demo_comp @ []) \<in>
     {Inr (Some (mk_plain demo_text)), Inl (Ereport ERRCODE_DATA_CORRUPTED)}"
  using toast_compress_rle_never_wrong [OF demo_text_datum _ demo_method demo_compress, of 0 demo_env "[]"]
  by (simp add: demo_cenv_def)

text \<open>C9. \<open>toast_save_datum\<close> stores an in-line datum, compressed or not, under a fresh value OID:
  the returned pointer represents the value in the new tables, and every datum that represented
  a value before still does.\<close>

theorem toast_save_datum_correct:
  assumes "inline_datum ms v d" "0 < length d"
    and "de_store env (reltoastrelid rel) = Some trel" "has_valid_index trel" "rd_toastoid rel = InvalidOid"
      "\<forall>c \<in> set (tr_rows trel). chunk_id c \<noteq> vid"
  shows "\<exists>store' p. toast_save_datum (de_store env) rel (vid # oids) v old = Inr (store', p) \<and>
    (\<forall>r. represents ms (env\<lparr>de_store := store'\<rparr>) (p @ r) d) \<and>
    (\<forall>ms' v' d'. represents ms' env v' d' \<longrightarrow> represents ms' (env\<lparr>de_store := store'\<rparr>) v' d')"
proof -
  obtain data p where s: "toast_save_datum (de_store env) rel (vid # oids) v old =
      Inr (de_store (add_value env (reltoastrelid rel) trel vid data), p)"
    "\<forall>r. represents ms (add_value env (reltoastrelid rel) trel vid data) (p @ r) d"
    using toast_save_inline [OF assms] by blast
  then show ?thesis using represents_add_value [OF assms(3,6), of _ _ _ data] by auto
qed

theorem toast_save_datum_correct_witness:
  "\<exists>store' p. toast_save_datum (de_store demo_env) demo_heap [77] demo_comp None = Inr (store', p) \<and>
    represents {TOAST_RLE_COMPRESSION_ID} (demo_env\<lparr>de_store := store'\<rparr>) p demo_text"
proof -
  have a: "inline_datum {TOAST_RLE_COMPRESSION_ID} demo_comp demo_text" using demo_inline [of "[]"] by simp
  have b: "0 < length demo_text" by (simp add: demo_text_def)
  have c: "de_store demo_env (reltoastrelid demo_heap) = Some demo_table"
    by (simp add: demo_env_def demo_heap_def)
  have d: "has_valid_index demo_table" "rd_toastoid demo_heap = InvalidOid"
    "\<forall>c \<in> set (tr_rows demo_table). chunk_id c \<noteq> 77"
    by (simp_all add: has_valid_index_def demo_table_def demo_heap_def InvalidOid_def)
  show ?thesis
    using toast_save_datum_correct [OF a b c d, of "[]" None] by (metis append_Nil2)
qed


end
