(* ===== verification/Hocotext.thy ===== *)
theory Hocotext
  imports Detoast_Correct
begin

text \<open>
  \<^verbatim>\<open>contrib/hocotext/hocotext.c\<close>: the text type that compares values and extracts substrings
  on the run-length compressed form.

  A function argument is the memory from the datum on, pointers into it are offsets, \<open>lefend\<close>
  and \<open>righend\<close> are integers because they are computed from header bytes. A buffer with its
  cursor and count (\<open>cur_lef\<close>, \<open>cur_lef_p\<close>, \<open>lef_count\<close>) is the list of the bytes still to
  be compared. \<open>char\<close> is signed. \<open>PG_GET_COLLATION()\<close> is the argument \<open>collid\<close>.
\<close>

section \<open>Utility functions\<close>

definition hoco_THRESHOLD :: nat where "hoco_THRESHOLD = 3"

definition hocotext_toast_fetch_datum :: "detoast_env \<Rightarrow> bytes \<Rightarrow> bytes res" where
  "hocotext_toast_fetch_datum env attr =
     (if \<not> VARATT_IS_EXTERNAL_ONDISK attr then Inl (Ereport ERRCODE_INTERNAL_ERROR)
      else
        bindE (VARATT_EXTERNAL_GET_POINTER attr) (\<lambda>toast_pointer.
          let attrsize = VARATT_EXTERNAL_GET_EXTSIZE toast_pointer;
              header = (if VARATT_EXTERNAL_IS_COMPRESSED toast_pointer
                        then SET_VARSIZE_4B_C (attrsize + VARHDRSZ)
                        else SET_VARSIZE_4B (attrsize + VARHDRSZ))
          in if attrsize = 0 then Inr header
             else
               bindE (table_open (de_store env) (va_toastrelid toast_pointer)) (\<lambda>toastrel.
               bindE (heap_fetch_toast_slice toastrel (va_valueid toast_pointer) attrsize 0 attrsize
                        (replicate (nat attrsize) 0)) (\<lambda>data.
                 Inr (header @ data)))))"

fun hocotext_fetch_toasted_attr :: "nat \<Rightarrow> detoast_env \<Rightarrow> bytes \<Rightarrow> bytes option res" where
  "hocotext_fetch_toasted_attr fuel env attr =
     (if VARATT_IS_EXTERNAL_ONDISK attr then
        bindE (hocotext_toast_fetch_datum env attr) (\<lambda>r. Inr (Some r))
      else if VARATT_IS_EXTERNAL_INDIRECT attr then
        bindE (VARATT_INDIRECT_GET_POINTER attr) (\<lambda>redirect.
        bindE (deref env redirect) (\<lambda>target.
          case fuel of 0 \<Rightarrow> Inl OutOfFuel
          | Suc fuel' \<Rightarrow>
              bindE (hocotext_fetch_toasted_attr fuel' env target) (\<lambda>r.
                case r of
                  Some d \<Rightarrow> Inr (Some d)
                | None \<Rightarrow>
                    bindE (VARSIZE_ANY target) (\<lambda>n.
                    bindE (rd_range target 0 (nat n)) (\<lambda>copy. Inr (Some copy))))))
      else if VARATT_IS_EXTERNAL_EXPANDED attr then detoast_external_attr fuel env attr
      else if VARATT_IS_COMPRESSED attr then Inr None
      else if VARATT_IS_SHORT attr then
        let data_size = VARSIZE_1B attr - VARHDRSZ_SHORT; new_size = data_size + VARHDRSZ in
        bindE (rd_range attr 1 (nat data_size)) (\<lambda>data. Inr (Some (SET_VARSIZE_4B new_size @ data)))
      else Inr None)"

declare hocotext_fetch_toasted_attr.simps [simp del]

definition hocotext_datum_packed :: "nat \<Rightarrow> detoast_env \<Rightarrow> bytes \<Rightarrow> bytes res" where
  "hocotext_datum_packed fuel env datum =
     (if VARATT_IS_COMPRESSED datum \<or> VARATT_IS_EXTERNAL datum
      then bindE (hocotext_fetch_toasted_attr fuel env datum) (\<lambda>r. Inr (the_datum datum r))
      else Inr datum)"

section \<open>Comparison of compressed values\<close>

text \<open>Unpacking the block at \<open>p\<close>: its bytes and the position after it.\<close>

definition hoco_load :: "bytes \<Rightarrow> nat \<Rightarrow> (bytes \<times> nat) res" where
  "hoco_load mem p =
     bindE (rd mem p) (\<lambda>b.
       if 0x1 AND drop_bit 7 b = 1 then
         bindE (rd mem (p + 1)) (\<lambda>c. Inr (replicate (unat (b AND 0x7f) + hoco_THRESHOLD) c, p + 2))
       else
         bindE (rd_range mem (p + 1) (unat (b AND 0x7f))) (\<lambda>bs. Inr (bs, p + 1 + unat (b AND 0x7f))))"

text \<open>\<open>if (count == 0) { ... }\<close>\<close>

definition hoco_refill :: "bytes \<Rightarrow> nat \<Rightarrow> bytes \<Rightarrow> (bytes \<times> nat) res" where
  "hoco_refill mem p cur = (if cur = [] then hoco_load mem p else Inr (cur, p))"

text \<open>The inner loop: \<open>Inl\<close> a returned result, \<open>Inr\<close> what is left of the two buffers.\<close>

fun hoco_inner :: "bytes \<Rightarrow> bytes \<Rightarrow> int + bytes \<times> bytes" where
  "hoco_inner (x # xs) (y # ys) =
     (if x = y then hoco_inner xs ys
      else Inl (if sint x > sint y then 1 else if sint x = sint y then 0 else -1))"
| "hoco_inner xs ys = Inr (xs, ys)"

lemma hoco_inner_length:
  "hoco_inner xs ys = Inr (xs', ys') \<Longrightarrow> xs' = [] \<or> ys' = []"
  "hoco_inner xs ys = Inr (xs', ys') \<Longrightarrow> xs \<noteq> [] \<Longrightarrow> ys \<noteq> [] \<Longrightarrow>
     length xs' + length ys' < length xs + length ys"
proof -
  show "hoco_inner xs ys = Inr (xs', ys') \<Longrightarrow> xs' = [] \<or> ys' = []"
    by (induction xs ys rule: hoco_inner.induct) (auto split: if_splits)
  have "hoco_inner xs ys = Inr (xs', ys') \<Longrightarrow> length xs' \<le> length xs \<and> length ys' \<le> length ys" for xs ys
    by (induction xs ys rule: hoco_inner.induct) (auto split: if_splits)
  then show "hoco_inner xs ys = Inr (xs', ys') \<Longrightarrow> xs \<noteq> [] \<Longrightarrow> ys \<noteq> [] \<Longrightarrow>
     length xs' + length ys' < length xs + length ys"
    by (cases xs; cases ys) (fastforce split: if_splits)+
qed

lemma hoco_load_next: "hoco_load mem p = Inr (bs, q) \<Longrightarrow> p < q"
  by (auto simp: hoco_load_def bindE_eq_Inr_iff split: if_splits)

lemma hoco_refill_next:
  "hoco_refill mem p cur = Inr (cur', q) \<Longrightarrow> p \<le> q"
  "hoco_refill mem p cur = Inr (cur', q) \<Longrightarrow> cur = [] \<Longrightarrow> p < q"
  "hoco_refill mem p cur = Inr (cur', q) \<Longrightarrow> cur \<noteq> [] \<Longrightarrow> cur' = cur \<and> q = p"
  by (auto simp: hoco_refill_def split: if_splits dest!: hoco_load_next)

text \<open>\<open>while (lefp < lefend && righp < righend)\<close>\<close>

function hoco_loop1 :: "bytes \<Rightarrow> int \<Rightarrow> bytes \<Rightarrow> int \<Rightarrow> nat \<Rightarrow> bytes \<Rightarrow> nat \<Rightarrow> bytes \<Rightarrow>
    (int + nat \<times> bytes \<times> nat \<times> bytes) res" where
  "hoco_loop1 left lefend right righend lefp cur_lef righp cur_righ =
     (if int lefp < lefend \<and> int righp < righend then
        bindE (hoco_refill left lefp cur_lef) (\<lambda>(cur_lef', lefp').
        bindE (hoco_refill right righp cur_righ) (\<lambda>(cur_righ', righp').
          case hoco_inner cur_lef' cur_righ' of
            Inl result \<Rightarrow> Inr (Inl result)
          | Inr (cl, cr) \<Rightarrow> hoco_loop1 left lefend right righend lefp' cl righp' cr))
      else Inr (Inr (lefp, cur_lef, righp, cur_righ)))"
  by pat_completeness auto
termination
proof (relation "measures [\<lambda>(left, lefend, right, righend, lefp, cl, righp, cr).
      nat (lefend - int lefp) + nat (righend - int righp),
      \<lambda>(left, lefend, right, righend, lefp, cl, righp, cr). length cl + length cr]", goal_cases)
  case 1
  then show ?case by simp
next
  case (2 left lefend right righend lefp cur_lef righp cur_righ x cl' lefp' y cr' righp' z cl cr)
  then have r: "hoco_refill left lefp cur_lef = Inr (cl', lefp')"
    "hoco_refill right righp cur_righ = Inr (cr', righp')" "hoco_inner cl' cr' = Inr (cl, cr)"
    "int lefp < lefend" "int righp < righend" by auto
  show ?case
  proof (cases "cur_lef = [] \<or> cur_righ = []")
    case True
    with hoco_refill_next(1,2) [OF r(1)] hoco_refill_next(1,2) [OF r(2)] r(4,5) show ?thesis by auto
  next
    case False
    with hoco_refill_next(3) [OF r(1)] hoco_refill_next(3) [OF r(2)] hoco_inner_length(2) [OF r(3)]
    show ?thesis by simp
  qed
qed

declare hoco_loop1.simps [simp del]

text \<open>\<open>while (lefp < lefend && righ_count > 0)\<close>, and with the sides exchanged
  \<open>while (righp < righend && lef_count > 0)\<close>.\<close>

function hoco_loop2 :: "bytes \<Rightarrow> int \<Rightarrow> nat \<Rightarrow> bytes \<Rightarrow> bytes \<Rightarrow> (int + nat \<times> bytes \<times> bytes) res" where
  "hoco_loop2 left lefend lefp cur_lef cur_righ =
     (if int lefp < lefend \<and> cur_righ \<noteq> [] then
        bindE (hoco_refill left lefp cur_lef) (\<lambda>(cur_lef', lefp').
          case hoco_inner cur_lef' cur_righ of
            Inl result \<Rightarrow> Inr (Inl result)
          | Inr (cl, cr) \<Rightarrow> hoco_loop2 left lefend lefp' cl cr)
      else Inr (Inr (lefp, cur_lef, cur_righ)))"
  by pat_completeness auto
termination
proof (relation "measures [\<lambda>(left, lefend, lefp, cl, cr). nat (lefend - int lefp),
      \<lambda>(left, lefend, lefp, cl, cr). length cl + length cr]", goal_cases)
  case 1
  then show ?case by simp
next
  case (2 left lefend lefp cur_lef cur_righ x cl' lefp' z cl cr)
  then have r: "hoco_refill left lefp cur_lef = Inr (cl', lefp')" "hoco_inner cl' cur_righ = Inr (cl, cr)"
    "int lefp < lefend" "cur_righ \<noteq> []" by auto
  show ?case
  proof (cases "cur_lef = []")
    case True
    with hoco_refill_next(2) [OF r(1)] r(3) show ?thesis by auto
  next
    case False
    with hoco_refill_next(3) [OF r(1)] hoco_inner_length(2) [OF r(2)] r(4) show ?thesis by simp
  qed
qed

declare hoco_loop2.simps [simp del]

function hoco_loop3 :: "bytes \<Rightarrow> int \<Rightarrow> nat \<Rightarrow> bytes \<Rightarrow> bytes \<Rightarrow> (int + nat \<times> bytes \<times> bytes) res" where
  "hoco_loop3 right righend righp cur_lef cur_righ =
     (if int righp < righend \<and> cur_lef \<noteq> [] then
        bindE (hoco_refill right righp cur_righ) (\<lambda>(cur_righ', righp').
          case hoco_inner cur_lef cur_righ' of
            Inl result \<Rightarrow> Inr (Inl result)
          | Inr (cl, cr) \<Rightarrow> hoco_loop3 right righend righp' cl cr)
      else Inr (Inr (righp, cur_lef, cur_righ)))"
  by pat_completeness auto
termination
proof (relation "measures [\<lambda>(right, righend, righp, cl, cr). nat (righend - int righp),
      \<lambda>(right, righend, righp, cl, cr). length cl + length cr]", goal_cases)
  case 1
  then show ?case by simp
next
  case (2 right righend righp cur_lef cur_righ x cr' righp' z cl cr)
  then have r: "hoco_refill right righp cur_righ = Inr (cr', righp')" "hoco_inner cur_lef cr' = Inr (cl, cr)"
    "int righp < righend" "cur_lef \<noteq> []" by auto
  show ?case
  proof (cases "cur_righ = []")
    case True
    with hoco_refill_next(2) [OF r(1)] r(3) show ?thesis by auto
  next
    case False
    with hoco_refill_next(3) [OF r(1)] hoco_inner_length(2) [OF r(2)] r(4) show ?thesis by simp
  qed
qed

declare hoco_loop3.simps [simp del]

definition hoco_check_collation :: "oid \<Rightarrow> unit res" where
  "hoco_check_collation collid =
     (if \<not> OidIsValid collid then Inl (Ereport ERRCODE_INDETERMINATE_COLLATION) else Inr ())"

definition hocotext_hoco_cmp :: "bytes \<Rightarrow> bytes \<Rightarrow> oid \<Rightarrow> int res" where
  "hocotext_hoco_cmp left right collid =
     bindE (hoco_check_collation collid) (\<lambda>_.
     bindE (VARSIZE_ANY left) (\<lambda>lefend.
     bindE (VARSIZE_ANY right) (\<lambda>righend.
     bindE (hoco_loop1 left lefend right righend 8 [] 8 []) (\<lambda>r1.
       case r1 of Inl result \<Rightarrow> Inr result
       | Inr (lefp, cur_lef, righp, cur_righ) \<Rightarrow>
     bindE (hoco_loop2 left lefend lefp cur_lef cur_righ) (\<lambda>r2.
       case r2 of Inl result \<Rightarrow> Inr result
       | Inr (lefp, cur_lef, cur_righ) \<Rightarrow>
     bindE (hoco_loop3 right righend righp cur_lef cur_righ) (\<lambda>r3.
       case r3 of Inl result \<Rightarrow> Inr result
       | Inr (righp, cur_lef, cur_righ) \<Rightarrow>
           Inr (if int lefp < lefend \<or> cur_lef \<noteq> [] then 1
                else if int righp < righend \<or> cur_righ \<noteq> [] then -1 else 0)))))))"

section \<open>Comparison of a compressed and a plain value\<close>

text \<open>The result for two different bytes, negated if the arguments were exchanged.\<close>

definition mixed_result :: "bool \<Rightarrow> byte \<Rightarrow> byte \<Rightarrow> int" where
  "mixed_result exchange x y =
     (if exchange then (if sint x > sint y then -1 else if sint x = sint y then 0 else 1)
      else (if sint x > sint y then 1 else if sint x = sint y then 0 else -1))"

fun mixed_inner :: "bool \<Rightarrow> bytes \<Rightarrow> int \<Rightarrow> bytes \<Rightarrow> nat \<Rightarrow> (int + bytes \<times> nat) res" where
  "mixed_inner exchange right righend [] righp = Inr (Inr ([], righp))"
| "mixed_inner exchange right righend (x # cur_lef) righp =
     (if int righp < righend then
        bindE (rd right righp) (\<lambda>y.
          if x = y then mixed_inner exchange right righend cur_lef (righp + 1)
          else Inr (Inl (mixed_result exchange x y)))
      else Inr (Inr (x # cur_lef, righp)))"

lemma mixed_inner_length:
  "mixed_inner e right righend cur righp = Inr (Inr (cur', righp')) \<Longrightarrow>
     length cur' \<le> length cur \<and> (cur \<noteq> [] \<longrightarrow> int righp < righend \<longrightarrow> length cur' < length cur)"
  by (induction cur arbitrary: righp)
     (force simp: bindE_eq_Inr_iff less_Suc_eq_le le_SucI split: if_splits)+

function mixed_loop :: "bool \<Rightarrow> bytes \<Rightarrow> int \<Rightarrow> bytes \<Rightarrow> int \<Rightarrow> nat \<Rightarrow> bytes \<Rightarrow> nat \<Rightarrow>
    (int + nat \<times> bytes \<times> nat) res" where
  "mixed_loop exchange left lefend right righend lefp cur_lef righp =
     (if int lefp < lefend \<and> int righp < righend then
        bindE (hoco_refill left lefp cur_lef) (\<lambda>(cur_lef', lefp').
        bindE (mixed_inner exchange right righend cur_lef' righp) (\<lambda>r.
          case r of Inl result \<Rightarrow> Inr (Inl result)
          | Inr (cl, righp') \<Rightarrow> mixed_loop exchange left lefend right righend lefp' cl righp'))
      else Inr (Inr (lefp, cur_lef, righp)))"
  by pat_completeness auto
termination
proof (relation "measures [\<lambda>(e, left, lefend, right, righend, lefp, cl, righp). nat (lefend - int lefp),
      \<lambda>(e, left, lefend, right, righend, lefp, cl, righp). length cl]", goal_cases)
  case 1
  then show ?case by simp
next
  case (2 e left lefend right righend lefp cur_lef righp x cl' lefp' r z cl righp')
  then have r: "hoco_refill left lefp cur_lef = Inr (cl', lefp')"
    "mixed_inner e right righend cl' righp = Inr (Inr (cl, righp'))"
    "int lefp < lefend" "int righp < righend" by auto
  show ?case
  proof (cases "cur_lef = []")
    case True
    with hoco_refill_next(2) [OF r(1)] r(3) show ?thesis by auto
  next
    case False
    with hoco_refill_next(3) [OF r(1)] mixed_inner_length [OF r(2)] r(4) show ?thesis by simp
  qed
qed

declare mixed_loop.simps [simp del]

text \<open>The second loop of \<open>hocotext_mixed_cmp\<close> is \<open>mixed_inner\<close> again. The end of the plain
  value is computed with \<open>VARSIZE\<close>, the 4-byte header macro.\<close>

definition hocotext_mixed_cmp :: "bytes \<Rightarrow> bytes \<Rightarrow> oid \<Rightarrow> int res" where
  "hocotext_mixed_cmp left0 right0 collid =
     (let exchange = (\<not> VARATT_IS_COMPRESSED left0 \<and> VARATT_IS_COMPRESSED right0);
          (left, right) = (if exchange then (right0, left0) else (left0, right0)) in
      bindE (VARSIZE_ANY left) (\<lambda>lefend.
      bindE (VARSIZE_4B right) (\<lambda>righend.
      bindE (hoco_check_collation collid) (\<lambda>_.
      bindE (mixed_loop exchange left lefend right righend 8 [] (VARDATA_ANY right)) (\<lambda>r1.
        case r1 of Inl result \<Rightarrow> Inr result
        | Inr (lefp, cur_lef, righp) \<Rightarrow>
      bindE (mixed_inner exchange right righend cur_lef righp) (\<lambda>r2.
        case r2 of Inl result \<Rightarrow> Inr result
        | Inr (cur_lef, righp) \<Rightarrow>
            Inr (if int lefp < lefend \<or> cur_lef \<noteq> [] then (if exchange then -1 else 1)
                 else if int righp < righend then (if exchange then 1 else -1) else 0)))))))"

section \<open>Comparison of plain values\<close>

function common_loop :: "bytes \<Rightarrow> int \<Rightarrow> bytes \<Rightarrow> int \<Rightarrow> nat \<Rightarrow> nat \<Rightarrow> int res" where
  "common_loop left lefend right righend lefp righp =
     (if int lefp < lefend \<and> int righp < righend then
        bindE (rd left lefp) (\<lambda>x. bindE (rd right righp) (\<lambda>y.
          if x = y then common_loop left lefend right righend (lefp + 1) (righp + 1)
          else Inr (if sint x > sint y then 1 else if sint x = sint y then 0 else -1)))
      else Inr (if int lefp < lefend then 1 else if int righp < righend then -1 else 0))"
  by pat_completeness auto
termination
  by (relation "measure (\<lambda>(left, lefend, right, righend, lefp, righp). nat (lefend - int lefp))") auto

declare common_loop.simps [simp del]

definition hocotext_common_cmp :: "bytes \<Rightarrow> bytes \<Rightarrow> oid \<Rightarrow> int res" where
  "hocotext_common_cmp left right collid =
     bindE (VARSIZE_ANY left) (\<lambda>lefend.
     bindE (VARSIZE_ANY right) (\<lambda>righend.
     bindE (hoco_check_collation collid) (\<lambda>_.
       common_loop left lefend right righend (VARDATA_ANY left) (VARDATA_ANY right))))"

section \<open>Extraction\<close>

text \<open>\<open>palloc\<close> refuses sizes above \<open>MaxAllocSize\<close>; a negative size is a huge unsigned one.\<close>

definition palloc_check :: "int \<Rightarrow> unit res" where
  "palloc_check nbytes = (if 0 \<le> nbytes \<and> nbytes \<le> 0x3fffffff then Inr ()
     else Inl (Ereport ERRCODE_INTERNAL_ERROR))"

text \<open>Reading the block header at \<open>sp\<close>: the type (1 repeated, 0 single) and the count.\<close>

definition hoco_header :: "bytes \<Rightarrow> nat \<Rightarrow> (int \<times> int) res" where
  "hoco_header mem sp =
     bindE (rd mem sp) (\<lambda>b.
       if drop_bit 7 b AND 1 = 1 then Inr (1, int (unat (b AND 0x7f) + hoco_THRESHOLD))
       else Inr (0, int (unat (b AND 0x7f))))"

text \<open>\<open>while (cur_offset < offset)\<close>: returns \<open>sp\<close>, the type and the rest of the count.\<close>

function hoco_locate :: "bytes \<Rightarrow> int \<Rightarrow> nat \<Rightarrow> int \<Rightarrow> int \<Rightarrow> int \<Rightarrow> (nat \<times> int \<times> int \<times> int) res" where
  "hoco_locate mem offset sp cur_offset type count =
     (if cur_offset < offset then
        bindE (hoco_header mem sp) (\<lambda>(type', n).
          let reach = (offset - (n + cur_offset) \<le> 0);
              sp' = (if type' = 1 then sp + (if reach then 1 else 2)
                     else sp + nat (if reach then offset - cur_offset + 1 else n + 1));
              n' = n - (if reach then offset - cur_offset else 0);
              cur' = cur_offset + (if reach then offset - cur_offset else n')
          in hoco_locate mem offset sp' cur' type' n')
      else Inr (sp, cur_offset, type, count))"
  by pat_completeness auto
termination
proof (relation "measure (\<lambda>(mem, offset, sp, cur_offset, type, count). length mem - sp)", goal_cases)
  case 1
  then show ?case by simp
next
  case (2 mem offset sp cur_offset type count x type' n reach sp' n' cur')
  then have h: "hoco_header mem sp = Inr (type', n)" by auto
  then have "sp < length mem" "0 \<le> n"
    by (auto simp: hoco_header_def rd_def split: if_splits)
  with 2 show ?case by auto
qed

declare hoco_locate.simps [simp del]

text \<open>\<open>while (cur_offset - offset < len && cur_offset < rawsize)\<close>: the bytes written at \<open>dp\<close>
  and the final \<open>cur_offset\<close>. \<open>source->vl_dat\<close> is offset 4.\<close>

function hoco_copy :: "bytes \<Rightarrow> int \<Rightarrow> int \<Rightarrow> int \<Rightarrow> nat \<Rightarrow> int \<Rightarrow> int \<Rightarrow> int \<Rightarrow> bytes \<Rightarrow> (bytes \<times> int) res" where
  "hoco_copy mem offset len rawsize sp cur_offset type count dp =
     (if cur_offset - offset < len \<and> cur_offset < rawsize then
        bindE (if sp = 4 then hoco_header mem sp else Inr (type, count)) (\<lambda>(type, count).
          let count = (if count + cur_offset - offset > len then len + offset - cur_offset else count) in
          bindE (if type = 1 then
                   (if count > 0 then bindE (rd mem sp) (\<lambda>c. Inr (replicate (nat count) c)) else Inr [])
                 else rd_range mem sp (nat count)) (\<lambda>out.
            let sp' = (if type = 1 then sp + 1 else sp + nat count) in
            bindE (hoco_header mem sp') (\<lambda>(type', count').
              hoco_copy mem offset len rawsize (sp' + 1) (cur_offset + count) type' count' (dp @ out))))
      else Inr (dp, cur_offset))"
  by pat_completeness auto
termination
proof (relation "measure (\<lambda>(mem, offset, len, rawsize, sp, cur_offset, type, count, dp). length mem - sp)",
    goal_cases)
  case 1
  then show ?case by simp
next
  case (2 mem offset len rawsize sp cur_offset type count dp x type1 count1 count2 out sp' y type' count')
  then have "hoco_header mem sp' = Inr (type', count')" by auto
  then have "sp' < length mem" by (auto simp: hoco_header_def rd_def split: if_splits)
  moreover have "sp \<le> sp'" using 2 by auto
  ultimately show ?case by simp
qed

declare hoco_copy.simps [simp del]

text \<open>\<open>result\<close> is what \<open>palloc\<close> returned: its bytes are whatever the memory held before, and
  \<open>VARDATA_ANY (result)\<close> reads the first of them before a header is stored.\<close>

definition hoco_store_result :: "bytes \<Rightarrow> bytes \<Rightarrow> int \<Rightarrow> bytes res" where
  "hoco_store_result result data sz =
     bindE (buf_write result (int (VARDATA_ANY result)) (data @ [0])) (\<lambda>result.
       buf_write result 0 (SET_VARSIZE_4B sz))"

definition hocotext_hoco_extract :: "bytes \<Rightarrow> bytes \<Rightarrow> int \<Rightarrow> int \<Rightarrow> oid \<Rightarrow> bytes option res" where
  "hocotext_hoco_extract result source offset len collid =
     bindE (palloc_check (len + VARHDRSZ + 10)) (\<lambda>_.
     bindE (VARDATA_COMPRESSED_GET_EXTSIZE source) (\<lambda>rawsize.
     bindE (hoco_check_collation collid) (\<lambda>_.
       if len < 0 then Inl (ProcExit 0)
       else
         bindE (hoco_locate source offset 8 0 1 0) (\<lambda>(sp, cur_offset, type, count).
         bindE (hoco_copy source offset len rawsize sp cur_offset type count []) (\<lambda>(dp, cur_offset).
           if int (length dp) \<noteq> len \<or> cur_offset = rawsize then Inr None
           else bindE (hoco_store_result result dp (len + VARHDRSZ)) (\<lambda>r. Inr (Some r)))))))"

text \<open>\<open>VARSIZE_ANY_EXHDR\<close> is a \<open>size_t\<close>, so a negative \<open>offset\<close> is larger.\<close>

definition hocotext_common_extract :: "bytes \<Rightarrow> bytes \<Rightarrow> int \<Rightarrow> int \<Rightarrow> oid \<Rightarrow> bytes option res" where
  "hocotext_common_extract result source offset len collid =
     bindE (palloc_check (len + VARHDRSZ + 10)) (\<lambda>_.
     bindE (VARSIZE_4B source) (\<lambda>srcend.
     bindE (hoco_check_collation collid) (\<lambda>_.
     bindE (VARSIZE_ANY_EXHDR source) (\<lambda>exhdr.
       if offset < 0 \<or> offset > exhdr then Inr None
       else
         let sp = int (VARDATA_ANY source) + offset;
             result_len = (if srcend - sp < len then srcend - sp else len)
         in if result_len < 0 then Inl MemFault
            else bindE (rd_range source (nat sp) (nat result_len)) (\<lambda>data.
                 bindE (hoco_store_result result data (result_len + VARHDRSZ)) (\<lambda>r. Inr (Some r)))))))"

text \<open>Both return an uninitialised pointer.\<close>

definition hocotext_hoco_insert :: "bytes \<Rightarrow> int \<Rightarrow> bytes \<Rightarrow> bytes option res" where
  "hocotext_hoco_insert source offset str = Inl MemFault"

definition hocotext_hoco_delete :: "bytes \<Rightarrow> int \<Rightarrow> int \<Rightarrow> bytes option res" where
  "hocotext_hoco_delete source offset len = Inl MemFault"

section \<open>SQL-callable functions\<close>

text \<open>The three cases every comparison function distinguishes: the unpacked arguments and the
  comparison's result.\<close>

definition hocotext_compare :: "nat \<Rightarrow> detoast_env \<Rightarrow> bytes \<Rightarrow> bytes \<Rightarrow> oid \<Rightarrow> (bytes \<times> bytes \<times> int) res" where
  "hocotext_compare fuel env left right collid =
     bindE (hocotext_datum_packed fuel env left) (\<lambda>left_datum.
     bindE (hocotext_datum_packed fuel env right) (\<lambda>right_datum.
       let is_comp_lef = VARATT_IS_COMPRESSED left_datum; is_comp_righ = VARATT_IS_COMPRESSED right_datum in
       bindE (if is_comp_lef \<and> is_comp_righ then hocotext_hoco_cmp left_datum right_datum collid
              else if is_comp_lef \<or> is_comp_righ then hocotext_mixed_cmp left_datum right_datum collid
              else hocotext_common_cmp left_datum right_datum collid) (\<lambda>result.
         Inr (left_datum, right_datum, result))))"

definition hocotext_eq :: "nat \<Rightarrow> detoast_env \<Rightarrow> bytes \<Rightarrow> bytes \<Rightarrow> oid \<Rightarrow> bool res" where
  "hocotext_eq fuel env left right collid =
     bindE (hocotext_compare fuel env left right collid) (\<lambda>(l, r, result). Inr (result = 0))"

definition hocotext_nq :: "nat \<Rightarrow> detoast_env \<Rightarrow> bytes \<Rightarrow> bytes \<Rightarrow> oid \<Rightarrow> bool res" where
  "hocotext_nq fuel env left right collid =
     bindE (hocotext_compare fuel env left right collid) (\<lambda>(l, r, result). Inr (result \<noteq> 0))"

definition hocotext_lt :: "nat \<Rightarrow> detoast_env \<Rightarrow> bytes \<Rightarrow> bytes \<Rightarrow> oid \<Rightarrow> bool res" where
  "hocotext_lt fuel env left right collid =
     bindE (hocotext_compare fuel env left right collid) (\<lambda>(l, r, result). Inr (result < 0))"

definition hocotext_le :: "nat \<Rightarrow> detoast_env \<Rightarrow> bytes \<Rightarrow> bytes \<Rightarrow> oid \<Rightarrow> bool res" where
  "hocotext_le fuel env left right collid =
     bindE (hocotext_compare fuel env left right collid) (\<lambda>(l, r, result). Inr (result \<le> 0))"

definition hocotext_gt :: "nat \<Rightarrow> detoast_env \<Rightarrow> bytes \<Rightarrow> bytes \<Rightarrow> oid \<Rightarrow> bool res" where
  "hocotext_gt fuel env left right collid =
     bindE (hocotext_compare fuel env left right collid) (\<lambda>(l, r, result). Inr (result > 0))"

definition hocotext_ge :: "nat \<Rightarrow> detoast_env \<Rightarrow> bytes \<Rightarrow> bytes \<Rightarrow> oid \<Rightarrow> bool res" where
  "hocotext_ge fuel env left right collid =
     bindE (hocotext_compare fuel env left right collid) (\<lambda>(l, r, result). Inr (result \<ge> 0))"

definition hocotext_extract :: "bytes \<Rightarrow> nat \<Rightarrow> detoast_env \<Rightarrow> bytes \<Rightarrow> int \<Rightarrow> int \<Rightarrow> oid \<Rightarrow> bytes option res" where
  "hocotext_extract result fuel env source offset len collid =
     bindE (hocotext_datum_packed fuel env source) (\<lambda>source_str.
       if VARATT_IS_COMPRESSED source_str then hocotext_hoco_extract result source_str offset len collid
       else hocotext_common_extract result source_str offset len collid)"

text \<open>\<open>PG_GETARG_TEXT_PP\<close>: detoast, but keep a short header.\<close>

definition pg_detoast_datum_packed :: "nat \<Rightarrow> detoast_env \<Rightarrow> bytes \<Rightarrow> bytes res" where
  "pg_detoast_datum_packed fuel env datum =
     (if VARATT_IS_COMPRESSED datum \<or> VARATT_IS_EXTERNAL datum
      then bindE (detoast_attr fuel env datum) (\<lambda>r. Inr (the_datum datum r))
      else Inr datum)"

definition text_extract :: "bytes \<Rightarrow> nat \<Rightarrow> detoast_env \<Rightarrow> bytes \<Rightarrow> int \<Rightarrow> int \<Rightarrow> oid \<Rightarrow> bytes option res" where
  "text_extract result fuel env source offset len collid =
     bindE (pg_detoast_datum_packed fuel env source) (\<lambda>source.
       hocotext_common_extract result source offset len collid)"

definition hocotext_insert :: "nat \<Rightarrow> detoast_env \<Rightarrow> bytes \<Rightarrow> int \<Rightarrow> bytes \<Rightarrow> bytes option res" where
  "hocotext_insert fuel env source offset str0 =
     bindE (detoast_attr fuel env str0) (\<lambda>str.
     bindE (hocotext_fetch_toasted_attr fuel env source) (\<lambda>source_str.
       if VARATT_IS_COMPRESSED source
       then hocotext_hoco_insert (the_datum source source_str) offset (the_datum str0 str)
       else Inr None))"

definition hocotext_delete :: "nat \<Rightarrow> detoast_env \<Rightarrow> bytes \<Rightarrow> int \<Rightarrow> int \<Rightarrow> bytes option res" where
  "hocotext_delete fuel env source offset len =
     bindE (hocotext_fetch_toasted_attr fuel env source) (\<lambda>source_str.
       if VARATT_IS_COMPRESSED source
       then hocotext_hoco_delete (the_datum source source_str) offset len
       else Inr None)"

definition hocotext_smaller :: "nat \<Rightarrow> detoast_env \<Rightarrow> bytes \<Rightarrow> bytes \<Rightarrow> oid \<Rightarrow> bytes res" where
  "hocotext_smaller fuel env left right collid =
     bindE (hocotext_compare fuel env left right collid) (\<lambda>(l, r, result).
       Inr (if result < 0 then l else r))"

definition hocotext_larger :: "nat \<Rightarrow> detoast_env \<Rightarrow> bytes \<Rightarrow> bytes \<Rightarrow> oid \<Rightarrow> bytes res" where
  "hocotext_larger fuel env left right collid =
     bindE (hocotext_compare fuel env left right collid) (\<lambda>(l, r, result).
       Inr (if result > 0 then l else r))"

definition hocotext_cmp :: "nat \<Rightarrow> detoast_env \<Rightarrow> bytes \<Rightarrow> bytes \<Rightarrow> oid \<Rightarrow> int res" where
  "hocotext_cmp fuel env left right collid =
     bindE (hocotext_compare fuel env left right collid) (\<lambda>(l, r, result). Inr result)"

definition hocotext_hash :: "nat \<Rightarrow> detoast_env \<Rightarrow> bytes \<Rightarrow> int res" where
  "hocotext_hash fuel env str =
     bindE (hocotext_fetch_toasted_attr fuel env str) (\<lambda>_. Inr 0)"

end
