(* ===== verification/Hocotext_Cmp.thy ===== *)
theory Hocotext_Cmp
  imports Hocotext
begin

text \<open>
  The comparison functions of \<^verbatim>\<open>hocotext.c\<close> on well-formed datums: whichever of the two values
  is compressed, the result is that of comparing the two texts byte by byte, bytes as signed
  characters. The order is shown to be a total one through the interface \<open>btree_opclass\<close>.
\<close>

section \<open>The order on texts\<close>

fun cmp_bytes :: "bytes \<Rightarrow> bytes \<Rightarrow> int" where
  "cmp_bytes [] [] = 0"
| "cmp_bytes [] (y # ys) = -1"
| "cmp_bytes (x # xs) [] = 1"
| "cmp_bytes (x # xs) (y # ys) =
     (if x = y then cmp_bytes xs ys else if sint x > sint y then 1 else -1)"

text \<open>What a B-tree operator class needs of a three-way comparison.\<close>

locale btree_opclass =
  fixes cmp :: "'a \<Rightarrow> 'a \<Rightarrow> int"
  assumes cmp_zero: "cmp x y = 0 \<longleftrightarrow> x = y"
    and cmp_sym: "cmp y x = - cmp x y"
    and cmp_trans: "cmp x y < 0 \<Longrightarrow> cmp y z < 0 \<Longrightarrow> cmp x z < 0"
begin

lemma le_trans: "cmp x y \<le> 0 \<Longrightarrow> cmp y z \<le> 0 \<Longrightarrow> cmp x z \<le> 0"
  using cmp_trans [of x y z] cmp_zero by (metis order_le_less)

lemma le_antisym: "cmp x y \<le> 0 \<Longrightarrow> cmp y x \<le> 0 \<Longrightarrow> x = y"
  using cmp_sym [of x y] cmp_zero [of x y] by linarith

lemma le_total: "cmp x y \<le> 0 \<or> cmp y x \<le> 0"
  using cmp_sym [of x y] by linarith

lemma smaller_le: "cmp (if cmp x y < 0 then x else y) x \<le> 0 \<and> cmp (if cmp x y < 0 then x else y) y \<le> 0"
  using cmp_zero [of x x] cmp_zero [of y y] cmp_sym [of x y] by auto

lemma larger_ge: "cmp x (if cmp x y > 0 then x else y) \<le> 0 \<and> cmp y (if cmp x y > 0 then x else y) \<le> 0"
  using cmp_zero [of x x] cmp_zero [of y y] cmp_sym [of x y] by auto

end

lemma sint_byte_eq: "sint (x :: byte) = sint y \<longleftrightarrow> x = y"
  by (simp add: word_eq_iff_signed [where 'a = int])

interpretation text_order: btree_opclass cmp_bytes
proof
  show "cmp_bytes x y = 0 \<longleftrightarrow> x = y" for x y
    by (induction x y rule: cmp_bytes.induct) auto
  show "cmp_bytes y x = - cmp_bytes x y" for x y
    by (induction x y rule: cmp_bytes.induct) (auto simp: sint_byte_eq not_less le_less)
  show "cmp_bytes x z < 0" if "cmp_bytes x y < 0" "cmp_bytes y z < 0" for x y z
    using that
  proof (induction x y arbitrary: z rule: cmp_bytes.induct)
    case (2 y ys)
    then show ?case by (cases z) auto
  next
    case (4 x xs y ys)
    then show ?case by (cases z) (auto simp: sint_byte_eq split: if_splits)
  qed auto
qed

lemma cmp_bytes_same_prefix: "cmp_bytes (p @ x) (p @ y) = cmp_bytes x y"
  by (induction p) auto

section \<open>Reading blocks\<close>

lemma top_bit: "0x1 AND drop_bit 7 (b :: byte) = 1 \<longleftrightarrow> 128 \<le> unat b" "drop_bit 7 (b :: byte) AND 1 = 1 \<longleftrightarrow> 128 \<le> unat b"
proof -
  have "drop_bit 7 b AND 1 = 1 \<longleftrightarrow> unat b div 128 mod 2 = 1"
    by (simp add: and_one_eq word_eq_iff_unsigned [where 'a = nat] unat_mod unat_div drop_bit_eq_div)
  also have "\<dots> \<longleftrightarrow> 128 \<le> unat b"
  proof -
    have "unat b < 256" using unsigned_less [of b, where 'a = nat] by simp
    then have "unat b div 128 = (if 128 \<le> unat b then 1 else 0)" by auto
    then show ?thesis by simp
  qed
  finally show "drop_bit 7 b AND 1 = 1 \<longleftrightarrow> 128 \<le> unat b" .
  then show "0x1 AND drop_bit 7 b = 1 \<longleftrightarrow> 128 \<le> unat b" by (simp add: and.commute)
qed

lemma low_bits: "unat b < 128 \<Longrightarrow> unat (b AND 0x7f :: byte) = unat b"
proof -
  have "b AND 0x7f = take_bit 7 b" by (simp add: and_masks)
  then show "unat b < 128 \<Longrightarrow> ?thesis" by (simp add: unsigned_take_bit_eq take_bit_nat_eq_self)
qed

lemma hoco_load_tok:
  assumes "tok_ok t"
  shows "hoco_load (pre @ enc_tok t @ post) (length pre) = Inr (dec_tok t, length pre + length (enc_tok t))"
  using assms
proof (cases rule: tok_header)
  case (Rep n c h)
  then show ?thesis
    by (simp add: hoco_load_def rd_def nth_append top_bit hoco_THRESHOLD_def)
next
  case (Lit bs h)
  then have "rd_range (pre @ enc_tok t @ post) (length pre + 1) (length bs) = Inr bs"
    using rd_range_at [of "pre @ [h]" bs post] by simp
  with Lit show ?thesis
    by (simp add: hoco_load_def rd_def nth_append top_bit low_bits)
qed

text \<open>The rest of a compressed value, from position \<open>p\<close> to its end \<open>e\<close>, is the blocks \<open>ts\<close>.\<close>

definition blocks_at :: "bytes \<Rightarrow> nat \<Rightarrow> int \<Rightarrow> tok list \<Rightarrow> bool" where
  "blocks_at mem p e ts \<longleftrightarrow> toks_ok ts \<and>
     (\<exists>pre r. mem = pre @ enc ts @ r \<and> p = length pre \<and> e = int (length pre + length (enc ts)))"

lemma blocks_atI:
  "toks_ok ts \<Longrightarrow> mem = pre @ enc ts @ r \<Longrightarrow> p = length pre \<Longrightarrow> e = int (length pre + length (enc ts)) \<Longrightarrow>
     blocks_at mem p e ts"
  unfolding blocks_at_def by blast

lemma enc_nonempty: "toks_ok ts \<Longrightarrow> enc ts = [] \<longleftrightarrow> ts = []"
  by (cases ts) (auto elim: tok_header)

lemma dec_nonempty: "toks_ok ts \<Longrightarrow> dec ts = [] \<longleftrightarrow> ts = []"
  by (cases ts) (auto dest: dec_tok_length)

lemma blocks_at_end: "blocks_at mem p e ts \<Longrightarrow> int p < e \<longleftrightarrow> ts \<noteq> []"
  using enc_nonempty [of ts] by (auto simp: blocks_at_def)

lemma hoco_refill_blocks:
  assumes b: "blocks_at mem p e ts" "ts \<noteq> []"
  obtains cur' p' ts' where "hoco_refill mem p cur = Inr (cur', p')" "blocks_at mem p' e ts'"
    "cur' @ dec ts' = cur @ dec ts" "cur' \<noteq> []"
proof (cases "cur = []")
  case False
  then show thesis using that [of cur p ts] b by (simp add: hoco_refill_def)
next
  case True
  obtain t us where ts: "ts = t # us" using b(2) by (cases ts) auto
  obtain pre r where m: "mem = pre @ enc ts @ r" "p = length pre" "e = int (length pre + length (enc ts))"
    and ok: "tok_ok t" "toks_ok us"
    using b(1) by (auto simp: blocks_at_def ts)
  have "hoco_load mem p = Inr (dec_tok t, p + length (enc_tok t))"
    using hoco_load_tok [OF ok(1), of pre "enc us @ r"] by (simp add: m ts)
  moreover have "blocks_at mem (p + length (enc_tok t)) e us"
    by (rule blocks_atI [of _ _ "pre @ enc_tok t" r]) (use ok(2) m in \<open>simp_all add: ts\<close>)
  moreover have "dec_tok t \<noteq> []" using dec_tok_length [OF ok(1)] by auto
  ultimately show thesis
    using that [of "dec_tok t" "p + length (enc_tok t)" us] True by (simp add: hoco_refill_def ts)
qed

section \<open>Two compressed values\<close>

lemma hoco_inner_cmp:
  "hoco_inner a b = Inl res \<Longrightarrow> cmp_bytes (a @ x) (b @ y) = res"
  "hoco_inner a b = Inr (a', b') \<Longrightarrow> cmp_bytes (a @ x) (b @ y) = cmp_bytes (a' @ x) (b' @ y)"
  by (induction a b rule: hoco_inner.induct) (auto simp: sint_byte_eq split: if_splits)

lemma hoco_loop1_cmp:
  assumes "blocks_at left lefp lefend ls" "blocks_at right righp righend rs" "cl = [] \<or> cr = []"
  shows "(\<exists>res. hoco_loop1 left lefend right righend lefp cl righp cr = Inr (Inl res) \<and>
        cmp_bytes (cl @ dec ls) (cr @ dec rs) = res) \<or>
     (\<exists>lefp' cl' righp' cr' ls' rs'.
        hoco_loop1 left lefend right righend lefp cl righp cr = Inr (Inr (lefp', cl', righp', cr')) \<and>
        blocks_at left lefp' lefend ls' \<and> blocks_at right righp' righend rs' \<and>
        cmp_bytes (cl @ dec ls) (cr @ dec rs) = cmp_bytes (cl' @ dec ls') (cr' @ dec rs') \<and>
        (cl' = [] \<or> cr' = []) \<and> (ls' = [] \<or> rs' = []))"
  using assms
proof (induction left lefend right righend lefp cl righp cr arbitrary: ls rs rule: hoco_loop1.induct)
  case (1 left lefend right righend lefp cl righp cr)
  show ?case
  proof (cases "ls \<noteq> [] \<and> rs \<noteq> []")
    case False
    then have "hoco_loop1 left lefend right righend lefp cl righp cr = Inr (Inr (lefp, cl, righp, cr))"
      using blocks_at_end [OF "1.prems"(1)] blocks_at_end [OF "1.prems"(2)]
      by (subst hoco_loop1.simps) auto
    with False "1.prems" show ?thesis by blast
  next
    case True
    have run: "int lefp < lefend \<and> int righp < righend"
      using True blocks_at_end [OF "1.prems"(1)] blocks_at_end [OF "1.prems"(2)] by simp
    obtain a p ls' where a: "hoco_refill left lefp cl = Inr (a, p)" "blocks_at left p lefend ls'"
      "a @ dec ls' = cl @ dec ls" using hoco_refill_blocks [OF "1.prems"(1)] True by metis
    obtain b q rs' where b: "hoco_refill right righp cr = Inr (b, q)" "blocks_at right q righend rs'"
      "b @ dec rs' = cr @ dec rs" using hoco_refill_blocks [OF "1.prems"(2)] True by metis
    show ?thesis
    proof (cases "hoco_inner a b")
      case (Inl res)
      then have "hoco_loop1 left lefend right righend lefp cl righp cr = Inr (Inl res)"
        using run a(1) b(1) by (subst hoco_loop1.simps) simp
      moreover have "cmp_bytes (cl @ dec ls) (cr @ dec rs) = res"
        using hoco_inner_cmp(1) [OF Inl, of "dec ls'" "dec rs'"] a(3) b(3) by simp
      ultimately show ?thesis by blast
    next
      case (Inr ab)
      obtain a' b' where ab: "ab = (a', b')" by fastforce
      have step: "hoco_loop1 left lefend right righend lefp cl righp cr =
          hoco_loop1 left lefend right righend p a' q b'"
        using run a(1) b(1) Inr ab by (subst hoco_loop1.simps) simp
      have c: "cmp_bytes (cl @ dec ls) (cr @ dec rs) = cmp_bytes (a' @ dec ls') (b' @ dec rs')"
        using hoco_inner_cmp(2) [OF Inr [unfolded ab], of "dec ls'" "dec rs'"] a(3) b(3) by simp
      show ?thesis
        unfolding step c
        by (rule "1.IH" [OF run a(1) refl b(1) refl Inr ab [symmetric] a(2) b(2) hoco_inner_length(1) [OF Inr [unfolded ab]]])
    qed
  qed
qed

lemma hoco_loop2_cmp:
  assumes "blocks_at left lefp lefend ls" "cl = [] \<or> cr = []"
  shows "(\<exists>res. hoco_loop2 left lefend lefp cl cr = Inr (Inl res) \<and>
        (\<forall>R. cmp_bytes (cl @ dec ls) (cr @ R) = res)) \<or>
     (\<exists>lefp' cl' cr' ls'. hoco_loop2 left lefend lefp cl cr = Inr (Inr (lefp', cl', cr')) \<and>
        blocks_at left lefp' lefend ls' \<and>
        (\<forall>R. cmp_bytes (cl @ dec ls) (cr @ R) = cmp_bytes (cl' @ dec ls') (cr' @ R)) \<and>
        (cl' = [] \<or> cr' = []) \<and> (ls' = [] \<or> cr' = []) \<and> (ls = [] \<longrightarrow> ls' = [] \<and> cl' = cl \<and> cr' = cr))"
  using assms
proof (induction left lefend lefp cl cr arbitrary: ls rule: hoco_loop2.induct)
  case (1 left lefend lefp cl cr)
  show ?case
  proof (cases "ls \<noteq> [] \<and> cr \<noteq> []")
    case False
    then have "hoco_loop2 left lefend lefp cl cr = Inr (Inr (lefp, cl, cr))"
      using blocks_at_end [OF "1.prems"(1)] by (subst hoco_loop2.simps) auto
    with False "1.prems" show ?thesis by blast
  next
    case True
    have run: "int lefp < lefend \<and> cr \<noteq> []"
      using True blocks_at_end [OF "1.prems"(1)] by simp
    obtain a p ls' where a: "hoco_refill left lefp cl = Inr (a, p)" "blocks_at left p lefend ls'"
      "a @ dec ls' = cl @ dec ls" using hoco_refill_blocks [OF "1.prems"(1)] True by metis
    show ?thesis
    proof (cases "hoco_inner a cr")
      case (Inl res)
      then have "hoco_loop2 left lefend lefp cl cr = Inr (Inl res)"
        using run a(1) by (subst hoco_loop2.simps) simp
      moreover have "\<forall>R. cmp_bytes (cl @ dec ls) (cr @ R) = res"
        using hoco_inner_cmp(1) [OF Inl, of "dec ls'"] a(3) by simp
      ultimately show ?thesis by blast
    next
      case (Inr ab)
      obtain a' b' where ab: "ab = (a', b')" by fastforce
      have step: "hoco_loop2 left lefend lefp cl cr = hoco_loop2 left lefend p a' b'"
        using run a(1) Inr ab by (subst hoco_loop2.simps) simp
      have c: "cmp_bytes (cl @ dec ls) (cr @ R) = cmp_bytes (a' @ dec ls') (b' @ R)" for R
        using hoco_inner_cmp(2) [OF Inr [unfolded ab], of "dec ls'"] a(3) by simp
      show ?thesis
        using "1.IH" [OF run a(1) refl Inr ab [symmetric] a(2) hoco_inner_length(1) [OF Inr [unfolded ab]]]
          True unfolding step c by blast
    qed
  qed
qed

text \<open>The third loop is the second one with the sides exchanged.\<close>

lemma hoco_inner_swap:
  "hoco_inner b a = (case hoco_inner a b of Inl res \<Rightarrow> Inl (- res) | Inr (a', b') \<Rightarrow> Inr (b', a'))"
proof (induction a b rule: hoco_inner.induct)
  case (1 x xs y ys)
  then show ?case using sint_byte_eq [of x y] by (auto split: sum.splits)
qed auto

lemma hoco_loop3_swap:
  "hoco_loop3 right righend righp cl cr =
     bindE (hoco_loop2 right righend righp cr cl) (\<lambda>r. Inr (case r of Inl res \<Rightarrow> Inl (- res)
       | Inr (p, cr', cl') \<Rightarrow> Inr (p, cl', cr')))"
proof (induction right righend righp cl cr rule: hoco_loop3.induct)
  case (1 right righend righp cl cr)
  show ?case
  proof (cases "int righp < righend \<and> cl \<noteq> []")
    case False
    then show ?thesis by (subst hoco_loop3.simps, subst hoco_loop2.simps) auto
  next
    case True
    note IH = "1.IH" [OF True]
    show ?thesis
    proof (cases "hoco_refill right righp cr")
      case (Inl e)
      with True show ?thesis by (subst hoco_loop3.simps, subst hoco_loop2.simps) auto
    next
      case (Inr y)
      obtain b q where y: "y = (b, q)" by fastforce
      show ?thesis
      proof (cases "hoco_inner cl b")
        case (Inl res)
        with Inr y True show ?thesis
          by (subst hoco_loop3.simps, subst hoco_loop2.simps) (simp add: hoco_inner_swap [of b cl])
      next
        case i: (Inr ab)
        obtain a' b' where ab: "ab = (a', b')" by fastforce
        with i Inr y True IH [OF Inr y [symmetric] i ab [symmetric]] show ?thesis
          by (subst hoco_loop3.simps, subst hoco_loop2.simps) (simp add: hoco_inner_swap [of b cl])
      qed
    qed
  qed
qed

lemma hoco_loop3_cmp:
  assumes "blocks_at right righp righend rs" "cl = [] \<or> cr = []"
  shows "(\<exists>res. hoco_loop3 right righend righp cl cr = Inr (Inl res) \<and>
        (\<forall>L. cmp_bytes (cl @ L) (cr @ dec rs) = res)) \<or>
     (\<exists>righp' cl' cr' rs'. hoco_loop3 right righend righp cl cr = Inr (Inr (righp', cl', cr')) \<and>
        blocks_at right righp' righend rs' \<and>
        (\<forall>L. cmp_bytes (cl @ L) (cr @ dec rs) = cmp_bytes (cl' @ L) (cr' @ dec rs')) \<and>
        (cl' = [] \<or> cr' = []) \<and> (rs' = [] \<or> cl' = []) \<and> (rs = [] \<longrightarrow> rs' = [] \<and> cl' = cl \<and> cr' = cr))"
proof -
  have sym: "cmp_bytes x y = cmp_bytes x' y' \<longleftrightarrow> cmp_bytes y x = cmp_bytes y' x'"
    "cmp_bytes x y = res \<longleftrightarrow> cmp_bytes y x = - res" for x y x' y' res
    using text_order.cmp_sym [of x y] text_order.cmp_sym [of x' y'] by auto
  consider res where "hoco_loop2 right righend righp cr cl = Inr (Inl res)"
      "\<forall>L. cmp_bytes (cr @ dec rs) (cl @ L) = res"
    | righp' cl' cr' rs' where "hoco_loop2 right righend righp cr cl = Inr (Inr (righp', cr', cl'))"
      "blocks_at right righp' righend rs'"
      "\<forall>L. cmp_bytes (cr @ dec rs) (cl @ L) = cmp_bytes (cr' @ dec rs') (cl' @ L)"
      "cl' = [] \<or> cr' = []" "rs' = [] \<or> cl' = []" "rs = [] \<longrightarrow> rs' = [] \<and> cl' = cl \<and> cr' = cr"
    using hoco_loop2_cmp [OF assms(1), of cr cl] assms(2) by blast
  then show ?thesis
  proof cases
    case 1
    then show ?thesis using sym(2) by (simp add: hoco_loop3_swap)
  next
    case 2
    then show ?thesis using sym(1) by (simp add: hoco_loop3_swap) blast
  qed
qed

lemma hoco_final_cmp:
  assumes "blocks_at left lefp lefend ls" "blocks_at right righp righend rs"
    and "ls = [] \<and> cl = [] \<or> rs = [] \<and> cr = []"
  shows "(if int lefp < lefend \<or> cl \<noteq> [] then 1 else if int righp < righend \<or> cr \<noteq> [] then -1 else 0)
    = cmp_bytes (cl @ dec ls) (cr @ dec rs)"
proof -
  have "dec ls = [] \<longleftrightarrow> ls = []" "dec rs = [] \<longleftrightarrow> rs = []"
    using assms(1,2) dec_nonempty by (auto simp: blocks_at_def)
  moreover have "cmp_bytes [] y = (if y = [] then 0 else -1)" "cmp_bytes y [] = (if y = [] then 0 else 1)" for y
    by (cases y; simp)+
  ultimately show ?thesis
    using assms(3) blocks_at_end [OF assms(1)] blocks_at_end [OF assms(2)] by auto
qed

lemma hoco_cmp_blocks:
  assumes l: "VARSIZE_ANY left = Inr lefend" "blocks_at left 8 lefend ls"
    and r: "VARSIZE_ANY right = Inr righend" "blocks_at right 8 righend rs"
    and "collid \<noteq> 0"
  shows "hocotext_hoco_cmp left right collid = Inr (cmp_bytes (dec ls) (dec rs))"
proof -
  let ?cmp = "cmp_bytes (dec ls) (dec rs)"
  have unfold: "hocotext_hoco_cmp left right collid =
     bindE (hoco_loop1 left lefend right righend 8 [] 8 []) (\<lambda>r1.
       case r1 of Inl result \<Rightarrow> Inr result
       | Inr (lefp, cur_lef, righp, cur_righ) \<Rightarrow>
     bindE (hoco_loop2 left lefend lefp cur_lef cur_righ) (\<lambda>r2.
       case r2 of Inl result \<Rightarrow> Inr result
       | Inr (lefp, cur_lef, cur_righ) \<Rightarrow>
     bindE (hoco_loop3 right righend righp cur_lef cur_righ) (\<lambda>r3.
       case r3 of Inl result \<Rightarrow> Inr result
       | Inr (righp, cur_lef, cur_righ) \<Rightarrow>
           Inr (if int lefp < lefend \<or> cur_lef \<noteq> [] then 1
                else if int righp < righend \<or> cur_righ \<noteq> [] then -1 else 0))))"
    using l(1) r(1) assms(5) by (simp add: hocotext_hoco_cmp_def hoco_check_collation_def OidIsValid_def InvalidOid_def)
  from hoco_loop1_cmp [OF l(2) r(2), of "[]" "[]"] consider
      (ret) "hoco_loop1 left lefend right righend 8 [] 8 [] = Inr (Inl ?cmp)"
    | (on) lefp cl righp cr ls1 rs1 where
        "hoco_loop1 left lefend right righend 8 [] 8 [] = Inr (Inr (lefp, cl, righp, cr))"
        "blocks_at left lefp lefend ls1" "blocks_at right righp righend rs1"
        "?cmp = cmp_bytes (cl @ dec ls1) (cr @ dec rs1)" "cl = [] \<or> cr = []" "ls1 = [] \<or> rs1 = []"
    by auto
  then show ?thesis
  proof cases
    case ret
    then show ?thesis by (simp add: unfold)
  next
    case on
    from hoco_loop2_cmp [OF on(2,5)] consider
        (ret) "hoco_loop2 left lefend lefp cl cr = Inr (Inl ?cmp)"
      | (on2) lefp2 cl2 cr2 ls2 where "hoco_loop2 left lefend lefp cl cr = Inr (Inr (lefp2, cl2, cr2))"
          "blocks_at left lefp2 lefend ls2" "?cmp = cmp_bytes (cl2 @ dec ls2) (cr2 @ dec rs1)"
          "cl2 = [] \<or> cr2 = []" "ls2 = [] \<or> cr2 = []" "ls1 = [] \<longrightarrow> ls2 = []"
      using on(4) by metis
    then show ?thesis
    proof cases
      case ret
      with on(1) show ?thesis by (simp add: unfold)
    next
      case on2
      from hoco_loop3_cmp [OF on(3) on2(4)] consider
          (ret) "hoco_loop3 right righend righp cl2 cr2 = Inr (Inl ?cmp)"
        | (on3) righp3 cl3 cr3 rs3 where
            "hoco_loop3 right righend righp cl2 cr2 = Inr (Inr (righp3, cl3, cr3))"
            "blocks_at right righp3 righend rs3" "?cmp = cmp_bytes (cl3 @ dec ls2) (cr3 @ dec rs3)"
            "cl3 = [] \<or> cr3 = []" "rs3 = [] \<or> cl3 = []" "rs1 = [] \<longrightarrow> rs3 = [] \<and> cl3 = cl2 \<and> cr3 = cr2"
        using on2(3) by metis
      then show ?thesis
      proof cases
        case ret
        with on(1) on2(1) show ?thesis by (simp add: unfold)
      next
        case on3
        have "ls2 = [] \<and> cl3 = [] \<or> rs3 = [] \<and> cr3 = []" using on(6) on2(4-6) on3(4-6) by metis
        with hoco_final_cmp [OF on2(2) on3(2)] on(1) on2(1) on3(1,3) show ?thesis
          by (simp add: unfold)
      qed
    qed
  qed
qed

section \<open>A compressed and a plain value\<close>

text \<open>The rest of a plain value, from \<open>p\<close> to its end \<open>e\<close>, is the text \<open>d\<close>.\<close>

definition text_at :: "bytes \<Rightarrow> nat \<Rightarrow> int \<Rightarrow> bytes \<Rightarrow> bool" where
  "text_at mem p e d \<longleftrightarrow> p + length d \<le> length mem \<and> take (length d) (drop p mem) = d \<and> e = int (p + length d)"

lemma text_at_end: "text_at mem p e d \<Longrightarrow> int p < e \<longleftrightarrow> d \<noteq> []"
  by (auto simp: text_at_def)

lemma text_at_Cons:
  assumes "text_at mem p e (y # ys)"
  shows "rd mem p = Inr y" "text_at mem (p + 1) e ys"
proof -
  from assms have "p < length mem" by (simp add: text_at_def)
  then have d: "drop p mem = mem ! p # drop (Suc p) mem" by (simp add: Cons_nth_drop_Suc)
  show "rd mem p = Inr y" "text_at mem (p + 1) e ys"
    using assms d by (auto simp: text_at_def rd_def)
qed

text \<open>\<open>sgn_if\<close> undoes the exchange of the arguments.\<close>

abbreviation sgn_if :: "bool \<Rightarrow> int \<Rightarrow> int" where
  "sgn_if exchange n \<equiv> if exchange then - n else n"

lemma mixed_inner_cmp:
  assumes "text_at right righp righend d"
  shows "(\<exists>res. mixed_inner e right righend cl righp = Inr (Inl (sgn_if e res)) \<and>
        (\<forall>L. cmp_bytes (cl @ L) d = res)) \<or>
     (\<exists>cl' righp' d'. mixed_inner e right righend cl righp = Inr (Inr (cl', righp')) \<and>
        text_at right righp' righend d' \<and> (\<forall>L. cmp_bytes (cl @ L) d = cmp_bytes (cl' @ L) d') \<and>
        (cl' = [] \<or> d' = []) \<and> (d = [] \<longrightarrow> d' = []))"
  using assms
proof (induction cl arbitrary: righp d)
  case Nil
  then show ?case by auto
next
  case (Cons x cl)
  show ?case
  proof (cases d)
    case Nil
    with Cons.prems text_at_end [OF Cons.prems] show ?thesis by auto
  next
    case d: (Cons y ys)
    note at = text_at_Cons [OF Cons.prems [unfolded d]]
    have run: "int righp < righend" using text_at_end [OF Cons.prems] d by simp
    show ?thesis
    proof (cases "x = y")
      case True
      then have "mixed_inner e right righend (x # cl) righp = mixed_inner e right righend cl (righp + 1)"
        "cmp_bytes ((x # cl) @ L) d = cmp_bytes (cl @ L) ys" for L
        using run at(1) by (simp_all add: d)
      with Cons.IH [OF at(2)] show ?thesis unfolding d by (metis list.distinct(1))
    next
      case False
      with run at(1) sint_byte_eq [of x y] show ?thesis
        by (auto simp: d mixed_result_def)
    qed
  qed
qed

lemma mixed_loop_cmp:
  assumes "blocks_at left lefp lefend ls" "text_at right righp righend d"
  shows "(\<exists>res. mixed_loop e left lefend right righend lefp cl righp = Inr (Inl (sgn_if e res)) \<and>
        cmp_bytes (cl @ dec ls) d = res) \<or>
     (\<exists>lefp' cl' righp' ls' d'.
        mixed_loop e left lefend right righend lefp cl righp = Inr (Inr (lefp', cl', righp')) \<and>
        blocks_at left lefp' lefend ls' \<and> text_at right righp' righend d' \<and>
        cmp_bytes (cl @ dec ls) d = cmp_bytes (cl' @ dec ls') d' \<and> (ls' = [] \<or> d' = []))"
  using assms
proof (induction e left lefend right righend lefp cl righp arbitrary: ls d rule: mixed_loop.induct)
  case (1 e left lefend right righend lefp cl righp)
  show ?case
  proof (cases "ls \<noteq> [] \<and> d \<noteq> []")
    case False
    then have "mixed_loop e left lefend right righend lefp cl righp = Inr (Inr (lefp, cl, righp))"
      using blocks_at_end [OF "1.prems"(1)] text_at_end [OF "1.prems"(2)]
      by (subst mixed_loop.simps) auto
    with False "1.prems" show ?thesis by blast
  next
    case True
    have run: "int lefp < lefend \<and> int righp < righend"
      using True blocks_at_end [OF "1.prems"(1)] text_at_end [OF "1.prems"(2)] by simp
    obtain a p ls' where a: "hoco_refill left lefp cl = Inr (a, p)" "blocks_at left p lefend ls'"
      "a @ dec ls' = cl @ dec ls" using hoco_refill_blocks [OF "1.prems"(1)] True by metis
    from mixed_inner_cmp [OF "1.prems"(2), of e a] consider
        (ret) res where "mixed_inner e right righend a righp = Inr (Inl (sgn_if e res))"
          "\<forall>L. cmp_bytes (a @ L) d = res"
      | (on) cl' righp' d' where "mixed_inner e right righend a righp = Inr (Inr (cl', righp'))"
          "text_at right righp' righend d'" "\<forall>L. cmp_bytes (a @ L) d = cmp_bytes (cl' @ L) d'"
      by blast
    then show ?thesis
    proof cases
      case ret
      then have "mixed_loop e left lefend right righend lefp cl righp = Inr (Inl (sgn_if e res))"
        using run a(1) by (subst mixed_loop.simps) simp
      with ret(2) a(3) show ?thesis by metis
    next
      case on
      have step: "mixed_loop e left lefend right righend lefp cl righp =
          mixed_loop e left lefend right righend p cl' righp'"
        using run a(1) on(1) by (subst mixed_loop.simps) simp
      have c: "cmp_bytes (cl @ dec ls) d = cmp_bytes (cl' @ dec ls') d'" using on(3) a(3) by metis
      show ?thesis
        unfolding step c by (rule "1.IH" [OF run a(1) refl on(1) refl refl a(2) on(2)])
    qed
  qed
qed

lemma mixed_final_cmp:
  assumes "blocks_at left lefp lefend ls" "text_at right righp righend d" "ls = [] \<and> cl = [] \<or> d = []"
  shows "(if int lefp < lefend \<or> cl \<noteq> [] then (if e then -1 else 1)
      else if int righp < righend then (if e then 1 else -1) else 0)
    = sgn_if e (cmp_bytes (cl @ dec ls) d)"
proof -
  have "dec ls = [] \<longleftrightarrow> ls = []" using assms(1) dec_nonempty by (auto simp: blocks_at_def)
  moreover have "cmp_bytes [] y = (if y = [] then 0 else -1)" "cmp_bytes y [] = (if y = [] then 0 else 1)" for y
    by (cases y; simp)+
  ultimately show ?thesis
    using assms(3) blocks_at_end [OF assms(1)] text_at_end [OF assms(2)] by auto
qed

text \<open>\<open>hocotext_mixed_cmp\<close> after the exchange.\<close>

lemma mixed_cmp_blocks:
  assumes l: "blocks_at left 8 lefend ls" and r: "text_at right p righend d"
  shows "bindE (mixed_loop e left lefend right righend 8 [] p) (\<lambda>r1.
        case r1 of Inl result \<Rightarrow> Inr result
        | Inr (lefp, cur_lef, righp) \<Rightarrow>
      bindE (mixed_inner e right righend cur_lef righp) (\<lambda>r2.
        case r2 of Inl result \<Rightarrow> Inr result
        | Inr (cur_lef, righp) \<Rightarrow>
            Inr (if int lefp < lefend \<or> cur_lef \<noteq> [] then (if e then -1 else 1)
                 else if int righp < righend then (if e then 1 else -1) else 0)))
    = Inr (sgn_if e (cmp_bytes (dec ls) d))" (is "?run = _")
proof -
  from mixed_loop_cmp [OF l r, of e "[]"] consider
      (ret) "mixed_loop e left lefend right righend 8 [] p = Inr (Inl (sgn_if e (cmp_bytes (dec ls) d)))"
    | (on) lefp cl righp ls' d' where "mixed_loop e left lefend right righend 8 [] p = Inr (Inr (lefp, cl, righp))"
        "blocks_at left lefp lefend ls'" "text_at right righp righend d'"
        "cmp_bytes (dec ls) d = cmp_bytes (cl @ dec ls') d'" "ls' = [] \<or> d' = []"
    by auto
  then show ?thesis
  proof cases
    case ret
    then show ?thesis by simp
  next
    case on
    from mixed_inner_cmp [OF on(3), of e cl] consider
        (ret) "mixed_inner e right righend cl righp = Inr (Inl (sgn_if e (cmp_bytes (dec ls) d)))"
      | (on2) cl2 righp2 d2 where "mixed_inner e right righend cl righp = Inr (Inr (cl2, righp2))"
          "text_at right righp2 righend d2" "cmp_bytes (dec ls) d = cmp_bytes (cl2 @ dec ls') d2"
          "cl2 = [] \<or> d2 = []" "d' = [] \<longrightarrow> d2 = []"
      using on(4) by metis
    then show ?thesis
    proof cases
      case ret
      with on(1) show ?thesis by simp
    next
      case on2
      have "ls' = [] \<and> cl2 = [] \<or> d2 = []" using on(5) on2(4,5) by blast
      with mixed_final_cmp [OF on(2) on2(2), of cl2 e] on(1) on2(1,3) show ?thesis
        by (simp only: bindE_simps sum.case prod.case)
    qed
  qed
qed

section \<open>Plain values\<close>

lemma common_loop_cmp:
  assumes "text_at left lefp lefend d1" "text_at right righp righend d2"
  shows "common_loop left lefend right righend lefp righp = Inr (cmp_bytes d1 d2)"
  using assms
proof (induction d1 d2 arbitrary: lefp righp rule: cmp_bytes.induct)
  case (4 x xs y ys)
  note at = text_at_Cons [OF "4.prems"(1)] text_at_Cons [OF "4.prems"(2)]
  have "int lefp < lefend" "int righp < righend"
    using text_at_end [OF "4.prems"(1)] text_at_end [OF "4.prems"(2)] by simp_all
  with at "4.IH" [OF _ at(2,4)] sint_byte_eq [of x y] show ?case
    by (subst common_loop.simps) auto
qed (subst common_loop.simps, simp add: text_at_end)+

section \<open>Packed datums\<close>

text \<open>What \<open>hocotext_datum_packed\<close> leaves: the value \<open>d\<close> plain, short or as RLE blocks.\<close>

definition rle_datum :: "bytes \<Rightarrow> bytes \<Rightarrow> bool" where
  "rle_datum v d \<longleftrightarrow> (\<exists>ts r. toks_ok ts \<and> dec ts = d \<and> fits_4b d \<and> fits_4b (enc ts) \<and>
     v = mk_compressed (int (length d)) TOAST_RLE_COMPRESSION_ID (enc ts) @ r)"

lemma rle_datum_read:
  assumes "rle_datum v d"
  obtains ts e where "VARSIZE_ANY v = Inr e" "blocks_at v 8 e ts" "dec ts = d" "VARATT_IS_COMPRESSED v"
proof -
  from assms obtain ts r where ts: "toks_ok ts" "dec ts = d" "fits_4b (enc ts)"
    "v = mk_compressed (int (length d)) TOAST_RLE_COMPRESSION_ID (enc ts) @ r"
    unfolding rle_datum_def by blast
  let ?h = "take 8 v"
  have v: "v = ?h @ enc ts @ r" "length ?h = 8"
    using ts(4) by (auto simp: mk_compressed_def SET_VARSIZE_4B_C_def
        TOAST_COMPRESS_SET_SIZE_AND_COMPRESS_METHOD_def)
  have b: "blocks_at v 8 (int (length (enc ts)) + 8) ts"
    by (rule blocks_atI [OF ts(1) v(1)]) (use v(2) in simp_all)
  have s: "VARSIZE_ANY v = Inr (int (length (enc ts)) + 8)" "VARATT_IS_COMPRESSED v"
    using ts(3,4) by (simp_all add: VARSIZE_ANY_def varatt_simps varatt_class_defs)
  show thesis using that [OF s(1) b ts(2) s(2)] .
qed

lemma payload_rle_datum:
  assumes "payload_of TOAST_RLE_COMPRESSION_ID d c"
  shows "rle_datum (mk_compressed (int (length d)) TOAST_RLE_COMPRESSION_ID c @ r) d"
proof -
  from assms obtain dest n where c: "rle_compress d None = (dest, n)" "0 \<le> n" "c = take (nat n) dest"
    and "fits_4b d" "length c + 10 < length d" "runs_in_windows 128 d"
    unfolding payload_of_def by (auto simp: compression_ids)
  moreover obtain ts where "toks_ok ts" "dest = enc ts @ [0]" "n = int (length (enc ts))"
    "runs_in_windows 128 d \<longrightarrow> dec ts = d" using rle_compress_payload [OF c(1,2)] by metis
  ultimately show ?thesis unfolding rle_datum_def by (intro exI [of _ ts] exI [of _ r]) simp
qed

lemma text_datum_at:
  assumes "text_datum v d"
  obtains e where "VARSIZE_ANY v = Inr e" "text_at v (VARDATA_ANY v) e d"
    "\<not> VARATT_IS_SHORT v \<Longrightarrow> VARSIZE_4B v = Inr e \<and> VARDATA_ANY v = 4" "\<not> VARATT_IS_COMPRESSED v"
proof -
  from assms consider (plain) r where "v = mk_plain d @ r" "fits_4b d"
    | (short) r where "v = mk_short d @ r" "fits_short d" unfolding text_datum_def by blast
  then show thesis
  proof cases
    case plain
    have "take (length d) (drop 4 (mk_plain d)) = d" by (simp add: mk_plain_def SET_VARSIZE_4B_def)
    with plain show thesis
      by (intro that [of "int (length d) + 4"])
         (simp_all add: VARSIZE_ANY_def VARDATA_ANY_def varatt_simps varatt_class_defs text_at_def varhdrsz)
  next
    case short
    have "take (length d) (drop 1 (mk_short d)) = d" by (simp add: mk_short_def SET_VARSIZE_1B_def)
    with short show thesis
      by (intro that [of "int (length d) + 1"])
         (simp_all add: VARSIZE_ANY_def VARDATA_ANY_def varatt_simps varatt_class_defs text_at_def varhdrsz)
  qed
qed

text \<open>\<open>packed v d\<close>: \<open>v\<close> is such a form of \<open>d\<close>; \<open>no_mix\<close> excludes the pair of a compressed
  and a short-header value.\<close>

definition packed :: "bytes \<Rightarrow> bytes \<Rightarrow> bool" where
  "packed v d \<longleftrightarrow> rle_datum v d \<or> text_datum v d"

definition no_mix :: "bytes \<Rightarrow> bytes \<Rightarrow> bool" where
  "no_mix l r \<longleftrightarrow> \<not> (VARATT_IS_COMPRESSED l \<and> VARATT_IS_SHORT r) \<and> \<not> (VARATT_IS_SHORT l \<and> VARATT_IS_COMPRESSED r)"

lemma hoco_cmp_packed:
  assumes "rle_datum l d1" "rle_datum r d2" "collid \<noteq> 0"
  shows "hocotext_hoco_cmp l r collid = Inr (cmp_bytes d1 d2)"
proof -
  obtain ts e where l: "VARSIZE_ANY l = Inr e" "blocks_at l 8 e ts" "dec ts = d1"
    using rle_datum_read [OF assms(1)] by metis
  obtain us e' where r: "VARSIZE_ANY r = Inr e'" "blocks_at r 8 e' us" "dec us = d2"
    using rle_datum_read [OF assms(2)] by metis
  show ?thesis using hoco_cmp_blocks [OF l(1,2) r(1,2) assms(3)] l(3) r(3) by simp
qed

lemma mixed_cmp_packed:
  assumes "rle_datum l d1" "text_datum r d2" "\<not> VARATT_IS_SHORT r" "collid \<noteq> 0"
  shows "hocotext_mixed_cmp l r collid = Inr (cmp_bytes d1 d2)"
    "hocotext_mixed_cmp r l collid = Inr (cmp_bytes d2 d1)"
proof -
  obtain ts e where l: "VARSIZE_ANY l = Inr e" "blocks_at l 8 e ts" "dec ts = d1" "VARATT_IS_COMPRESSED l"
    using rle_datum_read [OF assms(1)] by metis
  obtain e' where r: "VARSIZE_4B r = Inr e'" "VARDATA_ANY r = 4" "text_at r 4 e' d2" "\<not> VARATT_IS_COMPRESSED r"
    using text_datum_at [OF assms(2)] assms(3) by metis
  note defs = hocotext_mixed_cmp_def Let_def hoco_check_collation_def OidIsValid_def InvalidOid_def
  show "hocotext_mixed_cmp l r collid = Inr (cmp_bytes d1 d2)"
    using mixed_cmp_blocks [OF l(2) r(3), of False] l r assms(4) by (simp add: defs)
  have "hocotext_mixed_cmp r l collid = Inr (- cmp_bytes d1 d2)"
    using mixed_cmp_blocks [OF l(2) r(3), of True] l r assms(4) by (simp add: defs)
  then show "hocotext_mixed_cmp r l collid = Inr (cmp_bytes d2 d1)"
    by (simp add: text_order.cmp_sym [of d1 d2])
qed

lemma common_cmp_packed:
  assumes "text_datum l d1" "text_datum r d2" "collid \<noteq> 0"
  shows "hocotext_common_cmp l r collid = Inr (cmp_bytes d1 d2)"
proof -
  obtain e where l: "VARSIZE_ANY l = Inr e" "text_at l (VARDATA_ANY l) e d1"
    using text_datum_at [OF assms(1)] by metis
  obtain e' where r: "VARSIZE_ANY r = Inr e'" "text_at r (VARDATA_ANY r) e' d2"
    using text_datum_at [OF assms(2)] by metis
  show ?thesis
    using l r assms(3) by (simp add: hocotext_common_cmp_def hoco_check_collation_def OidIsValid_def
        InvalidOid_def common_loop_cmp)
qed

lemma packed_not_both: "rle_datum v d \<Longrightarrow> VARATT_IS_COMPRESSED v" "text_datum v d \<Longrightarrow> \<not> VARATT_IS_COMPRESSED v"
  using rle_datum_read text_datum_read(4) by blast+

lemma compare_packed:
  assumes "packed l d1" "packed r d2" "no_mix l r" "collid \<noteq> 0"
  shows "(if VARATT_IS_COMPRESSED l \<and> VARATT_IS_COMPRESSED r then hocotext_hoco_cmp l r collid
          else if VARATT_IS_COMPRESSED l \<or> VARATT_IS_COMPRESSED r then hocotext_mixed_cmp l r collid
          else hocotext_common_cmp l r collid) = Inr (cmp_bytes d1 d2)"
  using assms(1,2) unfolding packed_def
proof (elim disjE)
  assume "rle_datum l d1" "rle_datum r d2"
  then show ?thesis using hoco_cmp_packed assms(4) packed_not_both by simp
next
  assume "rle_datum l d1" "text_datum r d2"
  then show ?thesis
    using mixed_cmp_packed(1) [of l d1 r d2] assms(3,4) packed_not_both by (simp add: no_mix_def)
next
  assume "text_datum l d1" "rle_datum r d2"
  then show ?thesis
    using mixed_cmp_packed(2) [of r d2 l d1] assms(3,4) packed_not_both by (simp add: no_mix_def)
next
  assume "text_datum l d1" "text_datum r d2"
  then show ?thesis using common_cmp_packed assms(4) packed_not_both by simp
qed

section \<open>Unpacking\<close>

lemma hocotext_fetch_eq: "hocotext_toast_fetch_datum env v = toast_fetch_datum env v"
  by (simp add: hocotext_toast_fetch_datum_def toast_fetch_datum_def Let_def)

text \<open>\<open>hocotext_fetch_toasted_attr\<close> leaves compressed data alone and gives every plain value a
  4-byte header.\<close>

lemma packed_plain: "fits_4b d \<Longrightarrow> packed (mk_plain d @ r) d"
  by (auto simp: packed_def text_datum_def)

lemma packed_plain_exact: "fits_4b d \<Longrightarrow> packed (mk_plain d) d"
  using packed_plain [of d "[]"] by simp

lemma packed_payload_exact:
  "payload_of TOAST_RLE_COMPRESSION_ID d c \<Longrightarrow>
     packed (mk_compressed (int (length d)) TOAST_RLE_COMPRESSION_ID c) d"
  using payload_rle_datum [of d c "[]"] by (simp add: packed_def)

lemma not_short_mk:
  "\<not> VARATT_IS_SHORT (mk_plain d @ r)" "\<not> VARATT_IS_SHORT (mk_compressed n cm c @ r)"
  "\<not> VARATT_IS_SHORT (mk_plain d)" "\<not> VARATT_IS_SHORT (mk_compressed n cm c)"
  "\<not> VARATT_IS_COMPRESSED (mk_plain d)" "\<not> VARATT_IS_COMPRESSED (mk_plain d @ r)"
  using is_plain(3,4) [of d "[]"] is_compressed(4) [of n cm c "[]"]
  by (simp_all add: varatt_simps varatt_class_defs)

lemma fetch_toasted_inline:
  assumes "inline_datum ms v d" "ms \<subseteq> {TOAST_RLE_COMPRESSION_ID}"
  obtains (same) n where "hocotext_fetch_toasted_attr fuel env v = Inr None" "packed v d" "\<not> VARATT_IS_SHORT v"
      "VARSIZE_ANY v = Inr n" "packed (take (nat n) v) d" "\<not> VARATT_IS_SHORT (take (nat n) v)"
      "nat n \<le> length v" "ms = {} \<Longrightarrow> \<not> VARATT_IS_COMPRESSED v \<and> \<not> VARATT_IS_COMPRESSED (take (nat n) v)"
    | (copy) "hocotext_fetch_toasted_attr fuel env v = Inr (Some (mk_plain d))" "fits_4b d" "packed v d"
        "\<not> VARATT_IS_COMPRESSED v"
proof -
  note ne = inline_not_external [OF assms(1)]
  from assms consider (plain) r where "v = mk_plain d @ r" "fits_4b d"
    | (short) r where "v = mk_short d @ r" "fits_short d"
    | (comp) cm c r where "payload_of cm d c" "v = mk_compressed (int (length d)) cm c @ r" "cm \<in> ms"
    unfolding inline_datum_def text_datum_def by blast
  then show thesis
  proof cases
    case plain
    have "hocotext_fetch_toasted_attr fuel env v = Inr None"
      using plain ne by (subst hocotext_fetch_toasted_attr.simps) (simp add: varatt_simps varatt_class_defs)
    with plain packed_plain [of d r] packed_plain_exact [of d] show thesis
      by (intro same [of "int (length d) + 4"])
         (simp_all add: VARSIZE_ANY_def varatt_simps not_short_mk nat_add_distrib)
  next
    case short
    then have "hocotext_fetch_toasted_attr fuel env v = Inr (Some (mk_plain d))"
      using ne by (subst hocotext_fetch_toasted_attr.simps)
        (simp add: varatt_simps varatt_class_defs varhdrsz mk_plain_def)
    with short show thesis
      by (intro copy) (auto simp: packed_def text_datum_def varatt_simps varatt_class_defs)
  next
    case comp
    have cm: "cm = TOAST_RLE_COMPRESSION_ID" using comp(3) assms(2) by blast
    have "hocotext_fetch_toasted_attr fuel env v = Inr None"
      using comp ne by (subst hocotext_fetch_toasted_attr.simps) (simp add: varatt_simps varatt_class_defs)
    moreover have "fits_4b c" "packed v d"
      using payload_of_facts [OF comp(1)] comp payload_rle_datum [of d c r] cm by (simp_all add: packed_def)
    ultimately show thesis
      using comp packed_payload_exact [of d c] cm
      by (intro same [of "int (length c) + 8"])
         (auto simp: VARSIZE_ANY_def varatt_simps not_short_mk nat_add_distrib)
  qed
qed

lemma fetch_toasted_represents:
  assumes "represents ms env v d" "ms \<subseteq> {TOAST_RLE_COMPRESSION_ID}"
  shows "\<exists>o'. hocotext_fetch_toasted_attr (if VARATT_IS_EXTERNAL_INDIRECT v then Suc fuel else fuel) env v = Inr o' \<and>
    packed (the_datum v o') d \<and> \<not> VARATT_IS_SHORT (the_datum v o') \<and>
    (ms = {} \<longrightarrow> \<not> VARATT_IS_COMPRESSED (the_datum v o'))"
  using assms
proof (induction rule: represents.induct)
  case (inline v d)
  have ni: "\<not> VARATT_IS_EXTERNAL_INDIRECT v" using inline_not_external [OF inline(1)] by simp
  from inline show ?case
  proof (cases rule: fetch_toasted_inline [of _ _ _ fuel env])
    case (same n)
    then show ?thesis using ni by (auto simp: the_datum_def)
  next
    case copy
    then show ?thesis using ni packed_plain_exact
      by (auto simp: the_datum_def not_short_mk)
  qed
next
  case (external d relid vid r)
  let ?v = "external_bytes (ext_pointer (int (length d)) (int (length d)) 0 vid relid) @ r"
  have "hocotext_fetch_toasted_attr fuel env ?v = Inr (Some (mk_plain d))"
    using fetch_external [OF external(1-3), of r]
    by (subst hocotext_fetch_toasted_attr.simps) (simp add: hocotext_fetch_eq)
  then show ?case
    using external(1) packed_plain_exact
    by (simp add: the_datum_def not_short_mk)
next
  case (external_compressed cm d c relid vid r)
  let ?v = "external_bytes (ext_pointer (int (length d)) (int (length c) + 4) cm vid relid) @ r"
  have "cm = TOAST_RLE_COMPRESSION_ID" "ms \<noteq> {}" using external_compressed by auto
  moreover have "hocotext_fetch_toasted_attr fuel env ?v = Inr (Some (mk_compressed (int (length d)) cm c))"
    using fetch_external_compressed [OF external_compressed(2,3), of r]
    by (subst hocotext_fetch_toasted_attr.simps) (simp add: hocotext_fetch_eq)
  ultimately show ?case
    using external_compressed(2) packed_payload_exact by (simp add: the_datum_def not_short_mk)
next
  case (indirect p obj d r)
  have ind: "hocotext_fetch_toasted_attr (Suc fuel) env (indirect_bytes p @ r) =
      bindE (hocotext_fetch_toasted_attr fuel env obj) (\<lambda>r. case r of Some d \<Rightarrow> Inr (Some d)
        | None \<Rightarrow> bindE (VARSIZE_ANY obj) (\<lambda>n. bindE (rd_range obj 0 (nat n)) (\<lambda>copy. Inr (Some copy))))"
    using indirect(1) by (subst hocotext_fetch_toasted_attr.simps) (simp add: varatt_simps deref_def)
  obtain o' where o: "hocotext_fetch_toasted_attr fuel env obj = Inr o'" "packed (the_datum obj o') d"
    "\<not> VARATT_IS_SHORT (the_datum obj o')" "ms = {} \<longrightarrow> \<not> VARATT_IS_COMPRESSED (the_datum obj o')"
    using indirect(3,4,5) by auto
  show ?case
  proof (cases o')
    case (Some y)
    with o show ?thesis by (simp add: ind the_datum_def)
  next
    case None
    have "inline_datum ms obj d"
      using indirect(2)
    proof (cases rule: represents.cases)
      case (external relid vid r)
      with o(1) None fetch_external [of d env relid vid r] show ?thesis
        by (auto simp: hocotext_fetch_toasted_attr.simps [of fuel] hocotext_fetch_eq)
    next
      case (external_compressed cm c relid vid r)
      with o(1) None fetch_external_compressed [of cm d c env relid vid r] show ?thesis
        by (auto simp: hocotext_fetch_toasted_attr.simps [of fuel] hocotext_fetch_eq)
    next
      case (indirect p' obj' r')
      then show ?thesis using \<open>\<not> VARATT_IS_EXTERNAL_INDIRECT obj\<close> by simp
    qed
    then show ?thesis
      using \<open>ms \<subseteq> {TOAST_RLE_COMPRESSION_ID}\<close>
    proof (cases rule: fetch_toasted_inline [of _ _ _ fuel env])
      case (same n)
      have "rd_range obj 0 (nat n) = Inr (take (nat n) obj)"
        using same(7) by (simp add: rd_range_def)
      with same show ?thesis by (simp add: ind the_datum_def)
    next
      case copy
      with o(1) None show ?thesis by simp
    qed
  qed
qed

text \<open>A short header in line; the header byte of an external pointer is odd, too.\<close>

definition short_inline :: "bytes \<Rightarrow> bool" where
  "short_inline v \<longleftrightarrow> VARATT_IS_SHORT v \<and> \<not> VARATT_IS_EXTERNAL v"

lemma datum_packed_represents:
  assumes "represents ms env v d" "ms \<subseteq> {TOAST_RLE_COMPRESSION_ID}"
  shows "\<exists>w. hocotext_datum_packed (Suc fuel) env v = Inr w \<and> packed w d \<and>
    (\<not> short_inline v \<longrightarrow> \<not> VARATT_IS_SHORT w) \<and> (ms = {} \<longrightarrow> \<not> VARATT_IS_COMPRESSED w)"
proof (cases "VARATT_IS_COMPRESSED v \<or> VARATT_IS_EXTERNAL v")
  case True
  then show ?thesis
    using fetch_toasted_represents [OF assms, of "if VARATT_IS_EXTERNAL_INDIRECT v then fuel else Suc fuel"]
    by (auto simp: hocotext_datum_packed_def split: if_splits)
next
  case False
  have "inline_datum ms v d"
    using assms(1) False
    by (cases rule: represents.cases) (auto simp: varatt_simps varatt_class_defs)
  then have "packed v d" using False assms(2) fetch_toasted_inline [of ms v d] by metis
  with False show ?thesis by (auto simp: hocotext_datum_packed_def short_inline_def)
qed

end
