(* ===== verification/Hocotext_Extract.thy ===== *)
theory Hocotext_Extract
  imports Hocotext_Cmp
begin

text \<open>
  Extraction of a substring from the compressed form: the loop that locates the offset leaves
  the rest of a block, the copying loop turns it into the wanted bytes.
\<close>

section \<open>Positions inside a block\<close>

text \<open>The first type field of a block: 1 for a run, 0 for single bytes.\<close>

definition tok_type :: "tok \<Rightarrow> int" where
  "tok_type t = (case t of Rep n c \<Rightarrow> 1 | Lit bs \<Rightarrow> 0)"

lemma hoco_header_tok:
  assumes "tok_ok t"
  shows "hoco_header (pre @ enc_tok t @ post) (length pre) = Inr (tok_type t, int (length (dec_tok t)))"
  using assms
proof (cases rule: tok_header)
  case (Rep n c h)
  then show ?thesis
    by (simp add: hoco_header_def rd_def nth_append top_bit hoco_THRESHOLD_def tok_type_def)
next
  case (Lit bs h)
  then show ?thesis
    by (simp add: hoco_header_def rd_def nth_append top_bit low_bits tok_type_def)
qed

lemma hoco_header_blocks:
  "blocks_at mem p e (t # ts) \<Longrightarrow> hoco_header mem p = Inr (tok_type t, int (length (dec_tok t)))"
  unfolding blocks_at_def using hoco_header_tok [of t] by fastforce

lemma hoco_header_total: "p < length mem \<Longrightarrow> \<exists>ty n. hoco_header mem p = Inr (ty, n)"
  by (simp add: hoco_header_def rd_def)

text \<open>\<open>block_rest mem sp ty cur e ts\<close>: at \<open>sp\<close> the data of a block of type \<open>ty\<close> of which the bytes
  \<open>cur\<close> are still wanted, then the blocks \<open>ts\<close> up to \<open>e\<close>.\<close>

definition block_rest :: "bytes \<Rightarrow> nat \<Rightarrow> int \<Rightarrow> bytes \<Rightarrow> int \<Rightarrow> tok list \<Rightarrow> bool" where
  "block_rest mem sp ty cur e ts \<longleftrightarrow> 4 < sp \<and>
     (ty = 1 \<and> (\<exists>c. rd mem sp = Inr c \<and> cur = replicate (length cur) c) \<and> blocks_at mem (sp + 1) e ts \<or>
      ty = 0 \<and> rd_range mem sp (length cur) = Inr cur \<and> blocks_at mem (sp + length cur) e ts)"

lemma blocks_at_rest:
  assumes "blocks_at mem p e (t # ts)" "k \<le> length (dec_tok t)" "4 \<le> p"
  shows "block_rest mem (p + (case t of Rep n c \<Rightarrow> 1 | Lit bs \<Rightarrow> k + 1)) (tok_type t) (drop k (dec_tok t)) e ts"
    and "blocks_at mem (p + length (enc_tok t)) e ts"
proof -
  from assms(1) obtain pre r where m: "mem = pre @ enc_tok t @ enc ts @ r" "p = length pre"
    "e = int (length pre + length (enc_tok t) + length (enc ts))" and ok: "tok_ok t" "toks_ok ts"
    by (auto simp: blocks_at_def)
  show n: "blocks_at mem (p + length (enc_tok t)) e ts"
    by (rule blocks_atI [of _ _ "pre @ enc_tok t" r]) (use ok(2) m in simp_all)
  from ok(1) show "block_rest mem (p + (case t of Rep n c \<Rightarrow> 1 | Lit bs \<Rightarrow> k + 1)) (tok_type t)
      (drop k (dec_tok t)) e ts"
  proof (cases rule: tok_header)
    case (Rep i c h)
    then show ?thesis
      using n m(1,2) assms(3) by (simp add: block_rest_def tok_type_def rd_def nth_append)
  next
    case (Lit bs h)
    have "mem = (pre @ h # take k bs) @ drop k bs @ enc ts @ r"
      using m(1) unfolding Lit(2) by simp
    then have "rd_range mem (length (pre @ h # take k bs)) (length (drop k bs)) = Inr (drop k bs)"
      by (metis rd_range_at)
    then show ?thesis
      using n m(2) assms(2,3) Lit by (simp add: block_rest_def tok_type_def)
  qed
qed

section \<open>Locating the offset\<close>

lemma hoco_locate_blocks:
  assumes "blocks_at mem sp e ts" "4 \<le> sp" "cur < offset" "offset - cur \<le> int (length (dec ts))"
  shows "\<exists>sp' ty rest ts'. hoco_locate mem offset sp cur type count = Inr (sp', offset, ty, int (length rest)) \<and>
    block_rest mem sp' ty rest e ts' \<and> rest @ dec ts' = drop (nat (offset - cur)) (dec ts)"
  using assms
proof (induction ts arbitrary: sp cur type count)
  case Nil
  then show ?case by simp
next
  case (Cons t ts)
  let ?n = "int (length (dec_tok t))"
  note h = hoco_header_blocks [OF Cons.prems(1)]
  have ty: "tok_type t = 1 \<longleftrightarrow> (case t of Rep n c \<Rightarrow> True | Lit bs \<Rightarrow> False)"
    by (simp add: tok_type_def split: tok.splits)
  show ?case
  proof (cases "offset - (?n + cur) \<le> 0")
    case True
    define k where "k = nat (offset - cur)"
    have k: "k \<le> length (dec_tok t)" "offset - cur = int k" "cur + int k = offset" using True Cons.prems(3) by (auto simp: k_def)
    let ?sp = "sp + (case t of Rep n c \<Rightarrow> 1 | Lit bs \<Rightarrow> k + 1)"
    have "hoco_locate mem offset sp cur type count = hoco_locate mem offset ?sp offset (tok_type t) (?n - int k)"
      using Cons.prems(3) h True k(2,3) ty
      by (subst hoco_locate.simps) (auto simp: Let_def nat_add_distrib split: tok.splits)
    also have "\<dots> = Inr (?sp, offset, tok_type t, int (length (drop k (dec_tok t))))"
      using k(1) by (subst hoco_locate.simps) (simp add: of_nat_diff)
    finally show ?thesis
      using blocks_at_rest(1) [OF Cons.prems(1) k(1) Cons.prems(2)] k(1)
      by (intro exI [of _ ?sp] exI [of _ "tok_type t"] exI [of _ "drop k (dec_tok t)"] exI [of _ ts])
         (simp add: k_def)
  next
    case False
    have ok: "tok_ok t" using Cons.prems(1) by (simp add: blocks_at_def)
    have len: "length (enc_tok t) = (case t of Rep n c \<Rightarrow> 2 | Lit bs \<Rightarrow> length (dec_tok t) + 1)"
      using ok by (cases rule: tok_header) auto
    have step: "hoco_locate mem offset sp cur type count =
        hoco_locate mem offset (sp + length (enc_tok t)) (cur + ?n) (tok_type t) ?n"
      using Cons.prems(3) h False ty len
      by (subst hoco_locate.simps) (auto simp: Let_def nat_add_distrib split: tok.splits)
    have "nat (offset - cur) = length (dec_tok t) + nat (offset - (cur + ?n))" using False by linarith
    then have "drop (nat (offset - cur)) (dec (t # ts)) = drop (nat (offset - (cur + ?n))) (dec ts)"
      by simp
    moreover have "cur + ?n < offset" "offset - (cur + ?n) \<le> int (length (dec ts))" "4 \<le> sp + length (enc_tok t)"
      using False Cons.prems(2,4) by auto
    ultimately show ?thesis
      unfolding step using Cons.IH [OF blocks_at_rest(2) [OF Cons.prems(1) le0 Cons.prems(2)]] by presburger
  qed
qed

section \<open>Copying\<close>

lemma hoco_copy_end: "len \<le> cur - offset \<Longrightarrow> hoco_copy mem offset len rawsize sp cur ty count dp = Inr (dp, cur)"
  by (subst hoco_copy.simps) simp

text \<open>One iteration on the rest of a block, \<open>n\<close> bytes of which are wanted.\<close>

lemma hoco_copy_step:
  assumes "block_rest mem sp ty cur e ts" "cur_offset - offset < len" "cur_offset < rawsize"
    and n: "n = nat (if int (length cur) + cur_offset - offset > len then len + offset - cur_offset else int (length cur))"
    and "hoco_header mem (if ty = 1 then sp + 1 else sp + n) = Inr (ty', count')"
  shows "hoco_copy mem offset len rawsize sp cur_offset ty (int (length cur)) dp =
    hoco_copy mem offset len rawsize ((if ty = 1 then sp + 1 else sp + n) + 1) (cur_offset + int n) ty' count'
      (dp @ take n cur)"
proof -
  let ?count = "if int (length cur) + cur_offset - offset > len then len + offset - cur_offset else int (length cur)"
  have c: "?count = int n" "n \<le> length cur" using assms(2) n by auto
  have data: "(if ty = 1 then (if 0 < int n then bindE (rd mem sp) (\<lambda>c. Inr (replicate (nat (int n)) c)) else Inr [])
      else rd_range mem sp (nat (int n))) = Inr (take n cur)"
  proof -
    consider b where "ty = 1" "rd mem sp = Inr b" "cur = replicate (length cur) b"
      | "ty = 0" "rd_range mem sp (length cur) = Inr cur"
      using assms(1) unfolding block_rest_def by blast
    then show ?thesis
    proof cases
      case 1
      have "take n cur = replicate n b" using c(2) 1(3) by (metis min_absorb1 take_replicate)
      with 1 show ?thesis by simp
    next
      case 2
      show ?thesis
      proof (cases "n = 0")
        case False
        with c(2) have "cur \<noteq> []" by auto
        with 2(2) have m: "sp + length cur \<le> length mem" "take (length cur) (drop sp mem) = cur"
          by (auto simp: rd_range_def split: if_splits)
        have "take n (drop sp mem) = take n cur" using c(2) m(2) by (metis min_absorb1 take_take)
        with 2(1) False c(2) m(1) show ?thesis by (simp add: rd_range_def)
      qed (use 2 in \<open>simp add: rd_range_def\<close>)
    qed
  qed
  have sp: "sp \<noteq> 4" using assms(1) by (simp add: block_rest_def)
  show ?thesis
    using assms(2,3,5) data sp
    by (subst hoco_copy.simps) (cases "ty = 1"; cases "n = 0"; simp add: Let_def c(1))
qed

lemma block_rest_next:
  assumes "block_rest mem sp ty cur e ts"
  shows "blocks_at mem (if ty = 1 then sp + 1 else sp + length cur) e ts"
    and "n \<le> length cur \<Longrightarrow> int (if ty = 1 then sp + 1 else sp + n) \<le> e" and "4 < sp"
  using assms by (auto simp: block_rest_def blocks_at_def)

text \<open>The wanted bytes end in this block.\<close>

lemma hoco_copy_last:
  assumes b: "block_rest mem sp ty cur e ts" "e < int (length mem)"
    and "cur_offset - offset \<le> len" "len - (cur_offset - offset) \<le> int (length cur)"
    and "rawsize = cur_offset + int (length (cur @ dec ts))"
  shows "hoco_copy mem offset len rawsize sp cur_offset ty (int (length cur)) dp =
    Inr (dp @ take (nat (len - (cur_offset - offset))) cur, offset + len)"
proof (cases "len = cur_offset - offset")
  case True
  then show ?thesis by (simp add: hoco_copy_end)
next
  case False
  define n where "n = nat (len - (cur_offset - offset))"
  have n: "n = nat (if int (length cur) + cur_offset - offset > len then len + offset - cur_offset else int (length cur))"
    "n \<le> length cur" "cur_offset + int n = offset + len"
    using assms(3,4) by (auto simp: n_def)
  obtain ty' count' where "hoco_header mem (if ty = 1 then sp + 1 else sp + n) = Inr (ty', count')"
    using hoco_header_total [of "if ty = 1 then sp + 1 else sp + n" mem] block_rest_next(2) [OF b(1) n(2)] b(2)
    by fastforce
  moreover have "cur_offset - offset < len" "cur_offset < rawsize" using False assms(3-5) by auto
  ultimately show ?thesis
    using hoco_copy_step [OF b(1) _ _ n(1)] n(3) by (simp add: hoco_copy_end n_def [symmetric])
qed

lemma hoco_copy_blocks:
  assumes "block_rest mem sp ty cur e ts" "e < int (length mem)"
    and "cur_offset - offset \<le> len" "len - (cur_offset - offset) \<le> int (length (cur @ dec ts))"
    and "rawsize = cur_offset + int (length (cur @ dec ts))"
  shows "hoco_copy mem offset len rawsize sp cur_offset ty (int (length cur)) dp =
    Inr (dp @ take (nat (len - (cur_offset - offset))) (cur @ dec ts), offset + len)"
  using assms
proof (induction ts arbitrary: sp ty cur cur_offset dp)
  case Nil
  then show ?case using hoco_copy_last [OF Nil.prems(1-3), of rawsize dp] by simp
next
  case (Cons t ts)
  show ?case
  proof (cases "len - (cur_offset - offset) \<le> int (length cur)")
    case True
    then show ?thesis
      using hoco_copy_last [OF Cons.prems(1-3), of rawsize dp] Cons.prems(5) by simp
  next
    case False
    let ?q = "if ty = 1 then sp + 1 else sp + length cur"
    note b = block_rest_next(1) [OF Cons.prems(1)]
    have r: "block_rest mem (?q + 1) (tok_type t) (dec_tok t) e ts"
      using blocks_at_rest(1) [OF b le0] block_rest_next(3) [OF Cons.prems(1)]
      by (cases "ty = 1"; cases t; simp)
    have step: "hoco_copy mem offset len rawsize sp cur_offset ty (int (length cur)) dp =
        hoco_copy mem offset len rawsize (?q + 1) (cur_offset + int (length cur)) (tok_type t)
          (int (length (dec_tok t))) (dp @ cur)"
      using hoco_copy_step [OF Cons.prems(1) _ _ _ hoco_header_blocks [OF b], of cur_offset offset len rawsize dp]
        False Cons.prems(3-5) by auto
    have "nat (len - (cur_offset - offset)) = length cur + nat (len - (cur_offset + int (length cur) - offset))"
      using False by linarith
    then have "take (nat (len - (cur_offset - offset))) (cur @ dec (t # ts)) =
        cur @ take (nat (len - (cur_offset + int (length cur) - offset))) (dec_tok t @ dec ts)" by simp
    with Cons.IH [OF r Cons.prems(2), of "cur_offset + int (length cur)" "dp @ cur"] False Cons.prems(4,5)
    show ?thesis unfolding step by simp
  qed
qed

section \<open>The whole extraction\<close>

text \<open>A fresh allocation whose first byte is even is not taken for a short header.\<close>

definition even_header :: "bytes \<Rightarrow> bool" where
  "even_header result \<longleftrightarrow> \<not> VARATT_IS_1B result"

lemma store_result:
  assumes "even_header result" "length data + 5 \<le> length result"
  shows "\<exists>x. hoco_store_result result data (int (length data) + VARHDRSZ) = Inr (mk_plain data @ x)"
proof -
  have "length (SET_VARSIZE_4B n) = 4" for n by (simp add: SET_VARSIZE_4B_def)
  then show ?thesis
    using assms
    by (simp add: hoco_store_result_def even_header_def VARDATA_ANY_def varhdrsz buf_write_def mk_plain_def)
qed

lemma hoco_extract_blocks:
  assumes "rle_datum v d" and room: "VARSIZE_ANY v = Inr e" "e < int (length v)"
    and r: "0 < offset" "0 \<le> len" "offset + len \<le> int (length d)" "len + 14 < 2 ^ 30"
    and "collid \<noteq> 0" and "even_header result" "int (length result) = len + 14"
  shows "offset + len < int (length d) \<Longrightarrow> \<exists>x. hocotext_hoco_extract result v offset len collid =
      Inr (Some (mk_plain (take (nat len) (drop (nat offset) d)) @ x))"
    and "offset + len = int (length d) \<Longrightarrow> hocotext_hoco_extract result v offset len collid = Inr None"
proof -
  obtain ts e' where b: "VARSIZE_ANY v = Inr e'" "blocks_at v 8 e' ts" "dec ts = d"
    using rle_datum_read [OF assms(1)] by metis
  then have b: "blocks_at v 8 e ts" "dec ts = d" using room(1) by auto
  have raw: "VARDATA_COMPRESSED_GET_EXTSIZE v = Inr (int (length d))"
    using assms(1) unfolding rle_datum_def by (auto simp: varatt_simps)
  obtain sp ty rest ts' where l: "hoco_locate v offset 8 0 1 0 = Inr (sp, offset, ty, int (length rest))"
    "block_rest v sp ty rest e ts'" "rest @ dec ts' = drop (nat offset) d"
    using hoco_locate_blocks [OF b(1) _ r(1), of 1 0] r(2,3) b(2) by auto
  have n: "int (length (rest @ dec ts')) = int (length d) - offset" using l(3) r by simp
  then have pre: "offset - offset \<le> len" "len - (offset - offset) \<le> int (length (rest @ dec ts'))"
    "int (length d) = offset + int (length (rest @ dec ts'))" using r by linarith+
  have c: "hoco_copy v offset len (int (length d)) sp offset ty (int (length rest)) [] =
      Inr (take (nat len) (drop (nat offset) d), offset + len)"
    using hoco_copy_blocks [OF l(2) room(2) pre, of "[]"] unfolding l(3) by simp
  let ?t = "take (nat len) (drop (nat offset) d)"
  have lt: "int (length ?t) = len" using r by simp
  have unfold: "hocotext_hoco_extract result v offset len collid =
      (if offset + len = int (length d) then Inr None
       else bindE (hoco_store_result result ?t (len + VARHDRSZ)) (\<lambda>r. Inr (Some r)))"
    using raw l(1) c r(2,4) assms(8) lt
    by (simp add: hocotext_hoco_extract_def palloc_check_def hoco_check_collation_def OidIsValid_def
        InvalidOid_def varhdrsz)
  show "\<exists>x. hocotext_hoco_extract result v offset len collid = Inr (Some (mk_plain ?t @ x))"
    if "offset + len < int (length d)"
  proof -
    have "length ?t + 5 \<le> length result" using lt assms(10) by linarith
    from store_result [OF assms(9) this] that show ?thesis unfolding unfold lt by auto
  qed
  show "hocotext_hoco_extract result v offset len collid = Inr None" if "offset + len = int (length d)"
    using that by (simp add: unfold)
qed

lemma common_extract_plain:
  assumes "fits_4b d" "len + 14 < 2 ^ 30" "0 \<le> len" "collid \<noteq> 0"
    and "even_header result" "int (length result) = len + 14"
  shows "offset < 0 \<or> int (length d) < offset \<Longrightarrow>
      hocotext_common_extract result (mk_plain d @ r) offset len collid = Inr None"
    and "0 \<le> offset \<Longrightarrow> offset \<le> int (length d) \<Longrightarrow>
      \<exists>x. hocotext_common_extract result (mk_plain d @ r) offset len collid =
        Inr (Some (mk_plain (take (nat len) (drop (nat offset) d)) @ x))"
proof -
  let ?v = "mk_plain d @ r"
  have m: "VARSIZE_4B ?v = Inr (int (length d) + 4)" "VARSIZE_ANY_EXHDR ?v = Inr (int (length d))" "VARDATA_ANY ?v = 4"
    using assms(1) by (simp_all add: VARSIZE_ANY_EXHDR_def VARDATA_ANY_def varatt_simps varhdrsz)
  note defs = hocotext_common_extract_def palloc_check_def hoco_check_collation_def OidIsValid_def InvalidOid_def
  show "hocotext_common_extract result ?v offset len collid = Inr None" if "offset < 0 \<or> int (length d) < offset"
    using m that assms(2-4) by (simp add: defs varhdrsz)
  show "\<exists>x. hocotext_common_extract result ?v offset len collid =
      Inr (Some (mk_plain (take (nat len) (drop (nat offset) d)) @ x))"
    if o: "0 \<le> offset" "offset \<le> int (length d)"
  proof -
    define k where "k = nat offset"
    define n where "n = min (nat len) (length d - k)"
    have k: "offset = int k" "k \<le> length d" using o by (auto simp: k_def)
    have rl: "(if int (length d) - offset < len then int (length d) - offset else len) = int n"
      using k assms(3) by (auto simp: n_def)
    have "rd_range (SET_VARSIZE_4B (int (length d) + VARHDRSZ) @ d @ r) (4 + k) n = Inr (take n (drop k d))"
      by (rule rd_range_mid) (use k in \<open>simp_all add: SET_VARSIZE_4B_def n_def\<close>)
    moreover have t: "take n (drop k d) = take (nat len) (drop k d)" "length (take n (drop k d)) = n"
      "length (take (nat len) (drop k d)) = n"
      by (simp_all add: n_def min_def)
    ultimately have rd: "rd_range ?v (nat (4 + offset)) (nat (int n)) = Inr (take (nat len) (drop k d))"
      using k(1) by (simp add: mk_plain_def nat_add_distrib)
    have "length (take n (drop k d)) + 5 \<le> length result"
      using t(2) assms(3,6) by (auto simp: n_def)
    from store_result [OF assms(5) this] have
      st: "\<exists>x. hoco_store_result result (take (nat len) (drop k d)) (int n + VARHDRSZ) =
        Inr (mk_plain (take (nat len) (drop k d)) @ x)" unfolding t .
    have "hocotext_common_extract result ?v offset len collid =
        bindE (hoco_store_result result (take (nat len) (drop k d)) (int n + VARHDRSZ)) (\<lambda>r. Inr (Some r))"
      using m o assms(2-4) rd rl
      by (cases "int (length d) - offset < len") (simp_all add: defs varhdrsz Let_def)
    with st show ?thesis by (auto simp: k_def)
  qed
qed

end
