(* ===== verification/Hocotext_Correct.thy ===== *)
theory Hocotext_Correct
  imports Hocotext_Extract
begin

text \<open>
  The SQL-callable functions of \<^verbatim>\<open>hocotext.c\<close> on stored values: comparison, ordering,
  minimum, maximum, hashing and the extraction of substrings, and the inputs on which they do
  not agree with the text the values stand for.
\<close>

section \<open>Comparison of stored values\<close>

text \<open>The pairs on which the comparison is right: no in-line short header on a side when the other
  may be compressed, and no compression method but RLE.\<close>

definition comparable :: "detoast_env \<Rightarrow> bytes \<Rightarrow> bytes \<Rightarrow> bytes \<Rightarrow> bytes \<Rightarrow> bool" where
  "comparable env l d1 r d2 \<longleftrightarrow>
     represents {TOAST_RLE_COMPRESSION_ID} env l d1 \<and> represents {TOAST_RLE_COMPRESSION_ID} env r d2 \<and>
       \<not> short_inline l \<and> \<not> short_inline r \<or>
     represents {} env l d1 \<and> represents {} env r d2"

lemma comparable_packed:
  assumes "comparable env l d1 r d2"
  obtains p q where "hocotext_datum_packed (Suc fuel) env l = Inr p" "packed p d1"
    "hocotext_datum_packed (Suc fuel) env r = Inr q" "packed q d2" "no_mix p q"
  using assms unfolding comparable_def no_mix_def
  using datum_packed_represents [of "{TOAST_RLE_COMPRESSION_ID}" env _ _ fuel]
    datum_packed_represents [of "{}" env _ _ fuel] by (metis empty_subsetI order_refl)

lemma compare_represents:
  assumes "comparable env l d1 r d2" "collid \<noteq> 0"
  shows "\<exists>p q. hocotext_compare (Suc fuel) env l r collid = Inr (p, q, cmp_bytes d1 d2) \<and>
    packed p d1 \<and> packed q d2"
proof -
  obtain p q where p: "hocotext_datum_packed (Suc fuel) env l = Inr p" "packed p d1"
    and q: "hocotext_datum_packed (Suc fuel) env r = Inr q" "packed q d2" and "no_mix p q"
    using comparable_packed [OF assms(1)] by metis
  with compare_packed [OF p(2) q(2) _ assms(2)] show ?thesis
    by (simp add: hocotext_compare_def Let_def)
qed

section \<open>A compressed value and its short-header copy\<close>

text \<open>\<open>prefix_at mem p e d\<close>: the bytes at \<open>p\<close> are \<open>d\<close> and the supposed end \<open>e\<close> lies behind them.\<close>

definition prefix_at :: "bytes \<Rightarrow> nat \<Rightarrow> int \<Rightarrow> bytes \<Rightarrow> bool" where
  "prefix_at mem p e d \<longleftrightarrow> text_at mem p (int (p + length d)) d \<and> int (p + length d) < e"

lemma prefix_at_Cons:
  "prefix_at mem p e (x # d) \<Longrightarrow> rd mem p = Inr x \<and> prefix_at mem (p + 1) e d \<and> int p < e"
  unfolding prefix_at_def using text_at_Cons [of mem p "int (p + length (x # d))" x d] by auto

lemma mixed_inner_equal:
  "prefix_at right righp righend (cl @ d) \<Longrightarrow>
     mixed_inner e right righend cl righp = Inr (Inr ([], righp + length cl)) \<and>
     prefix_at right (righp + length cl) righend d"
proof (induction cl arbitrary: righp)
  case (Cons x cl)
  from prefix_at_Cons [of right righp righend x "cl @ d"] Cons.prems
  have "rd right righp = Inr x" "prefix_at right (righp + 1) righend (cl @ d)" "int righp < righend" by simp_all
  with Cons.IH [of "righp + 1"] show ?case by simp
qed simp

lemma mixed_loop_equal:
  assumes "blocks_at left lefp lefend ls" "prefix_at right righp righend (cl @ dec ls)"
  shows "\<exists>lefp' cl' righp'. mixed_loop e left lefend right righend lefp cl righp = Inr (Inr (lefp', cl', righp')) \<and>
    blocks_at left lefp' lefend [] \<and> prefix_at right righp' righend cl'"
  using assms
proof (induction e left lefend right righend lefp cl righp arbitrary: ls rule: mixed_loop.induct)
  case (1 e left lefend right righend lefp cl righp)
  have re: "int righp < righend" using "1.prems"(2) by (simp add: prefix_at_def)
  show ?case
  proof (cases "ls = []")
    case True
    then have "mixed_loop e left lefend right righend lefp cl righp = Inr (Inr (lefp, cl, righp))"
      using blocks_at_end [OF "1.prems"(1)] by (subst mixed_loop.simps) auto
    with True "1.prems" show ?thesis by auto
  next
    case False
    have run: "int lefp < lefend \<and> int righp < righend"
      using False re blocks_at_end [OF "1.prems"(1)] by simp
    obtain a p ls' where a: "hoco_refill left lefp cl = Inr (a, p)" "blocks_at left p lefend ls'"
      "a @ dec ls' = cl @ dec ls" using hoco_refill_blocks [OF "1.prems"(1)] False by metis
    have i: "mixed_inner e right righend a righp = Inr (Inr ([], righp + length a))"
      "prefix_at right (righp + length a) righend ([] @ dec ls')"
      using mixed_inner_equal [of right righp righend a "dec ls'" e] "1.prems"(2) a(3) by simp_all
    have "mixed_loop e left lefend right righend lefp cl righp =
        mixed_loop e left lefend right righend p [] (righp + length a)"
      using run a(1) i(1) by (subst mixed_loop.simps) simp
    with "1.IH" [OF run a(1) refl i(1) refl refl a(2) i(2)] show ?thesis by simp
  qed
qed

lemma bit_uint_ge: "bit (w :: 32 word) i \<Longrightarrow> 2 ^ i \<le> uint w"
proof (rule ccontr)
  assume b: "bit w i" "\<not> 2 ^ i \<le> uint w"
  then have "uint w div 2 ^ i = 0" by simp
  moreover have "bit (uint w) i" using b(1) bit_imp_le_length [of w i] by (simp add: bit_uint_iff)
  ultimately show False by (simp add: bit_iff_odd)
qed

text \<open>\<open>VARSIZE\<close> takes the three bytes after a short header for the high part of a size.\<close>

lemma varsize_of_short:
  assumes "3 \<le> length d" "d ! 2 \<noteq> 0"
  obtains n where "VARSIZE_4B (mk_short d @ r) = Inr n" "2 ^ 22 \<le> n"
proof -
  obtain a b c t where d: "d = a # b # c # t" using assms(1)
    by (metis One_nat_def Suc_le_length_iff numeral_3_eq_3)
  obtain h where m: "mk_short d @ r = h # a # b # c # t @ r"
    by (simp add: mk_short_def SET_VARSIZE_1B_def d)
  let ?w = "le_word [h, a, b, c] :: 32 word"
  have "rd_u32 (mk_short d @ r) 0 = Inr ?w" unfolding m by (simp add: rd_u32_def rd_range_def)
  then have v: "VARSIZE_4B (mk_short d @ r) = Inr (uint (take_bit 30 (drop_bit 2 ?w)))"
    by (simp add: VARSIZE_4B_def and_masks)
  have "c \<noteq> 0" using assms(2) by (simp add: d)
  then obtain j where "bit c j" by (metis bit_0_eq bit_eq_iff bot_apply bot_bool_def)
  then have j: "bit c j" "j < 8" using bit_imp_le_length [of c j] by auto
  have dj: "(24 + j) div 8 = 3" "(24 + j) mod 8 = j" using j(2) by presburger+
  have "bit ?w (24 + j)" using j unfolding bit_le_word dj by simp
  then have "bit (take_bit 30 (drop_bit 2 ?w)) (22 + j)"
    using j(2) by (simp add: bit_take_bit_iff bit_drop_bit_eq add.assoc [symmetric])
  from bit_uint_ge [OF this] have "(2 :: int) ^ 22 * 2 ^ j \<le> uint (take_bit 30 (drop_bit 2 ?w))"
    by (simp add: power_add)
  moreover have "(2 :: int) ^ 22 * 1 \<le> 2 ^ 22 * 2 ^ j" by (rule mult_left_mono) simp_all
  ultimately have "2 ^ 22 \<le> uint (take_bit 30 (drop_bit 2 ?w))" by linarith
  with v that show thesis by blast
qed

lemma mixed_cmp_short:
  assumes "rle_datum l d" "fits_short d" "3 \<le> length d" "d ! 2 \<noteq> 0" "collid \<noteq> 0"
  shows "hocotext_mixed_cmp l (mk_short d @ r) collid = Inr (-1)"
proof -
  let ?r = "mk_short d @ r"
  obtain ts e where l: "VARSIZE_ANY l = Inr e" "blocks_at l 8 e ts" "dec ts = d" "VARATT_IS_COMPRESSED l"
    using rle_datum_read [OF assms(1)] by metis
  obtain n where n: "VARSIZE_4B ?r = Inr n" "2 ^ 22 \<le> n" using varsize_of_short [OF assms(3,4)] .
  have r: "VARDATA_ANY ?r = 1" "\<not> VARATT_IS_COMPRESSED ?r"
    using assms(2) by (simp_all add: VARDATA_ANY_def varatt_simps varatt_class_defs varhdrsz)
  have "take (length d) (drop 1 (mk_short d)) = d" by (simp add: mk_short_def SET_VARSIZE_1B_def)
  then have "prefix_at ?r 1 n ([] @ dec ts)"
    using n(2) assms(2) l(3) by (simp add: prefix_at_def text_at_def)
  from mixed_loop_equal [OF l(2) this, of False] obtain lefp cl righp where
    loop: "mixed_loop False l e ?r n 8 [] 1 = Inr (Inr (lefp, cl, righp))"
    "blocks_at l lefp e []" "prefix_at ?r righp n (cl @ [])" by auto
  from mixed_inner_equal [OF loop(3), of False]
  have i: "mixed_inner False ?r n cl righp = Inr (Inr ([], righp + length cl))"
    "int (righp + length cl) < n" by (simp_all add: prefix_at_def)
  show ?thesis
    using l r n(1) assms(5) loop(1) i blocks_at_end [OF loop(2)]
    by (simp add: hocotext_mixed_cmp_def Let_def hoco_check_collation_def OidIsValid_def InvalidOid_def)
qed

section \<open>Comparison without a collation\<close>

lemma compare_no_collation:
  assumes "packed l d1" "packed r d2" "no_mix l r"
  shows "(if VARATT_IS_COMPRESSED l \<and> VARATT_IS_COMPRESSED r then hocotext_hoco_cmp l r 0
          else if VARATT_IS_COMPRESSED l \<or> VARATT_IS_COMPRESSED r then hocotext_mixed_cmp l r 0
          else hocotext_common_cmp l r 0) = Inl (Ereport ERRCODE_INDETERMINATE_COLLATION)"
proof -
  note defs = hocotext_hoco_cmp_def hocotext_mixed_cmp_def hocotext_common_cmp_def Let_def
    hoco_check_collation_def OidIsValid_def InvalidOid_def
  have any: "\<exists>e. VARSIZE_ANY v = Inr e" if "packed v d" for v d
    using that rle_datum_read [of v d] text_datum_at [of v d] unfolding packed_def by metis
  have four: "\<exists>e. VARSIZE_4B v = Inr e" if "packed v d" "\<not> VARATT_IS_COMPRESSED v" "\<not> VARATT_IS_SHORT v" for v d
    using that packed_not_both(1) [of v d] text_datum_at [of v d] unfolding packed_def by metis
  show ?thesis
    using any [OF assms(1)] any [OF assms(2)] four [OF assms(1)] four [OF assms(2)] assms(3)
    by (auto simp: defs no_mix_def)
qed

section \<open>Example values\<close>

lemma demo_plain_repr: "represents {TOAST_RLE_COMPRESSION_ID} env (mk_plain demo_text) demo_text"
  using demo_text_datum by (auto intro!: represents.inline simp: inline_datum_def)

lemma demo_comp_repr: "represents {TOAST_RLE_COMPRESSION_ID} env demo_comp demo_text"
  using demo_inline [of "[]"] by (auto intro!: represents.inline)

lemma demo_short_repr: "represents {TOAST_RLE_COMPRESSION_ID} env (mk_plain [8]) [8]"
  by (auto intro!: represents.inline exI [of _ "[]"] simp: inline_datum_def text_datum_def)

lemma demo_not_short: "\<not> short_inline demo_comp" "\<not> short_inline (mk_plain d)"
  by (simp_all add: demo_comp_def not_short_mk short_inline_def)

lemma demo_comparable:
  "comparable env demo_comp demo_text (mk_plain demo_text) demo_text"
  "comparable env demo_comp demo_text (mk_plain [8]) [8]"
  by (simp_all add: comparable_def demo_plain_repr demo_comp_repr demo_short_repr demo_not_short)

lemma demo_cmp: "cmp_bytes demo_text [8] = -1" "cmp_bytes demo_text demo_text = 0"
  by (simp_all add: demo_text_def text_order.cmp_zero numeral_eq_Suc)

section \<open>Properties\<close>



text \<open>The six comparison operators decide equality and the order of the texts.\<close>

lemma hocotext_operators_correct:
  assumes "comparable env l d1 r d2" "collid \<noteq> 0"
  shows "hocotext_eq (Suc fuel) env l r collid = Inr (d1 = d2) \<and>
    hocotext_nq (Suc fuel) env l r collid = Inr (d1 \<noteq> d2) \<and>
    hocotext_lt (Suc fuel) env l r collid = Inr (cmp_bytes d1 d2 < 0) \<and>
    hocotext_le (Suc fuel) env l r collid = Inr (d1 = d2 \<or> cmp_bytes d1 d2 < 0) \<and>
    hocotext_gt (Suc fuel) env l r collid = Inr (cmp_bytes d2 d1 < 0) \<and>
    hocotext_ge (Suc fuel) env l r collid = Inr (d1 = d2 \<or> cmp_bytes d2 d1 < 0)"
  using compare_represents [OF assms, of fuel] text_order.cmp_zero [of d1 d2] text_order.cmp_sym [of d1 d2]
  by (auto simp: hocotext_eq_def hocotext_nq_def hocotext_lt_def hocotext_le_def hocotext_gt_def hocotext_ge_def)



text \<open>\<open>hocotext_smaller\<close> and \<open>hocotext_larger\<close> return a form of one of their arguments that is
  not above, respectively not below, either of them.\<close>

lemma hocotext_smaller_larger_correct:
  assumes "comparable env l d1 r d2" "collid \<noteq> 0"
  shows "\<exists>w d w' d'. hocotext_smaller (Suc fuel) env l r collid = Inr w \<and> packed w d \<and> d \<in> {d1, d2} \<and>
    cmp_bytes d d1 \<le> 0 \<and> cmp_bytes d d2 \<le> 0 \<and>
    hocotext_larger (Suc fuel) env l r collid = Inr w' \<and> packed w' d' \<and> d' \<in> {d1, d2} \<and>
    cmp_bytes d1 d' \<le> 0 \<and> cmp_bytes d2 d' \<le> 0"
proof -
  obtain p q where c: "hocotext_compare (Suc fuel) env l r collid = Inr (p, q, cmp_bytes d1 d2)"
    "packed p d1" "packed q d2" using compare_represents [OF assms, of fuel] by blast
  let ?s = "cmp_bytes d1 d2 < 0" and ?l = "cmp_bytes d1 d2 > 0"
  show ?thesis
    by (rule exI [of _ "if ?s then p else q"], rule exI [of _ "if ?s then d1 else d2"],
        rule exI [of _ "if ?l then p else q"], rule exI [of _ "if ?l then d1 else d2"])
       (use c text_order.smaller_le [of d1 d2] text_order.larger_ge [of d1 d2] in
        \<open>auto simp: hocotext_smaller_def hocotext_larger_def\<close>)
qed

text \<open>Without a collation every comparison of stored values reports
  \<open>ERRCODE_INDETERMINATE_COLLATION\<close>.\<close>

lemma hocotext_cmp_no_collation:
  assumes "comparable env l d1 r d2"
  shows "hocotext_cmp (Suc fuel) env l r 0 = Inl (Ereport ERRCODE_INDETERMINATE_COLLATION) \<and>
    hocotext_eq (Suc fuel) env l r 0 = Inl (Ereport ERRCODE_INDETERMINATE_COLLATION)"
proof -
  obtain p q where c: "hocotext_datum_packed (Suc fuel) env l = Inr p" "packed p d1"
    "hocotext_datum_packed (Suc fuel) env r = Inr q" "packed q d2" "no_mix p q"
    using comparable_packed [OF assms] .
  have "hocotext_compare (Suc fuel) env l r 0 = Inl (Ereport ERRCODE_INDETERMINATE_COLLATION)"
    using compare_no_collation [OF c(2,4,5)] c(1,3) by (simp add: hocotext_compare_def Let_def)
  then show ?thesis by (simp add: hocotext_cmp_def hocotext_eq_def)
qed

text \<open>The hash support function is the constant 0, so equal values have equal hashes.\<close>

lemma hocotext_hash_eq:
  assumes "comparable env l d1 r d2" "collid \<noteq> 0" "hocotext_eq (Suc fuel) env l r collid = Inr True"
  shows "hocotext_hash (Suc fuel) env l = Inr 0 \<and> hocotext_hash (Suc fuel) env r = Inr 0"
proof -
  have "\<exists>x. hocotext_fetch_toasted_attr (Suc fuel) env v = Inr x"
    if "represents ms env v d" "ms \<subseteq> {TOAST_RLE_COMPRESSION_ID}" for ms v d
    using fetch_toasted_represents [OF that, of "if VARATT_IS_EXTERNAL_INDIRECT v then fuel else Suc fuel"]
    by (auto split: if_splits)
  with assms(1) show ?thesis unfolding comparable_def hocotext_hash_def by fastforce
qed

text \<open>C37. A value with a short header is not equal to its own compressed form: \<open>hocotext_mixed_cmp\<close>
  computes the end of the plain value with the 4-byte macro \<open>VARSIZE\<close>, so every text
  without a zero byte in third place compares as longer than itself.\<close>

theorem hocotext_short_header_unequal:
  assumes "payload_of TOAST_RLE_COMPRESSION_ID d c" "fits_short d" "d ! 2 \<noteq> 0" "collid \<noteq> 0"
  shows "hocotext_eq fuel env (mk_compressed (int (length d)) TOAST_RLE_COMPRESSION_ID c @ r)
    (mk_short d @ r') collid = Inr False"
proof -
  let ?l = "mk_compressed (int (length d)) TOAST_RLE_COMPRESSION_ID c @ r" and ?r = "mk_short d @ r'"
  have rle: "rle_datum ?l d" using payload_rle_datum [OF assms(1)] .
  have "hocotext_mixed_cmp ?l ?r collid = Inr (-1)"
    using mixed_cmp_short [OF rle assms(2) _ assms(3,4)] payload_of_facts(3) [OF assms(1)] by simp
  moreover have "hocotext_fetch_toasted_attr fuel env ?l = Inr None"
    by (subst hocotext_fetch_toasted_attr.simps) (simp add: varatt_simps varatt_class_defs)
  ultimately show ?thesis
    using assms(2)
    by (simp add: hocotext_eq_def hocotext_compare_def hocotext_datum_packed_def the_datum_def Let_def
        varatt_simps varatt_class_defs)
qed

lemma demo_payload: "payload_of TOAST_RLE_COMPRESSION_ID demo_text [165, 7]"
  using demo_rle demo_runs unfolding payload_of_def by (auto simp: demo_text_def)

theorem hocotext_short_header_unequal_witness:
  "hocotext_eq 0 demo_env demo_comp (mk_short demo_text) 100 = Inr False"
  using hocotext_short_header_unequal [OF demo_payload, of 100 0 demo_env "[]" "[]"]
  by (simp add: demo_comp_def demo_text_def)



text \<open>C38. A substring that reaches the end of a compressed value is refused: the function computes
  it and then returns NULL.\<close>

theorem hocotext_extract_suffix_null:
  assumes "payload_of TOAST_RLE_COMPRESSION_ID d c" "r \<noteq> []"
    and "0 < offset" "0 \<le> len" "offset + len = int (length d)" "len + 14 < 2 ^ 30"
    and "collid \<noteq> 0" "even_header result" "int (length result) = len + 14"
  shows "hocotext_hoco_extract result (mk_compressed (int (length d)) TOAST_RLE_COMPRESSION_ID c @ r)
    offset len collid = Inr None"
proof -
  let ?v = "mk_compressed (int (length d)) TOAST_RLE_COMPRESSION_ID c @ r"
  have rle: "rle_datum ?v d" using payload_rle_datum [OF assms(1)] .
  have any: "VARSIZE_ANY ?v = Inr (int (length c) + 8)" "int (length c) + 8 < int (length ?v)"
    using payload_of_facts(2) [OF assms(1)] assms(2) by (simp_all add: VARSIZE_ANY_def varatt_simps)
  show ?thesis using hoco_extract_blocks(2) [OF rle any assms(3,4) _ assms(6-9)] assms(5) by simp
qed

theorem hocotext_extract_suffix_null_witness:
  "hocotext_hoco_extract (replicate 24 0) (demo_comp @ [0]) 30 10 100 = Inr None"
proof -
  have "even_header (replicate 24 0)" by code_simp
  then show ?thesis
    using hocotext_extract_suffix_null [OF demo_payload, of "[0]" 30 10 100 "replicate 24 0"]
    by (simp add: demo_comp_def demo_text_def)
qed


text \<open>\<open>text_extract\<close>, which decompresses first, returns every substring of every stored value:
  the part of it that exists, and NULL for an offset outside the text.\<close>

lemma text_extract_correct:
  assumes "represents ms env v d" "\<not> short_inline v" "0 \<le> len" "len + 14 < 2 ^ 30"
    and "collid \<noteq> 0" "even_header result" "int (length result) = len + 14"
  shows "if 0 \<le> offset \<and> offset \<le> int (length d)
    then \<exists>x. text_extract result (Suc fuel) env v offset len collid = Inr (Some (mk_plain (text_slice offset len d) @ x))
    else text_extract result (Suc fuel) env v offset len collid = Inr None"
proof -
  have "\<exists>y. pg_detoast_datum_packed (Suc fuel) env v = Inr (mk_plain d @ y)"
  proof (cases "VARATT_IS_COMPRESSED v \<or> VARATT_IS_EXTERNAL v")
    case True
    then show ?thesis
      using detoast_attr_represents [OF assms(1), of "if VARATT_IS_EXTERNAL_INDIRECT v then fuel else Suc fuel"]
      by (auto simp: pg_detoast_datum_packed_def split: if_splits)
  next
    case False
    have "inline_datum ms v d"
      using assms(1) False by (cases rule: represents.cases) (auto simp: varatt_simps varatt_class_defs)
    with False assms(2) show ?thesis
      by (auto simp: inline_datum_def text_datum_def pg_detoast_datum_packed_def short_inline_def
          varatt_simps varatt_class_defs)
  qed
  then obtain y where y: "pg_detoast_datum_packed (Suc fuel) env v = Inr (mk_plain d @ y)" by blast
  have sl: "text_slice offset len d = take (nat len) (drop (nat offset) d)"
    using assms(3) by (simp add: text_slice_def)
  show ?thesis
    using common_extract_plain [OF represents_fits [OF assms(1)] assms(4,3,5-7), of offset y]
    by (auto simp: text_extract_def y sl not_le)
qed


end
