(* ===== verification/Heaptuple.thy ===== *)
theory Heaptuple
  imports Toast_Store
begin

text \<open>
  Heap tuples: the alignment and access macros of \<^verbatim>\<open>tupmacs.h\<close> and, from \<^verbatim>\<open>heaptuple.c\<close>,
  \<open>heap_compute_data_size\<close>, \<open>fill_val\<close>, \<open>heap_fill_tuple\<close>, \<open>heap_form_tuple\<close>,
  \<open>getmissingattr\<close>, \<open>heap_deform_tuple\<close> and \<open>heap_modify_tuple\<close>.

  A \<open>Datum\<close> is a by-value word or a pointer, given by the bytes readable from it. A tuple body
  is its header fields with the bytes from \<open>t_bits\<close> on; \<open>palloc\<close> returns MAXALIGNed memory, so
  aligning a data pointer is aligning its offset in the data area. A \<open>Size\<close> is a \<open>nat\<close>: the sums
  have fewer than 2048 terms of less than 2 GB and cannot wrap. Flattening an expanded object is code of
  the object's type and a parameter.
\<close>

section \<open>Alignment\<close>

definition TYPEALIGN :: "nat \<Rightarrow> nat \<Rightarrow> nat" where
  "TYPEALIGN alignval len = nat ((int len + (int alignval - 1)) AND NOT (int alignval - 1))"

definition TYPEALIGN_DOWN :: "nat \<Rightarrow> nat \<Rightarrow> nat" where
  "TYPEALIGN_DOWN alignval len = nat (int len AND NOT (int alignval - 1))"

definition MAXALIGN :: "nat \<Rightarrow> nat" where "MAXALIGN len = TYPEALIGN 8 len"

definition TYPALIGN_CHAR :: char where "TYPALIGN_CHAR = CHR ''c''"
definition TYPALIGN_SHORT :: char where "TYPALIGN_SHORT = CHR ''s''"
definition TYPALIGN_INT :: char where "TYPALIGN_INT = CHR ''i''"
definition TYPALIGN_DOUBLE :: char where "TYPALIGN_DOUBLE = CHR ''d''"

definition TYPSTORAGE_PLAIN :: char where "TYPSTORAGE_PLAIN = CHR ''p''"
definition TYPSTORAGE_EXTERNAL :: char where "TYPSTORAGE_EXTERNAL = CHR ''e''"
definition TYPSTORAGE_EXTENDED :: char where "TYPSTORAGE_EXTENDED = CHR ''x''"
definition TYPSTORAGE_MAIN :: char where "TYPSTORAGE_MAIN = CHR ''m''"

lemmas typstorage = TYPSTORAGE_PLAIN_def TYPSTORAGE_EXTERNAL_def TYPSTORAGE_EXTENDED_def
  TYPSTORAGE_MAIN_def

section \<open>Descriptors, datums, tuples\<close>

datatype datum = ByVal "64 word" | ByRef bytes

definition DatumGetPointer :: "datum \<Rightarrow> bytes" where
  "DatumGetPointer d = (case d of ByVal w \<Rightarrow> [] | ByRef p \<Rightarrow> p)"

text \<open>The word of a by-value datum; the numeric value of an address is not modelled.\<close>

definition DatumGetWord :: "datum \<Rightarrow> (64 word) res" where
  "DatumGetWord d = (case d of ByVal w \<Rightarrow> Inr w | ByRef p \<Rightarrow> Inl MemFault)"

text \<open>\<open>attmissing\<close> is the entry of the descriptor's \<open>constr->missing\<close>, \<open>None\<close> if not
  \<open>am_present\<close>.\<close>

record pg_attribute =
  attlen :: int
  attcacheoff :: int
  attbyval :: bool
  attalign :: char
  attstorage :: char
  attcompression :: char
  atthasmissing :: bool
  attmissing :: "datum option"

record tuple_desc =
  td_attrs :: "pg_attribute list"
  tdtypeid :: oid
  tdtypmod :: "32 word"

record heap_tuple_header =
  t_choice :: bytes
  t_ctid :: bytes
  t_infomask2 :: "16 word"
  t_infomask :: "16 word"
  t_hoff :: byte
  t_bits :: bytes

record heap_tuple =
  t_len :: "32 word"
  t_self :: bytes
  t_tableOid :: oid
  t_data :: heap_tuple_header

definition SizeofHeapTupleHeader :: nat where "SizeofHeapTupleHeader = 23"
definition HEAPTUPLESIZE :: nat where "HEAPTUPLESIZE = 24"
definition MaxTupleAttributeNumber :: nat where "MaxTupleAttributeNumber = 1664"

definition HEAP_HASNULL :: "16 word" where "HEAP_HASNULL = 0x0001"
definition HEAP_HASVARWIDTH :: "16 word" where "HEAP_HASVARWIDTH = 0x0002"
definition HEAP_HASEXTERNAL :: "16 word" where "HEAP_HASEXTERNAL = 0x0004"
definition HEAP_NATTS_MASK :: "16 word" where "HEAP_NATTS_MASK = 0x07FF"

lemmas infomask_bits = HEAP_HASNULL_def HEAP_HASVARWIDTH_def HEAP_HASEXTERNAL_def

definition HeapTupleHasNulls :: "heap_tuple \<Rightarrow> bool" where
  "HeapTupleHasNulls tup \<longleftrightarrow> t_infomask (t_data tup) AND HEAP_HASNULL \<noteq> 0"
definition HeapTupleHeaderGetNatts :: "heap_tuple_header \<Rightarrow> nat" where
  "HeapTupleHeaderGetNatts td = unat (t_infomask2 td AND HEAP_NATTS_MASK)"
definition HeapTupleHeaderSetNatts :: "heap_tuple_header \<Rightarrow> nat \<Rightarrow> heap_tuple_header" where
  "HeapTupleHeaderSetNatts td natts =
     td\<lparr>t_infomask2 := (t_infomask2 td AND NOT HEAP_NATTS_MASK) OR word_of_nat natts\<rparr>"

definition BITMAPLEN :: "nat \<Rightarrow> nat" where "BITMAPLEN natts = (natts + 7) div 8"

text \<open>\<open>palloc0\<close>, with its limit; the argument is converted to \<open>Size\<close>.\<close>

definition MaxAllocSize :: int where "MaxAllocSize = 0x3fffffff"

definition palloc0 :: "int \<Rightarrow> bytes res" where
  "palloc0 n = (let n = n mod 2 ^ 64 in
     if n > MaxAllocSize then Inl (Ereport ERRCODE_INTERNAL_ERROR) else Inr (replicate (nat n) 0))"

section \<open>tupmacs.h\<close>

definition att_isnull :: "nat \<Rightarrow> bytes \<Rightarrow> bool res" where
  "att_isnull att bits = bindE (rd bits (att div 8)) (\<lambda>b. Inr (b AND push_bit (att mod 8) 1 = 0))"

definition att_align_nominal :: "nat \<Rightarrow> char \<Rightarrow> nat" where
  "att_align_nominal cur_offset align =
     (if align = TYPALIGN_INT then TYPEALIGN 4 cur_offset
      else if align = TYPALIGN_CHAR then cur_offset
      else if align = TYPALIGN_DOUBLE then TYPEALIGN 8 cur_offset
      else TYPEALIGN 2 cur_offset)"

definition att_align_datum :: "nat \<Rightarrow> char \<Rightarrow> int \<Rightarrow> bytes \<Rightarrow> nat" where
  "att_align_datum cur_offset align len p =
     (if len = -1 \<and> VARATT_IS_SHORT p then cur_offset else att_align_nominal cur_offset align)"

definition VARATT_NOT_PAD_BYTE :: "bytes \<Rightarrow> bool res" where
  "VARATT_NOT_PAD_BYTE p = bindE (rd p 0) (\<lambda>b. Inr (b \<noteq> 0))"

definition att_align_pointer :: "nat \<Rightarrow> char \<Rightarrow> int \<Rightarrow> bytes \<Rightarrow> nat res" where
  "att_align_pointer cur_offset align len p =
     (if len = -1 then
        bindE (VARATT_NOT_PAD_BYTE p) (\<lambda>b.
          if b then Inr cur_offset else Inr (att_align_nominal cur_offset align))
      else Inr (att_align_nominal cur_offset align))"

fun strlen :: "bytes \<Rightarrow> nat res" where
  "strlen [] = Inl MemFault"
| "strlen (c # cs) = (if c = 0 then Inr 0 else bindE (strlen cs) (\<lambda>n. Inr (Suc n)))"

definition att_addlength_pointer :: "nat \<Rightarrow> int \<Rightarrow> bytes \<Rightarrow> nat res" where
  "att_addlength_pointer cur_offset len p =
     (if len > 0 then Inr (cur_offset + nat len)
      else if len = -1 then bindE (VARSIZE_ANY p) (\<lambda>n. Inr (cur_offset + nat n))
      else bindE (strlen p) (\<lambda>n. Inr (cur_offset + (n + 1))))"

text \<open>By-value attributes: the low bytes of the \<open>Datum\<close>, read back with sign extension.\<close>

definition store_att_byval :: "64 word \<Rightarrow> int \<Rightarrow> bytes res" where
  "store_att_byval newdatum len =
     (if len = 1 then Inr (word_le 1 newdatum)
      else if len = 2 then Inr (word_le 2 newdatum)
      else if len = 4 then Inr (word_le 4 newdatum)
      else if len = 8 then Inr (word_le 8 newdatum)
      else Inl (Ereport ERRCODE_INTERNAL_ERROR))"

definition fetch_att :: "bytes \<Rightarrow> bool \<Rightarrow> int \<Rightarrow> datum res" where
  "fetch_att p byval len =
     (if byval then
        (if len = 1 then bindE (rd_range p 0 1) (\<lambda>bs. Inr (ByVal (scast (le_word bs :: 8 word))))
         else if len = 2 then bindE (rd_range p 0 2) (\<lambda>bs. Inr (ByVal (scast (le_word bs :: 16 word))))
         else if len = 4 then bindE (rd_range p 0 4) (\<lambda>bs. Inr (ByVal (scast (le_word bs :: 32 word))))
         else if len = 8 then bindE (rd_range p 0 8) (\<lambda>bs. Inr (ByVal (le_word bs)))
         else Inl (Ereport ERRCODE_INTERNAL_ERROR))
      else Inr (ByRef p))"

section \<open>Building tuples\<close>

definition ATT_IS_PACKABLE :: "pg_attribute \<Rightarrow> bool" where
  "ATT_IS_PACKABLE att \<longleftrightarrow> attlen att = -1 \<and> attstorage att \<noteq> TYPSTORAGE_PLAIN"

definition VARLENA_ATT_IS_PACKABLE :: "pg_attribute \<Rightarrow> bool" where
  "VARLENA_ATT_IS_PACKABLE att \<longleftrightarrow> attstorage att \<noteq> TYPSTORAGE_PLAIN"

text \<open>One column of \<open>heap_compute_data_size\<close>, then the loop.\<close>

definition data_size_step ::
  "(bytes \<Rightarrow> bytes res) \<Rightarrow> pg_attribute \<Rightarrow> datum \<Rightarrow> nat \<Rightarrow> nat res" where
  "data_size_step flatten atti val data_length =
     (let p = DatumGetPointer val in
      bindE (if ATT_IS_PACKABLE atti then VARATT_CAN_MAKE_SHORT p else Inr False) (\<lambda>short.
        if short then bindE (VARATT_CONVERTED_SHORT_SIZE p) (\<lambda>n. Inr (data_length + nat n))
        else if attlen atti = -1 \<and> VARATT_IS_EXTERNAL_EXPANDED p then
          bindE (flatten p) (\<lambda>flat. Inr (att_align_nominal data_length (attalign atti) + length flat))
        else att_addlength_pointer (att_align_datum data_length (attalign atti) (attlen atti) p)
               (attlen atti) p))"

fun data_size_loop ::
  "(bytes \<Rightarrow> bytes res) \<Rightarrow> pg_attribute list \<Rightarrow> datum list \<Rightarrow> bool list \<Rightarrow> nat \<Rightarrow> nat res" where
  "data_size_loop flatten (atti # atts) (val # vals) (n # nulls) data_length =
     (if n then data_size_loop flatten atts vals nulls data_length
      else bindE (data_size_step flatten atti val data_length)
             (data_size_loop flatten atts vals nulls))"
| "data_size_loop flatten [] vals nulls data_length = Inr data_length"
| "data_size_loop flatten (atti # atts) vals nulls data_length = Inl MemFault"

definition heap_compute_data_size ::
  "(bytes \<Rightarrow> bytes res) \<Rightarrow> tuple_desc \<Rightarrow> datum list \<Rightarrow> bool list \<Rightarrow> nat res" where
  "heap_compute_data_size flatten tupleDesc values isnull =
     data_size_loop flatten (td_attrs tupleDesc) values isnull 0"

text \<open>The state of \<open>heap_fill_tuple\<close>: the null bitmap with the index of the current byte and the
  mask of the current bit (\<open>fs_bit\<close> is \<open>None\<close> if \<open>bit\<close> is null), the data area with the
  current offset, and the infomask.\<close>

record fill_state =
  fs_bits :: bytes
  fs_bit :: "int option"
  fs_bitmask :: int
  fs_data :: bytes
  fs_off :: nat
  fs_infomask :: "16 word"

definition HIGHBIT :: int where "HIGHBIT = 0x80"

text \<open>The null bitmap part of \<open>fill_val\<close>; the flag says whether the function goes on.\<close>

definition fill_bit :: "fill_state \<Rightarrow> bool \<Rightarrow> (fill_state \<times> bool) res" where
  "fill_bit st isnull =
     (case fs_bit st of
        None \<Rightarrow> Inr (st, True)
      | Some bitp \<Rightarrow>
          bindE (if fs_bitmask st \<noteq> HIGHBIT then Inr (st\<lparr>fs_bitmask := fs_bitmask st * 2\<rparr>)
                 else bindE (buf_write (fs_bits st) (bitp + 1) [0]) (\<lambda>bits.
                   Inr (st\<lparr>fs_bits := bits, fs_bit := Some (bitp + 1), fs_bitmask := 1\<rparr>))) (\<lambda>st.
            if isnull then Inr (st\<lparr>fs_infomask := fs_infomask st OR HEAP_HASNULL\<rparr>, False)
            else
              let i = the (fs_bit st) in
              bindE (rd (fs_bits st) (nat i)) (\<lambda>b.
              bindE (buf_write (fs_bits st) i [b OR word_of_int (fs_bitmask st)]) (\<lambda>bits.
                Inr (st\<lparr>fs_bits := bits\<rparr>, True)))))"

text \<open>Where the value of a column goes, its bytes, and the new infomask.\<close>

definition fill_bytes :: "(bytes \<Rightarrow> bytes res) \<Rightarrow> pg_attribute \<Rightarrow> datum \<Rightarrow> nat \<Rightarrow> 16 word \<Rightarrow>
    (nat \<times> bytes \<times> 16 word) res" where
  "fill_bytes flatten att datum data infomask =
     (if attbyval att then
        bindE (DatumGetWord datum) (\<lambda>w.
        bindE (store_att_byval w (attlen att)) (\<lambda>bs.
          Inr (att_align_nominal data (attalign att), bs, infomask)))
      else if attlen att = -1 then
        let val = DatumGetPointer datum; infomask = infomask OR HEAP_HASVARWIDTH in
        if VARATT_IS_EXTERNAL val then
          if VARATT_IS_EXTERNAL_EXPANDED val then
            bindE (flatten val) (\<lambda>flat. Inr (att_align_nominal data (attalign att), flat, infomask))
          else
            bindE (rd_range val 0 (nat (VARSIZE_EXTERNAL val))) (\<lambda>bs.
              Inr (data, bs, infomask OR HEAP_HASEXTERNAL))
        else if VARATT_IS_SHORT val then
          bindE (rd_range val 0 (nat (VARSIZE_1B val))) (\<lambda>bs. Inr (data, bs, infomask))
        else
          bindE (if VARLENA_ATT_IS_PACKABLE att then VARATT_CAN_MAKE_SHORT val else Inr False) (\<lambda>short.
            if short then
              bindE (VARATT_CONVERTED_SHORT_SIZE val) (\<lambda>data_length.
              bindE (rd_range val 4 (nat (data_length - 1))) (\<lambda>bs.
                Inr (data, SET_VARSIZE_1B data_length @ bs, infomask)))
            else
              bindE (VARSIZE_4B val) (\<lambda>data_length.
              bindE (rd_range val 0 (nat data_length)) (\<lambda>bs.
                Inr (att_align_nominal data (attalign att), bs, infomask))))
      else if attlen att = -2 then
        let val = DatumGetPointer datum in
        bindE (strlen val) (\<lambda>n.
        bindE (rd_range val 0 (n + 1)) (\<lambda>bs. Inr (data, bs, infomask OR HEAP_HASVARWIDTH)))
      else
        bindE (rd_range (DatumGetPointer datum) 0 (nat (attlen att))) (\<lambda>bs.
          Inr (att_align_nominal data (attalign att), bs, infomask)))"

definition fill_val :: "(bytes \<Rightarrow> bytes res) \<Rightarrow> pg_attribute \<Rightarrow> datum \<Rightarrow> bool \<Rightarrow> fill_state \<Rightarrow>
    fill_state res" where
  "fill_val flatten att datum isnull st =
     bindE (fill_bit st isnull) (\<lambda>(st, continue).
       if \<not> continue then Inr st
       else
         bindE (fill_bytes flatten att datum (fs_off st) (fs_infomask st)) (\<lambda>(data, bs, infomask).
         bindE (buf_write (fs_data st) (int data) bs) (\<lambda>buf.
           Inr (st\<lparr>fs_data := buf, fs_off := data + length bs, fs_infomask := infomask\<rparr>))))"

fun fill_loop :: "(bytes \<Rightarrow> bytes res) \<Rightarrow> pg_attribute list \<Rightarrow> datum list \<Rightarrow> bool list \<Rightarrow>
    fill_state \<Rightarrow> fill_state res" where
  "fill_loop flatten (att # atts) (val # vals) (n # nulls) st =
     bindE (fill_val flatten att val n st) (fill_loop flatten atts vals nulls)"
| "fill_loop flatten [] vals nulls st = Inr st"
| "fill_loop flatten (att # atts) vals nulls st = Inl MemFault"

text \<open>The data area and the bitmap are the memory at \<open>data\<close> and at \<open>bit\<close>.\<close>

definition heap_fill_tuple :: "(bytes \<Rightarrow> bytes res) \<Rightarrow> tuple_desc \<Rightarrow> datum list \<Rightarrow> bool list \<Rightarrow> bytes \<Rightarrow>
    16 word \<Rightarrow> bytes \<Rightarrow> bool \<Rightarrow> (bytes \<times> 16 word \<times> bytes) res" where
  "heap_fill_tuple flatten tupleDesc values isnull data infomask bits has_bitmap =
     bindE (fill_loop flatten (td_attrs tupleDesc) values isnull
              \<lparr>fs_bits = bits, fs_bit = (if has_bitmap then Some (-1) else None),
               fs_bitmask = (if has_bitmap then HIGHBIT else 0), fs_data = data, fs_off = 0,
               fs_infomask = infomask AND NOT (HEAP_HASNULL OR HEAP_HASVARWIDTH OR HEAP_HASEXTERNAL)\<rparr>)
       (\<lambda>st. Inr (fs_data st, fs_infomask st, fs_bits st))"

text \<open>The length of the header of a tuple, with its bitmap and padding.\<close>

definition header_len :: "nat \<Rightarrow> bool \<Rightarrow> nat" where
  "header_len natts hasnull =
     MAXALIGN (SizeofHeapTupleHeader + (if hasnull then BITMAPLEN natts else 0))"

text \<open>\<open>HeapTupleHeaderSetDatumLength\<close>, \<open>SetTypMod\<close> and \<open>SetTypeId\<close>; the invalid item pointer.\<close>

definition datum_fields :: "int \<Rightarrow> tuple_desc \<Rightarrow> bytes" where
  "datum_fields len tupleDesc =
     SET_VARSIZE_4B len @ word_le 4 (tdtypmod tupleDesc) @ word_le 4 (tdtypeid tupleDesc)"

definition ItemPointerSetInvalid :: bytes where
  "ItemPointerSetInvalid = [0xFF, 0xFF, 0xFF, 0xFF, 0, 0]"

definition heap_form_tuple ::
  "(bytes \<Rightarrow> bytes res) \<Rightarrow> tuple_desc \<Rightarrow> datum list \<Rightarrow> bool list \<Rightarrow> heap_tuple res" where
  "heap_form_tuple flatten tupleDescriptor values isnull =
     (let numberOfAttributes = length (td_attrs tupleDescriptor);
          hasnull = (True \<in> set (take numberOfAttributes isnull));
          hoff = header_len numberOfAttributes hasnull
      in if numberOfAttributes > MaxTupleAttributeNumber then Inl (Ereport ERRCODE_TOO_MANY_COLUMNS)
      else
        bindE (heap_compute_data_size flatten tupleDescriptor values isnull) (\<lambda>data_len.
        bindE (palloc0 (int (HEAPTUPLESIZE + (hoff + data_len)))) (\<lambda>mem.
          let rest = drop (HEAPTUPLESIZE + SizeofHeapTupleHeader) mem;
              td = HeapTupleHeaderSetNatts
                \<lparr>t_choice = datum_fields (int (hoff + data_len)) tupleDescriptor,
                 t_ctid = ItemPointerSetInvalid, t_infomask2 = 0, t_infomask = 0,
                 t_hoff = word_of_nat hoff, t_bits = rest\<rparr> numberOfAttributes
          in bindE (heap_fill_tuple flatten tupleDescriptor values isnull
                      (drop (hoff - SizeofHeapTupleHeader) rest) (t_infomask td)
                      (take (hoff - SizeofHeapTupleHeader) rest) hasnull) (\<lambda>(data, infomask, bits).
               Inr \<lparr>t_len = word_of_nat (hoff + data_len), t_self = ItemPointerSetInvalid,
                    t_tableOid = InvalidOid,
                    t_data = td\<lparr>t_infomask := infomask, t_bits := bits @ data\<rparr>\<rparr>))))"

section \<open>Taking tuples apart\<close>

text \<open>The missing-value cache returns a copy of the value.\<close>

definition getmissingattr :: "pg_attribute \<Rightarrow> (datum \<times> bool) res" where
  "getmissingattr att =
     (if atthasmissing att then
        (case attmissing att of
           None \<Rightarrow> Inr (ByVal 0, True)
         | Some value \<Rightarrow>
             if attbyval att then Inr (value, False)
             else
               bindE (if attlen att > 0 then Inr (attlen att) else VARSIZE_ANY (DatumGetPointer value)) (\<lambda>len.
               bindE (rd_range (DatumGetPointer value) 0 (nat len)) (\<lambda>copy. Inr (ByRef copy, False))))
      else Inr (ByVal 0, True))"

fun missing_loop :: "pg_attribute list \<Rightarrow> (datum list \<times> bool list) res" where
  "missing_loop [] = Inr ([], [])"
| "missing_loop (att # atts) =
     bindE (getmissingattr att) (\<lambda>(v, n).
     bindE (missing_loop atts) (\<lambda>(vs, ns). Inr (v # vs, n # ns)))"

text \<open>The offset of the current attribute, the attribute with its cached offset, and \<open>slow\<close>.\<close>

definition deform_offset :: "bytes \<Rightarrow> pg_attribute \<Rightarrow> nat \<Rightarrow> bool \<Rightarrow> (nat \<times> pg_attribute \<times> bool) res" where
  "deform_offset tp thisatt off slow =
     (if \<not> slow \<and> attcacheoff thisatt \<ge> 0 then Inr (nat (attcacheoff thisatt), thisatt, slow)
      else if attlen thisatt = -1 then
        if \<not> slow \<and> off = att_align_nominal off (attalign thisatt)
        then Inr (off, thisatt\<lparr>attcacheoff := int off\<rparr>, slow)
        else bindE (att_align_pointer off (attalign thisatt) (-1) (drop off tp)) (\<lambda>off.
               Inr (off, thisatt, True))
      else
        let off = att_align_nominal off (attalign thisatt) in
        Inr (off, if \<not> slow then thisatt\<lparr>attcacheoff := int off\<rparr> else thisatt, slow))"

fun deform_loop :: "bool \<Rightarrow> bytes \<Rightarrow> bytes \<Rightarrow> pg_attribute list \<Rightarrow> nat \<Rightarrow> nat \<Rightarrow> bool \<Rightarrow>
    (pg_attribute list \<times> datum list \<times> bool list) res" where
  "deform_loop hasnulls bp tp [] attnum off slow = Inr ([], [], [])"
| "deform_loop hasnulls bp tp (thisatt # atts) attnum off slow =
     bindE (if hasnulls then att_isnull attnum bp else Inr False) (\<lambda>null.
       if null then
         bindE (deform_loop hasnulls bp tp atts (attnum + 1) off True) (\<lambda>(atts', vs, ns).
           Inr (thisatt # atts', ByVal 0 # vs, True # ns))
       else
         bindE (deform_offset tp thisatt off slow) (\<lambda>(off, thisatt', slow).
         bindE (fetch_att (drop off tp) (attbyval thisatt) (attlen thisatt)) (\<lambda>v.
         bindE (att_addlength_pointer off (attlen thisatt) (drop off tp)) (\<lambda>off.
         bindE (deform_loop hasnulls bp tp atts (attnum + 1) off (slow \<or> attlen thisatt \<le> 0))
           (\<lambda>(atts', vs, ns). Inr (thisatt' # atts', v # vs, False # ns))))))"

text \<open>The descriptor comes back with its cached offsets updated.\<close>

definition heap_deform_tuple ::
  "heap_tuple \<Rightarrow> tuple_desc \<Rightarrow> (tuple_desc \<times> datum list \<times> bool list) res" where
  "heap_deform_tuple tup tupleDesc =
     (let td = t_data tup;
          hasnulls = HeapTupleHasNulls tup;
          natts = min (HeapTupleHeaderGetNatts td) (length (td_attrs tupleDesc));
          tp = drop (unat (t_hoff td) - SizeofHeapTupleHeader) (t_bits td)
      in bindE (deform_loop hasnulls (t_bits td) tp (take natts (td_attrs tupleDesc)) 0 0 False)
           (\<lambda>(atts, vs, ns).
         bindE (missing_loop (drop natts (td_attrs tupleDesc))) (\<lambda>(vs', ns').
           Inr (tupleDesc\<lparr>td_attrs := atts @ drop natts (td_attrs tupleDesc)\<rparr>, vs @ vs', ns @ ns'))))"

section \<open>heap\_modify\_tuple\<close>

definition replace_cols :: "bool list \<Rightarrow> 'a list \<Rightarrow> 'a list \<Rightarrow> 'a list" where
  "replace_cols doReplace old new =
     map (\<lambda>(replace, x, y). if replace then y else x) (zip doReplace (zip old new))"

definition heap_modify_tuple :: "(bytes \<Rightarrow> bytes res) \<Rightarrow> heap_tuple \<Rightarrow> tuple_desc \<Rightarrow> datum list \<Rightarrow> bool list \<Rightarrow>
    bool list \<Rightarrow> (tuple_desc \<times> heap_tuple) res" where
  "heap_modify_tuple flatten tup tupleDesc replValues replIsnull doReplace =
     bindE (heap_deform_tuple tup tupleDesc) (\<lambda>(tupleDesc, vs, ns).
     bindE (heap_form_tuple flatten tupleDesc (replace_cols doReplace vs replValues)
              (replace_cols doReplace ns replIsnull)) (\<lambda>newTuple.
       Inr (tupleDesc, newTuple\<lparr>t_self := t_self tup, t_tableOid := t_tableOid tup,
         t_data := (t_data newTuple)\<lparr>t_ctid := t_ctid (t_data tup)\<rparr>\<rparr>)))"

end
