(* ===== verification/Toast_Helper.thy ===== *)
theory Toast_Helper
  imports Heaptuple Detoast
begin

text \<open>
  Toasting whole tuples: \<^verbatim>\<open>src/backend/access/table/toast_helper.c\<close> and the tuple-level functions
  of \<^verbatim>\<open>heaptoast.c\<close>.

  The world a call changes is the TOAST tables and the value OIDs not yet offered; the outer list
  has one entry for each call of \<open>toast_save_datum\<close>. \<open>pfree\<close> and the options passed to
  \<open>heap_insert\<close> are not modelled. The array \<open>ttc_attr\<close> is uninitialised memory of the
  caller and a parameter.
\<close>

section \<open>The context\<close>

record toast_attr_info =
  tai_oldexternal :: "bytes option"
  tai_size :: int
  tai_colflags :: byte
  tai_compression :: char

record relation =
  rd_rel :: heap_rel
  rd_att :: tuple_desc
  rd_options :: "int option"

record toast_world =
  tw_store :: toast_store
  tw_oids :: "oid list list"

record toast_tuple_context =
  ttc_values :: "datum list"
  ttc_isnull :: "bool list"
  ttc_oldvalues :: "datum list option"
  ttc_oldisnull :: "bool list"
  ttc_flags :: byte
  ttc_attr :: "toast_attr_info list"

text \<open>What the code reads besides: the compression settings, and the environment of
  \<^verbatim>\<open>detoast.c\<close>, whose tables are the current ones.\<close>

record toast_params =
  tp_compression :: compression_env
  tp_detoast :: detoast_env
  tp_fuel :: nat

definition TOAST_NEEDS_DELETE_OLD :: byte where "TOAST_NEEDS_DELETE_OLD = 0x01"
definition TOAST_NEEDS_FREE :: byte where "TOAST_NEEDS_FREE = 0x02"
definition TOAST_HAS_NULLS :: byte where "TOAST_HAS_NULLS = 0x04"
definition TOAST_NEEDS_CHANGE :: byte where "TOAST_NEEDS_CHANGE = 0x08"
definition TOASTCOL_NEEDS_DELETE_OLD :: byte where "TOASTCOL_NEEDS_DELETE_OLD = TOAST_NEEDS_DELETE_OLD"
definition TOASTCOL_NEEDS_FREE :: byte where "TOASTCOL_NEEDS_FREE = TOAST_NEEDS_FREE"
definition TOASTCOL_IGNORE :: byte where "TOASTCOL_IGNORE = 0x10"
definition TOASTCOL_INCOMPRESSIBLE :: byte where "TOASTCOL_INCOMPRESSIBLE = 0x20"

lemmas toast_flag_defs = TOAST_NEEDS_DELETE_OLD_def TOAST_NEEDS_FREE_def TOAST_HAS_NULLS_def
  TOAST_NEEDS_CHANGE_def TOASTCOL_NEEDS_DELETE_OLD_def TOASTCOL_NEEDS_FREE_def TOASTCOL_IGNORE_def
  TOASTCOL_INCOMPRESSIBLE_def

definition flag_set :: "byte \<Rightarrow> byte \<Rightarrow> bool" where "flag_set flags f \<longleftrightarrow> flags AND f \<noteq> 0"

section \<open>toast\_tuple\_init\<close>

text \<open>For an update: is the old value stored out of line, and if so is it replaced?\<close>

definition toast_old_external :: "pg_attribute \<Rightarrow> (datum \<times> bool) option \<Rightarrow> bool" where
  "toast_old_external att old =
     (case old of None \<Rightarrow> False
      | Some (v, n) \<Rightarrow> attlen att = -1 \<and> \<not> n \<and> VARATT_IS_EXTERNAL_ONDISK (DatumGetPointer v))"

definition toast_old_replaced :: "datum \<Rightarrow> datum \<Rightarrow> bool \<Rightarrow> bool res" where
  "toast_old_replaced oldvalue newvalue isnull =
     (let old_value = DatumGetPointer oldvalue; new_value = DatumGetPointer newvalue in
      if isnull \<or> \<not> VARATT_IS_EXTERNAL_ONDISK new_value then Inr True
      else
        bindE (rd_range old_value 0 (nat (VARSIZE_EXTERNAL old_value))) (\<lambda>x.
        bindE (rd_range new_value 0 (nat (VARSIZE_EXTERNAL old_value))) (\<lambda>y. Inr (x \<noteq> y))))"

text \<open>The rest of the loop body, for a value that is not the reused one.\<close>

definition toast_init_value :: "toast_params \<Rightarrow> pg_attribute \<Rightarrow> datum \<Rightarrow> bool \<Rightarrow> toast_attr_info \<Rightarrow> byte \<Rightarrow>
    (datum \<times> toast_attr_info \<times> byte) res" where
  "toast_init_value ps att value isnull tai flags =
     (if isnull then
        Inr (value, tai\<lparr>tai_colflags := tai_colflags tai OR TOASTCOL_IGNORE\<rparr>, flags OR TOAST_HAS_NULLS)
      else if attlen att = -1 then
        let tai = (if attstorage att = TYPSTORAGE_PLAIN
                   then tai\<lparr>tai_colflags := tai_colflags tai OR TOASTCOL_IGNORE\<rparr> else tai);
            new_value = DatumGetPointer value
        in bindE
             (if VARATT_IS_EXTERNAL new_value then
                bindE (if attstorage att = TYPSTORAGE_PLAIN
                       then detoast_attr (tp_fuel ps) (tp_detoast ps) new_value
                       else detoast_external_attr (tp_fuel ps) (tp_detoast ps) new_value) (\<lambda>r.
                  Inr (ByRef (the_datum new_value r),
                       tai\<lparr>tai_oldexternal := Some new_value,
                           tai_colflags := tai_colflags tai OR TOASTCOL_NEEDS_FREE\<rparr>,
                       flags OR (TOAST_NEEDS_CHANGE OR TOAST_NEEDS_FREE)))
              else Inr (value, tai, flags)) (\<lambda>(value, tai, flags).
             bindE (VARSIZE_ANY (DatumGetPointer value)) (\<lambda>n.
               Inr (value, tai\<lparr>tai_size := to_int32 n\<rparr>, flags)))
      else Inr (value, tai\<lparr>tai_colflags := tai_colflags tai OR TOASTCOL_IGNORE\<rparr>, flags))"

definition toast_init_attr :: "toast_params \<Rightarrow> pg_attribute \<Rightarrow> (datum \<times> bool) option \<Rightarrow> datum \<Rightarrow> bool \<Rightarrow>
    toast_attr_info \<Rightarrow> byte \<Rightarrow> (datum \<times> toast_attr_info \<times> byte) res" where
  "toast_init_attr ps att old value isnull tai flags =
     (let tai = tai\<lparr>tai_colflags := 0, tai_oldexternal := None, tai_compression := attcompression att\<rparr> in
      if toast_old_external att old then
        bindE (toast_old_replaced (fst (the old)) value isnull) (\<lambda>replaced.
          if replaced then
            toast_init_value ps att value isnull
              (tai\<lparr>tai_colflags := tai_colflags tai OR TOASTCOL_NEEDS_DELETE_OLD\<rparr>)
              (flags OR TOAST_NEEDS_DELETE_OLD)
          else Inr (value, tai\<lparr>tai_colflags := tai_colflags tai OR TOASTCOL_IGNORE\<rparr>, flags))
      else toast_init_value ps att value isnull tai flags)"

fun toast_init_loop :: "toast_params \<Rightarrow> pg_attribute list \<Rightarrow> (datum \<times> bool) option list \<Rightarrow> datum list \<Rightarrow>
    bool list \<Rightarrow> toast_attr_info list \<Rightarrow> byte \<Rightarrow> (datum list \<times> toast_attr_info list \<times> byte) res" where
  "toast_init_loop ps (att # atts) (old # olds) (v # vs) (n # ns) (tai # tais) flags =
     bindE (toast_init_attr ps att old v n tai flags) (\<lambda>(v, tai, flags).
     bindE (toast_init_loop ps atts olds vs ns tais flags) (\<lambda>(vs, tais, flags).
       Inr (v # vs, tai # tais, flags)))"
| "toast_init_loop ps [] olds vs ns tais flags = Inr ([], [], flags)"
| "toast_init_loop ps (att # atts) olds vs ns tais flags = Inl MemFault"

definition toast_tuple_init :: "toast_params \<Rightarrow> tuple_desc \<Rightarrow> toast_tuple_context \<Rightarrow> toast_tuple_context res" where
  "toast_tuple_init ps tupleDesc ttc =
     (let olds = (case ttc_oldvalues ttc of
            None \<Rightarrow> replicate (length (td_attrs tupleDesc)) None
          | Some vs \<Rightarrow> map Some (zip vs (ttc_oldisnull ttc)))
      in bindE (toast_init_loop ps (td_attrs tupleDesc) olds (ttc_values ttc) (ttc_isnull ttc) (ttc_attr ttc) 0)
           (\<lambda>(vs, tais, flags). Inr (ttc\<lparr>ttc_values := vs, ttc_attr := tais, ttc_flags := flags\<rparr>)))"

section \<open>Choosing and changing an attribute\<close>

definition TOAST_POINTER_SIZE :: nat where "TOAST_POINTER_SIZE = 18"

definition toast_eligible :: "bool \<Rightarrow> bool \<Rightarrow> pg_attribute \<Rightarrow> datum \<Rightarrow> toast_attr_info \<Rightarrow> bool" where
  "toast_eligible for_compression check_main att value tai \<longleftrightarrow>
     \<not> flag_set (tai_colflags tai)
         (if for_compression then TOASTCOL_IGNORE OR TOASTCOL_INCOMPRESSIBLE else TOASTCOL_IGNORE) \<and>
     \<not> VARATT_IS_EXTERNAL (DatumGetPointer value) \<and>
     \<not> (for_compression \<and> VARATT_IS_COMPRESSED (DatumGetPointer value)) \<and>
     \<not> (check_main \<and> attstorage att \<noteq> TYPSTORAGE_MAIN) \<and>
     \<not> (\<not> check_main \<and> attstorage att \<noteq> TYPSTORAGE_EXTENDED \<and> attstorage att \<noteq> TYPSTORAGE_EXTERNAL)"

fun find_biggest_loop :: "bool \<Rightarrow> bool \<Rightarrow> pg_attribute list \<Rightarrow> datum list \<Rightarrow> toast_attr_info list \<Rightarrow> nat \<Rightarrow>
    int \<Rightarrow> nat option \<Rightarrow> nat option" where
  "find_biggest_loop fc cm (att # atts) (v # vs) (tai # tais) i biggest_size biggest_attno =
     (if toast_eligible fc cm att v tai \<and> tai_size tai > biggest_size
      then find_biggest_loop fc cm atts vs tais (i + 1) (tai_size tai) (Some i)
      else find_biggest_loop fc cm atts vs tais (i + 1) biggest_size biggest_attno)"
| "find_biggest_loop fc cm atts vs tais i biggest_size biggest_attno = biggest_attno"

text \<open>\<open>None\<close> is the result -1.\<close>

definition toast_tuple_find_biggest_attribute ::
  "tuple_desc \<Rightarrow> toast_tuple_context \<Rightarrow> bool \<Rightarrow> bool \<Rightarrow> nat option" where
  "toast_tuple_find_biggest_attribute tupleDesc ttc for_compression check_main =
     find_biggest_loop for_compression check_main (td_attrs tupleDesc) (ttc_values ttc) (ttc_attr ttc) 0
       (int (MAXALIGN TOAST_POINTER_SIZE)) None"

definition set_colflags :: "toast_tuple_context \<Rightarrow> nat \<Rightarrow> byte \<Rightarrow> toast_tuple_context" where
  "set_colflags ttc i f = ttc\<lparr>ttc_attr := (ttc_attr ttc)[i :=
     (ttc_attr ttc ! i)\<lparr>tai_colflags := tai_colflags (ttc_attr ttc ! i) OR f\<rparr>]\<rparr>"

definition toast_tuple_try_compression ::
  "toast_params \<Rightarrow> toast_tuple_context \<Rightarrow> nat \<Rightarrow> toast_tuple_context res" where
  "toast_tuple_try_compression ps ttc i =
     (let value = ttc_values ttc ! i; attr = ttc_attr ttc ! i in
      bindE (toast_compress_datum (tp_compression ps) (DatumGetPointer value) (tai_compression attr)) (\<lambda>r.
        case r of
          Some new_value \<Rightarrow>
            bindE (VARSIZE_4B new_value) (\<lambda>n.
              Inr (ttc\<lparr>ttc_values := (ttc_values ttc)[i := ByRef new_value],
                       ttc_attr := (ttc_attr ttc)[i := attr\<lparr>tai_colflags := tai_colflags attr OR TOASTCOL_NEEDS_FREE,
                                                          tai_size := to_int32 n\<rparr>],
                       ttc_flags := ttc_flags ttc OR (TOAST_NEEDS_CHANGE OR TOAST_NEEDS_FREE)\<rparr>))
        | None \<Rightarrow> Inr (set_colflags ttc i TOASTCOL_INCOMPRESSIBLE)))"

text \<open>The next list of offered OIDs goes to the call of \<open>toast_save_datum\<close>.\<close>

definition toast_tuple_externalize ::
  "heap_rel \<Rightarrow> toast_tuple_context \<times> toast_world \<Rightarrow> nat \<Rightarrow> (toast_tuple_context \<times> toast_world) res" where
  "toast_tuple_externalize rel = (\<lambda>(ttc, tw) i.
     let old_value = ttc_values ttc ! i; attr = ttc_attr ttc ! i in
     case tw_oids tw of
       [] \<Rightarrow> Inl OutOfFuel
     | oids # rest \<Rightarrow>
         bindE (toast_save_datum (tw_store tw) rel oids (DatumGetPointer old_value) (tai_oldexternal attr))
           (\<lambda>(store, value).
             Inr (ttc\<lparr>ttc_values := (ttc_values ttc)[i := ByRef value],
                      ttc_attr := (ttc_attr ttc)[i := attr\<lparr>tai_colflags :=
                        tai_colflags attr OR TOASTCOL_IGNORE OR TOASTCOL_NEEDS_FREE\<rparr>],
                      ttc_flags := ttc_flags ttc OR (TOAST_NEEDS_CHANGE OR TOAST_NEEDS_FREE)\<rparr>,
                  tw\<lparr>tw_store := store, tw_oids := rest\<rparr>)))"

section \<open>Cleaning up and deleting\<close>

fun toast_cleanup_loop :: "toast_store \<Rightarrow> datum list \<Rightarrow> toast_attr_info list \<Rightarrow> toast_store res" where
  "toast_cleanup_loop store (old # olds) (tai # tais) =
     (if flag_set (tai_colflags tai) TOASTCOL_NEEDS_DELETE_OLD then
        bindE (toast_delete_datum store (DatumGetPointer old) False) (\<lambda>store.
          toast_cleanup_loop store olds tais)
      else toast_cleanup_loop store olds tais)"
| "toast_cleanup_loop store olds tais = Inr store"

definition toast_tuple_cleanup :: "toast_tuple_context \<Rightarrow> toast_store \<Rightarrow> toast_store res" where
  "toast_tuple_cleanup ttc store =
     (if flag_set (ttc_flags ttc) TOAST_NEEDS_DELETE_OLD then
        (case ttc_oldvalues ttc of None \<Rightarrow> Inl MemFault | Some olds \<Rightarrow> toast_cleanup_loop store olds (ttc_attr ttc))
      else Inr store)"

fun toast_delete_external :: "toast_store \<Rightarrow> pg_attribute list \<Rightarrow> datum list \<Rightarrow> bool list \<Rightarrow> bool \<Rightarrow> toast_store res" where
  "toast_delete_external store (att # atts) (value # values) (n # nulls) is_speculative =
     (if attlen att = -1 \<and> \<not> n \<and> VARATT_IS_EXTERNAL_ONDISK (DatumGetPointer value) then
        bindE (toast_delete_datum store (DatumGetPointer value) is_speculative) (\<lambda>store.
          toast_delete_external store atts values nulls is_speculative)
      else toast_delete_external store atts values nulls is_speculative)"
| "toast_delete_external store [] values nulls is_speculative = Inr store"
| "toast_delete_external store (att # atts) values nulls is_speculative = Inl MemFault"

definition heap_toast_delete :: "toast_store \<Rightarrow> tuple_desc \<Rightarrow> heap_tuple \<Rightarrow> bool \<Rightarrow> toast_store res" where
  "heap_toast_delete store tupleDesc oldtup is_speculative =
     bindE (heap_deform_tuple oldtup tupleDesc) (\<lambda>(tupleDesc, toast_values, toast_isnull).
       toast_delete_external store (td_attrs tupleDesc) toast_values toast_isnull is_speculative)"

section \<open>heap\_toast\_insert\_or\_update\<close>

text \<open>The shape of the four loops: while the tuple is too large, change the biggest attribute
  that may be changed. Each iteration takes one attribute out of consideration, so the number
  of attributes plus one is enough fuel.\<close>

fun toast_loop :: "nat \<Rightarrow> (bytes \<Rightarrow> bytes res) \<Rightarrow> tuple_desc \<Rightarrow> int \<Rightarrow> bool \<Rightarrow> bool \<Rightarrow> bool \<Rightarrow>
    (toast_tuple_context \<times> toast_world \<Rightarrow> nat \<Rightarrow> (toast_tuple_context \<times> toast_world) res) \<Rightarrow>
    toast_tuple_context \<times> toast_world \<Rightarrow> (toast_tuple_context \<times> toast_world) res" where
  "toast_loop fuel flatten tupleDesc maxDataLen enabled fc cm act st =
     bindE (heap_compute_data_size flatten tupleDesc (ttc_values (fst st)) (ttc_isnull (fst st))) (\<lambda>size.
       if int size > maxDataLen \<and> enabled then
         (case toast_tuple_find_biggest_attribute tupleDesc (fst st) fc cm of
            None \<Rightarrow> Inr st
          | Some biggest_attno \<Rightarrow>
              (case fuel of 0 \<Rightarrow> Inl OutOfFuel
               | Suc fuel' \<Rightarrow> bindE (act st biggest_attno)
                   (toast_loop fuel' flatten tupleDesc maxDataLen enabled fc cm act)))
       else Inr st)"

declare toast_loop.simps [simp del]

definition compress_body :: "toast_params \<Rightarrow> toast_tuple_context \<times> toast_world \<Rightarrow> nat \<Rightarrow>
    (toast_tuple_context \<times> toast_world) res" where
  "compress_body ps = (\<lambda>(ttc, tw) i.
     bindE (toast_tuple_try_compression ps ttc i) (\<lambda>ttc. Inr (ttc, tw)))"

text \<open>The body of the first loop; the comparison of \<open>tai_size\<close> is between unsigned numbers.\<close>

definition round1_body :: "toast_params \<Rightarrow> relation \<Rightarrow> int \<Rightarrow> toast_tuple_context \<times> toast_world \<Rightarrow> nat \<Rightarrow>
    (toast_tuple_context \<times> toast_world) res" where
  "round1_body ps rel maxDataLen = (\<lambda>(ttc, tw) i.
     bindE (if attstorage (td_attrs (rd_att rel) ! i) = TYPSTORAGE_EXTENDED
            then toast_tuple_try_compression ps ttc i
            else Inr (set_colflags ttc i TOASTCOL_INCOMPRESSIBLE)) (\<lambda>ttc.
       if tai_size (ttc_attr ttc ! i) mod 2 ^ 64 > maxDataLen \<and> reltoastrelid (rd_rel rel) \<noteq> InvalidOid
       then toast_tuple_externalize (rd_rel rel) (ttc, tw) i
       else Inr (ttc, tw)))"

text \<open>Tuple sizes: a page of 8192 bytes with a header of 24 and item pointers of 4 bytes.\<close>

definition MaximumBytesPerTuple :: "nat \<Rightarrow> nat" where
  "MaximumBytesPerTuple tuplesPerPage =
     TYPEALIGN_DOWN 8 ((8192 - MAXALIGN (24 + tuplesPerPage * 4)) div tuplesPerPage)"

definition TOAST_TUPLE_TARGET :: nat where "TOAST_TUPLE_TARGET = MaximumBytesPerTuple 4"
definition TOAST_TUPLE_TARGET_MAIN :: nat where "TOAST_TUPLE_TARGET_MAIN = MaximumBytesPerTuple 1"

definition RelationGetToastTupleTarget :: "relation \<Rightarrow> int" where
  "RelationGetToastTupleTarget rel = (case rd_options rel of None \<Rightarrow> int TOAST_TUPLE_TARGET | Some t \<Rightarrow> t)"

text \<open>A \<open>Size\<close> difference.\<close>

definition size_minus :: "int \<Rightarrow> nat \<Rightarrow> int" where
  "size_minus a b = (a - int b) mod 2 ^ 64"

text \<open>The four loops.\<close>

definition toast_rounds :: "toast_params \<Rightarrow> relation \<Rightarrow> nat \<Rightarrow> toast_tuple_context \<times> toast_world \<Rightarrow>
    (toast_tuple_context \<times> toast_world) res" where
  "toast_rounds ps rel hoff st =
     (let td = rd_att rel; fuel = length (td_attrs td) + 1; flatten = de_flatten (tp_detoast ps);
          has_toast = (reltoastrelid (rd_rel rel) \<noteq> InvalidOid);
          maxDataLen = size_minus (RelationGetToastTupleTarget rel) hoff;
          maxDataLenMain = size_minus (int TOAST_TUPLE_TARGET_MAIN) hoff
      in
      bindE (toast_loop fuel flatten td maxDataLen True True False (round1_body ps rel maxDataLen) st) (\<lambda>st.
      bindE (toast_loop fuel flatten td maxDataLen has_toast False False (toast_tuple_externalize (rd_rel rel)) st) (\<lambda>st.
      bindE (toast_loop fuel flatten td maxDataLen True True True (compress_body ps) st) (\<lambda>st.
        toast_loop fuel flatten td maxDataLenMain has_toast False True (toast_tuple_externalize (rd_rel rel)) st))))"

text \<open>Building the new tuple; \<open>olddata\<close> is the header it copies.\<close>

definition toast_rebuild :: "(bytes \<Rightarrow> bytes res) \<Rightarrow> tuple_desc \<Rightarrow> datum list \<Rightarrow> bool list \<Rightarrow> bool \<Rightarrow> nat \<Rightarrow>
    heap_tuple_header \<Rightarrow> (int \<times> heap_tuple_header) res" where
  "toast_rebuild flatten tupleDesc values isnull has_nulls alloc_header olddata =
     (let numAttrs = length (td_attrs tupleDesc);
          new_header_len = header_len numAttrs has_nulls
      in bindE (heap_compute_data_size flatten tupleDesc values isnull) (\<lambda>size.
           let new_data_len = to_int32 (int size);
               new_tuple_len = to_int32 (int new_header_len + new_data_len)
           in bindE (palloc0 (int alloc_header + new_tuple_len)) (\<lambda>mem.
                let rest = drop (alloc_header + SizeofHeapTupleHeader) mem;
                    new_data = (HeapTupleHeaderSetNatts olddata numAttrs)
                      \<lparr>t_hoff := word_of_nat new_header_len, t_bits := rest\<rparr>
                in bindE (heap_fill_tuple flatten tupleDesc values isnull
                            (drop (new_header_len - SizeofHeapTupleHeader) rest) (t_infomask new_data)
                            (take (new_header_len - SizeofHeapTupleHeader) rest) has_nulls)
                     (\<lambda>(data, infomask, bits).
                       Inr (new_tuple_len, new_data\<lparr>t_infomask := infomask, t_bits := bits @ data\<rparr>)))))"

definition heap_toast_insert_or_update :: "toast_params \<Rightarrow> relation \<Rightarrow> toast_world \<Rightarrow> heap_tuple \<Rightarrow> heap_tuple option \<Rightarrow>
    toast_attr_info list \<Rightarrow> (toast_world \<times> heap_tuple) res" where
  "heap_toast_insert_or_update ps rel tw newtup oldtup toast_attr =
     (let ps = ps\<lparr>tp_detoast := (tp_detoast ps)\<lparr>de_store := tw_store tw\<rparr>\<rparr> in
      bindE (heap_deform_tuple newtup (rd_att rel)) (\<lambda>(td, toast_values, toast_isnull).
      bindE (case oldtup of None \<Rightarrow> Inr (td, None, [])
             | Some tup \<Rightarrow> bindE (heap_deform_tuple tup td) (\<lambda>(td, vs, ns). Inr (td, Some vs, ns)))
        (\<lambda>(td, toast_oldvalues, toast_oldisnull).
      let rel = rel\<lparr>rd_att := td\<rparr> in
      bindE (toast_tuple_init ps td \<lparr>ttc_values = toast_values, ttc_isnull = toast_isnull,
               ttc_oldvalues = toast_oldvalues, ttc_oldisnull = toast_oldisnull, ttc_flags = 0,
               ttc_attr = toast_attr\<rparr>) (\<lambda>ttc.
      let hoff = header_len (length (td_attrs td)) (flag_set (ttc_flags ttc) TOAST_HAS_NULLS) in
      bindE (toast_rounds ps rel hoff (ttc, tw)) (\<lambda>(ttc, tw).
      bindE (if flag_set (ttc_flags ttc) TOAST_NEEDS_CHANGE then
               bindE (toast_rebuild (de_flatten (tp_detoast ps)) td (ttc_values ttc) (ttc_isnull ttc)
                        (flag_set (ttc_flags ttc) TOAST_HAS_NULLS) HEAPTUPLESIZE (t_data newtup))
                 (\<lambda>(new_tuple_len, new_data).
                   Inr (newtup\<lparr>t_len := word_of_int new_tuple_len, t_data := new_data\<rparr>))
             else Inr newtup) (\<lambda>result_tuple.
      bindE (toast_tuple_cleanup ttc (tw_store tw)) (\<lambda>store.
        Inr (tw\<lparr>tw_store := store\<rparr>, result_tuple))))))))"


section \<open>Flattening tuples\<close>

definition HEAP_XACT_MASK :: "16 word" where "HEAP_XACT_MASK = 0xFFF0"
definition HEAP2_XACT_MASK :: "16 word" where "HEAP2_XACT_MASK = 0xE000"

text \<open>The loops over the attributes: out-of-line values are fetched; for a composite datum,
  compressed ones are decompressed as well.\<close>

fun flatten_values :: "nat \<Rightarrow> detoast_env \<Rightarrow> pg_attribute list \<Rightarrow> datum list \<Rightarrow> bool list \<Rightarrow> datum list res" where
  "flatten_values fuel env (att # atts) (v # vs) (n # ns) =
     bindE (if \<not> n \<and> attlen att = -1 \<and> VARATT_IS_EXTERNAL (DatumGetPointer v) then
              bindE (detoast_external_attr fuel env (DatumGetPointer v)) (\<lambda>r.
                Inr (ByRef (the_datum (DatumGetPointer v) r)))
            else Inr v) (\<lambda>v.
     bindE (flatten_values fuel env atts vs ns) (\<lambda>vs. Inr (v # vs)))"
| "flatten_values fuel env [] vs ns = Inr []"
| "flatten_values fuel env (att # atts) vs ns = Inl MemFault"

fun flatten_values_to_datum :: "nat \<Rightarrow> detoast_env \<Rightarrow> pg_attribute list \<Rightarrow> datum list \<Rightarrow> bool list \<Rightarrow> datum list res" where
  "flatten_values_to_datum fuel env (att # atts) (v # vs) (n # ns) =
     bindE (if \<not> n \<and> attlen att = -1 \<and>
               (VARATT_IS_EXTERNAL (DatumGetPointer v) \<or> VARATT_IS_COMPRESSED (DatumGetPointer v)) then
              bindE (detoast_attr fuel env (DatumGetPointer v)) (\<lambda>r.
                Inr (ByRef (the_datum (DatumGetPointer v) r)))
            else Inr v) (\<lambda>v.
     bindE (flatten_values_to_datum fuel env atts vs ns) (\<lambda>vs. Inr (v # vs)))"
| "flatten_values_to_datum fuel env [] vs ns = Inr []"
| "flatten_values_to_datum fuel env (att # atts) vs ns = Inl MemFault"

definition toast_flatten_tuple :: "nat \<Rightarrow> detoast_env \<Rightarrow> heap_tuple \<Rightarrow> tuple_desc \<Rightarrow> heap_tuple res" where
  "toast_flatten_tuple fuel env tup tupleDesc =
     bindE (heap_deform_tuple tup tupleDesc) (\<lambda>(tupleDesc, toast_values, toast_isnull).
     bindE (flatten_values fuel env (td_attrs tupleDesc) toast_values toast_isnull) (\<lambda>toast_values.
     bindE (heap_form_tuple (de_flatten env) tupleDesc toast_values toast_isnull) (\<lambda>new_tuple.
       let td = t_data tup; new_td = t_data new_tuple in
       Inr (new_tuple\<lparr>t_self := t_self tup, t_tableOid := t_tableOid tup,
         t_data := new_td\<lparr>t_choice := t_choice td, t_ctid := t_ctid td,
           t_infomask := (t_infomask new_td AND NOT HEAP_XACT_MASK) OR (t_infomask td AND HEAP_XACT_MASK),
           t_infomask2 := (t_infomask2 new_td AND NOT HEAP2_XACT_MASK) OR
             (t_infomask2 td AND HEAP2_XACT_MASK)\<rparr>\<rparr>))))"

definition toast_flatten_tuple_to_datum ::
  "nat \<Rightarrow> detoast_env \<Rightarrow> heap_tuple_header \<Rightarrow> 32 word \<Rightarrow> tuple_desc \<Rightarrow> heap_tuple_header res" where
  "toast_flatten_tuple_to_datum fuel env tup tup_len tupleDesc =
     (let tmptup = \<lparr>t_len = tup_len, t_self = ItemPointerSetInvalid, t_tableOid = InvalidOid, t_data = tup\<rparr> in
      bindE (heap_deform_tuple tmptup tupleDesc) (\<lambda>(tupleDesc, toast_values, toast_isnull).
      bindE (flatten_values_to_datum fuel env (td_attrs tupleDesc) toast_values toast_isnull) (\<lambda>toast_values.
      bindE (toast_rebuild (de_flatten env) tupleDesc toast_values toast_isnull
               (True \<in> set (take (length (td_attrs tupleDesc)) toast_isnull)) 0 tup)
        (\<lambda>(new_tuple_len, new_data).
          Inr (new_data\<lparr>t_choice := datum_fields new_tuple_len tupleDesc\<rparr>)))))"

definition toast_build_flattened_tuple ::
  "nat \<Rightarrow> detoast_env \<Rightarrow> tuple_desc \<Rightarrow> datum list \<Rightarrow> bool list \<Rightarrow> heap_tuple res" where
  "toast_build_flattened_tuple fuel env tupleDesc values isnull =
     bindE (flatten_values fuel env (td_attrs tupleDesc) values isnull) (\<lambda>new_values.
       heap_form_tuple (de_flatten env) tupleDesc new_values isnull)"

text \<open>\<open>heap_copy_tuple_as_datum\<close> of \<^verbatim>\<open>heaptuple.c\<close>.\<close>

definition heap_copy_tuple_as_datum ::
  "nat \<Rightarrow> detoast_env \<Rightarrow> heap_tuple \<Rightarrow> tuple_desc \<Rightarrow> heap_tuple_header res" where
  "heap_copy_tuple_as_datum fuel env tup tupleDesc =
     (if t_infomask (t_data tup) AND HEAP_HASEXTERNAL \<noteq> 0
      then toast_flatten_tuple_to_datum fuel env (t_data tup) (t_len tup) tupleDesc
      else Inr ((t_data tup)\<lparr>t_choice := datum_fields (uint (t_len tup)) tupleDesc\<rparr>))"

end
