(* ===== verification/Heaptuple_Correct.thy ===== *)
theory Heaptuple_Correct
  imports Heaptuple Detoast_Correct
begin

text \<open>
  Forming a tuple and taking it apart: the computed size is the size filled, the null bitmap and
  the cached offsets are right, and every column comes back.
\<close>

section \<open>Alignment\<close>

lemma and_not_low_bits: "k AND NOT (2 ^ n - 1) = k div 2 ^ n * 2 ^ n" for k :: int
proof -
  have "k AND NOT (mask n) = push_bit n (drop_bit n k)"
    by (rule bit_eqI) (auto simp: bit_simps)
  then show ?thesis by (simp add: mask_eq_exp_minus_1 push_bit_eq_mult drop_bit_eq_div)
qed

lemma TYPEALIGN_pow: "TYPEALIGN (2 ^ k) n = (n + (2 ^ k - 1)) div 2 ^ k * 2 ^ k"
proof -
  have d: "int (2 ^ k - 1 :: nat) = 2 ^ k - 1" by (simp add: of_nat_diff)
  have "int n + (2 ^ k - 1) = int (n + (2 ^ k - 1))" unfolding of_nat_add d ..
  then have "(int n + (2 ^ k - 1)) AND NOT (2 ^ k - 1) = int ((n + (2 ^ k - 1)) div 2 ^ k * 2 ^ k)"
    unfolding and_not_low_bits by (simp only: zdiv_int of_nat_mult of_nat_power of_nat_numeral)
  then show ?thesis unfolding TYPEALIGN_def by (simp only: of_nat_power of_nat_numeral nat_int)
qed

lemma TYPEALIGN_eq:
  "TYPEALIGN 2 n = (n + 1) div 2 * 2" "TYPEALIGN 4 n = (n + 3) div 4 * 4" "TYPEALIGN 8 n = (n + 7) div 8 * 8"
  using TYPEALIGN_pow [of 1 n] TYPEALIGN_pow [of 2 n] TYPEALIGN_pow [of 3 n] by simp_all

lemma att_align_nominal_ge [simp]: "off \<le> att_align_nominal off al"
  unfolding att_align_nominal_def TYPEALIGN_eq by auto

lemma att_align_nominal_less: "att_align_nominal off al < off + 8"
  unfolding att_align_nominal_def TYPEALIGN_eq by auto

lemma att_align_nominal_idem [simp]: "att_align_nominal (att_align_nominal off al) al = att_align_nominal off al"
  unfolding att_align_nominal_def TYPEALIGN_eq by auto

lemma att_align_nominal_char [simp]: "att_align_nominal off TYPALIGN_CHAR = off"
  by (simp add: att_align_nominal_def TYPALIGN_CHAR_def TYPALIGN_INT_def)

lemma att_align_nominal_0 [simp]: "att_align_nominal 0 al = 0"
  by (simp add: att_align_nominal_def TYPEALIGN_eq)

section \<open>The stored image of a column\<close>

text \<open>What the catalog guarantees of an attribute.\<close>

definition att_ok :: "pg_attribute \<Rightarrow> bool" where
  "att_ok att \<longleftrightarrow> (if attbyval att then attlen att \<in> {1, 2, 4, 8}
     else attlen att = -1 \<or> attlen att = -2 \<and> attalign att = TYPALIGN_CHAR \<or> attlen att > 0)"

lemma rd_range_length: "rd_range p i n = Inr bs \<Longrightarrow> length bs = n"
  by (auto simp: rd_range_def split: if_splits)

lemma rd_range_take: "rd_range p 0 n = Inr bs \<Longrightarrow> bs = take n p \<and> n \<le> length p"
  by (auto simp: rd_range_def split: if_splits)

lemma store_att_byval_length: "store_att_byval w n = Inr bs \<Longrightarrow> length bs = nat n \<and> n \<in> {1, 2, 4, 8}"
  by (auto simp: store_att_byval_def split: if_splits)

lemma external_not_4b: "VARATT_IS_EXTERNAL p \<Longrightarrow> \<not> VARATT_IS_4B_U p \<and> VARATT_IS_SHORT p"
  by (simp add: VARATT_IS_EXTERNAL_def VARATT_IS_1B_E_def VARATT_IS_4B_U_def VARATT_IS_SHORT_def
      VARATT_IS_1B_def)

lemma short_not_4b: "VARATT_IS_SHORT p \<Longrightarrow> \<not> VARATT_IS_4B_U p"
proof -
  have "b AND 3 = 0 \<Longrightarrow> b AND 1 \<noteq> 1" for b :: byte
    unfolding and_masks using low_bit_of_two(1) [of b] by simp
  then show "VARATT_IS_SHORT p \<Longrightarrow> \<not> VARATT_IS_4B_U p"
    by (auto simp: VARATT_IS_4B_U_def VARATT_IS_SHORT_def VARATT_IS_1B_def)
qed

text \<open>The size computed for a column is the size filled.\<close>

lemma data_size_step_varlena:
  assumes a: "attlen att = -1" "\<not> attbyval att"
    and f: "fill_bytes flatten att v off im = Inr (pos, bs, im')"
  shows "data_size_step flatten att v off = Inr (pos + length bs)"
proof -
  let ?p = "DatumGetPointer v"
  consider (exp) "VARATT_IS_EXTERNAL ?p" "VARATT_IS_EXTERNAL_EXPANDED ?p"
    | (ext) "VARATT_IS_EXTERNAL ?p" "\<not> VARATT_IS_EXTERNAL_EXPANDED ?p"
    | (short) "\<not> VARATT_IS_EXTERNAL ?p" "VARATT_IS_SHORT ?p"
    | (long) "\<not> VARATT_IS_EXTERNAL ?p" "\<not> VARATT_IS_SHORT ?p" by blast
  then show ?thesis
  proof cases
    case exp
    with f a external_not_4b [OF exp(1)] show ?thesis
      by (auto simp: fill_bytes_def data_size_step_def bindE_eq_Inr_iff Let_def VARATT_CAN_MAKE_SHORT_def)
  next
    case ext
    from f a ext have "rd_range ?p 0 (nat (VARSIZE_EXTERNAL ?p)) = Inr bs" "pos = off"
      by (simp_all add: fill_bytes_def Let_def bindE_eq_Inr_iff)
    with a ext external_not_4b [OF ext(1)] show ?thesis
      by (simp add: data_size_step_def Let_def VARATT_CAN_MAKE_SHORT_def att_align_datum_def
          att_addlength_pointer_def VARSIZE_ANY_def flip: VARATT_IS_EXTERNAL_def)
        (simp add: rd_range_length)
  next
    case short
    then have ne: "\<not> VARATT_IS_EXTERNAL_EXPANDED ?p" by simp
    from f a short have "rd_range ?p 0 (nat (VARSIZE_1B ?p)) = Inr bs" "pos = off"
      by (simp_all add: fill_bytes_def Let_def bindE_eq_Inr_iff)
    with a short ne short_not_4b [OF short(2)] show ?thesis
      by (simp add: data_size_step_def Let_def VARATT_CAN_MAKE_SHORT_def att_align_datum_def
          att_addlength_pointer_def VARSIZE_ANY_def flip: VARATT_IS_EXTERNAL_def VARATT_IS_SHORT_def)
        (simp add: rd_range_length)
  next
    case long
    then have ne: "\<not> VARATT_IS_EXTERNAL_EXPANDED ?p" by simp
    have p: "ATT_IS_PACKABLE att = VARLENA_ATT_IS_PACKABLE att"
      using a by (simp add: ATT_IS_PACKABLE_def VARLENA_ATT_IS_PACKABLE_def)
    from f a long obtain short where
      s: "(if VARLENA_ATT_IS_PACKABLE att then VARATT_CAN_MAKE_SHORT ?p else Inr False) = Inr short"
      by (auto simp: fill_bytes_def bindE_eq_Inr_iff Let_def)
    show ?thesis
    proof (cases short)
      case True
      with f a long s obtain n bs' where n: "VARATT_CONVERTED_SHORT_SIZE ?p = Inr n"
        "rd_range ?p 4 (nat (n - 1)) = Inr bs'" "bs = SET_VARSIZE_1B n @ bs'" "pos = off"
        by (auto simp: fill_bytes_def Let_def bindE_eq_Inr_iff)
      then have "0 < n" by (auto simp: VARATT_CONVERTED_SHORT_SIZE_def bindE_eq_Inr_iff varhdrsz
            intro: add_nonneg_pos)
      with True n s rd_range_length [OF n(2)] show ?thesis
        unfolding data_size_step_def p Let_def s by (simp add: SET_VARSIZE_1B_def)
    next
      case False
      with f a long s obtain n where "VARSIZE_4B ?p = Inr n" "rd_range ?p 0 (nat n) = Inr bs"
        "pos = att_align_nominal off (attalign att)"
        by (auto simp: fill_bytes_def Let_def bindE_eq_Inr_iff)
      with False a ne long show ?thesis
        unfolding data_size_step_def p Let_def s
        by (simp add: att_align_datum_def att_addlength_pointer_def VARSIZE_ANY_def
            flip: VARATT_IS_EXTERNAL_def VARATT_IS_SHORT_def) (simp add: rd_range_length)
    qed
  qed
qed

lemma data_size_step_fill:
  assumes "att_ok att" "fill_bytes flatten att v off im = Inr (pos, bs, im')"
  shows "data_size_step flatten att v off = Inr (pos + length bs)"
proof -
  let ?p = "DatumGetPointer v"
  from assms(1) consider (byval) "attbyval att" "attlen att \<in> {1, 2, 4, 8}"
    | (varlena) "\<not> attbyval att" "attlen att = -1"
    | (cstring) "\<not> attbyval att" "attlen att = -2" "attalign att = TYPALIGN_CHAR"
    | (fixed) "\<not> attbyval att" "attlen att > 0"
    unfolding att_ok_def by (auto split: if_splits)
  then show ?thesis
  proof cases
    case byval
    from assms(2) byval(1) obtain w where "store_att_byval w (attlen att) = Inr bs"
      "pos = att_align_nominal off (attalign att)" by (auto simp: fill_bytes_def bindE_eq_Inr_iff)
    moreover have "attlen att > 0" using byval(2) by auto
    ultimately show ?thesis
      using store_att_byval_length [of w "attlen att" bs]
      by (simp add: data_size_step_def ATT_IS_PACKABLE_def att_align_datum_def att_addlength_pointer_def)
  next
    case varlena
    with assms(2) show ?thesis using data_size_step_varlena by blast
  next
    case cstring
    with assms(2) obtain n where "strlen ?p = Inr n" "rd_range ?p 0 (n + 1) = Inr bs" "pos = off"
      by (auto simp: fill_bytes_def Let_def bindE_eq_Inr_iff)
    with cstring rd_range_length show ?thesis
      by (auto simp: data_size_step_def ATT_IS_PACKABLE_def att_align_datum_def att_addlength_pointer_def)
  next
    case fixed
    with assms(2) have "rd_range ?p 0 (nat (attlen att)) = Inr bs"
      "pos = att_align_nominal off (attalign att)"
      by (simp_all add: fill_bytes_def Let_def bindE_eq_Inr_iff)
    with fixed rd_range_length show ?thesis
      by (auto simp: data_size_step_def ATT_IS_PACKABLE_def att_align_datum_def att_addlength_pointer_def)
  qed
qed

definition col_pos :: "bool \<Rightarrow> pg_attribute \<Rightarrow> nat \<Rightarrow> nat" where
  "col_pos al att off = (if al then att_align_nominal off (attalign att) else off)"

lemma col_pos_ge [simp]: "off \<le> col_pos al att off"
  by (simp add: col_pos_def)

text \<open>\<open>col_image flatten att v al bs m\<close>: the value \<open>v\<close> is stored as the bytes \<open>bs\<close>, aligned or not
  as \<open>al\<close> says, adding the bits \<open>m\<close> to the infomask; the bytes carry their own length, and
  an unaligned varlena does not start with a zero byte.\<close>

definition col_image :: "(bytes \<Rightarrow> bytes res) \<Rightarrow> pg_attribute \<Rightarrow> datum \<Rightarrow> bool \<Rightarrow> bytes \<Rightarrow> 16 word \<Rightarrow> bool" where
  "col_image flatten att v al bs m \<longleftrightarrow>
     (\<forall>off im. fill_bytes flatten att v off im = Inr (col_pos al att off, bs, im OR m)) \<and>
     (\<forall>off r. att_addlength_pointer off (attlen att) (bs @ r) = Inr (off + length bs)) \<and>
     bs \<noteq> [] \<and> m AND HEAP_HASNULL = 0 \<and>
     (al \<or> attlen att = -1 \<and> hd bs \<noteq> 0 \<or> attlen att \<noteq> -1 \<and> attalign att = TYPALIGN_CHAR)"


abbreviation col_ok :: "(bytes \<Rightarrow> bytes res) \<Rightarrow> pg_attribute \<Rightarrow> datum \<Rightarrow> bool" where
  "col_ok flatten att v \<equiv> \<exists>al bs m. col_image flatten att v al bs m"

lemma imageD:
  assumes "col_image flatten att v al bs m"
  shows "fill_bytes flatten att v off im = Inr (col_pos al att off, bs, im OR m)"
    "att_addlength_pointer off (attlen att) (bs @ r) = Inr (off + length bs)"
    "bs \<noteq> []" "m AND HEAP_HASNULL = 0"
    "al \<or> attlen att = -1 \<and> hd bs \<noteq> 0 \<or> attlen att \<noteq> -1 \<and> attalign att = TYPALIGN_CHAR"
  using assms unfolding col_image_def by blast+

section \<open>The data area\<close>

fun cols_ok :: "(bytes \<Rightarrow> bytes res) \<Rightarrow> pg_attribute list \<Rightarrow> datum list \<Rightarrow> bool list \<Rightarrow> bool" where
  "cols_ok flatten (a # as) (v # vs) (n # ns) \<longleftrightarrow>
     att_ok a \<and> (n \<or> col_ok flatten a v) \<and> cols_ok flatten as vs ns"
| "cols_ok flatten [] [] [] \<longleftrightarrow> True"
| "cols_ok flatten as vs ns \<longleftrightarrow> False"

text \<open>The bytes of the columns from offset \<open>off\<close> on, with zero padding.\<close>

fun layout :: "(bytes \<Rightarrow> bytes res) \<Rightarrow> pg_attribute list \<Rightarrow> datum list \<Rightarrow> bool list \<Rightarrow> nat \<Rightarrow> bytes" where
  "layout flatten (a # as) (v # vs) (n # ns) off =
     (if n then layout flatten as vs ns off
      else case fill_bytes flatten a v off 0 of
          Inl e \<Rightarrow> []
        | Inr (pos, bs, m) \<Rightarrow> replicate (pos - off) 0 @ bs @ layout flatten as vs ns (pos + length bs))"
| "layout flatten as vs ns off = []"

lemma cols_ok_lengths: "cols_ok flatten as vs ns \<Longrightarrow> length vs = length as \<and> length ns = length as"
  by (induction flatten as vs ns rule: cols_ok.induct) auto

lemma data_size_layout:
  "cols_ok flatten as vs ns \<Longrightarrow>
     data_size_loop flatten as vs ns off = Inr (off + length (layout flatten as vs ns off))"
proof (induction flatten as vs ns arbitrary: off rule: cols_ok.induct)
  case (1 flatten a as v vs n ns)
  show ?case
  proof (cases n)
    case False
    with 1(2) obtain al bs m where i: "col_image flatten a v al bs m" by auto
    let ?pos = "col_pos al a off"
    have f: "fill_bytes flatten a v off 0 = Inr (?pos, bs, m)" using imageD(1) [OF i, of off 0] by simp
    with 1(2) have "data_size_step flatten a v off = Inr (?pos + length bs)"
      using data_size_step_fill [of a flatten v off 0] by simp
    moreover have "off \<le> ?pos" by simp
    ultimately show ?thesis using False f 1 by (simp del: col_pos_ge)
  qed (use 1 in simp)
qed auto

section \<open>The null bitmap\<close>

definition null_bit :: "bytes \<Rightarrow> nat \<Rightarrow> bool" where
  "null_bit bits j \<longleftrightarrow> bit (bits ! (j div 8)) (j mod 8)"

text \<open>The state before column \<open>k\<close>.\<close>

definition bits_inv :: "nat \<Rightarrow> fill_state \<Rightarrow> bool" where
  "bits_inv k st \<longleftrightarrow> (case fs_bit st of None \<Rightarrow> True
     | Some i \<Rightarrow> i = (int k - 1) div 8 \<and> fs_bitmask st = 2 ^ nat ((int k - 1) mod 8) \<and>
         (\<forall>j. k \<le> j \<longrightarrow> j div 8 < length (fs_bits st) \<longrightarrow> \<not> null_bit (fs_bits st) j))"

lemma att_isnull_bit:
  "j div 8 < length bits \<Longrightarrow> att_isnull j bits = Inr (\<not> null_bit bits j)"
  by (simp add: att_isnull_def rd_def null_bit_def bit_iff_and_push_bit_not_eq_0)


text \<open>What filling the columns with null flags \<open>ns\<close>, from column \<open>k\<close> on, does to the bitmap and
  the infomask.\<close>

definition bits_step :: "nat \<Rightarrow> bool list \<Rightarrow> fill_state \<Rightarrow> fill_state \<Rightarrow> bool" where
  "bits_step k ns st st' \<longleftrightarrow> bits_inv (k + length ns) st' \<and> (fs_bit st' = None \<longleftrightarrow> fs_bit st = None) \<and>
     length (fs_bits st') = length (fs_bits st) \<and> (\<forall>j<k. null_bit (fs_bits st') j = null_bit (fs_bits st) j) \<and>
     (fs_bit st \<noteq> None \<longrightarrow> (\<forall>j<length ns. null_bit (fs_bits st') (k + j) = (\<not> ns ! j))) \<and>
     (fs_infomask st' AND HEAP_HASNULL \<noteq> 0 \<longleftrightarrow> fs_infomask st AND HEAP_HASNULL \<noteq> 0 \<or> True \<in> set ns)"

lemma bits_step_Cons:
  assumes "bits_step k [n] st st1" "bits_step (Suc k) ns st1 st'"
  shows "bits_step k (n # ns) st st'"
  unfolding bits_step_def
proof (intro conjI impI allI)
  fix j assume "fs_bit st \<noteq> None" "j < length (n # ns)"
  with assms show "null_bit (fs_bits st') (k + j) = (\<not> (n # ns) ! j)"
    by (cases j) (auto simp: bits_step_def)
qed (use assms in \<open>auto simp: bits_step_def\<close>)

lemma buf_write_one: "q < length bs \<Longrightarrow> buf_write bs (int q) [x] = Inr (bs[q := x])"
  by (simp add: buf_write_def upd_conv_take_nth_drop)

lemma next_bit:
  "k mod 8 = 0 \<Longrightarrow> (int k - 1) mod 8 = 7 \<and> (int k - 1) div 8 + 1 = int (k div 8)"
  "k mod 8 \<noteq> 0 \<Longrightarrow> (int k - 1) mod 8 = int (k mod 8) - 1 \<and> (int k - 1) div 8 = int (k div 8)"
proof -
  let ?q = "int (k div 8)" and ?r = "int (k mod 8)"
  have k: "int k = 8 * ?q + ?r" by (metis mult_div_mod_eq of_nat_add of_nat_mult of_nat_numeral)
  show "(int k - 1) mod 8 = 7 \<and> (int k - 1) div 8 + 1 = ?q" if "k mod 8 = 0"
    using int_div_pos_eq [of "int k - 1" 8 "?q - 1" 7] int_mod_pos_eq [of "int k - 1" 8 "?q - 1" 7] k that by simp
  show "(int k - 1) mod 8 = ?r - 1 \<and> (int k - 1) div 8 = ?q" if "k mod 8 \<noteq> 0"
    using int_div_pos_eq [of "int k - 1" 8 ?q "?r - 1"] int_mod_pos_eq [of "int k - 1" 8 ?q "?r - 1"] k that by simp
qed

text \<open>Moving to the bit of column \<open>k\<close>.\<close>

lemma fill_bit_move:
  assumes "fs_bit st = Some i" "i = (int k - 1) div 8" "fs_bitmask st = 2 ^ nat ((int k - 1) mod 8)"
    and q: "k div 8 < length (fs_bits st)"
  shows "(if fs_bitmask st \<noteq> HIGHBIT then Inr (st\<lparr>fs_bitmask := fs_bitmask st * 2\<rparr>)
      else bindE (buf_write (fs_bits st) (i + 1) [0]) (\<lambda>bits.
        Inr (st\<lparr>fs_bits := bits, fs_bit := Some (i + 1), fs_bitmask := 1\<rparr>))) =
    Inr (st\<lparr>fs_bits := if k mod 8 = 0 then (fs_bits st)[k div 8 := 0] else fs_bits st,
      fs_bit := Some (int (k div 8)), fs_bitmask := 2 ^ (k mod 8)\<rparr>)"
proof (cases "k mod 8 = 0")
  case True
  with next_bit(1) assms show ?thesis by (simp add: HIGHBIT_def buf_write_one)
next
  case False
  have "fs_bitmask st = 2 ^ (k mod 8 - 1)" using assms(3) next_bit(2) [OF False] by (simp add: nat_diff_distrib)
  moreover have "k mod 8 - 1 < 7" by linarith
  then have "(2 :: int) ^ (k mod 8 - 1) < 2 ^ 7" by (simp only: power_strict_increasing_iff)
  moreover have "(2 :: int) ^ (k mod 8 - 1) * 2 = 2 ^ (k mod 8)"
    using False by (metis neq0_conv mult.commute power_minus_mult)
  ultimately show ?thesis
    using False next_bit(2) [OF False] assms by (cases st) (simp add: HIGHBIT_def)
qed

lemma fill_bit_inv:
  assumes inv: "bits_inv k st" and none: "fs_bit st = None \<Longrightarrow> \<not> n"
    and len: "fs_bit st \<noteq> None \<Longrightarrow> k div 8 < length (fs_bits st)"
  shows "\<exists>st'. fill_bit st n = Inr (st', \<not> n) \<and> bits_step k [n] st st' \<and> fs_data st' = fs_data st \<and>
    fs_off st' = fs_off st"
proof (cases "fs_bit st")
  case None
  with inv none show ?thesis by (simp add: fill_bit_def bits_inv_def bits_step_def)
next
  case (Some i)
  let ?bs = "fs_bits st" and ?q = "k div 8"
  from inv Some have i: "i = (int k - 1) div 8" "fs_bitmask st = 2 ^ nat ((int k - 1) mod 8)"
    and z: "\<And>j. k \<le> j \<Longrightarrow> j div 8 < length ?bs \<Longrightarrow> \<not> null_bit ?bs j"
    by (auto simp: bits_inv_def)
  have q: "?q < length ?bs" using len Some by simp
  define cs where "cs = (if k mod 8 = 0 then ?bs[?q := 0] else ?bs)"
  let ?st = "st\<lparr>fs_bits := cs, fs_bit := Some (int ?q), fs_bitmask := 2 ^ (k mod 8)\<rparr>"
  have cs: "length cs = length ?bs" "j < k \<Longrightarrow> null_bit cs j = null_bit ?bs j"
    "k \<le> j \<Longrightarrow> j div 8 < length ?bs \<Longrightarrow> \<not> null_bit cs j" for j
  proof -
    show "length cs = length ?bs" by (simp add: cs_def)
    have "j div 8 < ?q" if "j < k" "k mod 8 = 0"
      by (rule less_mult_imp_div_less) (use that in \<open>simp add: mod_0_imp_dvd\<close>)
    then show "j < k \<Longrightarrow> null_bit cs j = null_bit ?bs j" by (auto simp: cs_def null_bit_def)
    show "\<not> null_bit cs j" if "k \<le> j" "j div 8 < length ?bs"
      using z [OF that] that by (cases "j div 8 = ?q") (auto simp: cs_def null_bit_def)
  qed
  note move = fill_bit_move [OF Some i q, folded cs_def]
  show ?thesis
  proof (cases n)
    case True
    then have "fill_bit st n = Inr (?st\<lparr>fs_infomask := fs_infomask st OR HEAP_HASNULL\<rparr>, False)"
      unfolding fill_bit_def Some option.case move by simp
    with True Some q cs show ?thesis
      by (auto simp: bits_step_def bits_inv_def zdiv_int nat_mod_distrib word_ao_dist infomask_bits)
  next
    case False
    define ds where "ds = cs[?q := cs ! ?q OR word_of_int (2 ^ (k mod 8))]"
    have "fill_bit st n = Inr (?st\<lparr>fs_bits := ds\<rparr>, True)"
      unfolding fill_bit_def Some option.case move using False q cs(1)
      by (simp add: rd_def buf_write_one ds_def)
    moreover have "null_bit ds j = (null_bit cs j \<or> j = k)" if "j div 8 < length ?bs" for j
    proof -
      have "bit (word_of_int (2 ^ (k mod 8)) :: byte) (j mod 8) \<longleftrightarrow> j mod 8 = k mod 8"
        by (simp add: bit_simps)
      moreover have "j = k \<longleftrightarrow> j div 8 = ?q \<and> j mod 8 = k mod 8" by (metis div_mult_mod_eq)
      ultimately show ?thesis
        using that q cs(1) by (auto simp: ds_def null_bit_def nth_list_update bit_or_iff)
    qed
    moreover have "length ds = length ?bs" by (simp add: ds_def cs)
    moreover have "j div 8 < length ?bs" if "j < k" for j
      using that q div_le_mono [of j k 8] by linarith
    ultimately show ?thesis
      using False Some q cs by (auto simp: bits_step_def bits_inv_def zdiv_int nat_mod_distrib)
  qed
qed


section \<open>Filling\<close>

lemma buf_write_zeros:
  assumes "length pre = off" "off \<le> pos" "pos - off + length bs \<le> z"
  shows "buf_write (pre @ replicate z 0) (int pos) bs =
    Inr ((pre @ replicate (pos - off) 0 @ bs) @ replicate (z - (pos - off + length bs)) 0)"
proof -
  have "replicate z (0 :: byte) = replicate (pos - off) 0 @ replicate (length bs) 0 @
      replicate (z - (pos - off + length bs)) 0"
    using assms(3) by (simp flip: replicate_add)
  with assms show ?thesis by (simp add: buf_write_def)
qed

lemma fill_val_null:
  assumes "bits_inv k st" "fs_bit st \<noteq> None" "k div 8 < length (fs_bits st)"
  shows "\<exists>st'. fill_val flatten a v True st = Inr st' \<and> bits_step k [True] st st' \<and>
    fs_data st' = fs_data st \<and> fs_off st' = fs_off st"
  using fill_bit_inv [OF assms(1), of True] assms(2,3) by (auto simp: fill_val_def)

lemma fill_val_image:
  assumes i: "col_image flatten a v al bs m" and b: "bits_inv k st"
    and len: "fs_bit st \<noteq> None \<Longrightarrow> k div 8 < length (fs_bits st)"
    and d: "fs_data st = pre @ replicate z 0" "length pre = fs_off st"
    and pos: "pos = col_pos al a (fs_off st)" and z: "pos - fs_off st + length bs \<le> z"
  shows "\<exists>st'. fill_val flatten a v False st = Inr st' \<and> bits_step k [False] st st' \<and>
    fs_data st' = (pre @ replicate (pos - fs_off st) 0 @ bs) @ replicate (z - (pos - fs_off st + length bs)) 0 \<and>
    fs_off st' = pos + length bs"
proof -
  obtain st1 where s: "fill_bit st False = Inr (st1, True)" "bits_step k [False] st st1"
    "fs_data st1 = fs_data st" "fs_off st1 = fs_off st"
    using fill_bit_inv [OF b, of False] len by auto
  have "fs_off st \<le> pos" by (simp add: pos)
  note w = buf_write_zeros [OF d(2) this z]
  have "fill_val flatten a v False st = Inr (st1\<lparr>fs_data := (pre @ replicate (pos - fs_off st) 0 @ bs) @
      replicate (z - (pos - fs_off st + length bs)) 0, fs_off := pos + length bs,
      fs_infomask := fs_infomask st1 OR m\<rparr>)"
    using s w by (simp add: fill_val_def imageD(1) [OF i] d(1) flip: pos)
  moreover have "bits_step k [False] st (st1\<lparr>fs_data := x, fs_off := y, fs_infomask := fs_infomask st1 OR m\<rparr>)" for x y
    using s(2) imageD(4) [OF i] by (simp add: bits_step_def bits_inv_def word_ao_dist split: option.splits)
  ultimately show ?thesis by simp
qed

lemma fill_loop_layout:
  assumes "cols_ok flatten as vs ns" "bits_inv k st"
    and "fs_bit st = None \<Longrightarrow> True \<notin> set ns"
    and "fs_bit st \<noteq> None \<Longrightarrow> k + length as \<le> 8 * length (fs_bits st)"
    and "fs_data st = pre @ replicate z 0" "length pre = fs_off st"
    and "length (layout flatten as vs ns (fs_off st)) \<le> z"
  shows "\<exists>st'. fill_loop flatten as vs ns st = Inr st' \<and> bits_step k ns st st' \<and>
    fs_data st' = pre @ layout flatten as vs ns (fs_off st) @
      replicate (z - length (layout flatten as vs ns (fs_off st))) 0"
  using assms
proof (induction flatten as vs ns arbitrary: k st pre z rule: cols_ok.induct)
  case (1 flatten a as v vs n ns)
  have len: "k div 8 < length (fs_bits st)" if "fs_bit st \<noteq> None"
    by (rule less_mult_imp_div_less) (use 1(5) that in simp)
  have ok: "cols_ok flatten as vs ns" using 1(2) by simp
  show ?case
  proof (cases n)
    case True
    with 1(4) have some: "fs_bit st \<noteq> None" by auto
    obtain st1 where s: "fill_val flatten a v True st = Inr st1" "bits_step k [True] st st1"
      "fs_data st1 = fs_data st" "fs_off st1 = fs_off st"
      using fill_val_null [OF 1(3) some len [OF some], of flatten a v] by blast
    then have b: "bits_inv (Suc k) st1" "fs_bit st1 \<noteq> None" "length (fs_bits st1) = length (fs_bits st)"
      using some by (auto simp: bits_step_def)
    have "\<exists>st'. fill_loop flatten as vs ns st1 = Inr st' \<and> bits_step (Suc k) ns st1 st' \<and>
        fs_data st' = pre @ layout flatten as vs ns (fs_off st1) @
          replicate (z - length (layout flatten as vs ns (fs_off st1))) 0"
      by (rule 1(1) [OF ok b(1)]) (use b s 1(5-8) True some in auto)
    then show ?thesis using True s bits_step_Cons by auto
  next
    case False
    with 1(2) obtain al bs m where i: "col_image flatten a v al bs m" by auto
    define pos where "pos = col_pos al a (fs_off st)"
    let ?n = "pos - fs_off st + length bs"
    let ?l = "layout flatten as vs ns (pos + length bs)"
    have lay: "layout flatten (a # as) (v # vs) (n # ns) (fs_off st) = replicate (pos - fs_off st) 0 @ bs @ ?l"
      using False imageD(1) [OF i] by (simp add: pos_def)
    have ge: "fs_off st \<le> pos" by (simp add: pos_def)
    have z: "?n + length ?l \<le> z" using 1(8) unfolding lay by simp
    then have "?n \<le> z" by simp
    from fill_val_image [OF i 1(3) len 1(6,7) pos_def this]
    obtain st1 where s: "fill_val flatten a v False st = Inr st1" "bits_step k [False] st st1"
      "fs_data st1 = (pre @ replicate (pos - fs_off st) 0 @ bs) @ replicate (z - ?n) 0"
      "fs_off st1 = pos + length bs" by fast
    then have b: "bits_inv (Suc k) st1" "fs_bit st1 = None \<longleftrightarrow> fs_bit st = None"
      "length (fs_bits st1) = length (fs_bits st)"
      by (auto simp: bits_step_def)
    have "\<exists>st'. fill_loop flatten as vs ns st1 = Inr st' \<and> bits_step (Suc k) ns st1 st' \<and>
        fs_data st' = (pre @ replicate (pos - fs_off st) 0 @ bs) @ layout flatten as vs ns (fs_off st1) @
          replicate (z - ?n - length (layout flatten as vs ns (fs_off st1))) 0"
      by (rule 1(1) [OF ok b(1) _ _ s(3)]) (use b s(4) 1(4,5,7) z ge in auto)
    then obtain st' where st': "fill_loop flatten as vs ns st1 = Inr st'" "bits_step (Suc k) ns st1 st'"
      "fs_data st' = (pre @ replicate (pos - fs_off st) 0 @ bs) @ ?l @ replicate (z - ?n - length ?l) 0"
      unfolding s(4) by blast
    have "fs_data st' = pre @ layout flatten (a # as) (v # vs) (n # ns) (fs_off st) @
        replicate (z - length (layout flatten (a # as) (v # vs) (n # ns) (fs_off st))) 0"
      unfolding st'(3) lay by (simp add: add.assoc)
    moreover have "bits_step k (n # ns) st st'" using bits_step_Cons [OF _ st'(2)] s(2) False by simp
    moreover have "fill_loop flatten (a # as) (v # vs) (n # ns) st = Inr st'" using s(1) st'(1) False by simp
    ultimately show ?thesis by blast
  qed
qed (auto simp: bits_step_def)


section \<open>Taking apart\<close>

text \<open>Cached offsets are right: only a prefix of the attributes is cached, up to the first one of
  variable length, with the offsets in a tuple whose columns up to here are all present.\<close>

fun cache_ok :: "nat \<Rightarrow> pg_attribute list \<Rightarrow> bool" where
  "cache_ok off [] \<longleftrightarrow> True"
| "cache_ok off (a # as) \<longleftrightarrow>
     (attcacheoff a \<ge> 0 \<longrightarrow> attcacheoff a = int (att_align_nominal off (attalign a)) \<and>
        (attlen a = -1 \<longrightarrow> att_align_nominal off (attalign a) = off)) \<and>
     (if attcacheoff a \<ge> 0 \<and> attlen a > 0
      then cache_ok (att_align_nominal off (attalign a) + nat (attlen a)) as
      else \<forall>b\<in>set as. attcacheoff b < 0)"

lemma cache_ok_empty: "\<forall>b\<in>set as. attcacheoff b < 0 \<Longrightarrow> cache_ok off as"
  by (cases as) auto

abbreviation same_att :: "pg_attribute \<Rightarrow> pg_attribute \<Rightarrow> bool" where
  "same_att a b \<equiv> a\<lparr>attcacheoff := 0\<rparr> = b\<lparr>attcacheoff := 0\<rparr>"

text \<open>What is read back for a column.\<close>

definition stored_col :: "(bytes \<Rightarrow> bytes res) \<Rightarrow> pg_attribute \<Rightarrow> datum \<Rightarrow> datum \<Rightarrow> bool" where
  "stored_col flatten att v v' \<longleftrightarrow>
     (\<exists>al bs m r. col_image flatten att v al bs m \<and> fetch_att (bs @ r) (attbyval att) (attlen att) = Inr v')"

fun stored_cols :: "(bytes \<Rightarrow> bytes res) \<Rightarrow> pg_attribute list \<Rightarrow> datum list \<Rightarrow> bool list \<Rightarrow> datum list \<Rightarrow> bool" where
  "stored_cols flatten (a # as) (v # vs) (n # ns) (w # ws) \<longleftrightarrow>
     (if n then w = ByVal 0 else stored_col flatten a v w) \<and> stored_cols flatten as vs ns ws"
| "stored_cols flatten [] [] [] [] \<longleftrightarrow> True"
| "stored_cols flatten as vs ns ws \<longleftrightarrow> False"

fun read_cols :: "(bytes \<Rightarrow> bytes res) \<Rightarrow> bytes \<Rightarrow> pg_attribute list \<Rightarrow> datum list \<Rightarrow> bool list \<Rightarrow> nat \<Rightarrow> datum list" where
  "read_cols flatten tp (a # as) (v # vs) (n # ns) off =
     (if n then ByVal 0 # read_cols flatten tp as vs ns off
      else case fill_bytes flatten a v off 0 of
          Inl e \<Rightarrow> []
        | Inr (pos, bs, m) \<Rightarrow>
            (case fetch_att (drop pos tp) (attbyval a) (attlen a) of Inl e \<Rightarrow> ByVal 0 | Inr w \<Rightarrow> w) #
            read_cols flatten tp as vs ns (pos + length bs))"
| "read_cols flatten tp as vs ns off = []"

lemma fetch_image:
  assumes "col_image flatten a v al bs m"
  shows "\<exists>w. fetch_att (bs @ r) (attbyval a) (attlen a) = Inr w"
proof (cases "attbyval a")
  case True
  with imageD(1) [OF assms, of 0 0] obtain w where "store_att_byval w (attlen a) = Inr bs"
    by (auto simp: fill_bytes_def bindE_eq_Inr_iff)
  from store_att_byval_length [OF this] True show ?thesis
    by (auto simp: fetch_att_def rd_range_def)
qed (simp add: fetch_att_def)

text \<open>Finding the start of a column, with or without cached offsets.\<close>

lemma deform_offset_image:
  assumes i: "col_image flatten a v al bs m" and ok: "att_ok a"
    and d: "drop off tp = replicate (col_pos al a off - off) 0 @ bs @ r"
    and c: "\<not> slow \<Longrightarrow> cache_ok off (a # as)"
  shows "\<exists>a' slow'. deform_offset tp a off slow = Inr (col_pos al a off, a', slow') \<and> same_att a a' \<and>
    (slow \<longrightarrow> a' = a \<and> slow') \<and>
    (\<not> slow \<longrightarrow> cache_ok off (a' # as)) \<and>
    (\<not> slow \<and> slow' \<longrightarrow> a' = a \<and> attlen a = -1) \<and> (\<not> slow' \<longrightarrow> attcacheoff a' \<ge> 0)"
proof -
  let ?al = "att_align_nominal off (attalign a)"
  have pos: "col_pos al a off = off \<or> col_pos al a off = ?al" by (simp add: col_pos_def)
  consider (cached) "\<not> slow" "attcacheoff a \<ge> 0"
    | (varlena) "slow \<or> attcacheoff a < 0" "attlen a = -1"
    | (other) "slow \<or> attcacheoff a < 0" "attlen a \<noteq> -1" by linarith
  then show ?thesis
  proof cases
    case cached
    with c have k: "attcacheoff a = int ?al" "attlen a = -1 \<longrightarrow> ?al = off" by simp_all
    have "col_pos al a off = ?al" using imageD(5) [OF i] k(2) by (auto simp: col_pos_def)
    with cached k c show ?thesis by (auto simp: deform_offset_def)
  next
    case varlena
    show ?thesis
    proof (cases "\<not> slow \<and> off = ?al")
      case True
      with pos have "col_pos al a off = off" by auto
      with True varlena c show ?thesis by (auto simp: deform_offset_def cache_ok_empty)
    next
      case False
      have "att_align_pointer off (attalign a) (-1) (drop off tp) = Inr (col_pos al a off)"
        using imageD(3,5) [OF i] varlena(2) d
        by (cases "col_pos al a off - off"; cases bs)
          (auto simp: att_align_pointer_def VARATT_NOT_PAD_BYTE_def rd_def col_pos_def split: if_splits
            intro: le_antisym)
      with False varlena c show ?thesis by (auto simp: deform_offset_def)
    qed
  next
    case other
    have "col_pos al a off = ?al" using imageD(5) [OF i] other(2) by (auto simp: col_pos_def)
    with other c ok show ?thesis by (auto simp: deform_offset_def Let_def att_ok_def cache_ok_empty)
  qed
qed


lemma deform_loop_layout:
  assumes "cols_ok flatten as vs ns" "drop off tp = layout flatten as vs ns off @ r"
    and "\<And>j. j < length ns \<Longrightarrow> (if hasnulls then att_isnull (k + j) bp else Inr False) = Inr (ns ! j)"
    and "\<not> slow \<Longrightarrow> cache_ok off as"
  shows "\<exists>as' ws. deform_loop hasnulls bp tp as k off slow = Inr (as', ws, ns) \<and> list_all2 same_att as as' \<and>
    (slow \<longrightarrow> as' = as) \<and> (\<not> slow \<longrightarrow> cache_ok off as') \<and> stored_cols flatten as vs ns ws \<and>
    ws = read_cols flatten tp as vs ns off"
  using assms
proof (induction flatten as vs ns arbitrary: k off slow rule: cols_ok.induct)
  case (1 flatten a as v vs n ns)
  have ok: "cols_ok flatten as vs ns" "att_ok a" using 1(2) by simp_all
  have null: "(if hasnulls then att_isnull k bp else Inr False) = Inr n" using 1(4) [of 0] by (simp split: if_splits)
  have nulls: "(if hasnulls then att_isnull (k + 1 + j) bp else Inr False) = Inr (ns ! j)" if "j < length ns" for j
    using 1(4) [of "Suc j"] that by (simp split: if_splits)
  show ?case
  proof (cases n)
    case True
    have "drop off tp = layout flatten as vs ns off @ r" using 1(3) True by simp
    from 1(1) [OF ok(1) this nulls, of True] obtain ws where
      "deform_loop hasnulls bp tp as (k + 1) off True = Inr (as, ws, ns)" "stored_cols flatten as vs ns ws"
      "ws = read_cols flatten tp as vs ns off" by auto
    with True null 1(5) show ?thesis by (auto simp: list.rel_refl)
  next
    case False
    with 1(2) obtain al bs m where i: "col_image flatten a v al bs m" by auto
    let ?pos = "col_pos al a off"
    let ?l = "layout flatten as vs ns (?pos + length bs)"
    have d: "drop off tp = replicate (?pos - off) 0 @ bs @ ?l @ r"
      using 1(3) False imageD(1) [OF i] by simp
    obtain a' slow' where o: "deform_offset tp a off slow = Inr (?pos, a', slow')" "same_att a a'"
      "slow \<longrightarrow> a' = a \<and> slow'" "\<not> slow \<longrightarrow> cache_ok off (a' # as)"
      "\<not> slow \<and> slow' \<longrightarrow> a' = a \<and> attlen a = -1" "\<not> slow' \<longrightarrow> attcacheoff a' \<ge> 0"
      using deform_offset_image [OF i ok(2) d, of slow] 1(5) by blast
    have "drop (?pos - off) (drop off tp) = bs @ ?l @ r" unfolding d by simp
    then have d': "drop ?pos tp = bs @ ?l @ r" by simp
    then have d2: "drop (?pos + length bs) tp = ?l @ r"
      by (metis append_eq_conv_conj drop_drop add.commute)
    obtain w where w: "fetch_att (drop ?pos tp) (attbyval a) (attlen a) = Inr w"
      using fetch_image [OF i, of "?l @ r"] d' by auto
    then have st: "stored_col flatten a v w" unfolding stored_col_def d' using i by blast
    let ?slow = "slow' \<or> attlen a \<le> 0"
    have len: "?pos + length bs = att_align_nominal off (attalign a) + nat (attlen a)" if "0 < attlen a"
      using imageD(2) [OF i, of 0 "[]"] imageD(5) [OF i] that
      by (auto simp: att_addlength_pointer_def col_pos_def)
    have same: "attlen a' = attlen a" "attalign a' = attalign a"
      using arg_cong [OF o(2), of attlen] arg_cong [OF o(2), of attalign] by simp_all
    have "cache_ok (?pos + length bs) as" if "\<not> ?slow"
      using o(3,4,6) that len same by (auto split: if_splits)
    from 1(1) [OF ok(1) d2 nulls this] obtain as' ws where
      l: "deform_loop hasnulls bp tp as (k + 1) (?pos + length bs) ?slow = Inr (as', ws, ns)"
      "list_all2 same_att as as'" "?slow \<longrightarrow> as' = as" "\<not> ?slow \<longrightarrow> cache_ok (?pos + length bs) as'"
      "stored_cols flatten as vs ns ws" "ws = read_cols flatten tp as vs ns (?pos + length bs)" by blast
    have "deform_loop hasnulls bp tp (a # as) k off slow = Inr (a' # as', w # ws, n # ns)"
      using False null o(1) w l(1) d' imageD(2) [OF i, of ?pos "?l @ r"] by simp
    moreover have "cache_ok off (a' # as')" if "\<not> slow"
      using o(3-6) that l(3,4) len same by (cases "0 < attlen a") (auto split: if_splits)
    moreover have "w # ws = read_cols flatten tp (a # as) (v # vs) (n # ns) off"
      using False imageD(1) [OF i] w l(6) by simp
    moreover have "stored_cols flatten (a # as) (v # vs) (n # ns) (w # ws)" using False st l(5) by simp
    moreover have "list_all2 same_att (a # as) (a' # as')" "slow \<longrightarrow> a' # as' = a # as"
      using o(2,3) l(2,3) by simp_all
    ultimately show ?thesis by blast
  qed
qed auto


section \<open>Whole tuples\<close>

lemma cols_ok_nth:
  "cols_ok flatten as vs ns \<longleftrightarrow> length vs = length as \<and> length ns = length as \<and>
     (\<forall>i<length as. att_ok (as ! i) \<and> (ns ! i \<or> col_ok flatten (as ! i) (vs ! i)))"
proof (induction flatten as vs ns rule: cols_ok.induct)
  case (1 flatten a as v vs n ns)
  then show ?case by (auto simp: All_less_Suc2)
qed auto

lemma stored_cols_nth:
  "stored_cols flatten as vs ns ws \<longleftrightarrow> length vs = length as \<and> length ns = length as \<and> length ws = length as \<and>
     (\<forall>i<length as. if ns ! i then ws ! i = ByVal 0 else stored_col flatten (as ! i) (vs ! i) (ws ! i))"
proof (induction flatten as vs ns ws rule: stored_cols.induct)
  case (1 flatten a as v vs n ns w ws)
  then show ?case by (auto simp: All_less_Suc2)
qed auto

text \<open>A present column of variable length is marked in the infomask; the bits after those of the
  columns are zero.\<close>

definition varwidth_marked :: "pg_attribute list \<Rightarrow> bool list \<Rightarrow> 16 word \<Rightarrow> bool" where
  "varwidth_marked as ns im \<longleftrightarrow> im AND HEAP_HASVARWIDTH \<noteq> 0 \<or> (\<forall>i<length as. ns ! i \<or> attlen (as ! i) > 0)"

definition bitmap_of :: "bytes \<Rightarrow> bool list \<Rightarrow> bool" where
  "bitmap_of bits ns \<longleftrightarrow> (\<forall>j<8 * length bits. null_bit bits j = (j < length ns \<and> \<not> ns ! j))"

text \<open>A tuple body that holds the given columns; there may be unused space at its end.\<close>

definition filled :: "(bytes \<Rightarrow> bytes res) \<Rightarrow> pg_attribute list \<Rightarrow> datum list \<Rightarrow> bool list \<Rightarrow> heap_tuple_header \<Rightarrow> bool" where
  "filled flatten as vs ns td \<longleftrightarrow> HeapTupleHeaderGetNatts td = length as \<and>
     unat (t_hoff td) = header_len (length as) (True \<in> set ns) \<and>
     (t_infomask td AND HEAP_HASNULL \<noteq> 0 \<longleftrightarrow> True \<in> set ns) \<and> varwidth_marked as ns (t_infomask td) \<and>
     (\<exists>bits slack. t_bits td = bits @ layout flatten as vs ns 0 @ slack \<and>
        length bits = header_len (length as) (True \<in> set ns) - SizeofHeapTupleHeader \<and>
        (True \<in> set ns \<longrightarrow> bitmap_of bits ns))"

lemma MAXALIGN_bounds: "n \<le> MAXALIGN n" "MAXALIGN n \<le> n + 7"
  unfolding MAXALIGN_def TYPEALIGN_eq by simp_all

lemma BITMAPLEN_bounds: "natts \<le> 8 * BITMAPLEN natts" "natts \<le> 1664 \<Longrightarrow> BITMAPLEN natts \<le> 208"
  unfolding BITMAPLEN_def by simp_all

lemma bitmap_fits: "natts \<le> 8 * (header_len natts True - SizeofHeapTupleHeader)"
  using MAXALIGN_bounds(1) [of "SizeofHeapTupleHeader + BITMAPLEN natts"] BITMAPLEN_bounds(1) [of natts]
  by (simp add: header_len_def)

lemma header_len_bounds:
  assumes "natts \<le> MaxTupleAttributeNumber"
  shows "SizeofHeapTupleHeader < header_len natts hasnull" "header_len natts hasnull < 256"
    "hasnull \<Longrightarrow> natts \<le> 8 * (header_len natts hasnull - SizeofHeapTupleHeader)"
proof -
  let ?n = "SizeofHeapTupleHeader + (if hasnull then BITMAPLEN natts else 0)"
  have "MAXALIGN ?n \<noteq> 23" unfolding MAXALIGN_def TYPEALIGN_eq
    by (metis dvd_triv_right even_numeral odd_numeral dvd_trans)
  with MAXALIGN_bounds(1) [of ?n] show "SizeofHeapTupleHeader < header_len natts hasnull"
    by (simp add: header_len_def SizeofHeapTupleHeader_def)
  show "header_len natts hasnull < 256"
    using MAXALIGN_bounds(2) [of ?n] BITMAPLEN_bounds(2) [of natts] assms
    by (simp add: header_len_def SizeofHeapTupleHeader_def MaxTupleAttributeNumber_def split: if_splits)
  show "hasnull \<Longrightarrow> natts \<le> 8 * (header_len natts hasnull - SizeofHeapTupleHeader)"
    using bitmap_fits by simp
qed

lemma natts_set_get:
  assumes "n \<le> MaxTupleAttributeNumber"
  shows "HeapTupleHeaderGetNatts (HeapTupleHeaderSetNatts td n) = n"
proof -
  have m: "HEAP_NATTS_MASK = mask 11" by (simp add: HEAP_NATTS_MASK_def mask_eq_exp_minus_1)
  have "((x AND NOT HEAP_NATTS_MASK) OR word_of_nat n) AND HEAP_NATTS_MASK = take_bit 11 (word_of_nat n :: 16 word)"
    for x unfolding m by (rule bit_word_eqI) (auto simp: bit_simps)
  moreover have "unat (take_bit 11 (word_of_nat n :: 16 word)) = n"
    using assms by (simp add: unsigned_take_bit_eq unat_of_nat take_bit_nat_eq_self MaxTupleAttributeNumber_def)
  ultimately show ?thesis by (simp add: HeapTupleHeaderGetNatts_def HeapTupleHeaderSetNatts_def)
qed

lemma natts_fields [simp]:
  "HeapTupleHeaderGetNatts (td\<lparr>t_infomask := im\<rparr>) = HeapTupleHeaderGetNatts td"
  "HeapTupleHeaderGetNatts (td\<lparr>t_bits := bits\<rparr>) = HeapTupleHeaderGetNatts td"
  "HeapTupleHeaderGetNatts (td\<lparr>t_hoff := h\<rparr>) = HeapTupleHeaderGetNatts td"
  "HeapTupleHeaderGetNatts (td\<lparr>t_choice := ch\<rparr>) = HeapTupleHeaderGetNatts td"
  "HeapTupleHeaderGetNatts (td\<lparr>t_ctid := ci\<rparr>) = HeapTupleHeaderGetNatts td"
  "t_hoff (HeapTupleHeaderSetNatts td n) = t_hoff td"
  "t_infomask (HeapTupleHeaderSetNatts td n) = t_infomask td"
  "t_bits (HeapTupleHeaderSetNatts td n) = t_bits td"
  by (simp_all add: HeapTupleHeaderGetNatts_def HeapTupleHeaderSetNatts_def)

lemma varwidth_bit: "im AND HEAP_HASVARWIDTH \<noteq> 0 \<longleftrightarrow> bit im 1"
proof -
  have "HEAP_HASVARWIDTH = push_bit 1 1" by (simp add: HEAP_HASVARWIDTH_def)
  then show ?thesis by (simp only: bit_iff_and_push_bit_not_eq_0)
qed

lemma other_bits:
  "\<not> bit HEAP_HASNULL (Suc 0)" "bit HEAP_HASVARWIDTH (Suc 0)" "\<not> bit HEAP_HASEXTERNAL (Suc 0)"
  by (simp_all add: infomask_bits bit_word_iff_drop_bit_and)

lemma fill_bytes_infomask:
  assumes "fill_bytes flatten a v off im = Inr (pos, bs, im')" "att_ok a"
  shows "bit im' 1 \<longleftrightarrow> bit im 1 \<or> attlen a \<le> 0"
  using assms unfolding fill_bytes_def att_ok_def
  by (auto simp: bindE_eq_Inr_iff bit_or_iff other_bits Let_def split: if_splits)

lemma fill_bit_infomask:
  "fill_bit st n = Inr (st', c) \<Longrightarrow> bit (fs_infomask st') 1 = bit (fs_infomask st) 1"
  by (auto simp: fill_bit_def bindE_eq_Inr_iff bit_or_iff other_bits Let_def split: option.splits if_splits)

lemma fill_bit_continue: "fill_bit st n = Inr (st', c) \<Longrightarrow> c \<longleftrightarrow> \<not> n \<or> fs_bit st = None"
  by (auto simp: fill_bit_def bindE_eq_Inr_iff Let_def split: option.splits if_splits)

lemma fill_bit_present: "fill_bit st n = Inr (st', c) \<Longrightarrow> fs_bit st' = None \<longleftrightarrow> fs_bit st = None"
  by (auto simp: fill_bit_def bindE_eq_Inr_iff Let_def split: option.splits if_splits)

lemma fill_val_infomask:
  assumes "fill_val flatten a v n st = Inr st'" "att_ok a"
  shows "fs_bit st' = None \<longleftrightarrow> fs_bit st = None"
    "bit (fs_infomask st') 1 \<longleftrightarrow> bit (fs_infomask st) 1 \<or> (\<not> n \<or> fs_bit st = None) \<and> attlen a \<le> 0"
proof -
  obtain st1 c where b: "fill_bit st n = Inr (st1, c)"
    using assms(1) by (auto simp: fill_val_def bindE_eq_Inr_iff)
  note b1 = fill_bit_infomask [OF b] fill_bit_continue [OF b] fill_bit_present [OF b]
  show "fs_bit st' = None \<longleftrightarrow> fs_bit st = None"
    using assms(1) b b1 by (auto simp: fill_val_def bindE_eq_Inr_iff split: if_splits)
  show "bit (fs_infomask st') 1 \<longleftrightarrow> bit (fs_infomask st) 1 \<or> (\<not> n \<or> fs_bit st = None) \<and> attlen a \<le> 0"
    using assms(1) b b1 fill_bytes_infomask [OF _ assms(2)]
    by (auto simp: fill_val_def bindE_eq_Inr_iff split: if_splits)
qed

lemma fill_loop_infomask:
  "fill_loop flatten as vs ns st = Inr st' \<Longrightarrow> \<forall>a\<in>set as. att_ok a \<Longrightarrow> fs_bit st = None \<longrightarrow> True \<notin> set ns \<Longrightarrow>
     length ns = length as \<Longrightarrow> bit (fs_infomask st) 1 \<or> (\<exists>i<length as. \<not> ns ! i \<and> attlen (as ! i) \<le> 0) \<Longrightarrow>
     bit (fs_infomask st') 1"
proof (induction flatten as vs ns st rule: fill_loop.induct)
  case (1 flatten a as v vs n ns st)
  from 1(2) obtain st1 where s: "fill_val flatten a v n st = Inr st1" "fill_loop flatten as vs ns st1 = Inr st'"
    by (auto simp: bindE_eq_Inr_iff)
  have "att_ok a" using 1(3) by simp
  note i = fill_val_infomask [OF s(1) this]
  have "bit (fs_infomask st1) 1 \<or> (\<exists>i<length as. \<not> ns ! i \<and> attlen (as ! i) \<le> 0)"
    using 1(6) i(2) by (auto simp: less_Suc_eq_0_disj)
  with 1(1) [OF s(1,2)] 1(3-5) i(1) show ?case by simp
qed auto

lemma bits_step_bitmap:
  assumes "bits_step 0 ns st st'" "fs_bit st \<noteq> None"
  shows "bitmap_of (fs_bits st') ns"
  unfolding bitmap_of_def
proof (intro allI impI)
  fix j assume "j < 8 * length (fs_bits st')"
  then have "j div 8 < length (fs_bits st')" by simp
  with assms show "null_bit (fs_bits st') j = (j < length ns \<and> \<not> ns ! j)"
    by (cases "j < length ns") (auto simp: bits_step_def bits_inv_def split: option.splits)
qed

lemma heap_fill_layout:
  assumes ok: "cols_ok flatten (td_attrs td) vs ns"
    and b: "True \<in> set ns \<Longrightarrow> length (td_attrs td) \<le> 8 * b"
  shows "\<exists>im bits. heap_fill_tuple flatten td vs ns
      (replicate (length (layout flatten (td_attrs td) vs ns 0)) 0) im0 (replicate b 0) (True \<in> set ns) =
      Inr (layout flatten (td_attrs td) vs ns 0, im, bits) \<and> length bits = b \<and>
    (im AND HEAP_HASNULL \<noteq> 0 \<longleftrightarrow> True \<in> set ns) \<and> varwidth_marked (td_attrs td) ns im \<and>
    (True \<in> set ns \<longrightarrow> bitmap_of bits ns)"
proof -
  let ?l = "layout flatten (td_attrs td) vs ns 0"
  let ?hn = "True \<in> set ns"
  let ?st = "\<lparr>fs_bits = replicate b 0, fs_bit = (if ?hn then Some (-1) else None),
     fs_bitmask = (if ?hn then HIGHBIT else 0), fs_data = replicate (length ?l) 0, fs_off = 0,
     fs_infomask = im0 AND NOT (HEAP_HASNULL OR HEAP_HASVARWIDTH OR HEAP_HASEXTERNAL)\<rparr>"
  have inv: "bits_inv 0 ?st" by (simp add: bits_inv_def HIGHBIT_def null_bit_def)
  have "\<exists>st'. fill_loop flatten (td_attrs td) vs ns ?st = Inr st' \<and> bits_step 0 ns ?st st' \<and>
      fs_data st' = [] @ layout flatten (td_attrs td) vs ns (fs_off ?st) @
        replicate (length ?l - length (layout flatten (td_attrs td) vs ns (fs_off ?st))) 0"
    by (rule fill_loop_layout [OF ok inv]) (use b in \<open>auto split: if_splits\<close>)
  then obtain st' where st': "fill_loop flatten (td_attrs td) vs ns ?st = Inr st'" "bits_step 0 ns ?st st'"
    "fs_data st' = ?l" by auto
  have "(im0 AND NOT (HEAP_HASNULL OR HEAP_HASVARWIDTH OR HEAP_HASEXTERNAL)) AND HEAP_HASNULL = 0"
    by (rule bit_word_eqI) (auto simp: bit_simps)
  moreover have "varwidth_marked (td_attrs td) ns (fs_infomask st')"
  proof (rule ccontr)
    assume "\<not> ?thesis"
    then have n: "\<not> bit (fs_infomask st') 1" "\<exists>i<length (td_attrs td). \<not> ns ! i \<and> attlen (td_attrs td ! i) \<le> 0"
      unfolding varwidth_marked_def varwidth_bit by (auto simp: not_less)
    have "\<forall>a\<in>set (td_attrs td). att_ok a" using ok by (auto simp: cols_ok_nth in_set_conv_nth)
    with fill_loop_infomask [OF st'(1)] n cols_ok_lengths [OF ok] show False by simp
  qed
  moreover have "?hn \<longrightarrow> bitmap_of (fs_bits st') ns" using bits_step_bitmap [OF st'(2)] by auto
  ultimately show ?thesis
    using st' unfolding heap_fill_tuple_def by (auto simp: bits_step_def)
qed

lemma heap_form_filled:
  assumes ok: "cols_ok flatten (td_attrs td) vs ns" and n: "length (td_attrs td) \<le> MaxTupleAttributeNumber"
    and l: "int (HEAPTUPLESIZE + header_len (length (td_attrs td)) (True \<in> set ns) +
      length (layout flatten (td_attrs td) vs ns 0)) \<le> MaxAllocSize"
  shows "\<exists>tup. heap_form_tuple flatten td vs ns = Inr tup \<and> filled flatten (td_attrs td) vs ns (t_data tup)"
proof -
  let ?l = "layout flatten (td_attrs td) vs ns 0" and ?hn = "True \<in> set ns"
  let ?h = "header_len (length (td_attrs td)) ?hn"
  note hb = header_len_bounds [OF n, of ?hn]
  have len: "length ns = length (td_attrs td)" using cols_ok_lengths [OF ok] by simp
  have size: "heap_compute_data_size flatten td vs ns = Inr (length ?l)"
    using data_size_layout [OF ok, of 0] by (simp add: heap_compute_data_size_def)
  have mem: "palloc0 (int (HEAPTUPLESIZE + (?h + length ?l))) = Inr (replicate (HEAPTUPLESIZE + (?h + length ?l)) 0)"
    using l by (simp add: palloc0_def MaxAllocSize_def HEAPTUPLESIZE_def)
  obtain im bits where f: "heap_fill_tuple flatten td vs ns (replicate (length ?l) 0) 0
      (replicate (?h - SizeofHeapTupleHeader) 0) ?hn = Inr (?l, im, bits)"
    "length bits = ?h - SizeofHeapTupleHeader" "im AND HEAP_HASNULL \<noteq> 0 \<longleftrightarrow> ?hn"
    "varwidth_marked (td_attrs td) ns im" "?hn \<longrightarrow> bitmap_of bits ns"
    using heap_fill_layout [OF ok hb(3), of 0] by auto
  have d: "drop (?h - SizeofHeapTupleHeader) (drop (HEAPTUPLESIZE + SizeofHeapTupleHeader)
      (replicate (HEAPTUPLESIZE + (?h + length ?l)) 0)) = replicate (length ?l) (0 :: byte)"
    "take (?h - SizeofHeapTupleHeader) (drop (HEAPTUPLESIZE + SizeofHeapTupleHeader)
      (replicate (HEAPTUPLESIZE + (?h + length ?l)) 0)) = replicate (?h - SizeofHeapTupleHeader) (0 :: byte)"
    using hb(1) by (auto simp: min_def)
  have t: "take (length (td_attrs td)) ns = ns" using len by simp
  have "unat (word_of_nat ?h :: byte) = ?h" using hb(2) by (simp add: unat_of_nat)
  then show ?thesis
    unfolding heap_form_tuple_def Let_def t size bindE_simps mem d
    using n f natts_set_get [OF n] by (simp add: filled_def) (metis append_Nil2)
qed


text \<open>The null flags, read from a bitmap in front of the data.\<close>

lemma bitmap_isnull:
  assumes "length bits = header_len (length ns) (True \<in> set ns) - SizeofHeapTupleHeader"
    "True \<in> set ns \<longrightarrow> bitmap_of bits ns" "j < length ns"
  shows "(if True \<in> set ns then att_isnull j (bits @ rest) else Inr False) = Inr (ns ! j)"
proof (cases "True \<in> set ns")
  case True
  have j: "j < 8 * length bits" using bitmap_fits [of "length ns"] assms(1,3) True by simp
  then have "j div 8 < length bits" by simp
  then have "att_isnull j (bits @ rest) = Inr (\<not> null_bit bits j)"
    by (subst att_isnull_bit) (simp_all add: null_bit_def nth_append)
  with True assms(2,3) j show ?thesis by (simp add: bitmap_of_def)
next
  case False
  then have "\<not> ns ! j" using assms(3) by (metis nth_mem)
  with False show ?thesis by simp
qed

lemma heap_deform_filled:
  assumes ok: "cols_ok flatten (td_attrs td) vs ns" and f: "filled flatten (td_attrs td) vs ns (t_data tup)"
    and c: "cache_ok 0 (td_attrs td)"
  shows "\<exists>as' ws. heap_deform_tuple tup td = Inr (td\<lparr>td_attrs := as'\<rparr>, ws, ns) \<and>
    list_all2 same_att (td_attrs td) as' \<and> cache_ok 0 as' \<and> stored_cols flatten (td_attrs td) vs ns ws \<and>
    ws = read_cols flatten (drop (unat (t_hoff (t_data tup)) - SizeofHeapTupleHeader) (t_bits (t_data tup)))
      (td_attrs td) vs ns 0"
proof -
  let ?as = "td_attrs td" and ?hn = "True \<in> set ns" and ?h = "t_data tup"
  from f obtain bits slack where b: "t_bits ?h = bits @ layout flatten ?as vs ns 0 @ slack"
    "length bits = header_len (length ?as) ?hn - SizeofHeapTupleHeader"
    "?hn \<Longrightarrow> bitmap_of bits ns"
    and h: "unat (t_hoff ?h) = header_len (length ?as) ?hn" "HeapTupleHasNulls tup \<longleftrightarrow> ?hn"
    "HeapTupleHeaderGetNatts ?h = length ?as"
    by (auto simp: filled_def HeapTupleHasNulls_def)
  let ?tp = "drop (unat (t_hoff ?h) - SizeofHeapTupleHeader) (t_bits ?h)"
  have tp: "drop 0 ?tp = layout flatten ?as vs ns 0 @ slack" using b h by simp
  have len: "length ns = length ?as" using cols_ok_lengths [OF ok] by simp
  have n: "(if HeapTupleHasNulls tup then att_isnull (0 + j) (t_bits ?h) else Inr False) = Inr (ns ! j)"
    if "j < length ns" for j
    using bitmap_isnull [of bits ns j "layout flatten ?as vs ns 0 @ slack"] b len that h(2) by (simp split: if_splits)
  show ?thesis
    using deform_loop_layout [OF ok tp n, of False] c
    by (auto simp: heap_deform_tuple_def Let_def h(3))
qed


section \<open>Columns as values\<close>

text \<open>The value of a column, independent of how it is stored.\<close>

datatype colval = ColNull | ColWord "64 word" | ColText bytes | ColRef bytes

text \<open>By-value datums as \<open>fetch_att\<close> returns them.\<close>

definition byval_norm :: "int \<Rightarrow> 64 word \<Rightarrow> 64 word" where
  "byval_norm len w = (if len = 1 then scast (ucast w :: 8 word) else if len = 2 then scast (ucast w :: 16 word)
     else if len = 4 then scast (ucast w :: 32 word) else w)"

definition col_holds :: "int set \<Rightarrow> detoast_env \<Rightarrow> pg_attribute \<Rightarrow> datum \<Rightarrow> bool \<Rightarrow> colval \<Rightarrow> bool" where
  "col_holds ms env att v n c \<longleftrightarrow> (case c of
       ColNull \<Rightarrow> n
     | ColWord w \<Rightarrow> \<not> n \<and> attbyval att \<and> v = ByVal w \<and> byval_norm (attlen att) w = w
     | ColText d \<Rightarrow> \<not> n \<and> \<not> attbyval att \<and> attlen att = -1 \<and> (\<exists>p. v = ByRef p \<and> represents ms env p d)
     | ColRef bs \<Rightarrow> \<not> n \<and> \<not> attbyval att \<and> attlen att \<noteq> -1 \<and> (\<exists>r. v = ByRef (bs @ r)) \<and>
         (if attlen att > 0 then length bs = nat (attlen att) else \<exists>s. bs = s @ [0] \<and> 0 \<notin> set s))"

text \<open>Besides, an expanded object may be given to \<open>heap_form_tuple\<close>.\<close>

definition col_given :: "int set \<Rightarrow> detoast_env \<Rightarrow> pg_attribute \<Rightarrow> datum \<Rightarrow> bool \<Rightarrow> colval \<Rightarrow> bool" where
  "col_given ms env att v n c \<longleftrightarrow> col_holds ms env att v n c \<or>
     \<not> n \<and> \<not> attbyval att \<and> attlen att = -1 \<and> (\<exists>p d. c = ColText d \<and> v = ByRef p \<and>
       VARATT_IS_EXTERNAL_EXPANDED p \<and> de_flatten env p = Inr (mk_plain d) \<and> fits_4b d)"

lemma le_word_word_le_ucast:
  assumes "LENGTH('b::len) = 8 * n"
  shows "(le_word (word_le n (w :: 'a::len word)) :: 'b word) = ucast w"
proof (rule bit_word_eqI)
  fix i assume i: "i < LENGTH('b)"
  with assms have n: "i div 8 < n" by linarith
  with i show "bit (le_word (word_le n w) :: 'b word) i = bit (ucast w :: 'b word) i"
    by (simp add: bit_le_word word_le_def bit_simps)
qed

lemma image_byval:
  assumes "att_ok att" "attbyval att"
  shows "\<exists>bs. col_image flatten att (ByVal w) True bs 0 \<and> length bs \<le> 8 \<and>
    (\<forall>r. fetch_att (bs @ r) True (attlen att) = Inr (ByVal (byval_norm (attlen att) w)))"
proof (rule exI [of _ "word_le (nat (attlen att)) w"], intro conjI allI)
  from assms have len: "attlen att \<in> {1, 2, 4, 8}" by (simp add: att_ok_def)
  have "word_le (nat (attlen att)) w \<noteq> []"
    using len by (auto simp flip: length_0_conv)
  with assms(2) len show "col_image flatten att (ByVal w) True (word_le (nat (attlen att)) w) 0"
    by (auto simp: col_image_def fill_bytes_def DatumGetWord_def store_att_byval_def col_pos_def
        att_addlength_pointer_def)
  show "length (word_le (nat (attlen att)) w) \<le> 8" using len by auto
  fix r
  have "rd_range (word_le n w @ r) 0 n = Inr (word_le n w)" for n
    using rd_range_at [of "[]" "word_le n w" r] by simp
  from this [of 1] this [of 2] this [of 4] this [of 8] len
  show "fetch_att (word_le (nat (attlen att)) w @ r) True (attlen att) = Inr (ByVal (byval_norm (attlen att) w))"
    by (auto simp: fetch_att_def byval_norm_def le_word_word_le_ucast)
qed

lemma strlen_append: "0 \<notin> set s \<Longrightarrow> strlen (s @ 0 # r) = Inr (length s)"
  by (induction s) auto

lemma image_ref:
  assumes "att_ok att" "col_holds ms env att v False (ColRef bs)"
  shows "\<exists>al m. col_image flatten att v al bs m"
proof -
  from assms(2) obtain r where v: "v = ByRef (bs @ r)" "\<not> attbyval att" "attlen att \<noteq> -1"
    and b: "if attlen att > 0 then length bs = nat (attlen att) else \<exists>s. bs = s @ [0] \<and> 0 \<notin> set s"
    by (auto simp: col_holds_def)
  have rd: "rd_range (bs @ r) 0 (length bs) = Inr bs" using rd_range_at [of "[]" bs r] by simp
  show ?thesis
  proof (cases "attlen att > 0")
    case True
    with v b rd have "col_image flatten att v True bs 0"
      by (auto simp: col_image_def fill_bytes_def DatumGetPointer_def col_pos_def att_addlength_pointer_def)
    then show ?thesis by blast
  next
    case False
    with assms(1) v(2,3) have a: "attlen att = -2" "attalign att = TYPALIGN_CHAR" by (simp_all add: att_ok_def)
    from False b obtain s where s: "bs = s @ [0]" "0 \<notin> set s" by auto
    have "strlen (bs @ r') = Inr (length s)" for r' using strlen_append [OF s(2), of r'] s(1) by simp
    with a s rd v have "col_image flatten att v False bs HEAP_HASVARWIDTH"
      by (auto simp: col_image_def fill_bytes_def DatumGetPointer_def col_pos_def att_addlength_pointer_def
          infomask_bits)
    then show ?thesis by blast
  qed
qed


text \<open>Varlena columns.\<close>

lemma VARSIZE_ANY_forms:
  "fits_4b d \<Longrightarrow> VARSIZE_ANY (mk_plain d @ r) = Inr (int (length d) + 4)"
  "fits_4b d \<Longrightarrow> VARSIZE_ANY (mk_compressed n cm d @ r) = Inr (int (length d) + 8)"
  "fits_short d \<Longrightarrow> VARSIZE_ANY (mk_short d @ r) = Inr (int (length d) + 1)"
  "VARSIZE_ANY (external_bytes tp @ r) = Inr 18"
  "VARSIZE_ANY (indirect_bytes q @ r) = Inr 10"
  by (simp_all add: VARSIZE_ANY_def varatt_simps VARSIZE_EXTERNAL_def VARTAG_SIZE_def VARTAG_IS_EXPANDED_def
      vartags varhdrsz)

lemma length_pointers [simp]: "length (external_bytes tp) = 18" "length (indirect_bytes q) = 10"
  by (simp_all add: external_bytes_def indirect_bytes_def SET_VARTAG_1B_E_def)

lemma rd_range_prefix: "n = length xs \<Longrightarrow> rd_range (xs @ r) 0 n = Inr xs"
  using rd_range_at [of "[]" xs r] by simp

lemma forms_nonempty [simp]: "mk_plain d \<noteq> []" "mk_short d \<noteq> []" "mk_compressed n cm d \<noteq> []"
  "external_bytes tp \<noteq> []" "indirect_bytes q \<noteq> []"
  by (simp_all flip: length_greater_0_conv)

lemma mk_short_fold: "SET_VARSIZE_1B (int (length d) + 1) @ d = mk_short d"
  by (simp add: mk_short_def varhdrsz)

lemma hd_forms: "hd (external_bytes tp) \<noteq> 0" "hd (indirect_bytes q) \<noteq> 0" "hd (mk_short d) \<noteq> 0"
proof -
  have "bit (push_bit 1 w OR 1 :: byte) 0" for w by (simp add: bit_simps)
  then have "push_bit 1 w OR 1 \<noteq> (0 :: byte)" for w by (metis bit_0_eq bot_apply bot_bool_def)
  from this [of "word_of_int (int (length d) + VARHDRSZ_SHORT)"] show "hd (mk_short d) \<noteq> 0"
    by (simp add: mk_short_def SET_VARSIZE_1B_def)
qed (simp_all add: external_bytes_def indirect_bytes_def SET_VARTAG_1B_E_def)

lemma varlena_image_intro:
  assumes a: "attlen att = -1" "\<not> attbyval att"
    and f: "\<And>off im. fill_bytes flatten att v off im = Inr (col_pos al att off, bs, im OR m)"
    and s: "\<And>r. VARSIZE_ANY (bs @ r) = Inr (int (length bs))" "bs \<noteq> []" "m AND HEAP_HASNULL = 0"
      "al \<or> hd bs \<noteq> 0"
  shows "col_image flatten att v al bs m"
  using assms by (auto simp: col_image_def att_addlength_pointer_def)

lemma image_packed:
  assumes a: "attlen att = -1" "\<not> attbyval att" and d: "fits_4b d" "VARLENA_ATT_IS_PACKABLE att" "length d < 127"
  shows "col_image flatten att (ByRef (mk_plain d @ r)) False (mk_short d) HEAP_HASVARWIDTH"
proof -
  have c: "VARATT_CONVERTED_SHORT_SIZE (mk_plain d @ r) = Inr (int (length d) + 1)"
    using d by (simp add: VARATT_CONVERTED_SHORT_SIZE_def varatt_simps varhdrsz)
  show ?thesis
    by (rule varlena_image_intro [OF a])
      (use a d c in \<open>auto simp: fill_bytes_def DatumGetPointer_def VARATT_CAN_MAKE_SHORT_def varatt_simps
        varatt_class_defs VARATT_SHORT_MAX_def Let_def mk_short_fold VARSIZE_ANY_forms hd_forms
        infomask_bits col_pos_def varhdrsz\<close>)
qed

lemma image_unpacked:
  assumes a: "attlen att = -1" "\<not> attbyval att" and d: "fits_4b d" "\<not> (VARLENA_ATT_IS_PACKABLE att \<and> length d < 127)"
  shows "col_image flatten att (ByRef (mk_plain d @ r)) True (mk_plain d) HEAP_HASVARWIDTH"
proof -
  have c: "(if VARLENA_ATT_IS_PACKABLE att then VARATT_CAN_MAKE_SHORT (mk_plain d @ r) else Inr False) = Inr False"
    using d by (auto simp: VARATT_CAN_MAKE_SHORT_def VARATT_CONVERTED_SHORT_SIZE_def varatt_simps varhdrsz
        VARATT_SHORT_MAX_def)
  show ?thesis
    by (rule varlena_image_intro [OF a])
      (use a d in \<open>auto simp: fill_bytes_def DatumGetPointer_def c varatt_simps rd_range_prefix
        varatt_class_defs Let_def VARSIZE_ANY_forms infomask_bits col_pos_def\<close>)
qed

lemma image_plain:
  assumes a: "attlen att = -1" "\<not> attbyval att" and d: "fits_4b d"
  shows "\<exists>al bs m. col_image flatten att (ByRef (mk_plain d @ r)) al bs m \<and>
    (bs = mk_plain d \<or> bs = mk_short d \<and> fits_short d)"
  using image_packed [OF a d] image_unpacked [OF a d] by (cases "VARLENA_ATT_IS_PACKABLE att \<and> length d < 127") blast+

lemma image_short:
  assumes a: "attlen att = -1" "\<not> attbyval att" and d: "fits_short d"
  shows "col_image flatten att (ByRef (mk_short d @ r)) False (mk_short d) HEAP_HASVARWIDTH"
  by (rule varlena_image_intro [OF a])
    (use a d in \<open>auto simp: fill_bytes_def DatumGetPointer_def varatt_simps rd_range_prefix
      varatt_class_defs Let_def VARSIZE_ANY_forms infomask_bits col_pos_def hd_forms\<close>)

lemma image_compressed:
  assumes a: "attlen att = -1" "\<not> attbyval att" and d: "fits_4b d"
  shows "col_image flatten att (ByRef (mk_compressed n cm d @ r)) True (mk_compressed n cm d) HEAP_HASVARWIDTH"
  by (rule varlena_image_intro [OF a])
    (use a d in \<open>auto simp: fill_bytes_def DatumGetPointer_def VARATT_CAN_MAKE_SHORT_def varatt_simps rd_range_prefix
      varatt_class_defs Let_def VARSIZE_ANY_forms infomask_bits col_pos_def\<close>)

lemma image_pointer:
  assumes a: "attlen att = -1" "\<not> attbyval att"
    and p: "p = external_bytes tp \<or> p = indirect_bytes q"
  shows "col_image flatten att (ByRef (p @ r)) False p (HEAP_HASVARWIDTH OR HEAP_HASEXTERNAL)"
proof (rule varlena_image_intro [OF a])
  have e: "VARATT_IS_EXTERNAL (p @ r)" "\<not> VARATT_IS_EXTERNAL_EXPANDED (p @ r)"
    "VARSIZE_EXTERNAL (p @ r) = int (length p)"
    using p by (auto simp: varatt_simps varatt_class_defs VARTAG_IS_EXPANDED_def VARSIZE_EXTERNAL_def
        VARTAG_SIZE_def vartags varhdrsz)
  show "fill_bytes flatten att (ByRef (p @ r)) off im =
      Inr (col_pos False att off, p, im OR (HEAP_HASVARWIDTH OR HEAP_HASEXTERNAL))" for off im
    using a e by (simp add: fill_bytes_def DatumGetPointer_def rd_range_prefix col_pos_def or.assoc)
  show "VARSIZE_ANY (p @ r') = Inr (int (length p))" for r' using p by (auto simp: VARSIZE_ANY_forms)
  show "p \<noteq> []" using p by (elim disjE) simp_all
qed (use p in \<open>auto simp: hd_forms infomask_bits\<close>)

lemma image_expanded:
  assumes a: "attlen att = -1" "\<not> attbyval att" and d: "fits_4b d"
    and e: "VARATT_IS_EXTERNAL_EXPANDED p" "flatten p = Inr (mk_plain d)"
  shows "col_image flatten att (ByRef p) True (mk_plain d) HEAP_HASVARWIDTH"
  by (rule varlena_image_intro [OF a])
    (use a d e in \<open>auto simp: fill_bytes_def DatumGetPointer_def VARATT_IS_EXTERNAL_EXPANDED_def
      Let_def VARSIZE_ANY_forms infomask_bits col_pos_def\<close>)

text \<open>Storing a column in a tuple keeps the value it represents.\<close>

lemma represents_image:
  assumes a: "attlen att = -1" "\<not> attbyval att" and v: "represents ms env v d"
  shows "\<exists>al bs m. col_image flatten att (ByRef v) al bs m \<and> length bs \<le> length d + 18 \<and>
    (\<forall>r. represents ms env (bs @ r) d)"
proof -
  have le: "length (external_bytes tp) \<le> length d + 18" "length (indirect_bytes q) \<le> length d + 18" for tp q
    by simp_all
  show ?thesis
    using v
  proof cases
    case inline
    then consider (plain) r where "v = mk_plain d @ r" "fits_4b d"
      | (short) r where "v = mk_short d @ r" "fits_short d"
      | (comp) cm c r where "payload_of cm d c" "v = mk_compressed (int (length d)) cm c @ r" "cm \<in> ms"
      unfolding inline_datum_def text_datum_def by blast
    then show ?thesis
    proof cases
      case plain
      have "represents ms env (mk_plain d @ r) d" "fits_short d \<Longrightarrow> represents ms env (mk_short d @ r) d" for r
        using plain(2) by (auto intro!: represents.inline simp: inline_datum_def text_datum_def)
      moreover obtain al bs m where "col_image flatten att (ByRef v) al bs m" "bs = mk_plain d \<or> bs = mk_short d \<and> fits_short d"
        using image_plain [OF a plain(2), of flatten r] plain(1) by blast
      moreover from this(2) have "length bs \<le> length d + 18" by auto
      ultimately show ?thesis by blast
    next
      case short
      have "represents ms env (mk_short d @ r) d" for r
        using short(2) by (auto intro!: represents.inline simp: inline_datum_def text_datum_def)
      moreover have "length (mk_short d) \<le> length d + 18" by simp
      ultimately show ?thesis using image_short [OF a short(2), of flatten] short(1) by blast
    next
      case comp
      have "represents ms env (mk_compressed (int (length d)) cm c @ r) d" for r
        using comp(1,3) by (intro represents.inline) (auto simp: inline_datum_def)
      moreover have "length (mk_compressed (int (length d)) cm c) \<le> length d + 18"
        using payload_of_facts(3) [OF comp(1)] by simp
      ultimately show ?thesis
        using image_compressed [OF a payload_of_facts(2) [OF comp(1)], of flatten] comp(2) by blast
    qed
  next
    case (external relid vid r)
    then show ?thesis using image_pointer [OF a disjI1 [OF refl], of flatten] represents.external le by blast
  next
    case (external_compressed cm c relid vid r)
    then show ?thesis using image_pointer [OF a disjI1 [OF refl], of flatten] represents.external_compressed le by blast
  next
    case (indirect q obj r)
    then show ?thesis using image_pointer [OF a disjI2 [OF refl], of flatten] represents.indirect le by blast
  qed
qed

lemma image_unique:
  "col_image flatten att v al bs m \<Longrightarrow> col_image flatten att v al' bs' m' \<Longrightarrow> bs' = bs"
  using imageD(1) [of flatten att v al bs m 0 0] imageD(1) [of flatten att v al' bs' m' 0 0] by simp

text \<open>An upper bound of the space a column takes, with its header and padding.\<close>

definition col_weight :: "colval \<Rightarrow> nat" where
  "col_weight c = (case c of ColNull \<Rightarrow> 0 | ColWord w \<Rightarrow> 16 | ColText d \<Rightarrow> length d + 32 | ColRef bs \<Rightarrow> length bs + 8)"

lemma col_given_image:
  assumes "att_ok att" "col_given ms env att v False c"
  shows "\<exists>al bs m. col_image (de_flatten env) att v al bs m \<and> length bs + 8 \<le> col_weight c \<and>
    (\<forall>r w. fetch_att (bs @ r) (attbyval att) (attlen att) = Inr w \<longrightarrow> col_holds ms env att w False c)"
proof (cases c)
  case ColNull
  with assms(2) show ?thesis by (simp add: col_given_def col_holds_def)
next
  case (ColWord w)
  with assms(2) have w: "attbyval att" "v = ByVal w" "byval_norm (attlen att) w = w"
    by (simp_all add: col_given_def col_holds_def)
  with image_byval [OF assms(1) w(1), of "de_flatten env" w] ColWord show ?thesis
    by (fastforce simp: col_holds_def col_weight_def)
next
  case (ColText d)
  with assms(2) obtain p where v: "v = ByRef p" and a: "attlen att = -1" "\<not> attbyval att"
    and c: "represents ms env p d \<or> VARATT_IS_EXTERNAL_EXPANDED p \<and> de_flatten env p = Inr (mk_plain d) \<and> fits_4b d"
    by (auto simp: col_given_def col_holds_def)
  have "\<exists>al bs m. col_image (de_flatten env) att v al bs m \<and> length bs \<le> length d + 18 \<and> (\<forall>r. represents ms env (bs @ r) d)"
    using c
  proof
    assume "represents ms env p d"
    then show ?thesis unfolding v by (rule represents_image [OF a])
  next
    assume e: "VARATT_IS_EXTERNAL_EXPANDED p \<and> de_flatten env p = Inr (mk_plain d) \<and> fits_4b d"
    then have "represents ms env (mk_plain d @ r) d" for r
      by (auto intro!: represents.inline simp: inline_datum_def text_datum_def)
    moreover have "length (mk_plain d) \<le> length d + 18" by simp
    ultimately show ?thesis using e image_expanded [OF a, of d p "de_flatten env"] unfolding v by blast
  qed
  with a ColText show ?thesis by (fastforce simp: col_holds_def fetch_att_def col_weight_def)
next
  case (ColRef bs)
  with assms(2) have h: "col_holds ms env att v False (ColRef bs)" by (auto simp: col_given_def)
  with image_ref [OF assms(1) h, of "de_flatten env"] ColRef show ?thesis
    by (fastforce simp: col_holds_def fetch_att_def col_weight_def)
qed


section \<open>Tuples as rows\<close>

definition cols_hold :: "int set \<Rightarrow> detoast_env \<Rightarrow> pg_attribute list \<Rightarrow> datum list \<Rightarrow> bool list \<Rightarrow> colval list \<Rightarrow> bool" where
  "cols_hold ms env as vs ns cs \<longleftrightarrow> length vs = length as \<and> length ns = length as \<and> length cs = length as \<and>
     (\<forall>i<length as. col_holds ms env (as ! i) (vs ! i) (ns ! i) (cs ! i))"

definition cols_given :: "int set \<Rightarrow> detoast_env \<Rightarrow> pg_attribute list \<Rightarrow> datum list \<Rightarrow> bool list \<Rightarrow> colval list \<Rightarrow> bool" where
  "cols_given ms env as vs ns cs \<longleftrightarrow> length vs = length as \<and> length ns = length as \<and> length cs = length as \<and>
     (\<forall>i<length as. col_given ms env (as ! i) (vs ! i) (ns ! i) (cs ! i))"

text \<open>A descriptor of a table, with right cached offsets.\<close>

definition desc_ok :: "tuple_desc \<Rightarrow> bool" where
  "desc_ok td \<longleftrightarrow> length (td_attrs td) \<le> MaxTupleAttributeNumber \<and> (\<forall>a\<in>set (td_attrs td). att_ok a) \<and>
     cache_ok 0 (td_attrs td)"

lemma cols_hold_given: "cols_hold ms env as vs ns cs \<Longrightarrow> cols_given ms env as vs ns cs"
  by (simp add: cols_hold_def cols_given_def col_given_def)

lemma cols_given_ok:
  assumes "cols_given ms env as vs ns cs" "\<forall>a\<in>set as. att_ok a"
  shows "cols_ok (de_flatten env) as vs ns"
  unfolding cols_ok_nth
proof (intro conjI allI impI)
  fix i assume i: "i < length as"
  show "att_ok (as ! i)" using assms(2) i by simp
  with assms(1) i col_given_image [of "as ! i" ms env "vs ! i" "cs ! i"]
  show "ns ! i \<or> col_ok (de_flatten env) (as ! i) (vs ! i)"
    unfolding cols_given_def by (cases "ns ! i") (simp, metis)
qed (use assms(1) in \<open>simp_all add: cols_given_def\<close>)

lemma layout_weight:
  "length cs = length as \<Longrightarrow> cols_given ms env as vs ns cs \<Longrightarrow> \<forall>a\<in>set as. att_ok a \<Longrightarrow>
     length (layout (de_flatten env) as vs ns off) \<le> sum_list (map col_weight cs)"
proof (induction cs as arbitrary: vs ns off rule: list_induct2)
  case (Cons c cs a as)
  from Cons.prems(1) obtain v vs' n ns' where l: "vs = v # vs'" "ns = n # ns'"
    by (cases vs; cases ns) (auto simp: cols_given_def)
  from Cons.prems l have g: "col_given ms env a v n c" "cols_given ms env as vs' ns' cs"
    by (auto simp: cols_given_def All_less_Suc2)
  have ih: "length (layout (de_flatten env) as vs' ns' k) \<le> sum_list (map col_weight cs)" for k
    using Cons.IH [OF g(2)] Cons.prems(2) by simp
  show ?case
  proof (cases n)
    case False
    with g(1) Cons.prems(2) col_given_image [of a ms env v c] obtain al bs m where
      i: "col_image (de_flatten env) a v al bs m" "length bs + 8 \<le> col_weight c" by auto
    have "col_pos al a off \<le> off + 8"
      using att_align_nominal_less [of off "attalign a"] by (simp add: col_pos_def)
    with False i(2) ih [of "col_pos al a off + length bs"] show ?thesis
      by (simp add: l imageD(1) [OF i(1)])
  qed (use ih [of off] in \<open>simp add: l\<close>)
qed simp

lemma null_col: "col_given ms env a v True c \<Longrightarrow> c = ColNull"
  by (cases c) (auto simp: col_given_def col_holds_def)

lemma stored_cols_hold:
  assumes g: "cols_given ms env as vs ns cs" "\<forall>a\<in>set as. att_ok a" and s: "stored_cols (de_flatten env) as vs ns ws"
  shows "cols_hold ms env as ws ns cs"
  unfolding cols_hold_def
proof (intro conjI allI impI)
  fix i assume i: "i < length as"
  show "col_holds ms env (as ! i) (ws ! i) (ns ! i) (cs ! i)"
  proof (cases "ns ! i")
    case True
    with g(1) i null_col have "cs ! i = ColNull" by (fastforce simp: cols_given_def)
    with True show ?thesis by (simp add: col_holds_def)
  next
    case False
    with g i have "att_ok (as ! i)" "col_given ms env (as ! i) (vs ! i) False (cs ! i)"
      by (auto simp: cols_given_def)
    moreover from False s i have "stored_col (de_flatten env) (as ! i) (vs ! i) (ws ! i)"
      by (simp add: stored_cols_nth)
    ultimately show ?thesis
      using False col_given_image image_unique unfolding stored_col_def by metis
  qed
qed (use g s in \<open>auto simp: cols_given_def stored_cols_nth\<close>)

lemma same_att_ok: "same_att a b \<Longrightarrow> att_ok a \<Longrightarrow> att_ok b"
proof -
  assume "same_att a b"
  from arg_cong [OF this, of attlen] arg_cong [OF this, of attbyval] arg_cong [OF this, of attalign]
  show "att_ok a \<Longrightarrow> att_ok b" by (simp add: att_ok_def split: if_splits)
qed

lemma same_atts_ok: "list_all2 same_att as bs \<Longrightarrow> \<forall>a\<in>set as. att_ok a \<Longrightarrow> \<forall>b\<in>set bs. att_ok b"
  by (induction rule: list_all2_induct) (auto intro: same_att_ok)

lemma filled_deform:
  assumes d: "desc_ok td" and g: "cols_given ms env (td_attrs td) vs ns cs"
    and f: "filled (de_flatten env) (td_attrs td) vs ns (t_data tup)"
  obtains as' ws where "heap_deform_tuple tup td = Inr (td\<lparr>td_attrs := as'\<rparr>, ws, ns)"
    "desc_ok (td\<lparr>td_attrs := as'\<rparr>)" "list_all2 same_att (td_attrs td) as'"
    "cols_hold ms env (td_attrs td) ws ns cs" "stored_cols (de_flatten env) (td_attrs td) vs ns ws"
    "ws = read_cols (de_flatten env) (drop (unat (t_hoff (t_data tup)) - SizeofHeapTupleHeader) (t_bits (t_data tup)))
      (td_attrs td) vs ns 0"
proof -
  have ok: "cols_ok (de_flatten env) (td_attrs td) vs ns" "\<forall>a\<in>set (td_attrs td). att_ok a"
    using cols_given_ok [OF g] d by (simp_all add: desc_ok_def)
  obtain as' ws where r: "heap_deform_tuple tup td = Inr (td\<lparr>td_attrs := as'\<rparr>, ws, ns)"
    "list_all2 same_att (td_attrs td) as'" "cache_ok 0 as'" "stored_cols (de_flatten env) (td_attrs td) vs ns ws"
    "ws = read_cols (de_flatten env) (drop (unat (t_hoff (t_data tup)) - SizeofHeapTupleHeader) (t_bits (t_data tup)))
      (td_attrs td) vs ns 0"
    using heap_deform_filled [OF ok(1) f] d by (auto simp: desc_ok_def)
  have "desc_ok (td\<lparr>td_attrs := as'\<rparr>)"
    using d r(3) list_all2_lengthD [OF r(2)] same_atts_ok [OF r(2)] by (simp add: desc_ok_def)
  from that [OF r(1) this r(2) stored_cols_hold [OF g ok(2) r(4)] r(4,5)] show thesis .
qed

section \<open>Stored rows\<close>

text \<open>A tuple that stores the row \<open>cs\<close>, whatever the cached offsets of the descriptor are.\<close>

definition tuple_stores :: "int set \<Rightarrow> detoast_env \<Rightarrow> pg_attribute list \<Rightarrow> heap_tuple_header \<Rightarrow> colval list \<Rightarrow> bool" where
  "tuple_stores ms env as h cs \<longleftrightarrow>
     (\<exists>vs ns. cols_given ms env as vs ns cs \<and> filled (de_flatten env) as vs ns h)"

abbreviation same_atts :: "pg_attribute list \<Rightarrow> pg_attribute list \<Rightarrow> bool" where
  "same_atts \<equiv> list_all2 same_att"

lemma same_att_eq: "same_att a b \<Longrightarrow> b = a\<lparr>attcacheoff := attcacheoff b\<rparr>"
  by (cases a; cases b) simp

lemma cache_irrelevant [simp]:
  "fill_bytes flatten (a\<lparr>attcacheoff := k\<rparr>) = fill_bytes flatten a"
  "col_holds ms env (a\<lparr>attcacheoff := k\<rparr>) v n c = col_holds ms env a v n c"
  "col_given ms env (a\<lparr>attcacheoff := k\<rparr>) v n c = col_given ms env a v n c"
  "att_ok (a\<lparr>attcacheoff := k\<rparr>) = att_ok a"
proof -
  have sel: "attlen (a\<lparr>attcacheoff := k\<rparr>) = attlen a" "attbyval (a\<lparr>attcacheoff := k\<rparr>) = attbyval a"
    "attalign (a\<lparr>attcacheoff := k\<rparr>) = attalign a" "attstorage (a\<lparr>attcacheoff := k\<rparr>) = attstorage a" by simp_all
  show "fill_bytes flatten (a\<lparr>attcacheoff := k\<rparr>) = fill_bytes flatten a"
    by (intro ext) (unfold fill_bytes_def VARLENA_ATT_IS_PACKABLE_def sel, rule refl)
  show h: "col_holds ms env (a\<lparr>attcacheoff := k\<rparr>) v n c = col_holds ms env a v n c"
    unfolding col_holds_def sel by (rule refl)
  show "col_given ms env (a\<lparr>attcacheoff := k\<rparr>) v n c = col_given ms env a v n c"
    unfolding col_given_def sel h by (rule refl)
  show "att_ok (a\<lparr>attcacheoff := k\<rparr>) = att_ok a" unfolding att_ok_def sel by (rule refl)
qed

lemma same_atts_layout: "same_atts as bs \<Longrightarrow> layout flatten bs vs ns off = layout flatten as vs ns off"
proof (induction arbitrary: vs ns off rule: list_all2_induct)
  case (Cons a as b bs)
  then have "fill_bytes flatten b = fill_bytes flatten a" by (metis same_att_eq cache_irrelevant(1))
  with Cons show ?case by (cases vs; cases ns) (auto split: sum.splits)
qed simp

lemma same_atts_read:
  "same_atts as bs \<Longrightarrow> read_cols flatten tp bs vs ns off = read_cols flatten tp as vs ns off"
proof (induction arbitrary: vs ns off rule: list_all2_induct)
  case (Cons a as b bs)
  obtain k where "b = a\<lparr>attcacheoff := k\<rparr>" using same_att_eq [OF Cons(1)] by blast
  with Cons(3) show ?case by (cases vs; cases ns) (auto split: sum.splits)
qed simp

lemma same_atts_nth:
  assumes "same_atts as bs"
  shows "length bs = length as" "i < length as \<Longrightarrow> \<exists>k. bs ! i = (as ! i)\<lparr>attcacheoff := k\<rparr>"
proof -
  show "length bs = length as" using list_all2_lengthD [OF assms] by simp
  show "\<exists>k. bs ! i = (as ! i)\<lparr>attcacheoff := k\<rparr>" if "i < length as"
    using same_att_eq [OF list_all2_nthD [OF assms that]] by blast
qed

lemma same_atts_cols:
  assumes "same_atts as bs"
  shows "cols_hold ms env bs vs ns cs \<longleftrightarrow> cols_hold ms env as vs ns cs"
    "cols_given ms env bs vs ns cs \<longleftrightarrow> cols_given ms env as vs ns cs"
proof -
  have "col_holds ms env (bs ! i) v n c = col_holds ms env (as ! i) v n c"
    "col_given ms env (bs ! i) v n c = col_given ms env (as ! i) v n c" if "i < length as" for i v n c
    using same_atts_nth(2) [OF assms that] by auto
  then show "cols_hold ms env bs vs ns cs \<longleftrightarrow> cols_hold ms env as vs ns cs"
    "cols_given ms env bs vs ns cs \<longleftrightarrow> cols_given ms env as vs ns cs"
    by (auto simp: cols_hold_def cols_given_def same_atts_nth(1) [OF assms])
qed

lemma same_atts_filled:
  assumes "same_atts as bs"
  shows "filled fl bs vs ns h \<longleftrightarrow> filled fl as vs ns h"
proof -
  have "attlen (bs ! i) = attlen (as ! i)" if "i < length as" for i
    using same_atts_nth(2) [OF assms that] by auto
  then have "varwidth_marked bs ns im \<longleftrightarrow> varwidth_marked as ns im" for im
    using same_atts_nth(1) [OF assms] by (auto simp: varwidth_marked_def)
  then show ?thesis by (simp add: filled_def same_atts_layout [OF assms] same_atts_nth(1) [OF assms])
qed

lemma same_atts_stores: "same_atts as bs \<Longrightarrow> tuple_stores ms env bs h cs \<longleftrightarrow> tuple_stores ms env as h cs"
  by (simp add: tuple_stores_def same_atts_cols same_atts_filled)

lemma tuple_stores_deform:
  assumes d: "desc_ok td" and t: "tuple_stores ms env (td_attrs td) (t_data tup) cs"
  obtains as' vs ws ns where "heap_deform_tuple tup td = Inr (td\<lparr>td_attrs := as'\<rparr>, ws, ns)"
    "desc_ok (td\<lparr>td_attrs := as'\<rparr>)" "same_atts (td_attrs td) as'" "cols_hold ms env (td_attrs td) ws ns cs"
    "cols_given ms env (td_attrs td) vs ns cs" "filled (de_flatten env) (td_attrs td) vs ns (t_data tup)"
    "stored_cols (de_flatten env) (td_attrs td) vs ns ws"
    "ws = read_cols (de_flatten env) (drop (unat (t_hoff (t_data tup)) - SizeofHeapTupleHeader) (t_bits (t_data tup)))
      (td_attrs td) vs ns 0"
proof -
  from t obtain vs ns where g: "cols_given ms env (td_attrs td) vs ns cs"
    and f: "filled (de_flatten env) (td_attrs td) vs ns (t_data tup)" by (auto simp: tuple_stores_def)
  from filled_deform [OF d g f] that g f show thesis by metis
qed

text \<open>Rows that \<open>palloc0\<close> can make room for.\<close>

definition row_fits :: "colval list \<Rightarrow> bool" where
  "row_fits cs \<longleftrightarrow> int (HEAPTUPLESIZE + 256 + sum_list (map col_weight cs)) \<le> MaxAllocSize"

lemma heap_form_stores:
  assumes d: "desc_ok td" and g: "cols_given ms env (td_attrs td) vs ns cs" and w: "row_fits cs"
  shows "\<exists>tup. heap_form_tuple (de_flatten env) td vs ns = Inr tup \<and> filled (de_flatten env) (td_attrs td) vs ns (t_data tup)"
proof -
  have n: "length (td_attrs td) \<le> MaxTupleAttributeNumber" and ok: "\<forall>a\<in>set (td_attrs td). att_ok a"
    using d by (simp_all add: desc_ok_def)
  have "length (layout (de_flatten env) (td_attrs td) vs ns 0) \<le> sum_list (map col_weight cs)"
    using layout_weight [OF _ g ok] g by (simp add: cols_given_def)
  with w header_len_bounds(2) [OF n, of "True \<in> set ns"] show ?thesis
    by (intro heap_form_filled [OF cols_given_ok [OF g ok] n]) (simp add: row_fits_def)
qed

section \<open>Examples\<close>

definition demo_att :: "int \<Rightarrow> bool \<Rightarrow> char \<Rightarrow> char \<Rightarrow> pg_attribute" where
  "demo_att l b al sto = \<lparr>attlen = l, attcacheoff = -1, attbyval = b, attalign = al, attstorage = sto,
     attcompression = CHR 0x00, atthasmissing = False, attmissing = None\<rparr>"

definition demo_desc :: tuple_desc where
  "demo_desc = \<lparr>td_attrs = [demo_att 4 True TYPALIGN_INT TYPSTORAGE_PLAIN,
     demo_att (-1) False TYPALIGN_INT TYPSTORAGE_EXTENDED, demo_att (-1) False TYPALIGN_INT TYPSTORAGE_MAIN],
     tdtypeid = 0, tdtypmod = 0\<rparr>"

definition demo_values :: "datum list" where
  "demo_values = [ByVal 7, ByRef (mk_plain demo_text), ByVal 0]"

definition demo_row :: "colval list" where "demo_row = [ColWord 7, ColText demo_text, ColNull]"

lemma demo_desc_ok: "desc_ok demo_desc"
  by (simp add: desc_ok_def demo_desc_def demo_att_def att_ok_def MaxTupleAttributeNumber_def
      TYPALIGN_INT_def TYPALIGN_CHAR_def)

lemma demo_given: "cols_given UNIV env (td_attrs demo_desc) demo_values [False, False, True] demo_row"
proof -
  have "represents UNIV env (mk_plain demo_text) demo_text"
    using demo_text_datum by (intro represents.inline) (simp add: inline_datum_def)
  moreover have "byval_norm 4 7 = 7" by (simp add: byval_norm_def)
  ultimately show ?thesis
    by (simp add: cols_given_def col_given_def col_holds_def demo_desc_def demo_att_def demo_values_def demo_row_def
        All_less_Suc2)
qed

lemma demo_row_fits: "row_fits demo_row"
  by (simp add: row_fits_def demo_row_def col_weight_def demo_text_def HEAPTUPLESIZE_def MaxAllocSize_def)

section \<open>Properties\<close>

text \<open>C10. Forming a tuple and taking it apart gives the row back: for every descriptor and every
  row of values in any of their forms, \<open>heap_form_tuple\<close> returns a tuple, and \<open>heap_deform_tuple\<close>
  reads from it the same nulls and values that stand for the same row.\<close>

theorem heap_form_deform:
  assumes "desc_ok td" "cols_given ms env (td_attrs td) vs ns cs" "row_fits cs"
  shows "\<exists>tup td' ws. heap_form_tuple (de_flatten env) td vs ns = Inr tup \<and>
    heap_deform_tuple tup td = Inr (td', ws, ns) \<and> cols_hold ms env (td_attrs td) ws ns cs"
proof -
  obtain tup where t: "heap_form_tuple (de_flatten env) td vs ns = Inr tup"
    and f: "filled (de_flatten env) (td_attrs td) vs ns (t_data tup)"
    using heap_form_stores [OF assms] by blast
  from filled_deform [OF assms(1,2) f] t show ?thesis by metis
qed

theorem heap_form_deform_witness:
  "\<exists>tup td' ws. heap_form_tuple (de_flatten demo_env) demo_desc demo_values [False, False, True] = Inr tup \<and>
    heap_deform_tuple tup demo_desc = Inr (td', ws, [False, False, True]) \<and>
    cols_hold UNIV demo_env (td_attrs demo_desc) ws [False, False, True] demo_row"
  by (rule heap_form_deform [OF demo_desc_ok demo_given demo_row_fits])

text \<open>A descriptor that has cached nothing.\<close>

definition clear_cache :: "tuple_desc \<Rightarrow> tuple_desc" where
  "clear_cache td = td\<lparr>td_attrs := map (\<lambda>a. a\<lparr>attcacheoff := -1\<rparr>) (td_attrs td)\<rparr>"

lemma cache_ok_cleared: "cache_ok off (map (\<lambda>a. a\<lparr>attcacheoff := -1\<rparr>) as)"
  by (induction as arbitrary: off) auto

lemma same_atts_cleared: "same_atts as (map (\<lambda>a. a\<lparr>attcacheoff := -1\<rparr>) as)"
  by (simp add: list_all2_conv_all_nth)

lemma clear_cache_ok: "desc_ok td \<Longrightarrow> desc_ok (clear_cache td)"
  by (auto simp: desc_ok_def clear_cache_def cache_ok_cleared)

text \<open>Cached attribute offsets are only a shortcut: with any right cache in the descriptor,
  \<open>heap_deform_tuple\<close> reads the same values as with an empty cache, and both leave a right cache.\<close>

lemma heap_deform_cached:
  assumes d: "desc_ok td" and t: "tuple_stores ms env (td_attrs td) (t_data tup) cs"
  shows "\<exists>td1 td2 ws ns. heap_deform_tuple tup td = Inr (td1, ws, ns) \<and>
    heap_deform_tuple tup (clear_cache td) = Inr (td2, ws, ns) \<and> desc_ok td1 \<and> desc_ok td2"
proof -
  let ?cl = "map (\<lambda>a. a\<lparr>attcacheoff := -1\<rparr>) (td_attrs td)" and ?fl = "de_flatten env"
  have same: "same_atts (td_attrs td) ?cl" by (rule same_atts_cleared)
  from t obtain vs ns where g: "cols_given ms env (td_attrs td) vs ns cs" and f: "filled ?fl (td_attrs td) vs ns (t_data tup)"
    by (auto simp: tuple_stores_def)
  have run: "\<exists>td' ws. heap_deform_tuple tup td0 = Inr (td', ws, ns) \<and> desc_ok td' \<and>
      ws = read_cols ?fl (drop (unat (t_hoff (t_data tup)) - SizeofHeapTupleHeader) (t_bits (t_data tup)))
        (td_attrs td) vs ns 0" if "desc_ok td0" "same_atts (td_attrs td) (td_attrs td0)" for td0
  proof -
    have "cols_given ms env (td_attrs td0) vs ns cs" "filled ?fl (td_attrs td0) vs ns (t_data tup)"
      using g f that(2) by (simp_all add: same_atts_cols same_atts_filled)
    from filled_deform [OF that(1) this] same_atts_read [OF that(2)] show ?thesis by metis
  qed
  show ?thesis
    using run [OF d] run [OF clear_cache_ok [OF d]] same
    by (force simp: clear_cache_def list_all2_refl)
qed

end
