(* ===== verification/Toast_Helper_Correct.thy ===== *)
theory Toast_Helper_Correct
  imports Toast_Helper Heaptuple_Correct
begin

text \<open>
  Toasting is invisible: whatever \<open>heap_toast_insert_or_update\<close> compresses or moves out of
  line, the tuple it returns holds the same row. The four loops share one contract, stated as
  a locale and met by the three loop bodies.
\<close>

section \<open>Flags\<close>

lemma word_or_zero: "x OR y = 0 \<longleftrightarrow> x = 0 \<and> y = (0 :: byte)"
  by (auto simp: bit_eq_iff bit_simps)

lemma flag_set_or [simp]: "flag_set (x OR y) f \<longleftrightarrow> flag_set x f \<or> flag_set y f"
  by (auto simp: flag_set_def word_ao_dist word_or_zero)

lemma flag_set_or_right [simp]: "flag_set x (f OR g) \<longleftrightarrow> flag_set x f \<or> flag_set x g"
  by (auto simp: flag_set_def word_ao_dist2 word_or_zero)

lemma flag_set_consts [simp]:
  "flag_set TOASTCOL_IGNORE TOASTCOL_IGNORE" "\<not> flag_set TOASTCOL_IGNORE TOASTCOL_INCOMPRESSIBLE"
  "\<not> flag_set TOASTCOL_IGNORE TOASTCOL_NEEDS_DELETE_OLD"
  "flag_set TOASTCOL_INCOMPRESSIBLE TOASTCOL_INCOMPRESSIBLE" "\<not> flag_set TOASTCOL_INCOMPRESSIBLE TOASTCOL_IGNORE"
  "\<not> flag_set TOASTCOL_INCOMPRESSIBLE TOASTCOL_NEEDS_DELETE_OLD"
  "\<not> flag_set TOASTCOL_NEEDS_FREE TOASTCOL_IGNORE" "\<not> flag_set TOASTCOL_NEEDS_FREE TOASTCOL_INCOMPRESSIBLE"
  "\<not> flag_set TOASTCOL_NEEDS_FREE TOASTCOL_NEEDS_DELETE_OLD"
  "flag_set TOASTCOL_NEEDS_DELETE_OLD TOASTCOL_NEEDS_DELETE_OLD"
  "\<not> flag_set TOASTCOL_NEEDS_DELETE_OLD TOASTCOL_IGNORE"
  "\<not> flag_set TOASTCOL_NEEDS_DELETE_OLD TOASTCOL_INCOMPRESSIBLE"
  "\<not> flag_set TOAST_NEEDS_CHANGE TOAST_HAS_NULLS" "\<not> flag_set TOAST_NEEDS_FREE TOAST_HAS_NULLS"
  "\<not> flag_set TOAST_NEEDS_CHANGE TOAST_NEEDS_DELETE_OLD" "\<not> flag_set TOAST_NEEDS_FREE TOAST_NEEDS_DELETE_OLD"
  "\<not> flag_set TOAST_NEEDS_FREE TOAST_NEEDS_CHANGE" "flag_set TOAST_NEEDS_CHANGE TOAST_NEEDS_CHANGE"
  "flag_set TOAST_HAS_NULLS TOAST_HAS_NULLS" "\<not> flag_set TOAST_HAS_NULLS TOAST_NEEDS_CHANGE"
  "\<not> flag_set TOAST_HAS_NULLS TOAST_NEEDS_DELETE_OLD" "\<not> flag_set TOAST_NEEDS_DELETE_OLD TOAST_HAS_NULLS"
  "\<not> flag_set TOAST_NEEDS_DELETE_OLD TOAST_NEEDS_CHANGE" "flag_set TOAST_NEEDS_DELETE_OLD TOAST_NEEDS_DELETE_OLD"
  "\<not> flag_set 0 f"
  by (simp_all add: flag_set_def toast_flag_defs)

section \<open>Finding the biggest attribute\<close>

text \<open>The loop as a search for the first largest number in a list.\<close>

fun argmax :: "int option list \<Rightarrow> nat \<Rightarrow> int \<Rightarrow> nat option \<Rightarrow> nat option" where
  "argmax [] i b r = r"
| "argmax (x # xs) i b r =
     (case x of
        None \<Rightarrow> argmax xs (i + 1) b r
      | Some s \<Rightarrow> if s > b then argmax xs (i + 1) s (Some i) else argmax xs (i + 1) b r)"

lemma argmax_spec:
  "(argmax xs i b r = r \<and> (\<forall>s. Some s \<in> set xs \<longrightarrow> s \<le> b)) \<or>
   (\<exists>j<length xs. \<exists>s. argmax xs i b r = Some (i + j) \<and> xs ! j = Some s \<and> b < s \<and>
      (\<forall>s'. Some s' \<in> set xs \<longrightarrow> s' \<le> s))"
proof (induction xs arbitrary: i b r)
  case (Cons x xs)
  show ?case
  proof (cases "\<exists>s. x = Some s \<and> s > b")
    case True
    then obtain s where s: "x = Some s" "s > b" by blast
    from Cons [of "i + 1" s "Some i"] show ?thesis
    proof
      assume "argmax xs (i + 1) s (Some i) = Some i \<and> (\<forall>s'. Some s' \<in> set xs \<longrightarrow> s' \<le> s)"
      with s show ?thesis by (intro disjI2 exI [of _ 0]) auto
    next
      assume "\<exists>j<length xs. \<exists>s'. argmax xs (i + 1) s (Some i) = Some (i + 1 + j) \<and> xs ! j = Some s' \<and> s < s' \<and>
        (\<forall>s''. Some s'' \<in> set xs \<longrightarrow> s'' \<le> s')"
      then obtain j s' where "j < length xs" "argmax xs (i + 1) s (Some i) = Some (i + 1 + j)" "xs ! j = Some s'"
        "s < s'" "\<forall>s''. Some s'' \<in> set xs \<longrightarrow> s'' \<le> s'" by blast
      with s show ?thesis by (intro disjI2 exI [of _ "Suc j"]) auto
    qed
  next
    case False
    then have e: "argmax (x # xs) i b r = argmax xs (i + 1) b r" "\<forall>s. x = Some s \<longrightarrow> s \<le> b"
      by (auto split: option.splits)
    from Cons [of "i + 1" b r] show ?thesis
    proof
      assume "argmax xs (i + 1) b r = r \<and> (\<forall>s. Some s \<in> set xs \<longrightarrow> s \<le> b)"
      with e show ?thesis by (intro disjI1) auto
    next
      assume "\<exists>j<length xs. \<exists>s. argmax xs (i + 1) b r = Some (i + 1 + j) \<and> xs ! j = Some s \<and> b < s \<and>
        (\<forall>s'. Some s' \<in> set xs \<longrightarrow> s' \<le> s)"
      then obtain j s where "j < length xs" "argmax xs (i + 1) b r = Some (i + 1 + j)" "xs ! j = Some s"
        "b < s" "\<forall>s'. Some s' \<in> set xs \<longrightarrow> s' \<le> s" by blast
      with e show ?thesis by (intro disjI2 exI [of _ "Suc j"]) (auto intro: order_trans)
    qed
  qed
qed simp

definition eligible_size :: "bool \<Rightarrow> bool \<Rightarrow> pg_attribute \<times> datum \<times> toast_attr_info \<Rightarrow> int option" where
  "eligible_size fc cm = (\<lambda>(att, v, tai). if toast_eligible fc cm att v tai then Some (tai_size tai) else None)"

lemma find_biggest_loop_argmax:
  "find_biggest_loop fc cm as vs tais i b r = argmax (map (eligible_size fc cm) (zip as (zip vs tais))) i b r"
  by (induction fc cm as vs tais i b r rule: find_biggest_loop.induct) (auto simp: eligible_size_def)

text \<open>The attributes that may be chosen.\<close>

definition candidate :: "tuple_desc \<Rightarrow> bool \<Rightarrow> bool \<Rightarrow> toast_tuple_context \<Rightarrow> nat \<Rightarrow> bool" where
  "candidate td fc cm ttc i \<longleftrightarrow> i < length (td_attrs td) \<and>
     toast_eligible fc cm (td_attrs td ! i) (ttc_values ttc ! i) (ttc_attr ttc ! i)"

abbreviation col_size :: "toast_tuple_context \<Rightarrow> nat \<Rightarrow> int" where
  "col_size ttc i \<equiv> tai_size (ttc_attr ttc ! i)"

lemma find_biggest_spec:
  assumes "length (ttc_values ttc) = length (td_attrs td)" "length (ttc_attr ttc) = length (td_attrs td)"
  shows "toast_tuple_find_biggest_attribute td ttc fc cm = None \<Longrightarrow> candidate td fc cm ttc j \<Longrightarrow> col_size ttc j \<le> 24"
    and "toast_tuple_find_biggest_attribute td ttc fc cm = Some i \<Longrightarrow>
      candidate td fc cm ttc i \<and> 24 < col_size ttc i \<and>
      (\<forall>j. candidate td fc cm ttc j \<longrightarrow> col_size ttc j \<le> col_size ttc i)"
proof -
  let ?xs = "map (eligible_size fc cm) (zip (td_attrs td) (zip (ttc_values ttc) (ttc_attr ttc)))"
  have b: "int (MAXALIGN TOAST_POINTER_SIZE) = 24" by (simp add: MAXALIGN_def TYPEALIGN_eq TOAST_POINTER_SIZE_def)
  have nth: "?xs ! j = (if candidate td fc cm ttc j then Some (col_size ttc j) else None)" "j < length ?xs"
    if "j < length (td_attrs td)" for j
    using that assms by (simp_all add: eligible_size_def candidate_def)
  have mem: "Some (col_size ttc j) \<in> set ?xs" if "candidate td fc cm ttc j" for j
    using nth [of j] that by (metis candidate_def nth_mem)
  note f = toast_tuple_find_biggest_attribute_def find_biggest_loop_argmax b
  show "col_size ttc j \<le> 24" if "toast_tuple_find_biggest_attribute td ttc fc cm = None" "candidate td fc cm ttc j"
    using argmax_spec [of ?xs 0 24 None] that mem [OF that(2)] unfolding f by auto
  assume "toast_tuple_find_biggest_attribute td ttc fc cm = Some i"
  then obtain s where "i < length ?xs" "?xs ! i = Some s" "24 < s" "\<forall>s'. Some s' \<in> set ?xs \<longrightarrow> s' \<le> s"
    using argmax_spec [of ?xs 0 24 None] unfolding f by auto
  moreover from this(1) have "i < length (td_attrs td)" by simp
  ultimately show "candidate td fc cm ttc i \<and> 24 < col_size ttc i \<and>
      (\<forall>j. candidate td fc cm ttc j \<longrightarrow> col_size ttc j \<le> col_size ttc i)"
    using nth(1) [of i] mem by (metis option.distinct(1) option.inject)
qed


section \<open>The contract of a loop body\<close>

text \<open>When a loop stops: the tuple fits, the loop is switched off, or no candidate is larger than
  a TOAST pointer.\<close>

definition loop_done :: "tuple_desc \<Rightarrow> (bytes \<Rightarrow> bytes res) \<Rightarrow> int \<Rightarrow> bool \<Rightarrow> bool \<Rightarrow> bool \<Rightarrow> toast_tuple_context \<Rightarrow> bool" where
  "loop_done td flatten maxDataLen enabled fc cm ttc \<longleftrightarrow>
     (\<exists>n. heap_compute_data_size flatten td (ttc_values ttc) (ttc_isnull ttc) = Inr n \<and> int n \<le> maxDataLen) \<or>
     \<not> enabled \<or> (\<forall>i. candidate td fc cm ttc i \<longrightarrow> col_size ttc i \<le> 24)"

definition same_col :: "toast_tuple_context \<Rightarrow> toast_tuple_context \<Rightarrow> nat \<Rightarrow> bool" where
  "same_col ttc ttc' j \<longleftrightarrow> ttc_values ttc' ! j = ttc_values ttc ! j \<and> ttc_attr ttc' ! j = ttc_attr ttc ! j"

definition candidates :: "tuple_desc \<Rightarrow> bool \<Rightarrow> bool \<Rightarrow> toast_tuple_context \<Rightarrow> nat set" where
  "candidates td fc cm ttc = {i. candidate td fc cm ttc i}"

lemma candidates_bound: "finite (candidates td fc cm ttc)" "card (candidates td fc cm ttc) \<le> length (td_attrs td)"
proof -
  have s: "candidates td fc cm ttc \<subseteq> {..<length (td_attrs td)}" by (auto simp: candidates_def candidate_def)
  then show "finite (candidates td fc cm ttc)" by (rule finite_subset) simp
  show "card (candidates td fc cm ttc) \<le> length (td_attrs td)" using card_mono [OF _ s] by simp
qed

text \<open>A body works on an invariant; it takes the chosen attribute out of consideration and
  leaves the other ones alone. Then the loop returns with as much fuel as there are
  candidates.\<close>

locale toast_action =
  fixes td :: tuple_desc and flatten :: "bytes \<Rightarrow> bytes res"
    and inv :: "toast_tuple_context \<times> toast_world \<Rightarrow> bool"
    and act :: "toast_tuple_context \<times> toast_world \<Rightarrow> nat \<Rightarrow> (toast_tuple_context \<times> toast_world) res"
    and enabled fc cm :: bool
  assumes lengths: "inv st \<Longrightarrow> length (ttc_values (fst st)) = length (td_attrs td) \<and>
      length (ttc_attr (fst st)) = length (td_attrs td)"
    and computes: "inv st \<Longrightarrow>
      \<exists>n. heap_compute_data_size flatten td (ttc_values (fst st)) (ttc_isnull (fst st)) = Inr n"
    and acts: "inv st \<Longrightarrow> enabled \<Longrightarrow> candidate td fc cm (fst st) i \<Longrightarrow> 24 < col_size (fst st) i \<Longrightarrow>
      \<exists>st'. act st i = Inr st' \<and> inv st' \<and> \<not> candidate td fc cm (fst st') i \<and>
        (\<forall>j. j \<noteq> i \<longrightarrow> same_col (fst st) (fst st') j)"
begin

lemma loop_returns:
  assumes "inv st" "card (candidates td fc cm (fst st)) \<le> fuel"
  shows "\<exists>st'. toast_loop fuel flatten td maxDataLen enabled fc cm act st = Inr st' \<and> inv st' \<and>
    loop_done td flatten maxDataLen enabled fc cm (fst st') \<and>
    (\<forall>j. \<not> candidate td fc cm (fst st) j \<longrightarrow> same_col (fst st) (fst st') j)"
  using assms
proof (induction fuel arbitrary: st)
  case (0 st)
  then have none: "\<not> candidate td fc cm (fst st) i" for i
    using candidates_bound(1) by (auto simp: candidates_def card_eq_0_iff)
  then have "toast_tuple_find_biggest_attribute td (fst st) fc cm = None"
    using find_biggest_spec(2) lengths [OF 0(1)] by (metis not_None_eq)
  then have "toast_loop 0 flatten td maxDataLen enabled fc cm act st = Inr st"
    using computes [OF 0(1)] by (subst toast_loop.simps) auto
  with none 0(1) show ?case by (intro exI [of _ st]) (simp add: loop_done_def same_col_def)
next
  case (Suc fuel st)
  obtain n where n: "heap_compute_data_size flatten td (ttc_values (fst st)) (ttc_isnull (fst st)) = Inr n"
    using computes [OF Suc(2)] by blast
  note len = lengths [OF Suc(2)]
  show ?case
  proof (cases "int n > maxDataLen \<and> enabled")
    case False
    then have "toast_loop (Suc fuel) flatten td maxDataLen enabled fc cm act st = Inr st"
      using n by (subst toast_loop.simps) auto
    with n Suc(2) False show ?thesis
      by (intro exI [of _ st]) (auto simp: loop_done_def same_col_def)
  next
    case True
    show ?thesis
    proof (cases "toast_tuple_find_biggest_attribute td (fst st) fc cm")
      case None
      then have "toast_loop (Suc fuel) flatten td maxDataLen enabled fc cm act st = Inr st"
        using n True by (subst toast_loop.simps) auto
      with Suc(2) find_biggest_spec(1) [OF _ _ None] len show ?thesis
        by (intro exI [of _ st]) (auto simp: loop_done_def same_col_def)
    next
      case (Some i)
      have i: "candidate td fc cm (fst st) i" "24 < col_size (fst st) i"
        using find_biggest_spec(2) [OF _ _ Some] len by auto
      obtain st1 where s: "act st i = Inr st1" "inv st1" "\<not> candidate td fc cm (fst st1) i"
        "\<And>j. j \<noteq> i \<Longrightarrow> same_col (fst st) (fst st1) j"
        using acts [OF Suc(2) _ i] True by blast
      have same: "candidate td fc cm (fst st1) j = candidate td fc cm (fst st) j" if "j \<noteq> i" for j
        using s(4) [OF that] by (simp add: candidate_def same_col_def)
      have "j \<in> candidates td fc cm (fst st1) \<longleftrightarrow> j \<in> candidates td fc cm (fst st) - {i}" for j
        using same [of j] s(3) by (cases "j = i") (auto simp: candidates_def)
      then have "candidates td fc cm (fst st1) = candidates td fc cm (fst st) - {i}" by blast
      then have "card (candidates td fc cm (fst st1)) \<le> fuel"
        using Suc(3) i(1) candidates_bound(1) by (simp add: candidates_def)
      then obtain st' where "toast_loop fuel flatten td maxDataLen enabled fc cm act st1 = Inr st'" "inv st'"
        "loop_done td flatten maxDataLen enabled fc cm (fst st')"
        "\<And>j. \<not> candidate td fc cm (fst st1) j \<Longrightarrow> same_col (fst st1) (fst st') j"
        using Suc(1) [OF s(2)] by blast
      moreover from this(4) have "same_col (fst st) (fst st') j" if "\<not> candidate td fc cm (fst st) j" for j
        using that i(1) same s(4) [of j] by (cases "j = i") (auto simp: same_col_def)
      ultimately show ?thesis
        using n True Some s(1) by (subst toast_loop.simps) auto
    qed
  qed
qed

end


section \<open>Columns during toasting\<close>

lemma inline_size:
  assumes "inline_datum ms p d"
  shows "\<exists>n. VARSIZE_ANY p = Inr n \<and> to_int32 n = n \<and> (24 < n \<longrightarrow> 0 < length d)"
proof -
  from assms consider (plain) r where "p = mk_plain d @ r" "fits_4b d"
    | (short) r where "p = mk_short d @ r" "fits_short d"
    | (comp) cm c r where "payload_of cm d c" "p = mk_compressed (int (length d)) cm c @ r"
    unfolding inline_datum_def text_datum_def by blast
  then show ?thesis
  proof cases
    case comp
    with payload_of_facts [OF comp(1)] show ?thesis by (auto simp: VARSIZE_ANY_forms to_int32_small)
  qed (auto simp: VARSIZE_ANY_forms to_int32_small)
qed

lemma inline_uncompressed: "inline_datum ms p d \<Longrightarrow> \<not> VARATT_IS_COMPRESSED p \<Longrightarrow> text_datum p d"
  by (auto simp: inline_datum_def varatt_simps varatt_class_defs)

lemma represents_inline_iff:
  "represents ms env p d \<Longrightarrow> \<not> VARATT_IS_EXTERNAL p \<Longrightarrow> inline_datum ms p d"
  by (erule represents.cases) (auto simp: varatt_simps varatt_class_defs)

text \<open>RLE and PGLZ lose nothing on this value; LZ4 is outside the sources.\<close>

definition lossless :: "compression_env \<Rightarrow> pg_attribute \<Rightarrow> colval \<Rightarrow> bool" where
  "lossless cenv att c \<longleftrightarrow> (case c of
       ColText d \<Rightarrow> attstorage att \<in> {TYPSTORAGE_EXTENDED, TYPSTORAGE_MAIN} \<longrightarrow>
         chosen_method cenv (attcompression att) = TOAST_PGLZ_COMPRESSION \<or>
         chosen_method cenv (attcompression att) = TOAST_RLE_COMPRESSION \<and> runs_in_windows 128 d
     | _ \<Rightarrow> True)"

lemma toast_compress_outcome:
  assumes v: "text_datum v d" "length (env_tcinfo0 cenv) = 4"
    and m: "chosen_method cenv cm = TOAST_PGLZ_COMPRESSION \<or>
      chosen_method cenv cm = TOAST_RLE_COMPRESSION \<and> runs_in_windows 128 d"
  shows "toast_compress_datum cenv v cm = Inr None \<or>
    (\<exists>c n. toast_compress_datum cenv v cm = Inr (Some c) \<and> inline_datum UNIV c d \<and> VARATT_IS_COMPRESSED c \<and>
      VARSIZE_4B c = Inr n \<and> VARSIZE_ANY c = Inr n \<and> to_int32 n = n)"
proof -
  have "toast_compress_datum cenv v cm = Inr None \<or> (\<exists>c. toast_compress_datum cenv v cm = Inr (Some c))"
    using m toast_compress_pglz [OF v, of cm thesis for thesis] toast_compress_rle [OF v, of cm thesis for thesis]
    by metis
  moreover have "inline_datum UNIV c d \<and> VARATT_IS_COMPRESSED c \<and>
      (\<exists>n. VARSIZE_4B c = Inr n \<and> VARSIZE_ANY c = Inr n \<and> to_int32 n = n)"
    if c: "toast_compress_datum cenv v cm = Inr (Some c)" for c
  proof -
    obtain pl where p: "payload_of (method_id (chosen_method cenv cm)) d pl"
      "c = mk_compressed (int (length d)) (method_id (chosen_method cenv cm)) pl"
      using toast_compress_payload [OF v m c] by blast
    note f = payload_of_facts [OF p(1)]
    have "inline_datum UNIV (c @ []) d" unfolding inline_datum_def using p by blast
    moreover have "VARATT_IS_COMPRESSED c"
      using is_compressed(3) [of _ _ pl "[]"] p(2) by (simp add: VARATT_IS_COMPRESSED_def)
    ultimately show ?thesis
      using varsize_compressed [OF f(2), of _ _ "[]"] VARSIZE_ANY_forms(2) [OF f(2), of _ _ "[]"] p(2) f(2)
      by (auto simp: to_int32_small)
  qed
  ultimately show ?thesis by blast
qed

text \<open>Values that survive deleting the values \<open>dead\<close>: in line, or out of line and not among them.\<close>

definition survives :: "detoast_env \<Rightarrow> (oid \<times> oid) set \<Rightarrow> bytes \<Rightarrow> bytes \<Rightarrow> bool" where
  "survives env dead p d \<longleftrightarrow> inline_datum UNIV p d \<or>
     represents UNIV env p d \<and>
     (\<exists>tp r. p = external_bytes tp @ r \<and> (va_toastrelid tp, va_valueid tp) \<notin> dead)"

lemma survives_represents: "survives env dead p d \<Longrightarrow> represents UNIV env p d"
  by (auto simp: survives_def represents.inline)

definition col_state ::
  "detoast_env \<Rightarrow> (oid \<times> oid) set \<Rightarrow> pg_attribute \<Rightarrow> datum \<Rightarrow> bool \<Rightarrow> toast_attr_info \<Rightarrow> colval \<Rightarrow> bool" where
  "col_state env dead att v n tai c \<longleftrightarrow> col_holds UNIV env att v n c \<and>
     (\<forall>d. c = ColText d \<longrightarrow> survives env dead (DatumGetPointer v) d) \<and>
     (\<not> flag_set (tai_colflags tai) TOASTCOL_IGNORE \<longrightarrow>
        (\<exists>d. c = ColText d \<and> inline_datum UNIV (DatumGetPointer v) d) \<and>
        VARSIZE_ANY (DatumGetPointer v) = Inr (tai_size tai) \<and> tai_compression tai = attcompression att) \<and>
     (flag_set (tai_colflags tai) TOASTCOL_IGNORE \<longrightarrow> (\<forall>d. c = ColText d \<longrightarrow>
        attstorage att = TYPSTORAGE_PLAIN \<or> VARATT_IS_EXTERNAL (DatumGetPointer v)))"


definition same_values :: "detoast_env \<Rightarrow> detoast_env \<Rightarrow> bool" where
  "same_values env env' \<longleftrightarrow> (\<forall>ms v d. represents ms env v d \<longrightarrow> represents ms env' v d)"

lemma col_state_mono:
  assumes "same_values env env'" "col_state env dead att v n tai c"
  shows "col_state env' dead att v n tai c"
proof -
  have r: "represents UNIV env' p d" if "represents UNIV env p d" for p d
    using assms(1) that by (auto simp: same_values_def)
  from assms(2) r show ?thesis
    unfolding col_state_def by (cases c) (auto simp: survives_def col_holds_def)
qed

section \<open>The invariant\<close>

text \<open>What one call of \<open>heap_toast_insert_or_update\<close> starts from and has to keep: the parameters,
  the tables, the values and nulls of the new tuple, the old values, the row they hold, and the
  old values to be deleted, as flags and as the (table, value) pairs they point to.\<close>

record toast_goal =
  tg_params :: toast_params
  tg_rel :: relation
  tg_store :: toast_store
  tg_values :: "datum list"
  tg_nulls :: "bool list"
  tg_old :: "datum list option"
  tg_row :: "colval list"
  tg_delete :: "bool list"
  tg_dead :: "(oid \<times> oid) set"

abbreviation tg_atts :: "toast_goal \<Rightarrow> pg_attribute list" where
  "tg_atts G \<equiv> td_attrs (rd_att (tg_rel G))"

abbreviation tg_env :: "toast_goal \<Rightarrow> toast_store \<Rightarrow> detoast_env" where
  "tg_env G store \<equiv> (tp_detoast (tg_params G))\<lparr>de_store := store\<rparr>"

text \<open>The table can take \<open>k\<close> more values: the OIDs on offer are fresh.\<close>

definition oids_ready :: "heap_rel \<Rightarrow> (oid \<times> oid) set \<Rightarrow> nat \<Rightarrow> toast_world \<Rightarrow> bool" where
  "oids_ready rel dead k tw \<longleftrightarrow> (reltoastrelid rel \<noteq> InvalidOid \<longrightarrow>
     rd_toastoid rel = InvalidOid \<and> k \<le> length (tw_oids tw) \<and> distinct (map hd (tw_oids tw)) \<and>
     (\<exists>trel. tw_store tw (reltoastrelid rel) = Some trel \<and> has_valid_index trel \<and>
        (\<forall>os\<in>set (tw_oids tw). os \<noteq> [] \<and> (reltoastrelid rel, hd os) \<notin> dead \<and>
           (\<forall>c\<in>set (tr_rows trel). chunk_id c \<noteq> hd os))))"

definition open_cols :: "toast_attr_info list \<Rightarrow> nat" where
  "open_cols tais = length (filter (\<lambda>tai. \<not> flag_set (tai_colflags tai) TOASTCOL_IGNORE) tais)"

text \<open>The part of the invariant that concerns the columns.\<close>

definition cols_inv :: "toast_goal \<Rightarrow> detoast_env \<Rightarrow> datum list \<Rightarrow> toast_attr_info list \<Rightarrow> bool" where
  "cols_inv G env vs tais \<longleftrightarrow> length vs = length (tg_atts G) \<and> length tais = length (tg_atts G) \<and>
     (\<forall>i<length (tg_atts G).
        col_state env (tg_dead G) (tg_atts G ! i) (vs ! i) (tg_nulls G ! i) (tais ! i) (tg_row G ! i) \<and>
        (flag_set (tai_colflags (tais ! i)) TOASTCOL_NEEDS_DELETE_OLD \<longleftrightarrow> tg_delete G ! i))"

definition goal_ok :: "toast_goal \<Rightarrow> bool" where
  "goal_ok G \<longleftrightarrow> (\<forall>a\<in>set (tg_atts G). att_ok a) \<and>
     length (env_tcinfo0 (tp_compression (tg_params G))) = 4 \<and>
     length (tg_nulls G) = length (tg_atts G) \<and> length (tg_row G) = length (tg_atts G) \<and>
     length (tg_delete G) = length (tg_atts G) \<and>
     (\<forall>i<length (tg_atts G). lossless (tp_compression (tg_params G)) (tg_atts G ! i) (tg_row G ! i))"

definition toast_inv :: "toast_goal \<Rightarrow> toast_tuple_context \<times> toast_world \<Rightarrow> bool" where
  "toast_inv G = (\<lambda>(ttc, tw). goal_ok G \<and>
     cols_inv G (tg_env G (tw_store tw)) (ttc_values ttc) (ttc_attr ttc) \<and>
     ttc_isnull ttc = tg_nulls G \<and> ttc_oldvalues ttc = tg_old G \<and>
     (flag_set (ttc_flags ttc) TOAST_HAS_NULLS \<longleftrightarrow> True \<in> set (tg_nulls G)) \<and>
     (flag_set (ttc_flags ttc) TOAST_NEEDS_DELETE_OLD \<longleftrightarrow> True \<in> set (tg_delete G)) \<and>
     (\<not> flag_set (ttc_flags ttc) TOAST_NEEDS_CHANGE \<longrightarrow> ttc_values ttc = tg_values G) \<and>
     oids_ready (rd_rel (tg_rel G)) (tg_dead G) (open_cols (ttc_attr ttc)) tw \<and>
     same_values (tg_env G (tg_store G)) (tg_env G (tw_store tw)))"

lemma cols_inv_update:
  assumes "cols_inv G env vs tais" "same_values env env'" "i < length (tg_atts G)"
    and "col_state env' (tg_dead G) (tg_atts G ! i) v (tg_nulls G ! i) tai (tg_row G ! i)"
    and "flag_set (tai_colflags tai) TOASTCOL_NEEDS_DELETE_OLD \<longleftrightarrow>
      flag_set (tai_colflags (tais ! i)) TOASTCOL_NEEDS_DELETE_OLD"
  shows "cols_inv G env' (vs[i := v]) (tais[i := tai])"
  unfolding cols_inv_def
proof (intro conjI allI impI)
  fix j assume j: "j < length (tg_atts G)"
  show "col_state env' (tg_dead G) (tg_atts G ! j) (vs[i := v] ! j) (tg_nulls G ! j) (tais[i := tai] ! j) (tg_row G ! j)"
    using assms j by (cases "j = i") (auto simp: cols_inv_def intro: col_state_mono)
  show "flag_set (tai_colflags (tais[i := tai] ! j)) TOASTCOL_NEEDS_DELETE_OLD = tg_delete G ! j"
    using assms j by (cases "j = i") (auto simp: cols_inv_def)
qed (use assms in \<open>auto simp: cols_inv_def\<close>)

lemma same_values_refl [simp]: "same_values env env"
  by (simp add: same_values_def)

lemma same_values_trans: "same_values a b \<Longrightarrow> same_values b c \<Longrightarrow> same_values a c"
  by (simp add: same_values_def)

lemma toast_inv_update:
  assumes inv: "toast_inv G (ttc, tw)" and i: "i < length (tg_atts G)"
    and env: "same_values (tg_env G (tw_store tw)) (tg_env G (tw_store tw'))"
    and col: "col_state (tg_env G (tw_store tw')) (tg_dead G) (tg_atts G ! i) v (tg_nulls G ! i) tai (tg_row G ! i)"
    and del: "flag_set (tai_colflags tai) TOASTCOL_NEEDS_DELETE_OLD \<longleftrightarrow>
      flag_set (tai_colflags (ttc_attr ttc ! i)) TOASTCOL_NEEDS_DELETE_OLD"
    and oids: "oids_ready (rd_rel (tg_rel G)) (tg_dead G) (open_cols ((ttc_attr ttc)[i := tai])) tw'"
    and f: "\<not> flag_set f TOAST_HAS_NULLS" "\<not> flag_set f TOAST_NEEDS_DELETE_OLD"
      "flag_set f TOAST_NEEDS_CHANGE \<or> v = ttc_values ttc ! i"
  shows "toast_inv G (ttc\<lparr>ttc_values := (ttc_values ttc)[i := v], ttc_attr := (ttc_attr ttc)[i := tai],
    ttc_flags := ttc_flags ttc OR f\<rparr>, tw')"
proof -
  have "cols_inv G (tg_env G (tw_store tw')) ((ttc_values ttc)[i := v]) ((ttc_attr ttc)[i := tai])"
    by (rule cols_inv_update [OF _ env i col del]) (use inv in \<open>simp add: toast_inv_def\<close>)
  with inv oids f same_values_trans [OF _ env] show ?thesis
    by (auto simp: toast_inv_def)
qed


section \<open>The loop bodies\<close>

lemma open_col:
  assumes "toast_inv G (ttc, tw)" "i < length (tg_atts G)"
    "\<not> flag_set (tai_colflags (ttc_attr ttc ! i)) TOASTCOL_IGNORE"
  obtains d p where "tg_row G ! i = ColText d" "ttc_values ttc ! i = ByRef p" "inline_datum UNIV p d"
    "VARSIZE_ANY p = Inr (col_size ttc i)" "tai_compression (ttc_attr ttc ! i) = attcompression (tg_atts G ! i)"
    "attlen (tg_atts G ! i) = -1" "\<not> attbyval (tg_atts G ! i)" "\<not> tg_nulls G ! i"
proof -
  from assms have c: "col_state (tg_env G (tw_store tw)) (tg_dead G) (tg_atts G ! i) (ttc_values ttc ! i)
      (tg_nulls G ! i) (ttc_attr ttc ! i) (tg_row G ! i)"
    by (simp add: toast_inv_def cols_inv_def)
  with assms(3) obtain d where d: "tg_row G ! i = ColText d" "inline_datum UNIV (DatumGetPointer (ttc_values ttc ! i)) d"
    by (auto simp: col_state_def)
  with c obtain p where "ttc_values ttc ! i = ByRef p" by (auto simp: col_state_def col_holds_def)
  with c d assms(3) that show thesis by (auto simp: col_state_def col_holds_def DatumGetPointer_def)
qed

lemma inline_col_state:
  assumes "inline_datum UNIV p d" "VARSIZE_ANY p = Inr (tai_size tai)" "tai_compression tai = attcompression att"
    "attlen att = -1" "\<not> attbyval att" "\<not> n"
    "flag_set (tai_colflags tai) TOASTCOL_IGNORE \<longrightarrow> attstorage att = TYPSTORAGE_PLAIN"
  shows "col_state env dead att (ByRef p) n tai (ColText d)"
  using assms by (auto simp: col_state_def col_holds_def survives_def DatumGetPointer_def represents.inline)

lemma open_cols_update:
  assumes "i < length tais"
  shows "open_cols (tais[i := tai]) + (if flag_set (tai_colflags (tais ! i)) TOASTCOL_IGNORE then 0 else 1) =
    open_cols tais + (if flag_set (tai_colflags tai) TOASTCOL_IGNORE then 0 else 1)"
proof -
  have "open_cols (xs @ x # ys) = open_cols xs + (if flag_set (tai_colflags x) TOASTCOL_IGNORE then 0 else 1) +
      open_cols ys" for xs x ys by (simp add: open_cols_def)
  then show ?thesis
    using arg_cong [OF id_take_nth_drop [OF assms], of open_cols]
      arg_cong [OF upd_conv_take_nth_drop [OF assms, of tai], of open_cols] by simp
qed

lemma set_incompressible_inv:
  assumes inv: "toast_inv G (ttc, tw)" and i: "i < length (tg_atts G)"
    and open_i: "\<not> flag_set (tai_colflags (ttc_attr ttc ! i)) TOASTCOL_IGNORE"
  shows "toast_inv G (set_colflags ttc i TOASTCOL_INCOMPRESSIBLE, tw)"
proof -
  let ?tai = "(ttc_attr ttc ! i)\<lparr>tai_colflags := tai_colflags (ttc_attr ttc ! i) OR TOASTCOL_INCOMPRESSIBLE\<rparr>"
  have l: "i < length (ttc_attr ttc)" and
    c: "col_state (tg_env G (tw_store tw)) (tg_dead G) (tg_atts G ! i) (ttc_values ttc ! i)
      (tg_nulls G ! i) (ttc_attr ttc ! i) (tg_row G ! i)"
    and o: "oids_ready (rd_rel (tg_rel G)) (tg_dead G) (open_cols (ttc_attr ttc)) tw"
    using inv i by (simp_all add: toast_inv_def cols_inv_def)
  have "toast_inv G (ttc\<lparr>ttc_values := (ttc_values ttc)[i := ttc_values ttc ! i], ttc_attr := (ttc_attr ttc)[i := ?tai],
      ttc_flags := ttc_flags ttc OR 0\<rparr>, tw)"
    by (rule toast_inv_update [OF inv i])
      (use c o open_i open_cols_update [OF l, of ?tai] in \<open>auto simp: col_state_def\<close>)
  then show ?thesis by (simp add: set_colflags_def)
qed

lemma try_compression_inv:
  assumes inv: "toast_inv G (ttc, tw)" and i: "i < length (tg_atts G)"
    and open_i: "\<not> flag_set (tai_colflags (ttc_attr ttc ! i)) TOASTCOL_IGNORE"
    and nc: "\<not> VARATT_IS_COMPRESSED (DatumGetPointer (ttc_values ttc ! i))"
    and st: "attstorage (tg_atts G ! i) \<in> {TYPSTORAGE_EXTENDED, TYPSTORAGE_MAIN}"
  shows "\<exists>ttc'. toast_tuple_try_compression (tg_params G) ttc i = Inr ttc' \<and> toast_inv G (ttc', tw) \<and>
    (\<forall>j. j \<noteq> i \<longrightarrow> same_col ttc ttc' j) \<and>
    \<not> flag_set (tai_colflags (ttc_attr ttc' ! i)) TOASTCOL_IGNORE \<and>
    (flag_set (tai_colflags (ttc_attr ttc' ! i)) TOASTCOL_INCOMPRESSIBLE \<or>
     VARATT_IS_COMPRESSED (DatumGetPointer (ttc_values ttc' ! i)))"
proof -
  obtain d p where c: "tg_row G ! i = ColText d" "ttc_values ttc ! i = ByRef p" "inline_datum UNIV p d"
    "VARSIZE_ANY p = Inr (col_size ttc i)" "tai_compression (ttc_attr ttc ! i) = attcompression (tg_atts G ! i)"
    "attlen (tg_atts G ! i) = -1" "\<not> attbyval (tg_atts G ! i)" "\<not> tg_nulls G ! i"
    by (rule open_col [OF inv i open_i])
  have len: "i < length (ttc_values ttc)" "i < length (ttc_attr ttc)"
    using inv i by (simp_all add: toast_inv_def cols_inv_def)
  let ?cenv = "tp_compression (tg_params G)"
  have t: "text_datum p d" using inline_uncompressed [OF c(3)] nc c(2) by (simp add: DatumGetPointer_def)
  have oids: "oids_ready (rd_rel (tg_rel G)) (tg_dead G) (open_cols ((ttc_attr ttc)[i := tai])) tw"
    if "\<not> flag_set (tai_colflags tai) TOASTCOL_IGNORE" for tai
    using open_cols_update [OF len(2), of tai] open_i that inv by (simp add: toast_inv_def)
  have "goal_ok G" using inv by (simp add: toast_inv_def)
  then have g: "length (env_tcinfo0 ?cenv) = 4" "lossless ?cenv (tg_atts G ! i) (ColText d)"
    using i c(1) by (auto simp: goal_ok_def)
  have "chosen_method ?cenv (attcompression (tg_atts G ! i)) = TOAST_PGLZ_COMPRESSION \<or>
      chosen_method ?cenv (attcompression (tg_atts G ! i)) = TOAST_RLE_COMPRESSION \<and> runs_in_windows 128 d"
    using g(2) st unfolding lossless_def colval.case by blast
  from toast_compress_outcome [OF t g(1) this] show ?thesis
  proof
    assume r: "toast_compress_datum ?cenv p (attcompression (tg_atts G ! i)) = Inr None"
    then have "toast_tuple_try_compression (tg_params G) ttc i = Inr (set_colflags ttc i TOASTCOL_INCOMPRESSIBLE)"
      using c(2,5) by (simp add: toast_tuple_try_compression_def DatumGetPointer_def)
    with set_incompressible_inv [OF inv i open_i] show ?thesis
      using len open_i by (auto simp: set_colflags_def same_col_def)
  next
    assume "\<exists>z n. toast_compress_datum ?cenv p (attcompression (tg_atts G ! i)) = Inr (Some z) \<and>
      inline_datum UNIV z d \<and> VARATT_IS_COMPRESSED z \<and> VARSIZE_4B z = Inr n \<and> VARSIZE_ANY z = Inr n \<and> to_int32 n = n"
    then obtain z n where r: "toast_compress_datum ?cenv p (attcompression (tg_atts G ! i)) = Inr (Some z)"
      "inline_datum UNIV z d" "VARATT_IS_COMPRESSED z" "VARSIZE_4B z = Inr n" "VARSIZE_ANY z = Inr n" "to_int32 n = n"
      by blast
    let ?tai = "(ttc_attr ttc ! i)\<lparr>tai_colflags := tai_colflags (ttc_attr ttc ! i) OR TOASTCOL_NEEDS_FREE,
        tai_size := n\<rparr>"
    let ?ttc = "ttc\<lparr>ttc_values := (ttc_values ttc)[i := ByRef z], ttc_attr := (ttc_attr ttc)[i := ?tai],
        ttc_flags := ttc_flags ttc OR (TOAST_NEEDS_CHANGE OR TOAST_NEEDS_FREE)\<rparr>"
    have "toast_inv G (?ttc, tw)"
      by (rule toast_inv_update [OF inv i])
        (use c r open_i oids in \<open>auto intro!: inline_col_state\<close>)
    moreover have "toast_tuple_try_compression (tg_params G) ttc i = Inr ?ttc"
      using r c(2,5) by (simp add: toast_tuple_try_compression_def DatumGetPointer_def Let_def)
    ultimately show ?thesis using len open_i r(3) by (auto simp: same_col_def DatumGetPointer_def)
  qed
qed

lemma oids_ready_next:
  assumes "oids_ready rel dead (Suc k) tw" "tw_oids tw = os # rest" "os = vid # os'"
    "tw_store tw (reltoastrelid rel) = Some trel"
  shows "oids_ready rel dead k (tw\<lparr>tw_store := (tw_store tw)
    (reltoastrelid rel \<mapsto> trel\<lparr>tr_rows := tr_rows trel @ chunks vid data\<rparr>), tw_oids := rest\<rparr>)"
proof -
  have "chunk_id c \<noteq> hd ys" if "c \<in> set (chunks vid data)" "vid \<noteq> hd ys" for c and ys :: "oid list"
    using that by (auto simp: chunks_def chunk_of_def)
  moreover have "vid \<noteq> hd ys" if "ys \<in> set rest" "reltoastrelid rel \<noteq> InvalidOid" for ys
    using assms that by (auto simp: oids_ready_def)
  ultimately show ?thesis
    using assms by (fastforce simp: oids_ready_def has_valid_index_def)
qed

lemma externalize_inv:
  assumes inv: "toast_inv G (ttc, tw)" and i: "i < length (tg_atts G)"
    and rel: "reltoastrelid (rd_rel (tg_rel G)) \<noteq> InvalidOid"
    and open_i: "\<not> flag_set (tai_colflags (ttc_attr ttc ! i)) TOASTCOL_IGNORE"
    and ne: "tg_row G ! i \<noteq> ColText []"
  shows "\<exists>ttc' tw'. toast_tuple_externalize (rd_rel (tg_rel G)) (ttc, tw) i = Inr (ttc', tw') \<and>
    toast_inv G (ttc', tw') \<and> (\<forall>j. j \<noteq> i \<longrightarrow> same_col ttc ttc' j) \<and>
    flag_set (tai_colflags (ttc_attr ttc' ! i)) TOASTCOL_IGNORE"
proof -
  let ?rel = "rd_rel (tg_rel G)" and ?env = "tg_env G (tw_store tw)"
  obtain d p where c: "tg_row G ! i = ColText d" "ttc_values ttc ! i = ByRef p" "inline_datum UNIV p d"
    "VARSIZE_ANY p = Inr (col_size ttc i)" "tai_compression (ttc_attr ttc ! i) = attcompression (tg_atts G ! i)"
    "attlen (tg_atts G ! i) = -1" "\<not> attbyval (tg_atts G ! i)" "\<not> tg_nulls G ! i"
    by (rule open_col [OF inv i open_i])
  have len: "i < length (ttc_values ttc)" "i < length (ttc_attr ttc)"
    using inv i by (simp_all add: toast_inv_def cols_inv_def)
  obtain k where k: "open_cols (ttc_attr ttc) = Suc k"
    using open_cols_update [OF len(2), of "(ttc_attr ttc ! i)\<lparr>tai_colflags := TOASTCOL_IGNORE\<rparr>"] open_i
    by (cases "open_cols (ttc_attr ttc)") auto
  have oids: "oids_ready ?rel (tg_dead G) (Suc k) tw" using inv k by (simp add: toast_inv_def)
  then obtain os rest where os: "tw_oids tw = os # rest" using rel
    by (cases "tw_oids tw") (auto simp: oids_ready_def)
  with oids rel obtain vid os' trel where o: "os = vid # os'" "rd_toastoid ?rel = InvalidOid"
    "tw_store tw (reltoastrelid ?rel) = Some trel" "has_valid_index trel"
    "\<forall>c\<in>set (tr_rows trel). chunk_id c \<noteq> vid" "(reltoastrelid ?rel, vid) \<notin> tg_dead G"
    by (cases os) (auto simp: oids_ready_def)
  have t: "de_store ?env (reltoastrelid ?rel) = Some trel" using o(3) by simp
  have "0 < length d" using ne c(1) by simp
  from toast_save_inline [OF c(3) this t o(4,2,5), of os' "tai_oldexternal (ttc_attr ttc ! i)"]
  obtain data q tp where "toast_save_datum (de_store ?env) ?rel (vid # os') p (tai_oldexternal (ttc_attr ttc ! i)) =
      Inr (de_store (add_value ?env (reltoastrelid ?rel) trel vid data), q)"
    and s: "q = external_bytes tp" "va_toastrelid tp = reltoastrelid ?rel" "va_valueid tp = vid"
    "represents UNIV (add_value ?env (reltoastrelid ?rel) trel vid data) (q @ []) d"
    by blast
  then have save: "toast_save_datum (tw_store tw) ?rel os p (tai_oldexternal (ttc_attr ttc ! i)) =
      Inr (de_store (add_value ?env (reltoastrelid ?rel) trel vid data), q)" using o(1) by simp
  let ?tw = "tw\<lparr>tw_store := de_store (add_value ?env (reltoastrelid ?rel) trel vid data), tw_oids := rest\<rparr>"
  have env: "tg_env G (tw_store ?tw) = add_value ?env (reltoastrelid ?rel) trel vid data" by simp
  have same: "same_values ?env (tg_env G (tw_store ?tw))"
    unfolding env same_values_def using represents_add_value [OF t o(5)] by blast
  let ?tai = "(ttc_attr ttc ! i)\<lparr>tai_colflags := tai_colflags (ttc_attr ttc ! i) OR TOASTCOL_IGNORE OR TOASTCOL_NEEDS_FREE\<rparr>"
  let ?ttc = "ttc\<lparr>ttc_values := (ttc_values ttc)[i := ByRef q], ttc_attr := (ttc_attr ttc)[i := ?tai],
      ttc_flags := ttc_flags ttc OR (TOAST_NEEDS_CHANGE OR TOAST_NEEDS_FREE)\<rparr>"
  have run: "toast_tuple_externalize ?rel (ttc, tw) i = Inr (?ttc, ?tw)"
    using save c(2) os by (simp add: toast_tuple_externalize_def DatumGetPointer_def Let_def)
  have "survives (tg_env G (tw_store ?tw)) (tg_dead G) q d"
    unfolding survives_def env using s o(6) by (metis append_Nil2)
  moreover have "VARATT_IS_EXTERNAL q"
    using ondisk_pointer(1) [of tp "[]"] s(1) by (simp add: varatt_class_defs)
  ultimately have col: "col_state (tg_env G (tw_store ?tw)) (tg_dead G) (tg_atts G ! i) (ByRef q) (tg_nulls G ! i) ?tai (tg_row G ! i)"
    using c survives_represents by (simp add: col_state_def col_holds_def DatumGetPointer_def)
  have "oids_ready ?rel (tg_dead G) (open_cols ((ttc_attr ttc)[i := ?tai])) ?tw"
    using oids_ready_next [OF oids os o(1,3), of data] open_cols_update [OF len(2), of ?tai] open_i k by simp
  then have "toast_inv G (?ttc, ?tw)"
    by (intro toast_inv_update [OF inv i same col]) auto
  with run len show ?thesis by (auto simp: same_col_def)
qed


section \<open>The four loops\<close>

lemma inv_holds:
  "toast_inv G (ttc, tw) \<Longrightarrow> goal_ok G \<and> length (ttc_attr ttc) = length (tg_atts G) \<and>
     cols_hold UNIV (tg_env G (tw_store tw)) (tg_atts G) (ttc_values ttc) (ttc_isnull ttc) (tg_row G)"
  by (auto simp: toast_inv_def cols_inv_def cols_hold_def goal_ok_def col_state_def)

lemma inv_lengths:
  "toast_inv G st \<Longrightarrow> length (ttc_values (fst st)) = length (tg_atts G) \<and>
     length (ttc_attr (fst st)) = length (tg_atts G)"
  using inv_holds [of G "fst st" "snd st"] by (auto simp: cols_hold_def)

lemma inv_computes:
  assumes "toast_inv G st"
  shows "\<exists>n. heap_compute_data_size (de_flatten (tp_detoast (tg_params G))) (rd_att (tg_rel G))
    (ttc_values (fst st)) (ttc_isnull (fst st)) = Inr n"
proof -
  have "cols_ok (de_flatten (tp_detoast (tg_params G))) (tg_atts G) (ttc_values (fst st)) (ttc_isnull (fst st))"
    using cols_given_ok [OF cols_hold_given] inv_holds [of G "fst st" "snd st"] assms
    by (fastforce simp: goal_ok_def)
  from data_size_layout [OF this] show ?thesis by (auto simp: heap_compute_data_size_def)
qed

lemma candidate_open:
  assumes "toast_inv G (ttc, tw)" "candidate (rd_att (tg_rel G)) fc cm ttc i" "24 < col_size ttc i"
  shows "i < length (tg_atts G)" "\<not> flag_set (tai_colflags (ttc_attr ttc ! i)) TOASTCOL_IGNORE"
    "tg_row G ! i \<noteq> ColText []"
proof -
  show i: "i < length (tg_atts G)" and o: "\<not> flag_set (tai_colflags (ttc_attr ttc ! i)) TOASTCOL_IGNORE"
    using assms(2) by (auto simp: candidate_def toast_eligible_def split: if_splits)
  show "tg_row G ! i \<noteq> ColText []"
    using open_col [OF assms(1) i o] inline_size assms(3) by (metis Inr_inject colval.inject(2) length_greater_0_conv)
qed

lemma candidate_ignored:
  "flag_set (tai_colflags (ttc_attr ttc ! i)) TOASTCOL_IGNORE \<Longrightarrow> \<not> candidate td fc cm ttc i"
  by (auto simp: candidate_def toast_eligible_def)

lemma candidate_compressed:
  "flag_set (tai_colflags (ttc_attr ttc ! i)) TOASTCOL_INCOMPRESSIBLE \<or>
     VARATT_IS_COMPRESSED (DatumGetPointer (ttc_values ttc ! i)) \<Longrightarrow> \<not> candidate td True cm ttc i"
  by (auto simp: candidate_def toast_eligible_def)

lemma same_col_trans: "same_col a b j \<Longrightarrow> same_col b c j \<Longrightarrow> same_col a c j"
  by (simp add: same_col_def)

interpretation ext_loop: toast_action "rd_att (tg_rel G)" "de_flatten (tp_detoast (tg_params G))" "toast_inv G"
  "toast_tuple_externalize (rd_rel (tg_rel G))" "reltoastrelid (rd_rel (tg_rel G)) \<noteq> InvalidOid" False cm for G cm
proof
  fix st i
  assume a: "toast_inv G st" "reltoastrelid (rd_rel (tg_rel G)) \<noteq> InvalidOid"
    "candidate (rd_att (tg_rel G)) False cm (fst st) i" "24 < col_size (fst st) i"
  obtain ttc tw where st: "st = (ttc, tw)" by (cases st)
  from candidate_open [of G ttc tw] externalize_inv [of G ttc tw i] a candidate_ignored
  show "\<exists>st'. toast_tuple_externalize (rd_rel (tg_rel G)) st i = Inr st' \<and> toast_inv G st' \<and>
      \<not> candidate (rd_att (tg_rel G)) False cm (fst st') i \<and> (\<forall>j. j \<noteq> i \<longrightarrow> same_col (fst st) (fst st') j)"
    unfolding st by (metis fst_conv)
qed (fact inv_lengths inv_computes)+

interpretation main_loop: toast_action "rd_att (tg_rel G)" "de_flatten (tp_detoast (tg_params G))" "toast_inv G"
  "compress_body (tg_params G)" True True True for G
proof
  fix st i
  assume a: "toast_inv G st" "candidate (rd_att (tg_rel G)) True True (fst st) i" "24 < col_size (fst st) i"
  obtain ttc tw where st: "st = (ttc, tw)" by (cases st)
  have "\<not> VARATT_IS_COMPRESSED (DatumGetPointer (ttc_values ttc ! i))" "attstorage (tg_atts G ! i) = TYPSTORAGE_MAIN"
    using a(2) st by (auto simp: candidate_def toast_eligible_def)
  with try_compression_inv [of G ttc tw i] candidate_open [of G ttc tw] a st obtain ttc' where
    "toast_tuple_try_compression (tg_params G) ttc i = Inr ttc'" "toast_inv G (ttc', tw)"
    "\<forall>j. j \<noteq> i \<longrightarrow> same_col ttc ttc' j" "\<not> candidate (rd_att (tg_rel G)) True True ttc' i"
    using candidate_compressed by (metis fst_conv insertCI)
  then show "\<exists>st'. compress_body (tg_params G) st i = Inr st' \<and> toast_inv G st' \<and>
      \<not> candidate (rd_att (tg_rel G)) True True (fst st') i \<and> (\<forall>j. j \<noteq> i \<longrightarrow> same_col (fst st) (fst st') j)"
    by (simp add: st compress_body_def)
qed (fact inv_lengths inv_computes)+

lemma round1_compress:
  assumes inv: "toast_inv G (ttc, tw)" and c: "candidate (rd_att (tg_rel G)) True False ttc i" "24 < col_size ttc i"
  shows "\<exists>ttc'. (if attstorage (tg_atts G ! i) = TYPSTORAGE_EXTENDED then toast_tuple_try_compression (tg_params G) ttc i
      else Inr (set_colflags ttc i TOASTCOL_INCOMPRESSIBLE)) = Inr ttc' \<and> toast_inv G (ttc', tw) \<and>
    (\<forall>j. j \<noteq> i \<longrightarrow> same_col ttc ttc' j) \<and> \<not> flag_set (tai_colflags (ttc_attr ttc' ! i)) TOASTCOL_IGNORE \<and>
    \<not> candidate (rd_att (tg_rel G)) True False ttc' i"
proof -
  note o = candidate_open [OF inv c]
  have nc: "\<not> VARATT_IS_COMPRESSED (DatumGetPointer (ttc_values ttc ! i))"
    using c(1) by (auto simp: candidate_def toast_eligible_def)
  show ?thesis
  proof (cases "attstorage (tg_atts G ! i) = TYPSTORAGE_EXTENDED")
    case True
    with try_compression_inv [OF inv o(1,2) nc] candidate_compressed show ?thesis by (metis insertCI)
  next
    case False
    have "i < length (ttc_attr ttc)" using inv o(1) inv_lengths by fastforce
    with False o(2) set_incompressible_inv [OF inv o(1,2)] show ?thesis
      by (auto simp: set_colflags_def same_col_def intro!: candidate_compressed)
  qed
qed

interpretation first_loop: toast_action "rd_att (tg_rel G)" "de_flatten (tp_detoast (tg_params G))" "toast_inv G"
  "round1_body (tg_params G) (tg_rel G) maxDataLen" True True False for G maxDataLen
proof
  fix st i
  assume a: "toast_inv G st" "candidate (rd_att (tg_rel G)) True False (fst st) i" "24 < col_size (fst st) i"
  obtain ttc tw where st: "st = (ttc, tw)" by (cases st)
  note inv = a [unfolded st fst_conv]
  note o = candidate_open [OF inv]
  obtain ttc' where t: "(if attstorage (tg_atts G ! i) = TYPSTORAGE_EXTENDED then toast_tuple_try_compression (tg_params G) ttc i
      else Inr (set_colflags ttc i TOASTCOL_INCOMPRESSIBLE)) = Inr ttc'" "toast_inv G (ttc', tw)"
    "\<forall>j. j \<noteq> i \<longrightarrow> same_col ttc ttc' j" "\<not> flag_set (tai_colflags (ttc_attr ttc' ! i)) TOASTCOL_IGNORE"
    "\<not> candidate (rd_att (tg_rel G)) True False ttc' i"
    using round1_compress [OF inv] by blast
  show "\<exists>st'. round1_body (tg_params G) (tg_rel G) maxDataLen st i = Inr st' \<and> toast_inv G st' \<and>
      \<not> candidate (rd_att (tg_rel G)) True False (fst st') i \<and> (\<forall>j. j \<noteq> i \<longrightarrow> same_col (fst st) (fst st') j)"
  proof (cases "tai_size (ttc_attr ttc' ! i) mod 2 ^ 64 > maxDataLen \<and> reltoastrelid (rd_rel (tg_rel G)) \<noteq> InvalidOid")
    case True
    then obtain ttc'' tw'' where "toast_tuple_externalize (rd_rel (tg_rel G)) (ttc', tw) i = Inr (ttc'', tw'')"
      "toast_inv G (ttc'', tw'')" "\<forall>j. j \<noteq> i \<longrightarrow> same_col ttc' ttc'' j" "\<not> candidate (rd_att (tg_rel G)) True False ttc'' i"
      using externalize_inv [OF t(2) o(1) _ t(4) o(3)] candidate_ignored by blast
    with True t(1,3) same_col_trans show ?thesis unfolding st round1_body_def by (fastforce simp del: if_split)
  next
    case False
    with t show ?thesis unfolding st round1_body_def by auto
  qed
qed (fact inv_lengths inv_computes)+

end
