(* ===== verification/Toast_Tuple_Correct.thy ===== *)
theory Toast_Tuple_Correct
  imports Toast_Helper_Correct
begin

text \<open>
  \<open>heap_toast_insert_or_update\<close> and the other tuple-level functions of \<^verbatim>\<open>heaptoast.c\<close>: setting up the
  columns, running the four loops, rebuilding the tuple and deleting the values it replaces.
\<close>

section \<open>Fetching out-of-line values\<close>

lemma inline_copy:
  assumes "inline_datum ms p d"
  shows "\<exists>n q. VARSIZE_ANY p = Inr n \<and> rd_range p 0 (nat n) = Inr q \<and> inline_datum ms q d"
proof -
  from assms consider (plain) r where "p = mk_plain d @ r" "fits_4b d"
    | (short) r where "p = mk_short d @ r" "fits_short d"
    | (comp) cm c r where "payload_of cm d c" "p = mk_compressed (int (length d)) cm c @ r" "cm \<in> ms"
    unfolding inline_datum_def text_datum_def by blast
  then show ?thesis
  proof cases
    case plain
    then have "VARSIZE_ANY p = Inr (int (length d) + 4)" "rd_range p 0 (nat (int (length d) + 4)) = Inr (mk_plain d)"
      "inline_datum ms (mk_plain d @ []) d"
      by (auto simp: VARSIZE_ANY_forms rd_range_prefix inline_datum_def text_datum_def nat_add_distrib)
    then show ?thesis by auto
  next
    case short
    then have "VARSIZE_ANY p = Inr (int (length d) + 1)" "rd_range p 0 (nat (int (length d) + 1)) = Inr (mk_short d)"
      "inline_datum ms (mk_short d @ []) d"
      by (auto simp: VARSIZE_ANY_forms rd_range_prefix inline_datum_def text_datum_def nat_add_distrib)
    then show ?thesis by auto
  next
    case comp
    note f = payload_of_facts [OF comp(1)]
    have "inline_datum ms (mk_compressed (int (length d)) cm c @ []) d"
      using comp unfolding inline_datum_def by blast
    moreover have "VARSIZE_ANY p = Inr (int (length c) + 8)"
      "rd_range p 0 (nat (int (length c) + 8)) = Inr (mk_compressed (int (length d)) cm c)"
      using comp f(2) by (simp_all add: VARSIZE_ANY_forms rd_range_prefix nat_add_distrib)
    ultimately show ?thesis by auto
  qed
qed

lemma represents_external_cases:
  assumes "represents ms env p d" "VARATT_IS_EXTERNAL p"
  obtains (ondisk) q where "toast_fetch_datum env p = Inr q" "inline_datum ms q d" "VARATT_IS_EXTERNAL_ONDISK p"
  | (indirect) a obj r where "p = indirect_bytes a @ r" "de_mem env a = Some obj" "represents ms env obj d"
      "\<not> VARATT_IS_EXTERNAL_INDIRECT obj"
  using assms(1)
proof cases
  case inline
  with assms(2) inline_not_external show thesis by blast
next
  case (external relid vid r)
  have "inline_datum ms (mk_plain d @ []) d" using external by (auto simp: inline_datum_def text_datum_def)
  with fetch_external [OF external(2-4)] external(1) show thesis by (intro ondisk) auto
next
  case (external_compressed cm c relid vid r)
  have "inline_datum ms (mk_compressed (int (length d)) cm c @ []) d"
    using external_compressed unfolding inline_datum_def by blast
  with fetch_external_compressed [OF external_compressed(3,4)] external_compressed(1) show thesis
    by (intro ondisk) auto
next
  case (indirect a obj r)
  from that(2) [OF this] show thesis .
qed

lemma detoast_external_represents:
  assumes "represents ms env p d" "VARATT_IS_EXTERNAL p"
  shows "\<exists>q. detoast_external_attr (Suc fuel) env p = Inr (Some q) \<and> inline_datum ms q d"
proof -
  have od: "detoast_external_attr fuel' env p = Inr (Some q)"
    if "toast_fetch_datum env p = Inr q" "VARATT_IS_EXTERNAL_ONDISK p" for fuel' p q
    using that by (subst detoast_external_attr.simps) simp
  from assms show ?thesis
  proof (cases rule: represents_external_cases)
    case (ondisk q)
    with od show ?thesis by blast
  next
    case (indirect a obj r)
    show ?thesis
    proof (cases "VARATT_IS_EXTERNAL obj")
      case True
      from indirect(3) True obtain q where "toast_fetch_datum env obj = Inr q" "inline_datum ms q d" "VARATT_IS_EXTERNAL_ONDISK obj"
        by (cases rule: represents_external_cases) (use indirect(4) in auto)
      with od [of obj q fuel] indirect(1,2) True show ?thesis
        by (subst detoast_external_attr.simps) (simp add: varatt_simps deref_def the_datum_def)
    next
      case False
      with represents_inline_iff [OF indirect(3)] inline_copy obtain n q where
        "VARSIZE_ANY obj = Inr n" "rd_range obj 0 (nat n) = Inr q" "inline_datum ms q d" by blast
      with indirect(1,2) False show ?thesis
        by (subst detoast_external_attr.simps) (simp add: varatt_simps deref_def)
    qed
  qed
qed

section \<open>Pointers into TOAST tables\<close>

text \<open>The table and value an out-of-line datum points to.\<close>

definition pointer_id :: "bytes \<Rightarrow> (oid \<times> oid) option" where
  "pointer_id p =
     (if VARATT_IS_EXTERNAL_ONDISK p then
        (case VARATT_EXTERNAL_GET_POINTER p of Inl e \<Rightarrow> None | Inr tp \<Rightarrow> Some (va_toastrelid tp, va_valueid tp))
      else None)"

definition col_pointer :: "pg_attribute \<Rightarrow> datum \<Rightarrow> bool \<Rightarrow> (oid \<times> oid) option" where
  "col_pointer att v n = (if attlen att = -1 \<and> \<not> n then pointer_id (DatumGetPointer v) else None)"

lemma pointer_id_external [simp]: "pointer_id (external_bytes tp @ r) = Some (va_toastrelid tp, va_valueid tp)"
  by (simp add: pointer_id_def varatt_simps)

definition row_pointers :: "pg_attribute list \<Rightarrow> datum list \<Rightarrow> bool list \<Rightarrow> (oid \<times> oid) option list" where
  "row_pointers as vs ns = map (\<lambda>(a, v, n). col_pointer a v n) (zip as (zip vs ns))"

text \<open>Deleting the values \<open>dead\<close> from all tables.\<close>

definition purge :: "(oid \<times> oid) set \<Rightarrow> toast_store \<Rightarrow> toast_store" where
  "purge dead store = (\<lambda>relid. map_option
     (\<lambda>trel. trel\<lparr>tr_rows := filter (\<lambda>c. (relid, chunk_id c) \<notin> dead) (tr_rows trel)\<rparr>) (store relid))"

lemma purge_purge: "purge a (purge b store) = purge (a \<union> b) store"
  by (rule ext) (simp add: purge_def option.map_comp comp_def conj_commute)

lemma purge_empty [simp]: "purge {} store = store"
  by (simp add: purge_def option.map_ident)

lemma in_store_purge:
  assumes "in_store env relid vid data" "(relid, vid) \<notin> dead"
  shows "in_store (env\<lparr>de_store := purge dead (de_store env)\<rparr>) relid vid data"
proof -
  from assms(1) obtain trel where t: "de_store env relid = Some trel" "has_valid_index trel" "stored trel vid data"
    by (auto simp: in_store_def)
  have "filter (\<lambda>c. chunk_id c = vid) (filter (\<lambda>c. (relid, chunk_id c) \<notin> dead) (tr_rows trel)) =
      filter (\<lambda>c. chunk_id c = vid) (tr_rows trel)"
    unfolding filter_filter by (rule filter_cong) (use assms(2) in auto)
  with t show ?thesis
    by (simp add: in_store_def purge_def has_valid_index_def stored_def scan_ordered_def)
qed

text \<open>A pointer represents what the table has for it.\<close>

definition pointer_for :: "int set \<Rightarrow> varatt_external \<Rightarrow> bytes \<Rightarrow> bytes \<Rightarrow> bool" where
  "pointer_for ms tp d data \<longleftrightarrow>
     fits_4b d \<and> 0 < length d \<and> data = d \<and>
       tp = ext_pointer (int (length d)) (int (length d)) 0 (va_valueid tp) (va_toastrelid tp) \<or>
     (\<exists>cm c. cm \<in> ms \<and> payload_of cm d c \<and> data = tcinfo d cm @ c \<and>
       tp = ext_pointer (int (length d)) (int (length c) + 4) cm (va_valueid tp) (va_toastrelid tp))"

lemma external_bytes_append: "external_bytes a @ r = external_bytes b @ s \<longleftrightarrow> a = b \<and> r = s"
proof
  assume e: "external_bytes a @ r = external_bytes b @ s"
  from arg_cong [OF this, of VARATT_EXTERNAL_GET_POINTER] have "a = b" by (simp add: varatt_simps)
  with e show "a = b \<and> r = s" by simp
qed simp

lemma ext_pointer_ids [simp]:
  "va_toastrelid (ext_pointer n e cm vid relid) = relid" "va_valueid (ext_pointer n e cm vid relid) = vid"
  by (simp_all add: ext_pointer_def)

lemma represents_pointer:
  "represents ms env (external_bytes tp @ r) d \<longleftrightarrow>
     (\<exists>data. in_store env (va_toastrelid tp) (va_valueid tp) data \<and> pointer_for ms tp d data)"
proof
  assume "represents ms env (external_bytes tp @ r) d"
  then show "\<exists>data. in_store env (va_toastrelid tp) (va_valueid tp) data \<and> pointer_for ms tp d data"
  proof cases
    case inline
    from inline_not_external [OF this] show ?thesis by (simp add: varatt_simps varatt_class_defs)
  next
    case (indirect a obj r')
    then show ?thesis using ondisk_pointer by metis
  qed (auto simp: external_bytes_append pointer_for_def)
next
  assume "\<exists>data. in_store env (va_toastrelid tp) (va_valueid tp) data \<and> pointer_for ms tp d data"
  then show "represents ms env (external_bytes tp @ r) d"
    unfolding pointer_for_def by (metis represents.external represents.external_compressed)
qed

lemma represents_ondisk:
  assumes "represents ms env p d" "VARATT_IS_EXTERNAL_ONDISK p"
  obtains tp r where "p = external_bytes tp @ r"
  using assms(1)
proof cases
  case inline
  from inline_not_external [OF this] assms(2) show thesis by simp
qed (use that assms(2) in auto)

lemma survives_purge:
  assumes "survives env dead p d"
  shows "represents UNIV (env\<lparr>de_store := purge dead (de_store env)\<rparr>) p d"
  using assms in_store_purge unfolding survives_def
  by (auto simp: represents_pointer intro: represents.inline) blast

section \<open>Deleting values\<close>

definition deletable :: "toast_store \<Rightarrow> bytes \<Rightarrow> bool" where
  "deletable store p \<longleftrightarrow> (\<exists>tp r trel. p = external_bytes tp @ r \<and> store (va_toastrelid tp) = Some trel \<and> has_valid_index trel)"

lemma represents_deletable:
  assumes "represents ms env p d" "VARATT_IS_EXTERNAL_ONDISK p"
  shows "deletable (de_store env) p"
proof -
  obtain tp r where p: "p = external_bytes tp @ r" using represents_ondisk [OF assms] by blast
  with assms(1) show ?thesis by (auto simp: represents_pointer in_store_def deletable_def)
qed

lemma deletable_purge: "deletable store p \<Longrightarrow> deletable (purge dead store) p"
  by (fastforce simp: deletable_def purge_def has_valid_index_def)

lemma toast_delete_purge:
  assumes "deletable store p"
  shows "\<exists>x. pointer_id p = Some x \<and> toast_delete_datum store p spec = Inr (purge {x} store)"
proof -
  from assms obtain tp r trel where p: "p = external_bytes tp @ r" "store (va_toastrelid tp) = Some trel" "has_valid_index trel"
    by (auto simp: deletable_def)
  have "purge {(va_toastrelid tp, va_valueid tp)} store =
      store(va_toastrelid tp \<mapsto> trel\<lparr>tr_rows := filter (\<lambda>c. chunk_id c \<noteq> va_valueid tp) (tr_rows trel)\<rparr>)"
    by (rule ext) (auto simp: purge_def p(2) option.map_ident)
  with toast_delete_datum_rows [of store, OF p(2,3)] show ?thesis by (simp add: p(1))
qed

lemma toast_cleanup_purge:
  "length olds = length tais \<Longrightarrow>
   \<forall>i<length tais. flag_set (tai_colflags (tais ! i)) TOASTCOL_NEEDS_DELETE_OLD \<longrightarrow> deletable store (DatumGetPointer (olds ! i)) \<Longrightarrow>
   toast_cleanup_loop store olds tais = Inr (purge {x. \<exists>i<length tais.
     flag_set (tai_colflags (tais ! i)) TOASTCOL_NEEDS_DELETE_OLD \<and> pointer_id (DatumGetPointer (olds ! i)) = Some x} store)"
proof (induction store olds tais rule: toast_cleanup_loop.induct)
  case (1 store old olds tai tais)
  let ?D = "{x. \<exists>i<length tais. flag_set (tai_colflags (tais ! i)) TOASTCOL_NEEDS_DELETE_OLD \<and>
      pointer_id (DatumGetPointer (olds ! i)) = Some x}"
  have rest: "\<forall>i<length tais. flag_set (tai_colflags (tais ! i)) TOASTCOL_NEEDS_DELETE_OLD \<longrightarrow>
      deletable store (DatumGetPointer (olds ! i))" and len: "length olds = length tais"
    using 1(3,4) by (auto simp: All_less_Suc2)
  have cons: "{x. \<exists>i<length (tai # tais). flag_set (tai_colflags ((tai # tais) ! i)) TOASTCOL_NEEDS_DELETE_OLD \<and>
      pointer_id (DatumGetPointer ((old # olds) ! i)) = Some x} =
      ?D \<union> {x. flag_set (tai_colflags tai) TOASTCOL_NEEDS_DELETE_OLD \<and> pointer_id (DatumGetPointer old) = Some x}"
    by (auto simp: Ex_less_Suc2)
  show ?case
  proof (cases "flag_set (tai_colflags tai) TOASTCOL_NEEDS_DELETE_OLD")
    case True
    with 1(4) have "deletable store (DatumGetPointer old)" by auto
    with toast_delete_purge obtain x where x: "pointer_id (DatumGetPointer old) = Some x"
      "toast_delete_datum store (DatumGetPointer old) False = Inr (purge {x} store)" by blast
    have "toast_cleanup_loop (purge {x} store) olds tais = Inr (purge ?D (purge {x} store))"
      by (rule 1(1) [OF True x(2) len]) (use rest deletable_purge in blast)
    with True x show ?thesis unfolding cons by (simp add: purge_purge)
  next
    case False
    with 1(2) [OF False len rest] show ?thesis unfolding cons by simp
  qed
qed auto

lemma toast_delete_external_purge:
  "length vs = length as \<Longrightarrow> length ns = length as \<Longrightarrow>
   \<forall>i<length as. attlen (as ! i) = -1 \<and> \<not> ns ! i \<and> VARATT_IS_EXTERNAL_ONDISK (DatumGetPointer (vs ! i)) \<longrightarrow>
     deletable store (DatumGetPointer (vs ! i)) \<Longrightarrow>
   toast_delete_external store as vs ns spec = Inr (purge {x. Some x \<in> set (row_pointers as vs ns)} store)"
proof (induction store as vs ns spec rule: toast_delete_external.induct)
  case (1 store a as v vs n ns spec)
  let ?D = "{x. Some x \<in> set (row_pointers as vs ns)}"
  let ?e = "attlen a = -1 \<and> \<not> n \<and> VARATT_IS_EXTERNAL_ONDISK (DatumGetPointer v)"
  have rest: "\<forall>i<length as. attlen (as ! i) = -1 \<and> \<not> ns ! i \<and> VARATT_IS_EXTERNAL_ONDISK (DatumGetPointer (vs ! i)) \<longrightarrow>
     deletable store (DatumGetPointer (vs ! i))" and len: "length vs = length as" "length ns = length as"
    using 1(3-5) by (auto simp: All_less_Suc2)
  have cons: "{x. Some x \<in> set (row_pointers (a # as) (v # vs) (n # ns))} = ?D \<union> {x. col_pointer a v n = Some x}"
    by (auto simp: row_pointers_def)
  show ?case
  proof (cases ?e)
    case True
    with 1(5) have "deletable store (DatumGetPointer v)" by (auto simp: All_less_Suc2)
    with toast_delete_purge obtain x where x: "pointer_id (DatumGetPointer v) = Some x"
      "toast_delete_datum store (DatumGetPointer v) spec = Inr (purge {x} store)" by blast
    have "toast_delete_external (purge {x} store) as vs ns spec = Inr (purge ?D (purge {x} store))"
      by (rule 1(1) [OF True x(2) len]) (use rest deletable_purge in blast)
    with True x show ?thesis unfolding cons by (simp add: purge_purge col_pointer_def)
  next
    case False
    then have "col_pointer a v n = None" by (auto simp: col_pointer_def pointer_id_def)
    with 1(2) [OF False len rest] False show ?thesis unfolding cons by (subst toast_delete_external.simps) auto
  qed
qed (auto simp: row_pointers_def)

section \<open>Setting up the columns\<close>

lemma varlena_col:
  assumes "att_ok att" "attlen att = -1" "col_holds ms env att v False c"
  obtains d p where "c = ColText d" "v = ByRef p" "represents ms env p d" "\<not> attbyval att"
  using assms by (cases c) (auto simp: col_holds_def att_ok_def)

lemma detoast_inline:
  assumes "represents UNIV env p d"
  shows "\<exists>r. detoast_attr (Suc fuel) env p = Inr r \<and> inline_datum UNIV (the_datum p r) d"
proof -
  obtain r x where "detoast_attr (Suc fuel) env p = Inr r" "the_datum p r = mk_plain d @ x"
    using detoast_attr_represents [OF assms, of "if VARATT_IS_EXTERNAL_INDIRECT p then fuel else Suc fuel"]
    by (auto split: if_splits)
  with represents_fits [OF assms] show ?thesis by (auto simp: inline_datum_def text_datum_def)
qed

lemma toast_init_value_state:
  assumes ok: "att_ok att" "col_holds UNIV (tp_detoast ps) att v n c" "tp_fuel ps = Suc k"
    and tai: "tai_compression tai = attcompression att" "\<not> flag_set (tai_colflags tai) TOASTCOL_IGNORE"
  shows "\<exists>v' tai' flags'. toast_init_value ps att v n tai flags = Inr (v', tai', flags') \<and>
    col_state (tp_detoast ps) dead att v' n tai' c \<and>
    flag_set (tai_colflags tai') TOASTCOL_NEEDS_DELETE_OLD = flag_set (tai_colflags tai) TOASTCOL_NEEDS_DELETE_OLD \<and>
    flag_set flags' TOAST_HAS_NULLS = (flag_set flags TOAST_HAS_NULLS \<or> n) \<and>
    flag_set flags' TOAST_NEEDS_DELETE_OLD = flag_set flags TOAST_NEEDS_DELETE_OLD \<and>
    (\<not> flag_set flags' TOAST_NEEDS_CHANGE \<longrightarrow> \<not> flag_set flags TOAST_NEEDS_CHANGE \<and> v' = v)"
proof (cases "n \<or> attlen att \<noteq> -1")
  case True
  with ok(2) have "\<forall>d. c \<noteq> ColText d" by (auto simp: col_holds_def)
  with True ok(2) show ?thesis by (auto simp: toast_init_value_def col_state_def)
next
  case False
  then have n: "n = False" "attlen att = -1" by simp_all
  obtain d p where c: "c = ColText d" "v = ByRef p" "represents UNIV (tp_detoast ps) p d" "\<not> attbyval att"
    using varlena_col [OF ok(1) n(2)] ok(2) n(1) by blast
  define t where "t = (if attstorage att = TYPSTORAGE_PLAIN
      then tai\<lparr>tai_colflags := tai_colflags tai OR TOASTCOL_IGNORE\<rparr> else tai)"
  have t: "tai_compression t = attcompression att"
    "flag_set (tai_colflags t) TOASTCOL_NEEDS_DELETE_OLD = flag_set (tai_colflags tai) TOASTCOL_NEEDS_DELETE_OLD"
    "flag_set (tai_colflags t) TOASTCOL_IGNORE \<longrightarrow> attstorage att = TYPSTORAGE_PLAIN"
    using tai by (simp_all add: t_def)
  have fin: "\<exists>n'. VARSIZE_ANY q = Inr n' \<and> col_state (tp_detoast ps) dead att (ByRef q) n (tai'\<lparr>tai_size := to_int32 n'\<rparr>) c"
    if "inline_datum UNIV q d" "tai_compression tai' = attcompression att"
      "flag_set (tai_colflags tai') TOASTCOL_IGNORE \<longrightarrow> attstorage att = TYPSTORAGE_PLAIN" for q tai'
    using inline_size [OF that(1)] inline_col_state [OF that(1), of _ att n] that(2,3) n c by auto
  have val: "toast_init_value ps att v n tai flags =
      bindE (if VARATT_IS_EXTERNAL p then
         bindE (if attstorage att = TYPSTORAGE_PLAIN then detoast_attr (tp_fuel ps) (tp_detoast ps) p
                else detoast_external_attr (tp_fuel ps) (tp_detoast ps) p) (\<lambda>r.
           Inr (ByRef (the_datum p r), t\<lparr>tai_oldexternal := Some p, tai_colflags := tai_colflags t OR TOASTCOL_NEEDS_FREE\<rparr>,
                flags OR (TOAST_NEEDS_CHANGE OR TOAST_NEEDS_FREE)))
       else Inr (ByRef p, t, flags)) (\<lambda>(value, tai, flags).
      bindE (VARSIZE_ANY (DatumGetPointer value)) (\<lambda>n. Inr (value, tai\<lparr>tai_size := to_int32 n\<rparr>, flags)))"
    unfolding toast_init_value_def Let_def t_def using n c(2) by (simp add: DatumGetPointer_def)
  show ?thesis
  proof (cases "VARATT_IS_EXTERNAL p")
    case True
    let ?x = "t\<lparr>tai_oldexternal := Some p, tai_colflags := tai_colflags t OR TOASTCOL_NEEDS_FREE\<rparr>"
    have "\<exists>r. (if attstorage att = TYPSTORAGE_PLAIN then detoast_attr (tp_fuel ps) (tp_detoast ps) p
        else detoast_external_attr (tp_fuel ps) (tp_detoast ps) p) = Inr r \<and> inline_datum UNIV (the_datum p r) d"
      using detoast_inline [OF c(3), of k] detoast_external_represents [OF c(3) True, of k] ok(3)
      by (force simp: the_datum_def)
    then obtain r where r: "(if attstorage att = TYPSTORAGE_PLAIN then detoast_attr (tp_fuel ps) (tp_detoast ps) p
        else detoast_external_attr (tp_fuel ps) (tp_detoast ps) p) = Inr r" "inline_datum UNIV (the_datum p r) d"
      by blast
    obtain n' where n': "VARSIZE_ANY (the_datum p r) = Inr n'"
      "col_state (tp_detoast ps) dead att (ByRef (the_datum p r)) n (?x\<lparr>tai_size := to_int32 n'\<rparr>) c"
      using fin [OF r(2), of ?x] t(1,3) by auto
    have "toast_init_value ps att v n tai flags = Inr (ByRef (the_datum p r), ?x\<lparr>tai_size := to_int32 n'\<rparr>,
        flags OR (TOAST_NEEDS_CHANGE OR TOAST_NEEDS_FREE))"
      unfolding val r(1) using True n'(1) by (simp add: DatumGetPointer_def)
    with n'(2) n t(2) show ?thesis by auto
  next
    case False
    with fin [of p t] c(3) t(1,3) represents_inline_iff obtain n' where n': "VARSIZE_ANY p = Inr n'"
      "col_state (tp_detoast ps) dead att (ByRef p) n (t\<lparr>tai_size := to_int32 n'\<rparr>) c" by auto
    then have "toast_init_value ps att v n tai flags = Inr (ByRef p, t\<lparr>tai_size := to_int32 n'\<rparr>, flags)"
      unfolding val using False by (simp add: DatumGetPointer_def)
    with n'(2) n t(2) c(2) show ?thesis by auto
  qed
qed

text \<open>An update replaces the old value of a column unless the new tuple has the same pointer.\<close>

definition col_replaced :: "pg_attribute \<Rightarrow> datum \<Rightarrow> bool \<Rightarrow> datum \<Rightarrow> bool \<Rightarrow> bool" where
  "col_replaced att ov on v n \<longleftrightarrow> col_pointer att ov on \<noteq> None \<and>
     (n \<or> take 18 (DatumGetPointer v) \<noteq> take 18 (DatumGetPointer ov))"

lemma pointer_col:
  assumes "att_ok att" "col_holds ms env att v n c"
  shows "col_pointer att v n = Some x \<longleftrightarrow> attlen att = -1 \<and> \<not> n \<and>
    (\<exists>tp r d. v = ByRef (external_bytes tp @ r) \<and> c = ColText d \<and> x = (va_toastrelid tp, va_valueid tp))"
proof
  assume a: "col_pointer att v n = Some x"
  then have n: "attlen att = -1" "n = False" "VARATT_IS_EXTERNAL_ONDISK (DatumGetPointer v)"
    by (auto simp: col_pointer_def pointer_id_def split: if_splits)
  obtain d p where c: "c = ColText d" "v = ByRef p" "represents ms env p d"
    using varlena_col [OF assms(1) n(1)] assms(2) n(2) by blast
  with n(3) represents_ondisk [OF c(3)] obtain tp r where "p = external_bytes tp @ r"
    by (auto simp: DatumGetPointer_def)
  with a n c show "attlen att = -1 \<and> \<not> n \<and>
      (\<exists>tp r d. v = ByRef (external_bytes tp @ r) \<and> c = ColText d \<and> x = (va_toastrelid tp, va_valueid tp))"
    by (auto simp: col_pointer_def DatumGetPointer_def)
qed (auto simp: col_pointer_def DatumGetPointer_def)

lemma pointer_col_None:
  assumes "att_ok att" "col_holds ms env att v n c"
  shows "col_pointer att v n = None \<longleftrightarrow> \<not> (attlen att = -1 \<and> \<not> n \<and> VARATT_IS_EXTERNAL_ONDISK (DatumGetPointer v))"
proof (cases "attlen att = -1 \<and> \<not> n \<and> VARATT_IS_EXTERNAL_ONDISK (DatumGetPointer v)")
  case True
  obtain d p where c: "c = ColText d" "v = ByRef p" "represents ms env p d"
    using varlena_col [OF assms(1)] assms(2) True by (metis (full_types))
  with True represents_ondisk [OF c(3)] obtain tp r where "p = external_bytes tp @ r"
    by (auto simp: DatumGetPointer_def)
  with True c show ?thesis by (auto simp: col_pointer_def DatumGetPointer_def)
qed (auto simp: col_pointer_def pointer_id_def)

lemma take_external [simp]: "take 18 (external_bytes tp @ r) = external_bytes tp"
  by simp

lemma toast_old_state:
  assumes ok: "att_ok att" and old: "col_holds UNIV env att ov on oc" and new: "col_holds UNIV env att v n c"
    and x: "col_pointer att ov on = Some x"
  shows "toast_old_replaced ov v n = Inr (col_replaced att ov on v n)"
    "\<not> col_replaced att ov on v n \<Longrightarrow> col_pointer att v n = Some x"
proof -
  obtain tp r where o: "attlen att = -1" "ov = ByRef (external_bytes tp @ r)"
    "x = (va_toastrelid tp, va_valueid tp)" using iffD1 [OF pointer_col [OF ok old] x] by blast
  show "col_pointer att v n = Some x" if "\<not> col_replaced att ov on v n"
  proof -
    from that x o have n: "\<not> n" "take 18 (DatumGetPointer v) = external_bytes tp"
      by (auto simp: col_replaced_def DatumGetPointer_def)
    then have "DatumGetPointer v = external_bytes tp @ drop 18 (DatumGetPointer v)"
      by (metis append_take_drop_id)
    then have "pointer_id (DatumGetPointer v) = Some x" using o(3) by (metis pointer_id_external)
    with n(1) o(1) show ?thesis by (simp add: col_pointer_def)
  qed
  show "toast_old_replaced ov v n = Inr (col_replaced att ov on v n)"
  proof (cases "n \<or> \<not> VARATT_IS_EXTERNAL_ONDISK (DatumGetPointer v)")
    case True
    then have "col_pointer att v n = None" by (auto simp: col_pointer_def pointer_id_def)
    with \<open>\<not> col_replaced att ov on v n \<Longrightarrow> col_pointer att v n = Some x\<close> have "col_replaced att ov on v n" by auto
    with True show ?thesis by (auto simp: toast_old_replaced_def)
  next
    case False
    then have "col_pointer att v n \<noteq> None" using o(1) pointer_col_None [OF ok new] by simp
    then obtain tp' r' where v: "v = ByRef (external_bytes tp' @ r')" using pointer_col [OF ok new] by auto
    have "VARSIZE_EXTERNAL (external_bytes tp @ r) = 18"
      by (simp add: VARSIZE_EXTERNAL_def varatt_simps VARTAG_SIZE_def VARTAG_IS_EXPANDED_def vartags varhdrsz)
    then show ?thesis
      using False x o(2) v by (auto simp: toast_old_replaced_def col_replaced_def DatumGetPointer_def rd_range_prefix)
  qed
qed

text \<open>The old columns as \<open>toast_tuple_init\<close> sees them, and the condition that a pointer that is kept is not to be
  deleted.\<close>

definition old_state :: "detoast_env \<Rightarrow> (oid \<times> oid) set \<Rightarrow> pg_attribute \<Rightarrow> (datum \<times> bool) option \<Rightarrow> datum \<Rightarrow> bool \<Rightarrow> bool" where
  "old_state env dead att old v n \<longleftrightarrow> (case old of None \<Rightarrow> True
     | Some (ov, on) \<Rightarrow> (\<exists>oc. col_holds UNIV env att ov on oc) \<and>
         (\<forall>x. col_pointer att ov on = Some x \<longrightarrow> \<not> col_replaced att ov on v n \<longrightarrow> x \<notin> dead))"

definition old_replaced :: "pg_attribute \<Rightarrow> (datum \<times> bool) option \<Rightarrow> datum \<Rightarrow> bool \<Rightarrow> bool" where
  "old_replaced att old v n \<longleftrightarrow> (case old of None \<Rightarrow> False | Some (ov, on) \<Rightarrow> col_replaced att ov on v n)"

lemma toast_init_attr_state:
  assumes ok: "att_ok att" "col_holds UNIV (tp_detoast ps) att v n c" "tp_fuel ps = Suc k"
    and old: "old_state (tp_detoast ps) dead att old v n"
  shows "\<exists>v' tai' flags'. toast_init_attr ps att old v n tai flags = Inr (v', tai', flags') \<and>
    col_state (tp_detoast ps) dead att v' n tai' c \<and>
    flag_set (tai_colflags tai') TOASTCOL_NEEDS_DELETE_OLD = old_replaced att old v n \<and>
    flag_set flags' TOAST_HAS_NULLS = (flag_set flags TOAST_HAS_NULLS \<or> n) \<and>
    flag_set flags' TOAST_NEEDS_DELETE_OLD = (flag_set flags TOAST_NEEDS_DELETE_OLD \<or> old_replaced att old v n) \<and>
    (\<not> flag_set flags' TOAST_NEEDS_CHANGE \<longrightarrow> \<not> flag_set flags TOAST_NEEDS_CHANGE \<and> v' = v)"
proof -
  let ?t = "tai\<lparr>tai_colflags := 0, tai_oldexternal := None, tai_compression := attcompression att\<rparr>"
  let ?del = "?t\<lparr>tai_colflags := tai_colflags ?t OR TOASTCOL_NEEDS_DELETE_OLD\<rparr>"
  note new = toast_init_value_state [OF ok, where dead = dead]
  show ?thesis
  proof (cases "\<exists>ov on x. old = Some (ov, on) \<and> col_pointer att ov on = Some x")
    case True
    then obtain ov on x where o: "old = Some (ov, on)" "col_pointer att ov on = Some x" by blast
    with old obtain oc where h: "col_holds UNIV (tp_detoast ps) att ov on oc"
      "\<not> col_replaced att ov on v n \<Longrightarrow> x \<notin> dead"
      unfolding old_state_def o(1) option.case prod.case by blast
    note st = toast_old_state [OF ok(1) h(1) ok(2) o(2)]
    have ext: "toast_old_external att old"
      using pointer_col_None [OF ok(1) h(1)] o by (simp add: toast_old_external_def)
    show ?thesis
    proof (cases "col_replaced att ov on v n")
      case True
      with st(1) ext o(1) have "toast_init_attr ps att old v n tai flags =
          toast_init_value ps att v n ?del (flags OR TOAST_NEEDS_DELETE_OLD)"
        by (simp add: toast_init_attr_def Let_def)
      with new [of ?del "flags OR TOAST_NEEDS_DELETE_OLD"] True o(1) show ?thesis
        by (auto simp: old_replaced_def)
    next
      case False
      obtain tp r d where v: "\<not> n" "v = ByRef (external_bytes tp @ r)" "c = ColText d"
        "x = (va_toastrelid tp, va_valueid tp)" using iffD1 [OF pointer_col [OF ok(1,2)] st(2) [OF False]] by blast
      have "col_state (tp_detoast ps) dead att v n (?t\<lparr>tai_colflags := tai_colflags ?t OR TOASTCOL_IGNORE\<rparr>) c"
        using ok(2) v h(2) [OF False] ondisk_pointer(1) [of tp r]
        by (auto simp: col_state_def survives_def col_holds_def DatumGetPointer_def varatt_class_defs)
      moreover have "toast_init_attr ps att old v n tai flags =
          Inr (v, ?t\<lparr>tai_colflags := tai_colflags ?t OR TOASTCOL_IGNORE\<rparr>, flags)"
        using False st(1) ext o(1) by (simp add: toast_init_attr_def Let_def)
      ultimately show ?thesis using False o(1) v(1) by (auto simp: old_replaced_def)
    qed
  next
    case False
    then have "\<not> old_replaced att old v n" by (auto simp: old_replaced_def col_replaced_def split: option.splits)
    moreover have "\<not> toast_old_external att old"
    proof (cases old)
      case (Some z)
      obtain ov on where z: "z = (ov, on)" by (cases z)
      with old Some obtain oc where "col_holds UNIV (tp_detoast ps) att ov on oc" by (auto simp: old_state_def)
      from pointer_col_None [OF ok(1) this] False Some z show ?thesis by (auto simp: toast_old_external_def)
    qed (simp add: toast_old_external_def)
    then have "toast_init_attr ps att old v n tai flags = toast_init_value ps att v n ?t flags"
      by (simp add: toast_init_attr_def Let_def)
    ultimately show ?thesis using new [of ?t flags] by auto
  qed
qed

lemma toast_init_loop_state:
  assumes "length olds = length as" "length vs = length as" "length ns = length as" "length cs = length as"
    "length as \<le> length tais" "tp_fuel ps = Suc k"
    "\<forall>i<length as. att_ok (as ! i) \<and> col_holds UNIV (tp_detoast ps) (as ! i) (vs ! i) (ns ! i) (cs ! i) \<and>
       old_state (tp_detoast ps) dead (as ! i) (olds ! i) (vs ! i) (ns ! i)"
  shows "\<exists>vs' tais' flags'. toast_init_loop ps as olds vs ns tais flags = Inr (vs', tais', flags') \<and>
    length vs' = length as \<and> length tais' = length as \<and>
    (\<forall>i<length as. col_state (tp_detoast ps) dead (as ! i) (vs' ! i) (ns ! i) (tais' ! i) (cs ! i) \<and>
       flag_set (tai_colflags (tais' ! i)) TOASTCOL_NEEDS_DELETE_OLD = old_replaced (as ! i) (olds ! i) (vs ! i) (ns ! i)) \<and>
    flag_set flags' TOAST_HAS_NULLS = (flag_set flags TOAST_HAS_NULLS \<or> True \<in> set ns) \<and>
    flag_set flags' TOAST_NEEDS_DELETE_OLD = (flag_set flags TOAST_NEEDS_DELETE_OLD \<or>
      (\<exists>i<length as. old_replaced (as ! i) (olds ! i) (vs ! i) (ns ! i))) \<and>
    (\<not> flag_set flags' TOAST_NEEDS_CHANGE \<longrightarrow> \<not> flag_set flags TOAST_NEEDS_CHANGE \<and> vs' = vs)"
  using assms
proof (induction as arbitrary: olds vs ns cs tais flags)
  case (Cons a as)
  from Cons.prems(1-5) obtain old olds1 v vs1 n ns1 c cs1 tai tais1 where l: "olds = old # olds1" "vs = v # vs1"
    "ns = n # ns1" "cs = c # cs1" "tais = tai # tais1"
    by (cases olds; cases vs; cases ns; cases cs; cases tais) auto
  from Cons.prems(7) have h: "att_ok a" "col_holds UNIV (tp_detoast ps) a v n c" "old_state (tp_detoast ps) dead a old v n"
    "\<forall>i<length as. att_ok (as ! i) \<and> col_holds UNIV (tp_detoast ps) (as ! i) (vs1 ! i) (ns1 ! i) (cs1 ! i) \<and>
       old_state (tp_detoast ps) dead (as ! i) (olds1 ! i) (vs1 ! i) (ns1 ! i)"
    unfolding l by (simp_all add: All_less_Suc2)
  obtain v' tai' flags' where s: "toast_init_attr ps a old v n tai flags = Inr (v', tai', flags')"
    "col_state (tp_detoast ps) dead a v' n tai' c"
    "flag_set (tai_colflags tai') TOASTCOL_NEEDS_DELETE_OLD = old_replaced a old v n"
    "flag_set flags' TOAST_HAS_NULLS = (flag_set flags TOAST_HAS_NULLS \<or> n)"
    "flag_set flags' TOAST_NEEDS_DELETE_OLD = (flag_set flags TOAST_NEEDS_DELETE_OLD \<or> old_replaced a old v n)"
    "\<not> flag_set flags' TOAST_NEEDS_CHANGE \<longrightarrow> \<not> flag_set flags TOAST_NEEDS_CHANGE \<and> v' = v"
    using toast_init_attr_state [OF h(1,2) Cons.prems(6) h(3)] by blast
  obtain vs' tais' flags'' where r: "toast_init_loop ps as olds1 vs1 ns1 tais1 flags' = Inr (vs', tais', flags'')"
    "length vs' = length as" "length tais' = length as"
    "\<forall>i<length as. col_state (tp_detoast ps) dead (as ! i) (vs' ! i) (ns1 ! i) (tais' ! i) (cs1 ! i) \<and>
       flag_set (tai_colflags (tais' ! i)) TOASTCOL_NEEDS_DELETE_OLD = old_replaced (as ! i) (olds1 ! i) (vs1 ! i) (ns1 ! i)"
    "flag_set flags'' TOAST_HAS_NULLS = (flag_set flags' TOAST_HAS_NULLS \<or> True \<in> set ns1)"
    "flag_set flags'' TOAST_NEEDS_DELETE_OLD = (flag_set flags' TOAST_NEEDS_DELETE_OLD \<or>
      (\<exists>i<length as. old_replaced (as ! i) (olds1 ! i) (vs1 ! i) (ns1 ! i)))"
    "\<not> flag_set flags'' TOAST_NEEDS_CHANGE \<longrightarrow> \<not> flag_set flags' TOAST_NEEDS_CHANGE \<and> vs' = vs1"
    using Cons.IH [of olds1 vs1 ns1 cs1 tais1 flags'] Cons.prems(1-6) h(4) unfolding l by auto
  have "toast_init_loop ps (a # as) olds vs ns tais flags = Inr (v' # vs', tai' # tais', flags'')"
    by (simp add: l s(1) r(1))
  moreover have "flag_set flags'' TOAST_HAS_NULLS = (flag_set flags TOAST_HAS_NULLS \<or> True \<in> set ns)"
    using r(5) s(4) by (auto simp: l)
  moreover have "flag_set flags'' TOAST_NEEDS_DELETE_OLD = (flag_set flags TOAST_NEEDS_DELETE_OLD \<or>
      (\<exists>i<length (a # as). old_replaced ((a # as) ! i) (olds ! i) (vs ! i) (ns ! i)))"
    using r(6) s(5) by (auto simp: l Ex_less_Suc2)
  moreover have "\<forall>i<length (a # as). col_state (tp_detoast ps) dead ((a # as) ! i) ((v' # vs') ! i) (ns ! i) ((tai' # tais') ! i) (cs ! i) \<and>
       flag_set (tai_colflags ((tai' # tais') ! i)) TOASTCOL_NEEDS_DELETE_OLD = old_replaced ((a # as) ! i) (olds ! i) (vs ! i) (ns ! i)"
    using r(4) s(2,3) by (simp add: l All_less_Suc2)
  moreover have "\<not> flag_set flags'' TOAST_NEEDS_CHANGE \<longrightarrow> \<not> flag_set flags TOAST_NEEDS_CHANGE \<and> v' # vs' = vs"
    using r(7) s(6) by (simp add: l)
  ultimately show ?case using r(2,3) by (metis length_Cons)
qed simp

text \<open>The old columns, the values to delete, and that no two columns share a stored value.\<close>

abbreviation old_cols :: "nat \<Rightarrow> (datum list \<times> bool list) option \<Rightarrow> (datum \<times> bool) option list" where
  "old_cols k old \<equiv> (case old of None \<Rightarrow> replicate k None | Some (ovs, ons) \<Rightarrow> map Some (zip ovs ons))"

definition dead_pointers :: "pg_attribute list \<Rightarrow> (datum list \<times> bool list) option \<Rightarrow> datum list \<Rightarrow> bool list \<Rightarrow> (oid \<times> oid) set" where
  "dead_pointers as old vs ns = (case old of None \<Rightarrow> {} | Some (ovs, ons) \<Rightarrow>
     {x. \<exists>i<length as. col_pointer (as ! i) (ovs ! i) (ons ! i) = Some x \<and>
        col_replaced (as ! i) (ovs ! i) (ons ! i) (vs ! i) (ns ! i)})"

definition owned :: "pg_attribute list \<Rightarrow> datum list \<Rightarrow> bool list \<Rightarrow> bool" where
  "owned as vs ns \<longleftrightarrow> (\<forall>i<length as. \<forall>j<length as. \<forall>x. col_pointer (as ! i) (vs ! i) (ns ! i) = Some x \<longrightarrow>
     col_pointer (as ! j) (vs ! j) (ns ! j) = Some x \<longrightarrow> i = j)"

text \<open>The old tuple of an update: its row is stored as well.\<close>

definition old_ok :: "detoast_env \<Rightarrow> pg_attribute list \<Rightarrow> (datum list \<times> bool list) option \<Rightarrow> bool" where
  "old_ok env as old \<longleftrightarrow> (case old of None \<Rightarrow> True
     | Some (ovs, ons) \<Rightarrow> (\<exists>ocs. cols_hold UNIV env as ovs ons ocs) \<and> owned as ovs ons)"

lemma old_ok_state:
  assumes "old_ok env as old" "i < length as"
  shows "length (old_cols (length as) old) = length as"
    "old_state env (dead_pointers as old vs ns) (as ! i) (old_cols (length as) old ! i) (vs ! i) (ns ! i)"
proof -
  show "length (old_cols (length as) old) = length as"
    using assms by (auto simp: old_ok_def cols_hold_def split: option.splits)
  show "old_state env (dead_pointers as old vs ns) (as ! i) (old_cols (length as) old ! i) (vs ! i) (ns ! i)"
  proof (cases old)
    case None
    with assms(2) show ?thesis by (simp add: old_state_def)
  next
    case (Some z)
    obtain ovs ons where z: "z = (ovs, ons)" by (cases z)
    with Some assms(1) obtain ocs where h: "cols_hold UNIV env as ovs ons ocs" "owned as ovs ons"
      by (auto simp: old_ok_def)
    have n: "old_cols (length as) old ! i = Some (ovs ! i, ons ! i)"
      using h(1) assms(2) Some z by (simp add: cols_hold_def)
    have "x \<notin> dead_pointers as old vs ns" if "col_pointer (as ! i) (ovs ! i) (ons ! i) = Some x"
      "\<not> col_replaced (as ! i) (ovs ! i) (ons ! i) (vs ! i) (ns ! i)" for x
      using that h(2) assms(2) unfolding dead_pointers_def owned_def Some z option.case prod.case by blast
    with h(1) assms(2) show ?thesis unfolding n old_state_def by (auto simp: cols_hold_def)
  qed
qed

lemma toast_tuple_init_inv:
  assumes g: "goal_ok G" and env: "de_store (tp_detoast (tg_params G)) = tw_store tw" "tg_store G = tw_store tw"
      "tp_fuel (tg_params G) = Suc k"
    and new: "cols_hold UNIV (tp_detoast (tg_params G)) (tg_atts G) (tg_values G) (tg_nulls G) (tg_row G)"
    and old: "old_ok (tp_detoast (tg_params G)) (tg_atts G) old" "tg_old G = map_option fst old"
      "tg_dead G = dead_pointers (tg_atts G) old (tg_values G) (tg_nulls G)"
      "tg_delete G = map (\<lambda>i. old_replaced (tg_atts G ! i) (old_cols (length (tg_atts G)) old ! i)
        (tg_values G ! i) (tg_nulls G ! i)) [0..<length (tg_atts G)]"
    and oids: "oids_ready (rd_rel (tg_rel G)) (tg_dead G) (length (tg_atts G)) tw"
    and ttc: "ttc_values ttc = tg_values G" "ttc_isnull ttc = tg_nulls G" "ttc_oldvalues ttc = tg_old G"
      "ttc_oldisnull ttc = (case old of None \<Rightarrow> [] | Some (ovs, ons) \<Rightarrow> ons)" "length (tg_atts G) \<le> length (ttc_attr ttc)"
  shows "\<exists>ttc'. toast_tuple_init (tg_params G) (rd_att (tg_rel G)) ttc = Inr ttc' \<and> toast_inv G (ttc', tw)"
proof -
  let ?as = "tg_atts G" and ?olds = "old_cols (length (tg_atts G)) old" and ?env = "tp_detoast (tg_params G)"
  have lens: "length (tg_values G) = length ?as" "length (tg_nulls G) = length ?as" "length (tg_row G) = length ?as"
    using new by (simp_all add: cols_hold_def)
  have e: "tg_env G (tw_store tw) = ?env" using env(1) by simp
  have len: "length ?olds = length ?as"
    using old_ok_state(1) [OF old(1)] old(1) by (cases "length ?as = 0") (auto simp: old_ok_def cols_hold_def split: option.splits)
  have "\<forall>i<length ?as. att_ok (?as ! i) \<and> col_holds UNIV ?env (?as ! i) (tg_values G ! i) (tg_nulls G ! i) (tg_row G ! i) \<and>
       old_state ?env (tg_dead G) (?as ! i) (?olds ! i) (tg_values G ! i) (tg_nulls G ! i)"
    using g new old_ok_state(2) [OF old(1)] unfolding old(3) by (auto simp: goal_ok_def cols_hold_def)
  from toast_init_loop_state [OF len lens ttc(5) env(3) this, of 0]
  obtain vs' tais' flags' where r: "toast_init_loop (tg_params G) ?as ?olds (tg_values G) (tg_nulls G) (ttc_attr ttc) 0 = Inr (vs', tais', flags')"
    "length vs' = length ?as" "length tais' = length ?as"
    "\<forall>i<length ?as. col_state ?env (tg_dead G) (?as ! i) (vs' ! i) (tg_nulls G ! i) (tais' ! i) (tg_row G ! i) \<and>
       flag_set (tai_colflags (tais' ! i)) TOASTCOL_NEEDS_DELETE_OLD = old_replaced (?as ! i) (?olds ! i) (tg_values G ! i) (tg_nulls G ! i)"
    "flag_set flags' TOAST_HAS_NULLS = (True \<in> set (tg_nulls G))"
    "flag_set flags' TOAST_NEEDS_DELETE_OLD = (\<exists>i<length ?as. old_replaced (?as ! i) (?olds ! i) (tg_values G ! i) (tg_nulls G ! i))"
    "\<not> flag_set flags' TOAST_NEEDS_CHANGE \<longrightarrow> vs' = tg_values G"
    by auto
  have run: "toast_tuple_init (tg_params G) (rd_att (tg_rel G)) ttc =
      Inr (ttc\<lparr>ttc_values := vs', ttc_attr := tais', ttc_flags := flags'\<rparr>)"
    using r(1) ttc old(2) by (auto simp: toast_tuple_init_def split: option.splits)
  have o: "oids_ready (rd_rel (tg_rel G)) (tg_dead G) (open_cols tais') tw"
  proof -
    have "open_cols tais' \<le> length ?as" using r(3) length_filter_le unfolding open_cols_def by metis
    with oids show ?thesis by (auto simp: oids_ready_def)
  qed
  have del: "True \<in> set (tg_delete G) \<longleftrightarrow> (\<exists>i<length ?as. old_replaced (?as ! i) (?olds ! i) (tg_values G ! i) (tg_nulls G ! i))"
    unfolding old(4) by auto
  have "cols_inv G ?env vs' tais'" unfolding cols_inv_def using r(2-4) old(4) by auto
  then have "toast_inv G (ttc\<lparr>ttc_values := vs', ttc_attr := tais', ttc_flags := flags'\<rparr>, tw)"
    using g e ttc o r(5-7) del env(2) by (simp add: toast_inv_def)
  with run show ?thesis by blast
qed

section \<open>The four loops in a row\<close>

text \<open>What they achieve for a table with a TOAST table: the columns fit the target, or no column
  larger than a pointer is left in line; columns with storage MAIN only have to leave when the tuple
  does not fit a page.\<close>

definition rounds_done :: "toast_goal \<Rightarrow> nat \<Rightarrow> toast_tuple_context \<Rightarrow> bool" where
  "rounds_done G hoff ttc \<longleftrightarrow>
     (\<exists>n. heap_compute_data_size (de_flatten (tp_detoast (tg_params G))) (rd_att (tg_rel G)) (ttc_values ttc) (ttc_isnull ttc) = Inr n \<and>
       (int n \<le> size_minus (RelationGetToastTupleTarget (tg_rel G)) hoff \<or>
        (\<forall>i<length (tg_atts G). \<not> flag_set (tai_colflags (ttc_attr ttc ! i)) TOASTCOL_IGNORE \<longrightarrow>
           attstorage (tg_atts G ! i) \<in> {TYPSTORAGE_EXTENDED, TYPSTORAGE_EXTERNAL} \<or>
             attstorage (tg_atts G ! i) = TYPSTORAGE_MAIN \<and> int n > size_minus (int TOAST_TUPLE_TARGET_MAIN) hoff \<longrightarrow>
           col_size ttc i \<le> 24)))"

lemma toast_loop_fits:
  assumes "heap_compute_data_size flatten td (ttc_values (fst st)) (ttc_isnull (fst st)) = Inr n" "int n \<le> maxDataLen"
  shows "toast_loop fuel flatten td maxDataLen enabled fc cm act st = Inr st"
  using assms by (subst toast_loop.simps) simp

lemma open_candidate:
  assumes "toast_inv G (ttc, tw)" "i < length (tg_atts G)"
    "\<not> flag_set (tai_colflags (ttc_attr ttc ! i)) TOASTCOL_IGNORE"
    "cm \<longleftrightarrow> attstorage (tg_atts G ! i) = TYPSTORAGE_MAIN"
    "attstorage (tg_atts G ! i) \<in> {TYPSTORAGE_EXTENDED, TYPSTORAGE_EXTERNAL, TYPSTORAGE_MAIN}"
  shows "candidate (rd_att (tg_rel G)) False cm ttc i"
proof -
  obtain d p where "ttc_values ttc ! i = ByRef p" "inline_datum UNIV p d"
    using open_col [OF assms(1-3)] by metis
  with inline_not_external have "\<not> VARATT_IS_EXTERNAL (DatumGetPointer (ttc_values ttc ! i))"
    by (fastforce simp: DatumGetPointer_def)
  with assms(2-5) show ?thesis by (auto simp: candidate_def toast_eligible_def)
qed

lemma main_unchanged:
  assumes "\<And>j. \<not> candidate td fc True ttc j \<Longrightarrow> same_col ttc ttc' j" "attstorage (td_attrs td ! j) \<noteq> TYPSTORAGE_MAIN"
  shows "same_col ttc ttc' j"
  using assms by (auto simp: candidate_def toast_eligible_def)

lemma toast_rounds_inv:
  assumes inv: "toast_inv G st"
  shows "\<exists>st'. toast_rounds (tg_params G) (tg_rel G) hoff st = Inr st' \<and> toast_inv G st' \<and>
    (reltoastrelid (rd_rel (tg_rel G)) \<noteq> InvalidOid \<longrightarrow> size_minus (RelationGetToastTupleTarget (tg_rel G)) hoff \<le>
       size_minus (int TOAST_TUPLE_TARGET_MAIN) hoff \<longrightarrow> rounds_done G hoff (fst st'))"
proof -
  let ?td = "rd_att (tg_rel G)" and ?fl = "de_flatten (tp_detoast (tg_params G))"
    and ?max = "size_minus (RelationGetToastTupleTarget (tg_rel G)) hoff"
    and ?main = "size_minus (int TOAST_TUPLE_TARGET_MAIN) hoff"
    and ?ht = "reltoastrelid (rd_rel (tg_rel G)) \<noteq> InvalidOid" and ?fuel = "length (tg_atts G) + 1"
    and ?ext = "toast_tuple_externalize (rd_rel (tg_rel G))"
  have card: "card (candidates ?td fc cm ttc) \<le> ?fuel" for fc cm ttc using candidates_bound(2) by (rule le_trans) simp
  obtain s1 where s1: "toast_loop ?fuel ?fl ?td ?max True True False (round1_body (tg_params G) (tg_rel G) ?max) st = Inr s1"
    "toast_inv G s1" using first_loop.loop_returns [OF inv card] by blast
  obtain s2 where s2: "toast_loop ?fuel ?fl ?td ?max ?ht False False ?ext s1 = Inr s2" "toast_inv G s2"
    "loop_done ?td ?fl ?max ?ht False False (fst s2)" using ext_loop.loop_returns [OF s1(2) card] by blast
  obtain s3 where s3: "toast_loop ?fuel ?fl ?td ?max True True True (compress_body (tg_params G)) s2 = Inr s3" "toast_inv G s3"
    "\<And>j. \<not> candidate ?td True True (fst s2) j \<Longrightarrow> same_col (fst s2) (fst s3) j"
    using main_loop.loop_returns [OF s2(2) card] by blast
  obtain s4 where s4: "toast_loop ?fuel ?fl ?td ?main ?ht False True ?ext s3 = Inr s4" "toast_inv G s4"
    "loop_done ?td ?fl ?main ?ht False True (fst s4)"
    "\<And>j. \<not> candidate ?td False True (fst s3) j \<Longrightarrow> same_col (fst s3) (fst s4) j"
    using ext_loop.loop_returns [OF s3(2) card] by blast
  have run: "toast_rounds (tg_params G) (tg_rel G) hoff st = Inr s4"
    using s1(1) s2(1) s3(1) s4(1) by (simp add: toast_rounds_def Let_def)
  have "rounds_done G hoff (fst s4)" if t: ?ht "?max \<le> ?main"
  proof (cases "\<exists>n. heap_compute_data_size ?fl ?td (ttc_values (fst s2)) (ttc_isnull (fst s2)) = Inr n \<and> int n \<le> ?max")
    case True
    then obtain n where n: "heap_compute_data_size ?fl ?td (ttc_values (fst s2)) (ttc_isnull (fst s2)) = Inr n"
      "int n \<le> ?max" by blast
    from toast_loop_fits [OF n] s3(1) have "s3 = s2" by simp
    with toast_loop_fits [of ?fl ?td s3 n ?main] n t(2) s4(1) have "s4 = s2" by simp
    with n show ?thesis unfolding rounds_done_def by blast
  next
    case False
    with s2(3) t(1) have small: "candidate ?td False False (fst s2) i \<Longrightarrow> col_size (fst s2) i \<le> 24" for i
      unfolding loop_done_def by blast
    have inv4: "toast_inv G (fst s4, snd s4)" "toast_inv G (fst s2, snd s2)" using s4(2) s2(2) by simp_all
    obtain n where n: "heap_compute_data_size ?fl ?td (ttc_values (fst s4)) (ttc_isnull (fst s4)) = Inr n"
      using inv_computes [OF s4(2)] by blast
    have "col_size (fst s4) i \<le> 24" if i: "i < length (tg_atts G)"
      "\<not> flag_set (tai_colflags (ttc_attr (fst s4) ! i)) TOASTCOL_IGNORE"
      "attstorage (tg_atts G ! i) \<in> {TYPSTORAGE_EXTENDED, TYPSTORAGE_EXTERNAL} \<or>
        attstorage (tg_atts G ! i) = TYPSTORAGE_MAIN \<and> int n > ?main" for i
    proof (cases "attstorage (tg_atts G ! i) = TYPSTORAGE_MAIN")
      case True
      with i(3) have "int n > ?main" by (auto simp: typstorage)
      with s4(3) t(1) n open_candidate [OF inv4(1) i(1,2), of True] True show ?thesis
        unfolding loop_done_def by fastforce
    next
      case False
      have same: "same_col (fst s2) (fst s4) i"
        by (rule same_col_trans [OF main_unchanged [OF s3(3)] main_unchanged [OF s4(4)]]) (use False in simp_all)
      then have "\<not> flag_set (tai_colflags (ttc_attr (fst s2) ! i)) TOASTCOL_IGNORE"
        using i(2) by (simp add: same_col_def)
      from small [OF open_candidate [OF inv4(2) i(1) this, of False]] False i(3) same show ?thesis
        by (auto simp: same_col_def)
    qed
    with n show ?thesis unfolding rounds_done_def by blast
  qed
  with run s4(2) show ?thesis by blast
qed

section \<open>The new tuple\<close>

lemma toast_rebuild_filled:
  assumes d: "desc_ok td" and g: "cols_given ms env (td_attrs td) vs ns cs" and w: "row_fits cs"
    and h: "ah \<le> HEAPTUPLESIZE"
  shows "\<exists>l h. toast_rebuild (de_flatten env) td vs ns (True \<in> set ns) ah old = Inr (l, h) \<and>
    filled (de_flatten env) (td_attrs td) vs ns h"
proof -
  let ?fl = "de_flatten env" and ?hn = "True \<in> set ns"
  let ?l = "layout ?fl (td_attrs td) vs ns 0" and ?h = "header_len (length (td_attrs td)) ?hn"
  have n: "length (td_attrs td) \<le> MaxTupleAttributeNumber" and aok: "\<forall>a\<in>set (td_attrs td). att_ok a"
    using d by (simp_all add: desc_ok_def)
  note ok = cols_given_ok [OF g aok]
  note hb = header_len_bounds [OF n, of ?hn]
  have "length ?l \<le> sum_list (map col_weight cs)" using layout_weight [OF _ g aok] g by (simp add: cols_given_def)
  with w hb(2) have small: "int (HEAPTUPLESIZE + ?h + length ?l) \<le> MaxAllocSize" by (simp add: row_fits_def)
  then have i32: "to_int32 (int (length ?l)) = int (length ?l)" "to_int32 (int ?h + int (length ?l)) = int (?h + length ?l)"
    by (simp_all add: to_int32_small MaxAllocSize_def)
  have size: "heap_compute_data_size ?fl td vs ns = Inr (length ?l)"
    using data_size_layout [OF ok, of 0] by (simp add: heap_compute_data_size_def)
  have mem: "palloc0 (int ah + int (?h + length ?l)) = Inr (replicate (ah + (?h + length ?l)) 0)"
    using small h by (simp add: palloc0_def MaxAllocSize_def flip: of_nat_add)
  have dr: "drop (?h - SizeofHeapTupleHeader) (drop (ah + SizeofHeapTupleHeader)
      (replicate (ah + (?h + length ?l)) 0)) = replicate (length ?l) (0 :: byte)"
    "take (?h - SizeofHeapTupleHeader) (drop (ah + SizeofHeapTupleHeader)
      (replicate (ah + (?h + length ?l)) 0)) = replicate (?h - SizeofHeapTupleHeader) (0 :: byte)"
    using hb(1) by (auto simp: min_def)
  obtain im bits where f: "heap_fill_tuple ?fl td vs ns (replicate (length ?l) 0) (t_infomask old)
      (replicate (?h - SizeofHeapTupleHeader) 0) ?hn = Inr (?l, im, bits)"
    "length bits = ?h - SizeofHeapTupleHeader" "im AND HEAP_HASNULL \<noteq> 0 \<longleftrightarrow> ?hn"
    "varwidth_marked (td_attrs td) ns im" "?hn \<longrightarrow> bitmap_of bits ns"
    using heap_fill_layout [OF ok hb(3), of "t_infomask old"] by auto
  have "unat (word_of_nat ?h :: byte) = ?h" using hb(2) by (simp add: unat_of_nat)
  then show ?thesis
    unfolding toast_rebuild_def Let_def size bindE_simps i32 mem dr
    using f natts_set_get [OF n] by (simp add: filled_def) (metis append_Nil2)
qed

section \<open>Stored rows when the tables change\<close>

lemma indirect_bytes_append: "indirect_bytes a @ r = indirect_bytes b @ s \<longleftrightarrow> a = b \<and> r = s"
proof
  assume e: "indirect_bytes a @ r = indirect_bytes b @ s"
  from arg_cong [OF this, of VARATT_INDIRECT_GET_POINTER] have "a = b" by (simp add: varatt_simps)
  with e show "a = b \<and> r = s" by simp
qed simp

lemma represents_indirect:
  "represents ms env (indirect_bytes a @ r) d \<longleftrightarrow>
     (\<exists>obj. de_mem env a = Some obj \<and> represents ms env obj d \<and> \<not> VARATT_IS_EXTERNAL_INDIRECT obj)"
proof
  assume "represents ms env (indirect_bytes a @ r) d"
  then show "\<exists>obj. de_mem env a = Some obj \<and> represents ms env obj d \<and> \<not> VARATT_IS_EXTERNAL_INDIRECT obj"
  proof cases
    case inline
    from inline_not_external [OF this] show ?thesis by (simp add: varatt_simps varatt_class_defs)
  next
    case (external relid vid r')
    then show ?thesis using ondisk_pointer by metis
  next
    case (external_compressed cm c relid vid r')
    then show ?thesis using ondisk_pointer by metis
  qed (auto simp: indirect_bytes_append)
qed (auto intro: represents.indirect)

lemma represents_back:
  assumes a: "attlen att = -1" "\<not> attbyval att" and r: "represents ms env p d"
    and st: "stored_col flatten att (ByRef p) (ByRef q)" "represents ms env' q d"
  shows "represents ms env' p d"
proof -
  have img: "\<exists>r. q = b @ r" if "col_image flatten att (ByRef p) al b m" for al b m
    using st(1) image_unique [OF that] a(2) by (auto simp: stored_col_def fetch_att_def)
  from r show ?thesis
  proof cases
    case inline
    then show ?thesis by (rule represents.inline)
  next
    case (external relid vid r)
    with img image_pointer [OF a disjI1 [OF refl]] st(2) show ?thesis by (metis represents_pointer)
  next
    case (external_compressed cm c relid vid r)
    with img image_pointer [OF a disjI1 [OF refl]] st(2) show ?thesis by (metis represents_pointer)
  next
    case (indirect x obj r)
    with img image_pointer [OF a disjI2 [OF refl]] st(2) show ?thesis by (metis represents_indirect)
  qed
qed

lemma cols_given_back:
  assumes g: "cols_given ms env as vs ns cs" and s: "stored_cols (de_flatten env) as vs ns ws"
    and h: "cols_hold ms env' as ws ns cs" and e: "de_flatten env' = de_flatten env"
  shows "cols_given ms env' as vs ns cs"
  unfolding cols_given_def
proof (intro conjI allI impI)
  fix i assume i: "i < length as"
  have gi: "col_given ms env (as ! i) (vs ! i) (ns ! i) (cs ! i)" and hi: "col_holds ms env' (as ! i) (ws ! i) (ns ! i) (cs ! i)"
    using g h i by (auto simp: cols_given_def cols_hold_def)
  show "col_given ms env' (as ! i) (vs ! i) (ns ! i) (cs ! i)"
  proof (cases "cs ! i")
    case (ColText d)
    with gi have n: "\<not> ns ! i" by (auto simp: col_given_def col_holds_def)
    with s i have st: "stored_col (de_flatten env) (as ! i) (vs ! i) (ws ! i)" by (simp add: stored_cols_nth)
    from ColText gi hi obtain p q where v: "vs ! i = ByRef p" "ws ! i = ByRef q" "represents ms env' q d"
      "attlen (as ! i) = -1" "\<not> attbyval (as ! i)" by (auto simp: col_given_def col_holds_def)
    with represents_back [OF v(4,5) _ _ v(3)] st gi ColText e show ?thesis
      by (auto simp: col_given_def col_holds_def)
  qed (use gi in \<open>auto simp: col_given_def col_holds_def\<close>)
qed (use g in \<open>auto simp: cols_given_def\<close>)

text \<open>The values read from a tuple do not depend on the cache in the descriptor.\<close>

definition deformed :: "tuple_desc \<Rightarrow> heap_tuple \<Rightarrow> datum list \<times> bool list" where
  "deformed td tup = (case heap_deform_tuple tup td of Inl e \<Rightarrow> ([], []) | Inr (td', vs, ns) \<Rightarrow> (vs, ns))"

lemma deform_stored:
  assumes d: "desc_ok td" "desc_ok td0" "same_atts (td_attrs td) (td_attrs td0)"
    and t: "tuple_stores ms env (td_attrs td) (t_data tup) cs"
  obtains td' vs ws ns where "heap_deform_tuple tup td0 = Inr (td', ws, ns)" "deformed td tup = (ws, ns)" "desc_ok td'"
    "same_atts (td_attrs td) (td_attrs td')" "cols_hold ms env (td_attrs td) ws ns cs"
    "cols_given ms env (td_attrs td) vs ns cs" "filled (de_flatten env) (td_attrs td) vs ns (t_data tup)"
    "stored_cols (de_flatten env) (td_attrs td) vs ns ws"
proof -
  from t obtain vs ns where g: "cols_given ms env (td_attrs td) vs ns cs"
    and f: "filled (de_flatten env) (td_attrs td) vs ns (t_data tup)" by (auto simp: tuple_stores_def)
  have g0: "cols_given ms env (td_attrs td0) vs ns cs" and f0: "filled (de_flatten env) (td_attrs td0) vs ns (t_data tup)"
    using g f d(3) by (simp_all add: same_atts_cols same_atts_filled)
  let ?ws = "read_cols (de_flatten env) (drop (unat (t_hoff (t_data tup)) - SizeofHeapTupleHeader) (t_bits (t_data tup)))
      (td_attrs td) vs ns 0"
  obtain as1 where r: "heap_deform_tuple tup td = Inr (td\<lparr>td_attrs := as1\<rparr>, ?ws, ns)"
    "cols_hold ms env (td_attrs td) ?ws ns cs" "stored_cols (de_flatten env) (td_attrs td) vs ns ?ws"
    using filled_deform [OF d(1) g f] by metis
  obtain as2 where r0: "heap_deform_tuple tup td0 = Inr (td0\<lparr>td_attrs := as2\<rparr>, ?ws, ns)"
    "desc_ok (td0\<lparr>td_attrs := as2\<rparr>)" "same_atts (td_attrs td0) as2"
    using filled_deform [OF d(2) g0 f0] same_atts_read [OF d(3)] by metis
  have s: "same_atts (td_attrs td) as2" by (rule list_all2_trans [OF _ d(3) r0(3)]) simp
  have "deformed td tup = (?ws, ns)" using r(1) by (simp add: deformed_def)
  from that [OF r0(1) this r0(2) _ r(2) g f r(3)] s show thesis by simp
qed

section \<open>heap\_toast\_insert\_or\_update\<close>

text \<open>The values of the old tuple that the new one does not point to.\<close>

definition replaced_pointers :: "tuple_desc \<Rightarrow> heap_tuple \<Rightarrow> heap_tuple option \<Rightarrow> (oid \<times> oid) set" where
  "replaced_pointers td newtup oldtup = dead_pointers (td_attrs td) (map_option (deformed td) oldtup)
     (fst (deformed td newtup)) (snd (deformed td newtup))"

abbreviation world_env :: "toast_params \<Rightarrow> toast_world \<Rightarrow> detoast_env" where
  "world_env ps tw \<equiv> (tp_detoast ps)\<lparr>de_store := tw_store tw\<rparr>"

text \<open>What a call relies on: a good descriptor; rows stored in the new and the old tuple, whose
  out-of-line values belong to one column each; a row that fits in memory and that the chosen
  compression methods keep; and fresh OIDs for the values it may store.\<close>

definition toast_call_ok :: "toast_params \<Rightarrow> relation \<Rightarrow> toast_world \<Rightarrow> heap_tuple \<Rightarrow> heap_tuple option \<Rightarrow> colval list \<Rightarrow> bool" where
  "toast_call_ok ps rel tw newtup oldtup cs \<longleftrightarrow>
     (let td = rd_att rel; as = td_attrs td in
      desc_ok td \<and> 0 < tp_fuel ps \<and> length (env_tcinfo0 (tp_compression ps)) = 4 \<and> row_fits cs \<and>
      tuple_stores UNIV (world_env ps tw) as (t_data newtup) cs \<and>
      (\<forall>tup. oldtup = Some tup \<longrightarrow> (\<exists>ocs. tuple_stores UNIV (world_env ps tw) as (t_data tup) ocs) \<and>
         owned as (fst (deformed td tup)) (snd (deformed td tup))) \<and>
      (\<forall>i<length as. lossless (tp_compression ps) (as ! i) (cs ! i)) \<and>
      oids_ready (rd_rel rel) (replaced_pointers td newtup oldtup) (length as) tw)"

lemma same_atts_pointer:
  assumes "same_atts as bs" "i < length as"
  shows "col_pointer (bs ! i) v n = col_pointer (as ! i) v n" "col_replaced (bs ! i) ov on v n = col_replaced (as ! i) ov on v n"
    "lossless cenv (bs ! i) c = lossless cenv (as ! i) c"
proof -
  obtain k where "bs ! i = (as ! i)\<lparr>attcacheoff := k\<rparr>" using same_atts_nth(2) [OF assms] by blast
  then have sel: "attlen (bs ! i) = attlen (as ! i)" "attstorage (bs ! i) = attstorage (as ! i)"
    "attcompression (bs ! i) = attcompression (as ! i)" by simp_all
  show p: "col_pointer (bs ! i) v n = col_pointer (as ! i) v n" for v n unfolding col_pointer_def sel by (rule refl)
  show "col_replaced (bs ! i) ov on v n = col_replaced (as ! i) ov on v n" unfolding col_replaced_def p by (rule refl)
  show "lossless cenv (bs ! i) c = lossless cenv (as ! i) c" unfolding lossless_def sel by (rule refl)
qed

lemma same_atts_dead:
  assumes "same_atts as bs"
  shows "dead_pointers bs old vs ns = dead_pointers as old vs ns" "owned bs ws ms = owned as ws ms"
  using same_atts_nth(1) [OF assms] same_atts_pointer [OF assms]
  by (auto simp: dead_pointers_def owned_def split: option.splits)

lemma toast_cleanup_inv:
  assumes inv: "toast_inv G (ttc, tw)"
    and old: "old_ok (tg_env G (tg_store G)) (tg_atts G) old" "tg_old G = map_option fst old"
      "tg_dead G = dead_pointers (tg_atts G) old (tg_values G) (tg_nulls G)"
      "tg_delete G = map (\<lambda>i. old_replaced (tg_atts G ! i) (old_cols (length (tg_atts G)) old ! i)
        (tg_values G ! i) (tg_nulls G ! i)) [0..<length (tg_atts G)]"
  shows "toast_tuple_cleanup ttc (tw_store tw) = Inr (purge (tg_dead G) (tw_store tw))"
proof -
  let ?as = "tg_atts G"
  from inv have i: "goal_ok G" "ttc_oldvalues ttc = tg_old G" "length (ttc_attr ttc) = length ?as"
    "flag_set (ttc_flags ttc) TOAST_NEEDS_DELETE_OLD \<longleftrightarrow> True \<in> set (tg_delete G)"
    "\<And>i. i < length ?as \<Longrightarrow> flag_set (tai_colflags (ttc_attr ttc ! i)) TOASTCOL_NEEDS_DELETE_OLD = tg_delete G ! i"
    and same: "same_values (tg_env G (tg_store G)) (tg_env G (tw_store tw))"
    by (auto simp: toast_inv_def cols_inv_def)
  show ?thesis
  proof (cases old)
    case None
    then have "True \<notin> set (tg_delete G)" "tg_dead G = {}"
      unfolding old(3,4) by (auto simp: old_replaced_def dead_pointers_def)
    with i(4) show ?thesis by (simp add: toast_tuple_cleanup_def)
  next
    case (Some z)
    obtain ovs ons where z: "z = (ovs, ons)" by (cases z)
    with Some old(1) obtain ocs where h: "cols_hold UNIV (tg_env G (tg_store G)) ?as ovs ons ocs" by (auto simp: old_ok_def)
    have del: "tg_delete G ! i = col_replaced (?as ! i) (ovs ! i) (ons ! i) (tg_values G ! i) (tg_nulls G ! i)"
      if "i < length ?as" for i
      using that h unfolding old(4) Some z by (simp add: old_replaced_def cols_hold_def)
    have ptr: "deletable (tw_store tw) (DatumGetPointer (ovs ! i)) \<and>
        pointer_id (DatumGetPointer (ovs ! i)) = col_pointer (?as ! i) (ovs ! i) (ons ! i)"
      if l: "i < length ?as" "tg_delete G ! i" for i
    proof -
      from l del obtain x where x: "col_pointer (?as ! i) (ovs ! i) (ons ! i) = Some x" by (auto simp: col_replaced_def)
      have c: "col_holds UNIV (tg_env G (tg_store G)) (?as ! i) (ovs ! i) (ons ! i) (ocs ! i)" "att_ok (?as ! i)"
        using h l(1) i(1) by (auto simp: cols_hold_def goal_ok_def)
      then obtain d p where "represents UNIV (tg_env G (tg_store G)) p d" "ovs ! i = ByRef p" "VARATT_IS_EXTERNAL_ONDISK p"
        using iffD1 [OF pointer_col [OF c(2,1)] x] by (auto simp: col_holds_def)
      then have "deletable (tw_store tw) (DatumGetPointer (ovs ! i))"
        using represents_deletable [of UNIV "tg_env G (tw_store tw)" p d] same
        by (auto simp: same_values_def DatumGetPointer_def)
      with x show ?thesis by (auto simp: col_pointer_def split: if_splits)
    qed
    have set_eq: "{x. \<exists>i<length (ttc_attr ttc). flag_set (tai_colflags (ttc_attr ttc ! i)) TOASTCOL_NEEDS_DELETE_OLD \<and>
        pointer_id (DatumGetPointer (ovs ! i)) = Some x} = tg_dead G"
      unfolding old(3) dead_pointers_def Some z option.case prod.case i(3) using i(5) ptr del by fastforce
    have "toast_cleanup_loop (tw_store tw) ovs (ttc_attr ttc) = Inr (purge (tg_dead G) (tw_store tw))"
      unfolding set_eq [symmetric] by (rule toast_cleanup_purge) (use h i ptr in \<open>auto simp: cols_hold_def\<close>)
    moreover have "tg_dead G = {}" if "True \<notin> set (tg_delete G)"
    proof -
      have "\<not> tg_delete G ! i" if "i < length ?as" for i
        using that i(1) \<open>True \<notin> set (tg_delete G)\<close> by (metis goal_ok_def nth_mem)
      with del show ?thesis unfolding old(3) dead_pointers_def Some z by auto
    qed
    ultimately show ?thesis
      using i(2,4) old(2) Some z by (auto simp: toast_tuple_cleanup_def)
  qed
qed

text \<open>The goal a call works for.\<close>

definition call_goal :: "toast_params \<Rightarrow> relation \<Rightarrow> toast_world \<Rightarrow> datum list \<times> bool list \<Rightarrow> (datum list \<times> bool list) option \<Rightarrow>
    colval list \<Rightarrow> toast_goal" where
  "call_goal ps rel tw new old cs = (let as = td_attrs (rd_att rel) in
     \<lparr>tg_params = ps\<lparr>tp_detoast := world_env ps tw\<rparr>, tg_rel = rel, tg_store = tw_store tw, tg_values = fst new,
       tg_nulls = snd new, tg_old = map_option fst old, tg_row = cs,
       tg_delete = map (\<lambda>i. old_replaced (as ! i) (old_cols (length as) old ! i) (fst new ! i) (snd new ! i)) [0..<length as],
       tg_dead = dead_pointers as old (fst new) (snd new)\<rparr>)"

lemma inv_purged:
  assumes "toast_inv G (ttc, tw)"
  shows "cols_hold UNIV ((tg_env G (purge (tg_dead G) (tw_store tw)))) (tg_atts G) (ttc_values ttc) (tg_nulls G) (tg_row G)"
  unfolding cols_hold_def
proof (intro conjI allI impI)
  fix i assume i: "i < length (tg_atts G)"
  from assms i have s: "col_state (tg_env G (tw_store tw)) (tg_dead G) (tg_atts G ! i) (ttc_values ttc ! i)
      (tg_nulls G ! i) (ttc_attr ttc ! i) (tg_row G ! i)"
    by (simp add: toast_inv_def cols_inv_def)
  show "col_holds UNIV (tg_env G (purge (tg_dead G) (tw_store tw))) (tg_atts G ! i) (ttc_values ttc ! i) (tg_nulls G ! i) (tg_row G ! i)"
  proof (cases "tg_row G ! i")
    case (ColText d)
    with s have "survives (tg_env G (tw_store tw)) (tg_dead G) (DatumGetPointer (ttc_values ttc ! i)) d"
      by (simp add: col_state_def)
    from survives_purge [OF this] s ColText show ?thesis by (auto simp: col_state_def col_holds_def DatumGetPointer_def)
  qed (use s in \<open>auto simp: col_state_def col_holds_def\<close>)
qed (use assms in \<open>auto simp: toast_inv_def cols_inv_def goal_ok_def\<close>)

lemma survives_same: "same_values env env' \<Longrightarrow> survives env dead p d \<Longrightarrow> survives env' dead p d"
  by (auto simp: survives_def same_values_def)

lemma toast_call_deforms:
  assumes ok: "toast_call_ok ps rel tw newtup oldtup cs"
  obtains td1 td2 vs ws ns where "heap_deform_tuple newtup (rd_att rel) = Inr (td1, ws, ns)"
    "deformed (rd_att rel) newtup = (ws, ns)"
    "(case oldtup of None \<Rightarrow> Inr (td1, None, []) | Some tup \<Rightarrow> bindE (heap_deform_tuple tup td1) (\<lambda>(td, vs, ns). Inr (td, Some vs, ns))) =
      Inr (td2, map_option (\<lambda>t. fst (deformed (rd_att rel) t)) oldtup,
        case map_option (deformed (rd_att rel)) oldtup of None \<Rightarrow> [] | Some (ovs, ons) \<Rightarrow> ons)"
    "desc_ok td2" "same_atts (td_attrs (rd_att rel)) (td_attrs td2)"
    "cols_hold UNIV (world_env ps tw) (td_attrs (rd_att rel)) ws ns cs"
    "cols_given UNIV (world_env ps tw) (td_attrs (rd_att rel)) vs ns cs"
    "filled (de_flatten (tp_detoast ps)) (td_attrs (rd_att rel)) vs ns (t_data newtup)"
    "stored_cols (de_flatten (tp_detoast ps)) (td_attrs (rd_att rel)) vs ns ws"
    "old_ok (world_env ps tw) (td_attrs (rd_att rel)) (map_option (deformed (rd_att rel)) oldtup)"
proof -
  let ?td = "rd_att rel" and ?env = "world_env ps tw"
  from ok have d: "desc_ok ?td" and t: "tuple_stores UNIV ?env (td_attrs ?td) (t_data newtup) cs"
    and o: "\<And>tup. oldtup = Some tup \<Longrightarrow> (\<exists>ocs. tuple_stores UNIV ?env (td_attrs ?td) (t_data tup) ocs) \<and>
        owned (td_attrs ?td) (fst (deformed ?td tup)) (snd (deformed ?td tup))"
    by (auto simp: toast_call_ok_def Let_def)
  have refl: "same_atts (td_attrs ?td) (td_attrs ?td)" by (simp add: list_all2_refl)
  obtain td1 vs ws ns where n: "heap_deform_tuple newtup ?td = Inr (td1, ws, ns)" "deformed ?td newtup = (ws, ns)" "desc_ok td1"
    "same_atts (td_attrs ?td) (td_attrs td1)" "cols_hold UNIV ?env (td_attrs ?td) ws ns cs"
    "cols_given UNIV ?env (td_attrs ?td) vs ns cs" "filled (de_flatten ?env) (td_attrs ?td) vs ns (t_data newtup)"
    "stored_cols (de_flatten ?env) (td_attrs ?td) vs ns ws"
    by (rule deform_stored [OF d d refl t])
  show thesis
  proof (cases oldtup)
    case None
    with n show thesis by (intro that [of td1 ws ns td1 vs]) (simp_all add: old_ok_def)
  next
    case (Some tup)
    with o obtain ocs where os: "tuple_stores UNIV ?env (td_attrs ?td) (t_data tup) ocs"
      "owned (td_attrs ?td) (fst (deformed ?td tup)) (snd (deformed ?td tup))" by blast
    obtain td2 ows ons where m: "heap_deform_tuple tup td1 = Inr (td2, ows, ons)" "deformed ?td tup = (ows, ons)" "desc_ok td2"
      "same_atts (td_attrs ?td) (td_attrs td2)" "cols_hold UNIV ?env (td_attrs ?td) ows ons ocs"
      using deform_stored [OF d n(3,4) os(1)] by metis
    with n Some os(2) show thesis by (intro that [of td1 ws ns td2 vs]) (auto simp: old_ok_def)
  qed
qed

lemma toast_call_runs:
  assumes ok: "toast_call_ok ps rel tw newtup oldtup cs" and tais: "length (td_attrs (rd_att rel)) \<le> length tais"
  obtains td2 ttc tw1 G where
    "G = call_goal ps (rel\<lparr>rd_att := td2\<rparr>) tw (deformed (rd_att rel) newtup) (map_option (deformed (rd_att rel)) oldtup) cs"
    "desc_ok td2" "same_atts (td_attrs (rd_att rel)) (td_attrs td2)"
    "tg_dead G = replaced_pointers (rd_att rel) newtup oldtup" "toast_inv G (ttc, tw1)"
    "reltoastrelid (rd_rel rel) \<noteq> InvalidOid \<longrightarrow>
      size_minus (RelationGetToastTupleTarget rel) (header_len (length (td_attrs td2)) (True \<in> set (tg_nulls G))) \<le>
      size_minus (int TOAST_TUPLE_TARGET_MAIN) (header_len (length (td_attrs td2)) (True \<in> set (tg_nulls G))) \<longrightarrow>
      rounds_done G (header_len (length (td_attrs td2)) (True \<in> set (tg_nulls G))) ttc"
    "heap_toast_insert_or_update ps rel tw newtup oldtup tais =
      bindE (if flag_set (ttc_flags ttc) TOAST_NEEDS_CHANGE then
               bindE (toast_rebuild (de_flatten (tp_detoast ps)) td2 (ttc_values ttc) (tg_nulls G)
                        (True \<in> set (tg_nulls G)) HEAPTUPLESIZE (t_data newtup))
                 (\<lambda>(new_tuple_len, new_data).
                   Inr (newtup\<lparr>t_len := word_of_int new_tuple_len, t_data := new_data\<rparr>))
             else Inr newtup)
        (\<lambda>result. Inr (tw1\<lparr>tw_store := purge (tg_dead G) (tw_store tw1)\<rparr>, result))"
proof -
  let ?td = "rd_att rel" and ?env = "world_env ps tw" and ?ps = "ps\<lparr>tp_detoast := world_env ps tw\<rparr>"
  let ?old = "map_option (deformed ?td) oldtup"
  obtain td1 td2 vs ws ns where f: "heap_deform_tuple newtup ?td = Inr (td1, ws, ns)" "deformed ?td newtup = (ws, ns)"
    "(case oldtup of None \<Rightarrow> Inr (td1, None, []) | Some tup \<Rightarrow> bindE (heap_deform_tuple tup td1) (\<lambda>(td, vs, ns). Inr (td, Some vs, ns))) =
      Inr (td2, map_option (\<lambda>t. fst (deformed ?td t)) oldtup, case ?old of None \<Rightarrow> [] | Some (ovs, ons) \<Rightarrow> ons)"
    "desc_ok td2" "same_atts (td_attrs ?td) (td_attrs td2)" "cols_hold UNIV ?env (td_attrs ?td) ws ns cs"
    and old: "old_ok ?env (td_attrs ?td) ?old"
    by (rule toast_call_deforms [OF ok])
  let ?rel = "rel\<lparr>rd_att := td2\<rparr>"
  define G where "G = call_goal ps ?rel tw (ws, ns) ?old cs"
  note gs = G_def call_goal_def Let_def
  have G: "tg_params G = ?ps" "tg_rel G = ?rel" "tg_store G = tw_store tw" "tg_values G = ws" "tg_nulls G = ns"
    "tg_old G = map_option fst ?old" "tg_row G = cs" "tg_dead G = dead_pointers (td_attrs td2) ?old ws ns"
    "tg_delete G = map (\<lambda>i. old_replaced (td_attrs td2 ! i) (old_cols (length (td_attrs td2)) ?old ! i)
        (ws ! i) (ns ! i)) [0..<length (td_attrs td2)]"
    by (simp_all add: gs)
  have dead: "tg_dead G = replaced_pointers ?td newtup oldtup"
    unfolding G(8) replaced_pointers_def same_atts_dead(1) [OF f(5)] f(2) by simp
  have old2: "old_ok ?env (td_attrs td2) ?old"
    using old by (auto simp: old_ok_def same_atts_cols [OF f(5)] same_atts_dead(2) [OF f(5)] split: option.splits)
  have new2: "cols_hold UNIV ?env (td_attrs td2) ws ns cs" using f(6) by (simp add: same_atts_cols [OF f(5)])
  obtain k where k: "tp_fuel ps = Suc k" using ok by (auto simp: toast_call_ok_def Let_def gr0_conv_Suc)
  have gok: "goal_ok G"
    using ok f(4) new2 same_atts_pointer(3) [OF f(5)] same_atts_nth(1) [OF f(5)]
    unfolding goal_ok_def G toast_call_ok_def Let_def by (auto simp: desc_ok_def cols_hold_def)
  have oids: "oids_ready (rd_rel rel) (tg_dead G) (length (td_attrs td2)) tw"
    using ok same_atts_nth(1) [OF f(5)] unfolding dead by (simp add: toast_call_ok_def Let_def)
  let ?ttc = "\<lparr>ttc_values = ws, ttc_isnull = ns, ttc_oldvalues = map_option (\<lambda>t. fst (deformed ?td t)) oldtup,
      ttc_oldisnull = (case ?old of None \<Rightarrow> [] | Some (ovs, ons) \<Rightarrow> ons), ttc_flags = 0, ttc_attr = tais\<rparr>"
  have "\<exists>ttc'. toast_tuple_init (tg_params G) (rd_att (tg_rel G)) ?ttc = Inr ttc' \<and> toast_inv G (ttc', tw)"
    by (rule toast_tuple_init_inv [where old = ?old and k = k])
      (use gok new2 old2 oids tais same_atts_nth(1) [OF f(5)] k in
        \<open>simp_all add: G option.map_comp comp_def split: option.splits\<close>)
  then obtain ttc0 where i: "toast_tuple_init ?ps td2 ?ttc = Inr ttc0" "toast_inv G (ttc0, tw)" by (auto simp: G)
  have nulls: "flag_set (ttc_flags t) TOAST_HAS_NULLS = (True \<in> set ns)" "ttc_isnull t = ns" if "toast_inv G (t, w)" for t w
    using that by (simp_all add: toast_inv_def G)
  let ?hoff = "header_len (length (td_attrs td2)) (True \<in> set ns)"
  obtain ttc tw1 where r: "toast_rounds ?ps ?rel ?hoff (ttc0, tw) = Inr (ttc, tw1)" "toast_inv G (ttc, tw1)"
    "reltoastrelid (rd_rel rel) \<noteq> InvalidOid \<longrightarrow> size_minus (RelationGetToastTupleTarget rel) ?hoff \<le>
       size_minus (int TOAST_TUPLE_TARGET_MAIN) ?hoff \<longrightarrow> rounds_done G ?hoff ttc"
    using toast_rounds_inv [OF i(2), of ?hoff] by (auto simp: G RelationGetToastTupleTarget_def)
  have c: "toast_tuple_cleanup ttc (tw_store tw1) = Inr (purge (tg_dead G) (tw_store tw1))"
  proof (rule toast_cleanup_inv [OF r(2), where old = ?old])
    have atts: "tg_atts G = td_attrs td2" by (simp add: G)
    show "tg_delete G = map (\<lambda>i. old_replaced (tg_atts G ! i) (old_cols (length (tg_atts G)) ?old ! i)
        (tg_values G ! i) (tg_nulls G ! i)) [0..<length (tg_atts G)]"
      unfolding atts G(4,5,9) by (rule refl)
  qed (use old2 in \<open>simp_all add: G\<close>)
  show thesis
    by (rule that [OF G_def [folded f(2)] f(4,5) dead r(2)])
      (use r i(1) c nulls [OF i(2)] nulls [OF r(2)] in \<open>simp_all add: G(5) heap_toast_insert_or_update_def Let_def f(1,3)\<close>)
qed

section \<open>Reading back what was written\<close>

text \<open>Storing a value that was read from a tuple gives the same bytes again.\<close>

lemma text_again:
  assumes a: "attlen att = -1" "\<not> attbyval att" and r: "represents ms env p d"
  shows "\<exists>al bs m. col_image flatten att (ByRef p) al bs m \<and> (\<forall>r. col_image flatten att (ByRef (bs @ r)) al bs m) \<and>
    (\<forall>r. VARATT_IS_EXTERNAL (bs @ r) = VARATT_IS_EXTERNAL p) \<and>
    (\<not> VARATT_IS_EXTERNAL p \<longrightarrow> (\<exists>n. VARSIZE_ANY p = Inr n \<and> int (length bs) \<le> n))"
  using r
proof cases
  case inline
  have e: "\<not> VARATT_IS_EXTERNAL (mk_plain d @ r)" "\<not> VARATT_IS_EXTERNAL (mk_compressed n cm c @ r)"
    "fits_short d \<Longrightarrow> \<not> VARATT_IS_EXTERNAL (mk_short d @ r)" for r n cm c
    by (simp_all add: varatt_simps varatt_class_defs)
  from inline consider (packed) r where "p = mk_plain d @ r" "fits_4b d" "VARLENA_ATT_IS_PACKABLE att" "length d < 127"
    | (plain) r where "p = mk_plain d @ r" "fits_4b d" "\<not> (VARLENA_ATT_IS_PACKABLE att \<and> length d < 127)"
    | (short) r where "p = mk_short d @ r" "fits_short d"
    | (comp) cm c r where "payload_of cm d c" "p = mk_compressed (int (length d)) cm c @ r" "cm \<in> ms"
    unfolding inline_datum_def text_datum_def by blast
  then show ?thesis
  proof cases
    case packed
    have "VARSIZE_ANY p = Inr (int (length d) + 4)" "int (length (mk_short d)) \<le> int (length d) + 4"
      using packed by (simp_all add: VARSIZE_ANY_forms)
    with image_packed [OF a packed(2-4), of flatten] image_short [OF a, of d flatten] packed(1,4) e(1) e(3) show ?thesis by blast
  next
    case plain
    have "VARSIZE_ANY p = Inr (int (length d) + 4)" "int (length (mk_plain d)) \<le> int (length d) + 4"
      using plain by (simp_all add: VARSIZE_ANY_forms)
    with image_unpacked [OF a plain(2,3), of flatten] plain(1) e(1) show ?thesis by blast
  next
    case short
    have "VARSIZE_ANY p = Inr (int (length d) + 1)" "int (length (mk_short d)) \<le> int (length d) + 1"
      using short by (simp_all add: VARSIZE_ANY_forms)
    with image_short [OF a short(2), of flatten] short(1) e(3) [OF short(2)] show ?thesis by blast
  next
    case comp
    note f = payload_of_facts(2) [OF comp(1)]
    have "VARSIZE_ANY p = Inr (int (length c) + 8)" "int (length (mk_compressed (int (length d)) cm c)) \<le> int (length c) + 8"
      using comp f by (simp_all add: VARSIZE_ANY_forms)
    with image_compressed [OF a f, of flatten] comp(2) e(2) show ?thesis by blast
  qed
next
  case (external relid vid r)
  have "VARATT_IS_EXTERNAL (external_bytes tp @ r)" for tp r by (simp add: varatt_simps varatt_class_defs)
  with external(1) image_pointer [OF a disjI1 [OF refl], of flatten] show ?thesis by blast
next
  case (external_compressed cm c relid vid r)
  have "VARATT_IS_EXTERNAL (external_bytes tp @ r)" for tp r by (simp add: varatt_simps varatt_class_defs)
  with external_compressed(1) image_pointer [OF a disjI1 [OF refl], of flatten] show ?thesis by blast
next
  case (indirect x obj r)
  have "VARATT_IS_EXTERNAL (indirect_bytes x @ r)" for r by (simp add: varatt_simps varatt_class_defs)
  with indirect(1) image_pointer [OF a disjI2 [OF refl], of flatten] show ?thesis by blast
qed

lemma fill_again:
  assumes ok: "att_ok att" and h: "col_holds ms env att v False c" and s: "stored_col (de_flatten env) att v w"
  shows "fill_bytes (de_flatten env) att w = fill_bytes (de_flatten env) att v"
proof -
  obtain al bs m r where i: "col_image (de_flatten env) att v al bs m" "fetch_att (bs @ r) (attbyval att) (attlen att) = Inr w"
    using s by (auto simp: stored_col_def)
  have hw: "col_holds ms env att w False c"
    using col_given_image [OF ok, of ms env v c] h i image_unique unfolding col_given_def by metis
  show ?thesis
  proof (cases c)
    case ColNull
    with h show ?thesis by (simp add: col_holds_def)
  next
    case (ColWord x)
    with h hw show ?thesis by (simp add: col_holds_def)
  next
    case (ColText d)
    with h obtain p where p: "v = ByRef p" "represents ms env p d" and a: "attlen att = -1" "\<not> attbyval att"
      by (auto simp: col_holds_def)
    obtain al' bs' m' where j: "col_image (de_flatten env) att (ByRef p) al' bs' m'"
      "\<And>r. col_image (de_flatten env) att (ByRef (bs' @ r)) al' bs' m'" using text_again [OF a p(2)] by blast
    have "w = ByRef (bs' @ r)" using i j(1) p(1) image_unique a by (auto simp: fetch_att_def)
    then show ?thesis using imageD(1) [OF j(1)] imageD(1) [OF j(2)] p(1) by (intro ext) simp
  next
    case (ColRef b)
    with h hw obtain r1 r2 where v: "v = ByRef (b @ r1)" "w = ByRef (b @ r2)" and a: "\<not> attbyval att" "attlen att \<noteq> -1"
      and l: "if attlen att > 0 then length b = nat (attlen att) else \<exists>s. b = s @ [0] \<and> 0 \<notin> set s"
      by (auto simp: col_holds_def)
    show ?thesis
    proof (cases "attlen att > 0")
      case True
      with l v a show ?thesis by (intro ext) (simp add: fill_bytes_def DatumGetPointer_def rd_range_prefix)
    next
      case False
      with l obtain t where t: "b = t @ [0]" "0 \<notin> set t" by auto
      have "strlen (b @ r) = Inr (length t)" for r using strlen_append [OF t(2)] t(1) by simp
      moreover have "rd_range (b @ r) 0 (length t + 1) = Inr b" for r
        by (rule rd_range_prefix) (simp add: t(1))
      ultimately show ?thesis using False ok a v by (intro ext) (simp add: fill_bytes_def DatumGetPointer_def att_ok_def)
    qed
  qed
qed

lemma layout_again:
  "cols_hold ms env as vs ns cs \<Longrightarrow> \<forall>a\<in>set as. att_ok a \<Longrightarrow> stored_cols (de_flatten env) as vs ns ws \<Longrightarrow>
     layout (de_flatten env) as ws ns off = layout (de_flatten env) as vs ns off"
proof (induction as arbitrary: vs ns cs ws off)
  case (Cons a as)
  from Cons.prems(1,3) obtain v vs' n ns' c cs' w ws' where l: "vs = v # vs'" "ns = n # ns'" "cs = c # cs'" "ws = w # ws'"
    by (cases vs; cases ns; cases cs; cases ws) (auto simp: cols_hold_def)
  from Cons.prems have h: "col_holds ms env a v n c" "cols_hold ms env as vs' ns' cs'" "att_ok a" "\<forall>a\<in>set as. att_ok a"
    "stored_cols (de_flatten env) as vs' ns' ws'" "\<not> n \<Longrightarrow> stored_col (de_flatten env) a v w"
    unfolding l by (auto simp: cols_hold_def All_less_Suc2 split: if_splits)
  show ?case
  proof (cases n)
    case False
    then have "fill_bytes (de_flatten env) a w = fill_bytes (de_flatten env) a v"
      using fill_again [OF h(3), of ms env v c w] h(1,6) by simp
    with Cons.IH [OF h(2,4,5)] False show ?thesis by (auto simp: l split: sum.splits)
  qed (use Cons.IH [OF h(2,4,5)] in \<open>simp add: l\<close>)
qed simp

lemma toast_call_result:
  assumes ok: "toast_call_ok ps rel tw newtup oldtup cs" and tais: "length (td_attrs (rd_att rel)) \<le> length tais"
  obtains tw1 tup where "heap_toast_insert_or_update ps rel tw newtup oldtup tais =
      Inr (tw1\<lparr>tw_store := purge (replaced_pointers (rd_att rel) newtup oldtup) (tw_store tw1)\<rparr>, tup)"
    "tuple_stores UNIV ((tp_detoast ps)\<lparr>de_store := purge (replaced_pointers (rd_att rel) newtup oldtup) (tw_store tw1)\<rparr>)
      (td_attrs (rd_att rel)) (t_data tup) cs"
    "same_values (world_env ps tw) (world_env ps tw1)"
proof -
  let ?td = "rd_att rel" and ?dead = "replaced_pointers (rd_att rel) newtup oldtup" and ?fl = "de_flatten (tp_detoast ps)"
  obtain td2 ttc tw1 G where r:
    "G = call_goal ps (rel\<lparr>rd_att := td2\<rparr>) tw (deformed ?td newtup) (map_option (deformed ?td) oldtup) cs"
    "desc_ok td2" "same_atts (td_attrs ?td) (td_attrs td2)" "tg_dead G = ?dead" "toast_inv G (ttc, tw1)"
    "reltoastrelid (rd_rel rel) \<noteq> InvalidOid \<longrightarrow>
      size_minus (RelationGetToastTupleTarget rel) (header_len (length (td_attrs td2)) (True \<in> set (tg_nulls G))) \<le>
      size_minus (int TOAST_TUPLE_TARGET_MAIN) (header_len (length (td_attrs td2)) (True \<in> set (tg_nulls G))) \<longrightarrow>
      rounds_done G (header_len (length (td_attrs td2)) (True \<in> set (tg_nulls G))) ttc"
    "heap_toast_insert_or_update ps rel tw newtup oldtup tais =
      bindE (if flag_set (ttc_flags ttc) TOAST_NEEDS_CHANGE then
               bindE (toast_rebuild ?fl td2 (ttc_values ttc) (tg_nulls G)
                        (True \<in> set (tg_nulls G)) HEAPTUPLESIZE (t_data newtup))
                 (\<lambda>(new_tuple_len, new_data).
                   Inr (newtup\<lparr>t_len := word_of_int new_tuple_len, t_data := new_data\<rparr>))
             else Inr newtup)
        (\<lambda>result. Inr (tw1\<lparr>tw_store := purge (tg_dead G) (tw_store tw1)\<rparr>, result))"
    by (rule toast_call_runs [OF ok tais])
  let ?env' = "(tp_detoast ps)\<lparr>de_store := purge ?dead (tw_store tw1)\<rparr>"
  have G: "tg_atts G = td_attrs td2" "tg_row G = cs" "tg_store G = tw_store tw" "tg_env G st = (tp_detoast ps)\<lparr>de_store := st\<rparr>"
    "tg_values G = fst (deformed ?td newtup)" "tg_nulls G = snd (deformed ?td newtup)" for st
    by (simp_all add: r(1) call_goal_def Let_def)
  have hold: "cols_hold UNIV ?env' (td_attrs td2) (ttc_values ttc) (tg_nulls G) cs"
    using inv_purged [OF r(5)] unfolding G(1,2,4) r(4) .
  have same: "same_values (world_env ps tw) (world_env ps tw1)"
    using r(5) unfolding toast_inv_def prod.case G(3,4) by blast
  have fits: "row_fits cs" using ok by (simp add: toast_call_ok_def Let_def)
  show thesis
  proof (cases "flag_set (ttc_flags ttc) TOAST_NEEDS_CHANGE")
    case True
    obtain l h where h: "toast_rebuild ?fl td2 (ttc_values ttc) (tg_nulls G) (True \<in> set (tg_nulls G)) HEAPTUPLESIZE
        (t_data newtup) = Inr (l, h)" "filled ?fl (td_attrs td2) (ttc_values ttc) (tg_nulls G) h"
      using toast_rebuild_filled [OF r(2) cols_hold_given [OF hold] fits le_refl, of "t_data newtup"] by auto
    have "tuple_stores UNIV ?env' (td_attrs td2) h cs"
      unfolding tuple_stores_def using cols_hold_given [OF hold] h(2) by auto
    then have st: "tuple_stores UNIV ?env' (td_attrs ?td) (t_data (newtup\<lparr>t_len := word_of_int l, t_data := h\<rparr>)) cs"
      using same_atts_stores [OF r(3)] by simp
    show thesis by (rule that [OF _ st same]) (unfold r(7) r(4) h(1), simp add: True)
  next
    case False
    obtain vs ws ns where f: "deformed ?td newtup = (ws, ns)" "cols_given UNIV (world_env ps tw) (td_attrs ?td) vs ns cs"
      "filled ?fl (td_attrs ?td) vs ns (t_data newtup)" "stored_cols ?fl (td_attrs ?td) vs ns ws"
    proof (rule toast_call_deforms [OF ok])
      fix td1 td2 vs ws ns
      assume "deformed ?td newtup = (ws, ns)" "cols_given UNIV (world_env ps tw) (td_attrs ?td) vs ns cs"
        "filled ?fl (td_attrs ?td) vs ns (t_data newtup)" "stored_cols ?fl (td_attrs ?td) vs ns ws"
      then show thesis by (rule that)
    qed
    have "ttc_values ttc = ws" using r(5) False f(1) G(5) by (simp add: toast_inv_def)
    with hold have "cols_hold UNIV ?env' (td_attrs ?td) ws ns cs" using f(1) G(6) by (simp add: same_atts_cols [OF r(3)])
    then have "cols_given UNIV ?env' (td_attrs ?td) vs ns cs"
      using cols_given_back [of UNIV "world_env ps tw" "td_attrs ?td" vs ns cs ws ?env'] f(2,4) by simp
    with f(3) have st: "tuple_stores UNIV ?env' (td_attrs ?td) (t_data newtup) cs" unfolding tuple_stores_def by auto
    show thesis by (rule that [OF _ st same]) (unfold r(7) r(4), simp add: False)
  qed
qed

lemma col_state_cache: "col_state env dead (a\<lparr>attcacheoff := k\<rparr>) v n tai c = col_state env dead a v n tai c"
proof -
  have sel: "attstorage (a\<lparr>attcacheoff := k\<rparr>) = attstorage a" "attcompression (a\<lparr>attcacheoff := k\<rparr>) = attcompression a"
    by simp_all
  show ?thesis unfolding col_state_def cache_irrelevant sel by (rule refl)
qed

lemma inline_small:
  assumes st: "col_state env dead att v False tai c" and a: "att_ok att" "attlen att = -1" "attstorage att \<noteq> TYPSTORAGE_PLAIN"
    and w: "w = v \<or> stored_col flatten att v w" "\<not> VARATT_IS_EXTERNAL (DatumGetPointer w)"
    and small: "\<not> flag_set (tai_colflags tai) TOASTCOL_IGNORE \<Longrightarrow> tai_size tai \<le> 24"
  shows "\<exists>k. VARSIZE_ANY (DatumGetPointer w) = Inr k \<and> k \<le> 24"
proof -
  obtain d p where c: "c = ColText d" "v = ByRef p" "represents UNIV env p d" "\<not> attbyval att"
    using varlena_col [OF a(1,2)] st by (metis col_state_def)
  obtain al bs m where i: "col_image flatten att (ByRef p) al bs m"
    "VARATT_IS_EXTERNAL (bs @ r) = VARATT_IS_EXTERNAL p" "\<not> VARATT_IS_EXTERNAL p \<longrightarrow> (\<exists>n. VARSIZE_ANY p = Inr n \<and> int (length bs) \<le> n)"
    for r using text_again [OF a(2) c(4,3), of flatten] by blast
  have wp: "w = ByRef p \<or> (\<exists>r. w = ByRef (bs @ r))"
    using w(1) c(2,4) image_unique [OF i(1)] by (auto simp: stored_col_def fetch_att_def)
  with w(2) i(2) have ne: "\<not> VARATT_IS_EXTERNAL p" by (auto simp: DatumGetPointer_def)
  with st c(1,2) a(3) have o: "\<not> flag_set (tai_colflags tai) TOASTCOL_IGNORE"
    by (auto simp: col_state_def DatumGetPointer_def)
  with st c(2) small have n: "VARSIZE_ANY p = Inr (tai_size tai)" "tai_size tai \<le> 24"
    by (auto simp: col_state_def DatumGetPointer_def)
  have "VARSIZE_ANY (bs @ r) = Inr (int (length bs))" for r
    using imageD(2) [OF i(1), of 0 r] imageD(3) [OF i(1)] a(2)
    by (auto simp: att_addlength_pointer_def bindE_eq_Inr_iff nat_eq_iff split: if_splits)
  with wp n i(3) ne show ?thesis by (auto simp: DatumGetPointer_def)
qed

lemma size_minus_target:
  "int hoff \<le> a \<Longrightarrow> a \<le> int TOAST_TUPLE_TARGET_MAIN \<Longrightarrow> size_minus a hoff = a - int hoff"
  by (simp add: size_minus_def TOAST_TUPLE_TARGET_MAIN_def MaximumBytesPerTuple_def TYPEALIGN_DOWN_def MAXALIGN_def
      TYPEALIGN_def)

lemma size_any_desc:
  assumes "cols_hold ms env as vs ns cs" "\<forall>a\<in>set as. att_ok a" "same_atts as (td_attrs td)"
  shows "heap_compute_data_size (de_flatten env) td vs ns = Inr (length (layout (de_flatten env) as vs ns 0))"
proof -
  have "cols_hold ms env (td_attrs td) vs ns cs" using assms by (simp add: same_atts_cols)
  then have "cols_ok (de_flatten env) (td_attrs td) vs ns"
    using cols_given_ok [OF cols_hold_given] same_atts_ok [OF assms(3,2)] by blast
  from data_size_layout [OF this, of 0] same_atts_layout [OF assms(3)] show ?thesis
    by (simp add: heap_compute_data_size_def)
qed

text \<open>The columns of the returned tuple: those of the context, as they are read back.\<close>

lemma toast_call_columns:
  assumes ok: "toast_call_ok ps rel tw newtup oldtup cs" and tais: "length (td_attrs (rd_att rel)) \<le> length tais"
  obtains td2 ttc tw1 G tw' tup ws where
    "G = call_goal ps (rel\<lparr>rd_att := td2\<rparr>) tw (deformed (rd_att rel) newtup) (map_option (deformed (rd_att rel)) oldtup) cs"
    "same_atts (td_attrs (rd_att rel)) (td_attrs td2)" "toast_inv G (ttc, tw1)"
    "reltoastrelid (rd_rel rel) \<noteq> InvalidOid \<longrightarrow>
      size_minus (RelationGetToastTupleTarget rel) (header_len (length (td_attrs td2)) (True \<in> set (tg_nulls G))) \<le>
      size_minus (int TOAST_TUPLE_TARGET_MAIN) (header_len (length (td_attrs td2)) (True \<in> set (tg_nulls G))) \<longrightarrow>
      rounds_done G (header_len (length (td_attrs td2)) (True \<in> set (tg_nulls G))) ttc"
    "heap_toast_insert_or_update ps rel tw newtup oldtup tais = Inr (tw', tup)" "deformed (rd_att rel) tup = (ws, tg_nulls G)"
    "cols_hold UNIV (world_env ps tw1) (td_attrs (rd_att rel)) (ttc_values ttc) (tg_nulls G) cs"
    "ws = ttc_values ttc \<or> stored_cols (de_flatten (tp_detoast ps)) (td_attrs (rd_att rel)) (ttc_values ttc) (tg_nulls G) ws"
proof -
  let ?td = "rd_att rel" and ?fl = "de_flatten (tp_detoast ps)"
  obtain td2 ttc tw1 G where r:
    "G = call_goal ps (rel\<lparr>rd_att := td2\<rparr>) tw (deformed ?td newtup) (map_option (deformed ?td) oldtup) cs"
    "desc_ok td2" "same_atts (td_attrs ?td) (td_attrs td2)" "tg_dead G = replaced_pointers ?td newtup oldtup" "toast_inv G (ttc, tw1)"
    "reltoastrelid (rd_rel rel) \<noteq> InvalidOid \<longrightarrow>
      size_minus (RelationGetToastTupleTarget rel) (header_len (length (td_attrs td2)) (True \<in> set (tg_nulls G))) \<le>
      size_minus (int TOAST_TUPLE_TARGET_MAIN) (header_len (length (td_attrs td2)) (True \<in> set (tg_nulls G))) \<longrightarrow>
      rounds_done G (header_len (length (td_attrs td2)) (True \<in> set (tg_nulls G))) ttc"
    "heap_toast_insert_or_update ps rel tw newtup oldtup tais =
      bindE (if flag_set (ttc_flags ttc) TOAST_NEEDS_CHANGE then
               bindE (toast_rebuild ?fl td2 (ttc_values ttc) (tg_nulls G)
                        (True \<in> set (tg_nulls G)) HEAPTUPLESIZE (t_data newtup))
                 (\<lambda>(new_tuple_len, new_data).
                   Inr (newtup\<lparr>t_len := word_of_int new_tuple_len, t_data := new_data\<rparr>))
             else Inr newtup)
        (\<lambda>result. Inr (tw1\<lparr>tw_store := purge (tg_dead G) (tw_store tw1)\<rparr>, result))"
    by (rule toast_call_runs [OF ok tais])
  have d: "desc_ok ?td" and fits: "row_fits cs" using ok by (auto simp: toast_call_ok_def Let_def)
  have G: "tg_atts G = td_attrs td2" "tg_row G = cs" "tg_env G st = (tp_detoast ps)\<lparr>de_store := st\<rparr>"
    "tg_values G = fst (deformed ?td newtup)" "tg_nulls G = snd (deformed ?td newtup)" for st
    by (simp_all add: r(1) call_goal_def Let_def)
  have "ttc_isnull ttc = tg_nulls G" using r(5) by (simp add: toast_inv_def)
  with inv_holds [OF r(5)] have hold2: "cols_hold UNIV (world_env ps tw1) (td_attrs td2) (ttc_values ttc) (tg_nulls G) cs"
    unfolding G(1-3) by simp
  then have hold: "cols_hold UNIV (world_env ps tw1) (td_attrs ?td) (ttc_values ttc) (tg_nulls G) cs"
    by (simp add: same_atts_cols [OF r(3)])
  show thesis
  proof (cases "flag_set (ttc_flags ttc) TOAST_NEEDS_CHANGE")
    case True
    obtain l h where h: "toast_rebuild ?fl td2 (ttc_values ttc) (tg_nulls G) (True \<in> set (tg_nulls G)) HEAPTUPLESIZE
        (t_data newtup) = Inr (l, h)" "filled ?fl (td_attrs td2) (ttc_values ttc) (tg_nulls G) h"
      using toast_rebuild_filled [OF r(2) cols_hold_given [OF hold2] fits le_refl, of "t_data newtup"] by auto
    let ?tup = "newtup\<lparr>t_len := word_of_int l, t_data := h\<rparr>"
    have f: "filled (de_flatten (world_env ps tw1)) (td_attrs ?td) (ttc_values ttc) (tg_nulls G) (t_data ?tup)"
      using h(2) by (simp add: same_atts_filled [OF r(3)])
    obtain as' ws where w: "heap_deform_tuple ?tup ?td = Inr (?td\<lparr>td_attrs := as'\<rparr>, ws, tg_nulls G)"
      "stored_cols ?fl (td_attrs ?td) (ttc_values ttc) (tg_nulls G) ws"
    proof (rule filled_deform [OF d cols_hold_given [OF hold] f])
      fix as' ws
      assume "heap_deform_tuple ?tup ?td = Inr (?td\<lparr>td_attrs := as'\<rparr>, ws, tg_nulls G)"
        "stored_cols (de_flatten (world_env ps tw1)) (td_attrs ?td) (ttc_values ttc) (tg_nulls G) ws"
      with that [of as' ws] show thesis by simp
    qed
    have df: "deformed ?td ?tup = (ws, tg_nulls G)" using w(1) by (simp add: deformed_def)
    show thesis
      by (rule that [OF r(1,3,5,6) _ df hold disjI2 [OF w(2)]]) (unfold r(7) h(1), simp add: True)
  next
    case False
    have df: "deformed ?td newtup = (ttc_values ttc, tg_nulls G)"
      using r(5) False G(4,5) by (simp add: toast_inv_def prod_eq_iff)
    show thesis by (rule that [OF r(1,3,5,6) _ df hold disjI1 [OF refl]]) (unfold r(7), simp add: False)
  qed
qed

section \<open>Flattening\<close>

text \<open>An environment without TOAST tables and without in-memory pointers: what a value stands for there
  is in the value itself.\<close>

abbreviation detached :: "detoast_env \<Rightarrow> detoast_env" where
  "detached env \<equiv> env\<lparr>de_store := Map.empty, de_mem := Map.empty\<rparr>"

lemma tuple_storesI: "cols_hold ms env as vs ns cs \<Longrightarrow> filled (de_flatten env) as vs ns h \<Longrightarrow> tuple_stores ms env as h cs"
  unfolding tuple_stores_def using cols_hold_given by blast

lemma flatten_col:
  assumes ok: "att_ok att" and g: "col_given UNIV env att v n c"
  shows "\<exists>v'. (if \<not> n \<and> attlen att = -1 \<and> VARATT_IS_EXTERNAL (DatumGetPointer v) then
      bindE (detoast_external_attr (Suc fuel) env (DatumGetPointer v)) (\<lambda>r. Inr (ByRef (the_datum (DatumGetPointer v) r)))
      else Inr v) = Inr v' \<and> col_holds UNIV (detached env) att v' n c"
proof (cases "n \<or> attlen att \<noteq> -1")
  case True
  with g have "\<forall>d. c \<noteq> ColText d" by (auto simp: col_given_def col_holds_def)
  with True g show ?thesis by (cases c) (auto simp: col_given_def col_holds_def)
next
  case False
  then have n: "attlen att = -1" "n = False" by simp_all
  have "\<exists>d p. c = ColText d \<and> v = ByRef p \<and> \<not> attbyval att \<and> (represents UNIV env p d \<or>
      VARATT_IS_EXTERNAL_EXPANDED p \<and> de_flatten env p = Inr (mk_plain d) \<and> fits_4b d)"
    using g unfolding col_given_def n(2)
  proof
    assume "col_holds UNIV env att v False c"
    then show ?thesis by (rule varlena_col [OF ok n(1)]) blast
  qed blast
  then obtain d p where c: "c = ColText d" "v = ByRef p" "\<not> attbyval att"
    "represents UNIV env p d \<or> VARATT_IS_EXTERNAL_EXPANDED p \<and> de_flatten env p = Inr (mk_plain d) \<and> fits_4b d"
    by blast
  have fin: "col_holds UNIV (detached env) att (ByRef q) n c" if "inline_datum UNIV q d" for q
    using that c False by (auto simp: col_holds_def intro: represents.inline)
  show ?thesis
  proof (cases "VARATT_IS_EXTERNAL p")
    case True
    have "\<exists>q. detoast_external_attr (Suc fuel) env p = Inr (Some q) \<and> inline_datum UNIV q d"
      using c(4)
    proof
      assume "represents UNIV env p d"
      then show ?thesis using True by (rule detoast_external_represents)
    next
      assume e: "VARATT_IS_EXTERNAL_EXPANDED p \<and> de_flatten env p = Inr (mk_plain d) \<and> fits_4b d"
      then have "inline_datum UNIV (mk_plain d @ []) d" by (auto simp: inline_datum_def text_datum_def)
      moreover have "\<not> VARATT_IS_EXTERNAL_ONDISK p" "\<not> VARATT_IS_EXTERNAL_INDIRECT p"
        using e by (auto simp: varatt_class_defs VARTAG_IS_EXPANDED_def vartags)
      ultimately show ?thesis using e by (subst detoast_external_attr.simps) simp
    qed
    with True c(2) False fin show ?thesis by (auto simp: DatumGetPointer_def the_datum_def)
  next
    case ne: False
    then have "\<not> VARATT_IS_EXTERNAL_EXPANDED p" by simp
    with ne c(2,4) fin represents_inline_iff [of UNIV env p d] show ?thesis by (auto simp: DatumGetPointer_def)
  qed
qed

lemma flatten_values_hold:
  "cols_given UNIV env as vs ns cs \<Longrightarrow> \<forall>a\<in>set as. att_ok a \<Longrightarrow>
     \<exists>vs'. flatten_values (Suc fuel) env as vs ns = Inr vs' \<and> cols_hold UNIV (detached env) as vs' ns cs"
proof (induction as arbitrary: vs ns cs)
  case (Cons a as)
  from Cons.prems(1) obtain v vs1 n ns1 c cs1 where l: "vs = v # vs1" "ns = n # ns1" "cs = c # cs1"
    by (cases vs; cases ns; cases cs) (auto simp: cols_given_def)
  from Cons.prems have g: "col_given UNIV env a v n c" "cols_given UNIV env as vs1 ns1 cs1" "att_ok a" "\<forall>a\<in>set as. att_ok a"
    unfolding l by (auto simp: cols_given_def All_less_Suc2)
  obtain v' where v': "(if \<not> n \<and> attlen a = -1 \<and> VARATT_IS_EXTERNAL (DatumGetPointer v) then
      bindE (detoast_external_attr (Suc fuel) env (DatumGetPointer v)) (\<lambda>r. Inr (ByRef (the_datum (DatumGetPointer v) r)))
      else Inr v) = Inr v'" "col_holds UNIV (detached env) a v' n c" using flatten_col [OF g(3,1)] by blast
  obtain vs' where "flatten_values (Suc fuel) env as vs1 ns1 = Inr vs'" "cols_hold UNIV (detached env) as vs' ns1 cs1"
    using Cons.IH [OF g(2,4)] by blast
  with v' show ?case unfolding l by (intro exI [of _ "v' # vs'"]) (simp add: cols_hold_def All_less_Suc2)
qed (simp add: cols_hold_def cols_given_def)

lemma detoast_col:
  assumes ok: "att_ok att" and g: "col_holds UNIV env att v n c"
  shows "\<exists>v'. (if \<not> n \<and> attlen att = -1 \<and> (VARATT_IS_EXTERNAL (DatumGetPointer v) \<or> VARATT_IS_COMPRESSED (DatumGetPointer v)) then
      bindE (detoast_attr (Suc fuel) env (DatumGetPointer v)) (\<lambda>r. Inr (ByRef (the_datum (DatumGetPointer v) r)))
      else Inr v) = Inr v' \<and> col_holds {} (detached env) att v' n c"
proof (cases "n \<or> attlen att \<noteq> -1")
  case True
  with g have "\<forall>d. c \<noteq> ColText d" by (auto simp: col_holds_def)
  with True g show ?thesis by (cases c) (auto simp: col_holds_def)
next
  case False
  then have n: "attlen att = -1" "n = False" by simp_all
  obtain d p where c: "c = ColText d" "v = ByRef p" "\<not> attbyval att" "represents UNIV env p d"
    using varlena_col [OF ok n(1), of UNIV env v c] g n(2) by blast
  have fin: "col_holds {} (detached env) att (ByRef q) n c" if "text_datum q d" for q
    using that c False by (auto simp: col_holds_def inline_datum_def intro: represents.inline)
  show ?thesis
  proof (cases "VARATT_IS_EXTERNAL p \<or> VARATT_IS_COMPRESSED p")
    case True
    obtain r x where "detoast_attr (Suc fuel) env p = Inr r" "the_datum p r = mk_plain d @ x"
      using detoast_attr_represents [OF c(4), of "if VARATT_IS_EXTERNAL_INDIRECT p then fuel else Suc fuel"]
      by (auto split: if_splits)
    moreover have "text_datum (mk_plain d @ x) d" using represents_fits [OF c(4)] by (auto simp: text_datum_def)
    ultimately show ?thesis using True c(2) False fin by (auto simp: DatumGetPointer_def)
  next
    case ne: False
    with represents_inline_iff [OF c(4)] inline_uncompressed have "text_datum p d" by blast
    with ne c(2) fin show ?thesis by (auto simp: DatumGetPointer_def)
  qed
qed

lemma detoast_values_hold:
  "cols_hold UNIV env as vs ns cs \<Longrightarrow> \<forall>a\<in>set as. att_ok a \<Longrightarrow>
     \<exists>vs'. flatten_values_to_datum (Suc fuel) env as vs ns = Inr vs' \<and> cols_hold {} (detached env) as vs' ns cs"
proof (induction as arbitrary: vs ns cs)
  case (Cons a as)
  from Cons.prems(1) obtain v vs1 n ns1 c cs1 where l: "vs = v # vs1" "ns = n # ns1" "cs = c # cs1"
    by (cases vs; cases ns; cases cs) (auto simp: cols_hold_def)
  from Cons.prems have g: "col_holds UNIV env a v n c" "cols_hold UNIV env as vs1 ns1 cs1" "att_ok a" "\<forall>a\<in>set as. att_ok a"
    unfolding l by (auto simp: cols_hold_def All_less_Suc2)
  obtain v' where v': "(if \<not> n \<and> attlen a = -1 \<and> (VARATT_IS_EXTERNAL (DatumGetPointer v) \<or> VARATT_IS_COMPRESSED (DatumGetPointer v)) then
      bindE (detoast_attr (Suc fuel) env (DatumGetPointer v)) (\<lambda>r. Inr (ByRef (the_datum (DatumGetPointer v) r)))
      else Inr v) = Inr v'" "col_holds {} (detached env) a v' n c" using detoast_col [OF g(3,1)] by blast
  obtain vs' where "flatten_values_to_datum (Suc fuel) env as vs1 ns1 = Inr vs'" "cols_hold {} (detached env) as vs' ns1 cs1"
    using Cons.IH [OF g(2,4)] by blast
  with v' show ?case unfolding l by (intro exI [of _ "v' # vs'"]) (simp add: cols_hold_def All_less_Suc2)
qed (simp add: cols_hold_def)

text \<open>Copying the visibility fields of another header keeps the columns.\<close>

lemma masked_other:
  assumes "M AND N = (0 :: 16 word)"
  shows "((x AND NOT M) OR (y AND M)) AND N = x AND N"
proof -
  have "\<not> (bit M k \<and> bit N k)" for k using assms by (metis bit_and_iff bit_0_eq bot_apply bot_bool_def)
  then show ?thesis by (intro bit_word_eqI) (auto simp: bit_simps)
qed

lemma filled_header:
  assumes "filled fl as vs ns h"
  shows "filled fl as vs ns (h\<lparr>t_choice := ch, t_ctid := ci,
    t_infomask := (t_infomask h AND NOT HEAP_XACT_MASK) OR (im AND HEAP_XACT_MASK),
    t_infomask2 := (t_infomask2 h AND NOT HEAP2_XACT_MASK) OR (im2 AND HEAP2_XACT_MASK)\<rparr>)"
proof -
  have m: "((x AND NOT HEAP_XACT_MASK) OR (y AND HEAP_XACT_MASK)) AND HEAP_HASNULL = x AND HEAP_HASNULL" for x y
    by (rule masked_other) (simp add: HEAP_XACT_MASK_def HEAP_HASNULL_def)
  have mv: "((x AND NOT HEAP_XACT_MASK) OR (y AND HEAP_XACT_MASK)) AND HEAP_HASVARWIDTH = x AND HEAP_HASVARWIDTH" for x y
    by (rule masked_other) (simp add: HEAP_XACT_MASK_def HEAP_HASVARWIDTH_def)
  have m2: "((x AND NOT HEAP2_XACT_MASK) OR (y AND HEAP2_XACT_MASK)) AND HEAP_NATTS_MASK = x AND HEAP_NATTS_MASK" for x y
    by (rule masked_other) (simp add: HEAP2_XACT_MASK_def HEAP_NATTS_MASK_def)
  show ?thesis using assms by (simp add: filled_def varwidth_marked_def HeapTupleHeaderGetNatts_def m mv m2)
qed

section \<open>An insert\<close>

text \<open>A row with a text of 400 equal bytes, for a table whose \<open>toast_tuple_target\<close> is 128.\<close>

definition long_text :: bytes where "long_text = replicate 400 7"

definition long_row :: "colval list" where "long_row = [ColWord 7, ColText long_text, ColNull]"

definition long_values :: "datum list" where "long_values = [ByVal 7, ByRef (mk_plain long_text), ByVal 0]"

definition demo_params :: toast_params where
  "demo_params = \<lparr>tp_compression = demo_cenv, tp_detoast = demo_env, tp_fuel = 1\<rparr>"

definition demo_relation :: relation where
  "demo_relation = \<lparr>rd_rel = demo_heap, rd_att = demo_desc, rd_options = Some 128\<rparr>"

definition demo_world :: toast_world where
  "demo_world = \<lparr>tw_store = [9 \<mapsto> demo_table], tw_oids = [[1], [2], [3]]\<rparr>"

definition demo_infos :: "toast_attr_info list" where
  "demo_infos = replicate 3 \<lparr>tai_oldexternal = None, tai_size = 0, tai_colflags = 0, tai_compression = CHR 0x00\<rparr>"

lemma long_runs: "runs_in_windows 128 long_text"
proof -
  have "has_triple (replicate 128 x)" for x :: byte by (simp add: numeral_eq_Suc)
  then show ?thesis by (auto simp: runs_in_windows_def list_all_iff long_text_def min_def)
qed

lemma long_row_ok: "row_fits long_row"
  by (simp add: row_fits_def long_row_def col_weight_def long_text_def HEAPTUPLESIZE_def MaxAllocSize_def)

lemma long_given: "cols_given UNIV env (td_attrs demo_desc) long_values [False, False, True] long_row"
proof -
  have "inline_datum UNIV (mk_plain long_text @ []) long_text"
    unfolding inline_datum_def text_datum_def long_text_def by (intro disjI1 exI [of _ "[]"]) simp
  then have "represents UNIV env (mk_plain long_text) long_text" by (auto intro: represents.inline)
  moreover have "byval_norm 4 7 = 7" by (simp add: byval_norm_def)
  ultimately show ?thesis
    by (simp add: cols_given_def col_given_def col_holds_def demo_desc_def demo_att_def long_values_def long_row_def
        All_less_Suc2)
qed

lemma long_tuple:
  obtains tup where "heap_form_tuple (de_flatten demo_env) demo_desc long_values [False, False, True] = Inr tup"
    "tuple_stores UNIV demo_env (td_attrs demo_desc) (t_data tup) long_row"
    "toast_call_ok demo_params demo_relation demo_world tup None long_row"
    "snd (deformed demo_desc tup) = [False, False, True]"
proof -
  obtain tup where t: "heap_form_tuple (de_flatten demo_env) demo_desc long_values [False, False, True] = Inr tup"
    "filled (de_flatten demo_env) (td_attrs demo_desc) long_values [False, False, True] (t_data tup)"
    using heap_form_stores [OF demo_desc_ok long_given long_row_ok] by blast
  have st: "tuple_stores UNIV env (td_attrs demo_desc) (t_data tup) long_row" if "de_flatten env = de_flatten demo_env" for env
    using t(2) long_given that unfolding tuple_stores_def by auto
  have "lossless demo_cenv (td_attrs demo_desc ! i) (long_row ! i)" if "i < length (td_attrs demo_desc)" for i
    using that long_runs demo_method
    by (auto simp: demo_desc_def demo_att_def long_row_def lossless_def less_Suc_eq)
  moreover have "oids_ready demo_heap {} (length (td_attrs demo_desc)) demo_world"
    by (simp add: oids_ready_def demo_heap_def demo_world_def demo_desc_def demo_table_def has_valid_index_def InvalidOid_def)
  ultimately have ok: "toast_call_ok demo_params demo_relation demo_world tup None long_row"
    using st [of "world_env demo_params demo_world"] demo_desc_ok long_row_ok
    by (simp add: toast_call_ok_def demo_relation_def demo_params_def replaced_pointers_def dead_pointers_def demo_cenv_def)
  have "snd (deformed demo_desc tup) = [False, False, True]"
  proof (rule filled_deform [OF demo_desc_ok long_given t(2)])
    fix as' ws
    assume "heap_deform_tuple tup demo_desc = Inr (demo_desc\<lparr>td_attrs := as'\<rparr>, ws, [False, False, True])"
    then show ?thesis by (simp add: deformed_def)
  qed
  from that [OF t(1) st [OF refl] ok this] show thesis .
qed

section \<open>Properties\<close>





text \<open>C19. Deleting a tuple deletes its out-of-line values, all of them and nothing else.\<close>

theorem heap_toast_delete_correct:
  assumes d: "desc_ok td" and t: "tuple_stores UNIV env (td_attrs td) (t_data tup) cs"
  shows "heap_toast_delete (de_store env) td tup spec = Inr (purge {x. Some x \<in> set (row_pointers (td_attrs td)
    (fst (deformed td tup)) (snd (deformed td tup)))} (de_store env))"
proof -
  have refl: "same_atts (td_attrs td) (td_attrs td)" by (simp add: list_all2_refl)
  obtain td' ws ns vs where r: "heap_deform_tuple tup td = Inr (td', ws, ns)" "deformed td tup = (ws, ns)" "desc_ok td'"
    "same_atts (td_attrs td) (td_attrs td')" "cols_hold UNIV env (td_attrs td) ws ns cs"
    "cols_given UNIV env (td_attrs td) vs ns cs" "filled (de_flatten env) (td_attrs td) vs ns (t_data tup)"
    "stored_cols (de_flatten env) (td_attrs td) vs ns ws"
    by (rule deform_stored [OF d d refl t])
  note len = same_atts_nth(1) [OF r(4)]
  have ptrs: "row_pointers (td_attrs td') ws ns = row_pointers (td_attrs td) ws ns"
    using len same_atts_pointer(1) [OF r(4)] r(5)
    by (intro nth_equalityI) (auto simp: row_pointers_def cols_hold_def)
  have "deletable (de_store env) (DatumGetPointer (ws ! i))"
    if i: "i < length (td_attrs td')" "attlen (td_attrs td' ! i) = -1" "\<not> ns ! i" "VARATT_IS_EXTERNAL_ONDISK (DatumGetPointer (ws ! i))" for i
  proof -
    have h: "cols_hold UNIV env (td_attrs td') ws ns cs" using r(5) by (simp add: same_atts_cols [OF r(4)])
    have "col_holds UNIV env (td_attrs td' ! i) (ws ! i) False (cs ! i)" "att_ok (td_attrs td' ! i)"
      using h i(1,3) r(3) by (auto simp: cols_hold_def desc_ok_def)
    then obtain p x where "ws ! i = ByRef p" "represents UNIV env p x" using varlena_col i(2) by metis
    with i(4) represents_deletable show ?thesis by (auto simp: DatumGetPointer_def)
  qed
  then have "toast_delete_external (de_store env) (td_attrs td') ws ns spec =
      Inr (purge {x. Some x \<in> set (row_pointers (td_attrs td') ws ns)} (de_store env))"
    using r(5) len by (intro toast_delete_external_purge) (auto simp: cols_hold_def)
  with r(1,2) ptrs show ?thesis by (simp add: heap_toast_delete_def)
qed

theorem heap_toast_delete_correct_witness:
  "\<exists>tup. heap_form_tuple (de_flatten demo_env) demo_desc long_values [False, False, True] = Inr tup \<and>
    heap_toast_delete (de_store demo_env) demo_desc tup False = Inr (purge {x. Some x \<in> set (row_pointers (td_attrs demo_desc)
      (fst (deformed demo_desc tup)) (snd (deformed demo_desc tup)))} (de_store demo_env))"
proof -
  obtain tup where t: "heap_form_tuple (de_flatten demo_env) demo_desc long_values [False, False, True] = Inr tup"
    "tuple_stores UNIV demo_env (td_attrs demo_desc) (t_data tup) long_row"
    using long_tuple by blast
  from heap_toast_delete_correct [OF demo_desc_ok t(2)] t(1) show ?thesis by blast
qed



text \<open>C21. A composite datum contains no out-of-line and no compressed value: the result of
  \<open>toast_flatten_tuple_to_datum\<close> stores the same row without any compression method, TOAST table or
  in-memory pointer.\<close>

theorem toast_flatten_tuple_to_datum_correct:
  assumes d: "desc_ok td" and t: "tuple_stores UNIV env (td_attrs td) h cs" and w: "row_fits cs"
  shows "\<exists>h'. toast_flatten_tuple_to_datum (Suc fuel) env h tup_len td = Inr h' \<and>
    tuple_stores {} (detached env) (td_attrs td) h' cs"
proof -
  let ?tup = "\<lparr>t_len = tup_len, t_self = ItemPointerSetInvalid, t_tableOid = InvalidOid, t_data = h\<rparr>"
  have refl: "same_atts (td_attrs td) (td_attrs td)" by (simp add: list_all2_refl)
  have t': "tuple_stores UNIV env (td_attrs td) (t_data ?tup) cs" using t by simp
  obtain td' ws ns vs where r: "heap_deform_tuple ?tup td = Inr (td', ws, ns)" "deformed td ?tup = (ws, ns)" "desc_ok td'"
    "same_atts (td_attrs td) (td_attrs td')" "cols_hold UNIV env (td_attrs td) ws ns cs"
    "cols_given UNIV env (td_attrs td) vs ns cs" "filled (de_flatten env) (td_attrs td) vs ns (t_data ?tup)"
    "stored_cols (de_flatten env) (td_attrs td) vs ns ws"
    by (rule deform_stored [OF d d refl t'])
  have h: "cols_hold UNIV env (td_attrs td') ws ns cs" using r(5) by (simp add: same_atts_cols [OF r(4)])
  then obtain vs' where v: "flatten_values_to_datum (Suc fuel) env (td_attrs td') ws ns = Inr vs'"
    "cols_hold {} (detached env) (td_attrs td') vs' ns cs"
    using detoast_values_hold [of env "td_attrs td'" ws ns cs fuel] r(3) unfolding desc_ok_def by blast
  have n: "take (length (td_attrs td')) ns = ns" using h by (simp add: cols_hold_def)
  obtain l h' where b: "toast_rebuild (de_flatten env) td' vs' ns (True \<in> set ns) 0 h = Inr (l, h')"
    "filled (de_flatten env) (td_attrs td') vs' ns h'"
    using toast_rebuild_filled [OF r(3) cols_hold_given [OF v(2)] w, of 0 h] by auto
  then have "filled (de_flatten env) (td_attrs td') vs' ns (h'\<lparr>t_choice := ch\<rparr>)" for ch by (simp add: filled_def)
  then have "tuple_stores {} (detached env) (td_attrs td') (h'\<lparr>t_choice := ch\<rparr>) cs" for ch
    by (intro tuple_storesI [OF v(2)]) simp
  with r(1) v(1) b(1) n show ?thesis by (simp add: toast_flatten_tuple_to_datum_def same_atts_stores [OF r(4)])
qed

theorem toast_flatten_tuple_to_datum_correct_witness:
  "\<exists>tup h'. heap_form_tuple (de_flatten demo_env) demo_desc long_values [False, False, True] = Inr tup \<and>
    toast_flatten_tuple_to_datum (Suc 0) demo_env (t_data tup) (t_len tup) demo_desc = Inr h' \<and>
    tuple_stores {} (detached demo_env) (td_attrs demo_desc) h' long_row"
proof -
  obtain tup where t: "heap_form_tuple (de_flatten demo_env) demo_desc long_values [False, False, True] = Inr tup"
    "tuple_stores UNIV demo_env (td_attrs demo_desc) (t_data tup) long_row"
    using long_tuple by blast
  from toast_flatten_tuple_to_datum_correct [OF demo_desc_ok t(2) long_row_ok, of 0 "t_len tup"] t(1) show ?thesis by blast
qed

end
