(* ===== verification/Heaptuple_Access.thy ===== *)
theory Heaptuple_Access
  imports Heaptuple
begin

text \<open>
  The rest of \<^verbatim>\<open>heaptuple.c\<close>: reading a single attribute of a tuple (\<open>heap_attisnull\<close>,
  \<open>nocachegetattr\<close>, \<open>heap_getsysattr\<close> and, from \<^verbatim>\<open>htup_details.h\<close>, \<open>fastgetattr\<close> and
  \<open>heap_getattr\<close>), copying tuples, changing columns given by number, filling in attributes added to
  the table after the tuple was stored (\<open>expand_tuple\<close>), and minimal tuples.
\<close>

section \<open>Single attributes\<close>

definition SelfItemPointerAttributeNumber :: int where "SelfItemPointerAttributeNumber = -1"
definition MinTransactionIdAttributeNumber :: int where "MinTransactionIdAttributeNumber = -2"
definition MinCommandIdAttributeNumber :: int where "MinCommandIdAttributeNumber = -3"
definition MaxTransactionIdAttributeNumber :: int where "MaxTransactionIdAttributeNumber = -4"
definition MaxCommandIdAttributeNumber :: int where "MaxCommandIdAttributeNumber = -5"
definition TableOidAttributeNumber :: int where "TableOidAttributeNumber = -6"

lemmas sysattr_numbers = SelfItemPointerAttributeNumber_def MinTransactionIdAttributeNumber_def
  MinCommandIdAttributeNumber_def MaxTransactionIdAttributeNumber_def MaxCommandIdAttributeNumber_def
  TableOidAttributeNumber_def

definition HeapTupleHasVarWidth :: "heap_tuple \<Rightarrow> bool" where
  "HeapTupleHasVarWidth tup \<longleftrightarrow> t_infomask (t_data tup) AND HEAP_HASVARWIDTH \<noteq> 0"

definition TupleDescAttr :: "tuple_desc \<Rightarrow> nat \<Rightarrow> pg_attribute res" where
  "TupleDescAttr tupleDesc i =
     (if i < length (td_attrs tupleDesc) then Inr (td_attrs tupleDesc ! i) else Inl MemFault)"

text \<open>A pointer to the data of a tuple.\<close>

definition tuple_data :: "heap_tuple \<Rightarrow> bytes" where
  "tuple_data tup = drop (unat (t_hoff (t_data tup)) - SizeofHeapTupleHeader) (t_bits (t_data tup))"

definition heap_attisnull :: "heap_tuple \<Rightarrow> int \<Rightarrow> tuple_desc option \<Rightarrow> bool res" where
  "heap_attisnull tup attnum tupleDesc =
     (if attnum > int (HeapTupleHeaderGetNatts (t_data tup)) then
        (case tupleDesc of
           None \<Rightarrow> Inr True
         | Some td \<Rightarrow> bindE (TupleDescAttr td (nat (attnum - 1))) (\<lambda>att. Inr (\<not> atthasmissing att)))
      else if attnum > 0 then
        if \<not> HeapTupleHasNulls tup then Inr False
        else att_isnull (nat (attnum - 1)) (t_bits (t_data tup))
      else if attnum \<in> {TableOidAttributeNumber, SelfItemPointerAttributeNumber,
          MinTransactionIdAttributeNumber, MinCommandIdAttributeNumber,
          MaxTransactionIdAttributeNumber, MaxCommandIdAttributeNumber} then Inr False
      else Inl (Ereport ERRCODE_INTERNAL_ERROR))"

text \<open>The first part of \<open>nocachegetattr\<close>: is one of the attributes before \<open>attnum\<close> null? First the
  bits below the final one in the last byte, then the bytes before it.\<close>

fun earlier_bytes :: "bytes \<Rightarrow> nat \<Rightarrow> nat \<Rightarrow> bool res" where
  "earlier_bytes bp i 0 = Inr False"
| "earlier_bytes bp i (Suc n) =
     bindE (rd bp i) (\<lambda>b. if b \<noteq> 0xFF then Inr True else earlier_bytes bp (i + 1) n)"

definition null_before :: "bytes \<Rightarrow> nat \<Rightarrow> bool res" where
  "null_before bp attnum =
     (let byte = attnum div 8; finalbit = attnum mod 8 in
      bindE (rd bp byte) (\<lambda>b.
        if NOT b AND (push_bit finalbit 1 - 1) \<noteq> 0 then Inr True else earlier_bytes bp 0 byte))"

text \<open>The second part: all attributes up to the target have fixed offsets. The cached offsets of all
  leading fixed-width attributes are set, from the first one on that is not cached.\<close>

fun cache_fixed :: "int \<Rightarrow> pg_attribute list \<Rightarrow> pg_attribute list" where
  "cache_fixed off [] = []"
| "cache_fixed off (att # atts) =
     (if attlen att \<le> 0 then att # atts
      else let off = int (att_align_nominal (nat off) (attalign att)) in
        att\<lparr>attcacheoff := off\<rparr> # cache_fixed (off + attlen att) atts)"

fun skip_cached :: "pg_attribute \<Rightarrow> pg_attribute list \<Rightarrow> pg_attribute list" where
  "skip_cached prev [] = []"
| "skip_cached prev (att # atts) =
     (if attcacheoff att > 0 then att # skip_cached att atts
      else cache_fixed (attcacheoff prev + attlen prev) (att # atts))"

definition set_cache :: "pg_attribute list \<Rightarrow> pg_attribute list" where
  "set_cache atts = (case atts of [] \<Rightarrow> []
     | att # atts \<Rightarrow> let att = att\<lparr>attcacheoff := 0\<rparr> in att # skip_cached att atts)"

text \<open>The third part: the walk over the attributes. A single attribute is placed by the same code as
  in \<open>heap_deform_tuple\<close>, with \<open>usecache\<close> for its \<open>\<not> slow\<close>.\<close>

fun getattr_walk :: "bool \<Rightarrow> bytes \<Rightarrow> bytes \<Rightarrow> pg_attribute list \<Rightarrow> nat \<Rightarrow> nat \<Rightarrow> nat \<Rightarrow> bool \<Rightarrow>
    (pg_attribute list \<times> nat) res" where
  "getattr_walk hasnulls bp tp [] i attnum off usecache = Inl MemFault"
| "getattr_walk hasnulls bp tp (att # atts) i attnum off usecache =
     bindE (if hasnulls then att_isnull i bp else Inr False) (\<lambda>null.
       if null then
         bindE (getattr_walk hasnulls bp tp atts (i + 1) attnum off False) (\<lambda>(atts', off).
           Inr (att # atts', off))
       else
         bindE (deform_offset tp att off (\<not> usecache)) (\<lambda>(off, att', slow).
           if i = attnum then Inr (att' # atts, off)
           else
             bindE (att_addlength_pointer off (attlen att) (drop off tp)) (\<lambda>off'.
             bindE (getattr_walk hasnulls bp tp atts (i + 1) attnum off' (\<not> slow \<and> \<not> attlen att \<le> 0))
               (\<lambda>(atts', off). Inr (att' # atts', off)))))"

text \<open>The descriptor comes back with its cached offsets updated.\<close>

definition nocachegetattr :: "heap_tuple \<Rightarrow> nat \<Rightarrow> tuple_desc \<Rightarrow> (tuple_desc \<times> datum) res" where
  "nocachegetattr tup attnum tupleDesc =
     (let bp = t_bits (t_data tup); tp = tuple_data tup; attnum = attnum - 1;
          atts = td_attrs tupleDesc
      in bindE (TupleDescAttr tupleDesc attnum) (\<lambda>att.
         bindE (if HeapTupleHasNulls tup then null_before bp attnum else Inr False) (\<lambda>slow.
           if \<not> slow \<and> attcacheoff att \<ge> 0 then
             bindE (fetch_att (drop (nat (attcacheoff att)) tp) (attbyval att) (attlen att)) (\<lambda>v.
               Inr (tupleDesc, v))
           else
             let slow = (slow \<or> HeapTupleHasVarWidth tup \<and> (\<exists>a\<in>set (take (attnum + 1) atts). attlen a \<le> 0)) in
             bindE (if \<not> slow then
                      let atts = set_cache atts in Inr (atts, nat (attcacheoff (atts ! attnum)))
                    else getattr_walk (HeapTupleHasNulls tup) bp tp atts 0 attnum 0 True) (\<lambda>(atts, off).
             bindE (fetch_att (drop off tp) (attbyval att) (attlen att)) (\<lambda>v.
               Inr (tupleDesc\<lparr>td_attrs := atts\<rparr>, v))))))"

definition fastgetattr :: "heap_tuple \<Rightarrow> nat \<Rightarrow> tuple_desc \<Rightarrow> (tuple_desc \<times> datum \<times> bool) res" where
  "fastgetattr tup attnum tupleDesc =
     (if \<not> HeapTupleHasNulls tup then
        bindE (TupleDescAttr tupleDesc (attnum - 1)) (\<lambda>att.
          if attcacheoff att \<ge> 0 then
            bindE (fetch_att (drop (nat (attcacheoff att)) (tuple_data tup)) (attbyval att) (attlen att)) (\<lambda>v.
              Inr (tupleDesc, v, False))
          else bindE (nocachegetattr tup attnum tupleDesc) (\<lambda>(tupleDesc, v). Inr (tupleDesc, v, False)))
      else
        bindE (att_isnull (attnum - 1) (t_bits (t_data tup))) (\<lambda>null.
          if null then Inr (tupleDesc, ByVal 0, True)
          else bindE (nocachegetattr tup attnum tupleDesc) (\<lambda>(tupleDesc, v). Inr (tupleDesc, v, False))))"

text \<open>The fields of \<open>t_heap\<close>: \<open>t_xmin\<close>, \<open>t_xmax\<close> and \<open>t_field3\<close>.\<close>

definition t_heap_field :: "heap_tuple_header \<Rightarrow> nat \<Rightarrow> datum res" where
  "t_heap_field td i =
     bindE (rd_range (t_choice td) (4 * i) 4) (\<lambda>bs. Inr (ByVal (ucast (le_word bs :: 32 word))))"

definition heap_getsysattr :: "heap_tuple \<Rightarrow> int \<Rightarrow> datum res" where
  "heap_getsysattr tup attnum =
     (if attnum = SelfItemPointerAttributeNumber then Inr (ByRef (t_self tup))
      else if attnum = MinTransactionIdAttributeNumber then t_heap_field (t_data tup) 0
      else if attnum = MaxTransactionIdAttributeNumber then t_heap_field (t_data tup) 1
      else if attnum = MinCommandIdAttributeNumber \<or> attnum = MaxCommandIdAttributeNumber then
        t_heap_field (t_data tup) 2
      else if attnum = TableOidAttributeNumber then Inr (ByVal (ucast (t_tableOid tup)))
      else Inl (Ereport ERRCODE_INTERNAL_ERROR))"

definition heap_getattr :: "heap_tuple \<Rightarrow> int \<Rightarrow> tuple_desc \<Rightarrow> (tuple_desc \<times> datum \<times> bool) res" where
  "heap_getattr tup attnum tupleDesc =
     (if attnum > 0 then
        if attnum > int (HeapTupleHeaderGetNatts (t_data tup)) then
          bindE (TupleDescAttr tupleDesc (nat (attnum - 1))) (\<lambda>att.
          bindE (getmissingattr att) (\<lambda>(v, n). Inr (tupleDesc, v, n)))
        else fastgetattr tup (nat attnum) tupleDesc
      else bindE (heap_getsysattr tup attnum) (\<lambda>v. Inr (tupleDesc, v, False)))"

section \<open>Copies\<close>

text \<open>\<open>memcpy\<close> of the first \<open>n\<close> bytes of a tuple header with what follows it. The record
  has no value for a header that is not copied completely.\<close>

definition copy_header :: "heap_tuple_header \<Rightarrow> nat \<Rightarrow> heap_tuple_header res" where
  "copy_header td n =
     (if n < SizeofHeapTupleHeader then Inl MemFault
      else bindE (rd_range (t_bits td) 0 (n - SizeofHeapTupleHeader)) (\<lambda>bits. Inr (td\<lparr>t_bits := bits\<rparr>)))"

text \<open>\<open>None\<close> is a null pointer, or a tuple without data.\<close>

definition heap_copytuple :: "heap_tuple option \<Rightarrow> heap_tuple option res" where
  "heap_copytuple tup =
     (case tup of None \<Rightarrow> Inr None
      | Some t \<Rightarrow>
          bindE (palloc0 (int HEAPTUPLESIZE + uint (t_len t))) (\<lambda>_.
          bindE (copy_header (t_data t) (unat (t_len t))) (\<lambda>td.
            Inr (Some \<lparr>t_len = t_len t, t_self = t_self t, t_tableOid = t_tableOid t, t_data = td\<rparr>))))"

definition heap_copytuple_with_tuple :: "heap_tuple option \<Rightarrow> heap_tuple option res" where
  "heap_copytuple_with_tuple src =
     (case src of None \<Rightarrow> Inr None
      | Some t \<Rightarrow>
          bindE (palloc0 (uint (t_len t))) (\<lambda>_.
          bindE (copy_header (t_data t) (unat (t_len t))) (\<lambda>td.
            Inr (Some \<lparr>t_len = t_len t, t_self = t_self t, t_tableOid = t_tableOid t, t_data = td\<rparr>))))"

section \<open>Changing columns given by number\<close>

fun replace_by_cols :: "nat \<Rightarrow> int list \<Rightarrow> datum list \<Rightarrow> bool list \<Rightarrow> datum list \<times> bool list \<Rightarrow>
    (datum list \<times> bool list) res" where
  "replace_by_cols natts [] vals nulls row = Inr row"
| "replace_by_cols natts (attnum # cols) (v # vals) (n # nulls) (vs, ns) =
     (if attnum \<le> 0 \<or> attnum > int natts then Inl (Ereport ERRCODE_INTERNAL_ERROR)
      else replace_by_cols natts cols vals nulls (vs[nat (attnum - 1) := v], ns[nat (attnum - 1) := n]))"
| "replace_by_cols natts (attnum # cols) vals nulls row = Inl MemFault"

definition heap_modify_tuple_by_cols :: "(bytes \<Rightarrow> bytes res) \<Rightarrow> heap_tuple \<Rightarrow> tuple_desc \<Rightarrow> int list \<Rightarrow>
    datum list \<Rightarrow> bool list \<Rightarrow> (tuple_desc \<times> heap_tuple) res" where
  "heap_modify_tuple_by_cols flatten tup tupleDesc replCols replValues replIsnull =
     bindE (heap_deform_tuple tup tupleDesc) (\<lambda>(tupleDesc, vs, ns).
     bindE (replace_by_cols (length (td_attrs tupleDesc)) replCols replValues replIsnull (vs, ns)) (\<lambda>(vs, ns).
     bindE (heap_form_tuple flatten tupleDesc vs ns) (\<lambda>newTuple.
       Inr (tupleDesc, newTuple\<lparr>t_self := t_self tup, t_tableOid := t_tableOid tup,
         t_data := (t_data newTuple)\<lparr>t_ctid := t_ctid (t_data tup)\<rparr>\<rparr>))))"

section \<open>Minimal tuples\<close>

record minimal_tuple =
  mt_len :: "32 word"
  mt_padding :: bytes
  mt_infomask2 :: "16 word"
  mt_infomask :: "16 word"
  mt_hoff :: byte
  mt_bits :: bytes

definition MINIMAL_TUPLE_OFFSET :: nat where "MINIMAL_TUPLE_OFFSET = (18 - 4) div 8 * 8"
definition MINIMAL_TUPLE_PADDING :: nat where "MINIMAL_TUPLE_PADDING = (18 - 4) mod 8"
definition SizeofMinimalTupleHeader :: nat where "SizeofMinimalTupleHeader = 15"

definition minimal_header_len :: "nat \<Rightarrow> bool \<Rightarrow> nat" where
  "minimal_header_len natts hasnull =
     MAXALIGN (SizeofMinimalTupleHeader + (if hasnull then BITMAPLEN natts else 0))"

definition heap_form_minimal_tuple ::
  "(bytes \<Rightarrow> bytes res) \<Rightarrow> tuple_desc \<Rightarrow> datum list \<Rightarrow> bool list \<Rightarrow> minimal_tuple res" where
  "heap_form_minimal_tuple flatten tupleDescriptor values isnull =
     (let numberOfAttributes = length (td_attrs tupleDescriptor);
          hasnull = (True \<in> set (take numberOfAttributes isnull));
          hoff = minimal_header_len numberOfAttributes hasnull
      in if numberOfAttributes > MaxTupleAttributeNumber then Inl (Ereport ERRCODE_TOO_MANY_COLUMNS)
      else
        bindE (heap_compute_data_size flatten tupleDescriptor values isnull) (\<lambda>data_len.
        bindE (palloc0 (int (hoff + data_len))) (\<lambda>mem.
          let rest = drop SizeofMinimalTupleHeader mem
          in bindE (heap_fill_tuple flatten tupleDescriptor values isnull
                      (drop (hoff - SizeofMinimalTupleHeader) rest) 0
                      (take (hoff - SizeofMinimalTupleHeader) rest) hasnull) (\<lambda>(data, infomask, bits).
               Inr \<lparr>mt_len = word_of_nat (hoff + data_len), mt_padding = replicate MINIMAL_TUPLE_PADDING 0,
                    mt_infomask2 = (0 AND NOT HEAP_NATTS_MASK) OR word_of_nat numberOfAttributes,
                    mt_infomask = infomask, mt_hoff = word_of_nat (hoff + MINIMAL_TUPLE_OFFSET),
                    mt_bits = bits @ data\<rparr>))))"

text \<open>Copying \<open>n\<close> bytes of the fields that a minimal tuple shares with a heap tuple.\<close>

definition copy_bits :: "bytes \<Rightarrow> nat \<Rightarrow> bytes res" where
  "copy_bits bits n =
     (if n < SizeofMinimalTupleHeader then Inl MemFault else rd_range bits 0 (n - SizeofMinimalTupleHeader))"

definition heap_copy_minimal_tuple :: "minimal_tuple \<Rightarrow> minimal_tuple res" where
  "heap_copy_minimal_tuple mtup =
     bindE (palloc0 (uint (mt_len mtup))) (\<lambda>_.
     bindE (copy_bits (mt_bits mtup) (unat (mt_len mtup))) (\<lambda>bits. Inr (mtup\<lparr>mt_bits := bits\<rparr>)))"

definition heap_tuple_from_minimal_tuple :: "minimal_tuple \<Rightarrow> heap_tuple res" where
  "heap_tuple_from_minimal_tuple mtup =
     (let len = mt_len mtup + word_of_nat MINIMAL_TUPLE_OFFSET in
      bindE (palloc0 (int HEAPTUPLESIZE + uint len)) (\<lambda>_.
      bindE (copy_bits (mt_bits mtup) (unat (mt_len mtup))) (\<lambda>bits.
        Inr \<lparr>t_len = len, t_self = ItemPointerSetInvalid, t_tableOid = InvalidOid,
          t_data = \<lparr>t_choice = replicate 12 0, t_ctid = replicate 6 0, t_infomask2 = mt_infomask2 mtup,
            t_infomask = mt_infomask mtup, t_hoff = mt_hoff mtup, t_bits = bits\<rparr>\<rparr>)))"

text \<open>The bytes after \<open>t_choice\<close> in the header, \<open>t_ctid\<close>, become the padding.\<close>

definition minimal_tuple_from_heap_tuple :: "heap_tuple \<Rightarrow> minimal_tuple res" where
  "minimal_tuple_from_heap_tuple htup =
     (let len = t_len htup - word_of_nat MINIMAL_TUPLE_OFFSET; td = t_data htup in
      bindE (palloc0 (uint len)) (\<lambda>_.
      bindE (copy_bits (t_bits td) (unat len)) (\<lambda>bits.
        Inr \<lparr>mt_len = len, mt_padding = t_ctid td, mt_infomask2 = t_infomask2 td,
          mt_infomask = t_infomask td, mt_hoff = t_hoff td, mt_bits = bits\<rparr>)))"

section \<open>expand\_tuple\<close>

text \<open>The two loops over the attributes the source tuple does not have: nulls are needed, and the
  size of the data.\<close>

fun first_missing :: "pg_attribute list \<Rightarrow> bool \<Rightarrow> pg_attribute list \<times> bool" where
  "first_missing [] hasNulls = ([], hasNulls)"
| "first_missing (att # atts) hasNulls =
     (if attmissing att \<noteq> None then (att # atts, hasNulls) else first_missing atts True)"

fun missing_sizes :: "pg_attribute list \<Rightarrow> bool \<Rightarrow> nat \<Rightarrow> (bool \<times> nat) res" where
  "missing_sizes [] hasNulls targetDataLen = Inr (hasNulls, targetDataLen)"
| "missing_sizes (att # atts) hasNulls targetDataLen =
     (case attmissing att of
        Some v \<Rightarrow>
          let p = DatumGetPointer v in
          bindE (att_addlength_pointer (att_align_datum targetDataLen (attalign att) (attlen att) p) (attlen att) p)
            (missing_sizes atts hasNulls)
      | None \<Rightarrow> missing_sizes atts True targetDataLen)"

text \<open>\<open>constr->missing\<close> exists when some attribute has a missing value.\<close>

definition expand_size :: "pg_attribute list \<Rightarrow> nat \<Rightarrow> bool \<Rightarrow> nat \<Rightarrow> (bool \<times> nat) res" where
  "expand_size atts sourceNatts hasNulls sourceDataLen =
     (if \<exists>a\<in>set atts. attmissing a \<noteq> None then
        let (rest, hasNulls) = first_missing (drop sourceNatts atts) hasNulls in
        missing_sizes rest hasNulls sourceDataLen
      else Inr (True, sourceDataLen))"

text \<open>The null bitmap of the source in the zeroed one of the target; the index of the last byte
  written.\<close>

definition expand_bits :: "heap_tuple_header \<Rightarrow> nat \<Rightarrow> nat \<Rightarrow> bytes \<Rightarrow> (bytes \<times> int) res" where
  "expand_bits sourceTHeader sourceNatts sourceNullLen nullBits =
     (if sourceNullLen > 0 then
        bindE (rd_range (t_bits sourceTHeader) 0 sourceNullLen) (\<lambda>bs.
        bindE (buf_write nullBits 0 bs) (\<lambda>bits. Inr (bits, int sourceNullLen - 1)))
      else
        let sourceNullLen = BITMAPLEN sourceNatts; i = int sourceNullLen - 1 in
        bindE (buf_write nullBits 0 (replicate sourceNullLen 0xff)) (\<lambda>bits.
        bindE (if sourceNatts mod 8 \<noteq> 0 then buf_write bits i [NOT (push_bit (sourceNatts mod 8) 0xff)]
               else Inr bits) (\<lambda>bits. Inr (bits, i))))"

text \<open>A null attribute is given the address of \<open>nullBits\<close> even if that is a null pointer.\<close>

definition expand_null :: "(bytes \<Rightarrow> bytes res) \<Rightarrow> pg_attribute \<Rightarrow> fill_state \<Rightarrow> fill_state res" where
  "expand_null flatten att st =
     (if fs_bit st = None \<and> fs_bitmask st \<noteq> HIGHBIT then
        Inr (st\<lparr>fs_bitmask := fs_bitmask st * 2, fs_infomask := fs_infomask st OR HEAP_HASNULL\<rparr>)
      else if fs_bit st = None then Inl MemFault
      else fill_val flatten att (ByVal 0) True st)"

fun expand_loop :: "(bytes \<Rightarrow> bytes res) \<Rightarrow> pg_attribute list \<Rightarrow> fill_state \<Rightarrow> fill_state res" where
  "expand_loop flatten [] st = Inr st"
| "expand_loop flatten (att # atts) st =
     bindE (case attmissing att of
              Some v \<Rightarrow> fill_val flatten att v False st
            | None \<Rightarrow> expand_null flatten att st) (expand_loop flatten atts)"

text \<open>Filling the bitmap area and the data area of the new tuple.\<close>

definition expand_fill :: "(bytes \<Rightarrow> bytes res) \<Rightarrow> heap_tuple \<Rightarrow> nat \<Rightarrow> pg_attribute list \<Rightarrow> bool \<Rightarrow> bytes \<Rightarrow> bytes \<Rightarrow>
    (bytes \<times> 16 word \<times> bytes) res" where
  "expand_fill flatten sourceTuple sourceDataLen atts hasNulls nullBits targetData =
     (let td = t_data sourceTuple; sourceNatts = HeapTupleHeaderGetNatts td in
      bindE (if hasNulls then
               bindE (expand_bits td sourceNatts
                        (if HeapTupleHasNulls sourceTuple then BITMAPLEN sourceNatts else 0) nullBits)
                 (\<lambda>(bits, i). Inr (bits, Some i, 2 ^ nat ((int sourceNatts - 1) mod 8)))
             else Inr (nullBits, None, 0)) (\<lambda>(bits, bit, bitMask).
      bindE (rd_range (tuple_data sourceTuple) 0 sourceDataLen) (\<lambda>bs.
      bindE (buf_write targetData 0 bs) (\<lambda>data.
      bindE (expand_loop flatten (drop sourceNatts atts)
               \<lparr>fs_bits = bits, fs_bit = bit, fs_bitmask = bitMask, fs_data = data, fs_off = sourceDataLen,
                fs_infomask = t_infomask td\<rparr>) (\<lambda>st.
        Inr (fs_data st, fs_infomask st, fs_bits st))))))"

definition source_data_len :: "heap_tuple \<Rightarrow> nat" where
  "source_data_len tup = nat ((uint (t_len tup) - uint (t_hoff (t_data tup))) mod 2 ^ 64)"

definition heap_expand_tuple :: "(bytes \<Rightarrow> bytes res) \<Rightarrow> heap_tuple \<Rightarrow> tuple_desc \<Rightarrow> heap_tuple res" where
  "heap_expand_tuple flatten sourceTuple tupleDesc =
     (let atts = td_attrs tupleDesc; natts = length atts; td = t_data sourceTuple;
          sourceDataLen = source_data_len sourceTuple
      in bindE (expand_size atts (HeapTupleHeaderGetNatts td) (HeapTupleHasNulls sourceTuple) sourceDataLen)
           (\<lambda>(hasNulls, targetDataLen).
         let hoff = header_len natts hasNulls in
         bindE (palloc0 (int (HEAPTUPLESIZE + (hoff + targetDataLen)))) (\<lambda>mem.
           let rest = drop (HEAPTUPLESIZE + SizeofHeapTupleHeader) mem in
           bindE (expand_fill flatten sourceTuple sourceDataLen atts hasNulls
                    (take (hoff - SizeofHeapTupleHeader) rest) (drop (hoff - SizeofHeapTupleHeader) rest))
             (\<lambda>(data, infomask, bits).
           Inr \<lparr>t_len = word_of_nat (hoff + targetDataLen), t_self = t_self sourceTuple,
                t_tableOid = t_tableOid sourceTuple,
                t_data = HeapTupleHeaderSetNatts
                  \<lparr>t_choice = datum_fields (int (hoff + targetDataLen)) tupleDesc,
                   t_ctid = ItemPointerSetInvalid, t_infomask2 = 0, t_infomask = infomask,
                   t_hoff = word_of_nat hoff, t_bits = bits @ data\<rparr> natts\<rparr>))))"

definition minimal_expand_tuple :: "(bytes \<Rightarrow> bytes res) \<Rightarrow> heap_tuple \<Rightarrow> tuple_desc \<Rightarrow> minimal_tuple res" where
  "minimal_expand_tuple flatten sourceTuple tupleDesc =
     (let atts = td_attrs tupleDesc; natts = length atts; td = t_data sourceTuple;
          sourceDataLen = source_data_len sourceTuple
      in bindE (expand_size atts (HeapTupleHeaderGetNatts td) (HeapTupleHasNulls sourceTuple) sourceDataLen)
           (\<lambda>(hasNulls, targetDataLen).
         let hoff = minimal_header_len natts hasNulls in
         bindE (palloc0 (int (hoff + targetDataLen))) (\<lambda>mem.
           let rest = drop SizeofMinimalTupleHeader mem in
           bindE (expand_fill flatten sourceTuple sourceDataLen atts hasNulls
                    (take (hoff - SizeofMinimalTupleHeader) rest) (drop (hoff - SizeofMinimalTupleHeader) rest))
             (\<lambda>(data, infomask, bits).
           Inr \<lparr>mt_len = word_of_nat (hoff + targetDataLen), mt_padding = replicate MINIMAL_TUPLE_PADDING 0,
                mt_infomask2 = (0 AND NOT HEAP_NATTS_MASK) OR word_of_nat natts, mt_infomask = infomask,
                mt_hoff = word_of_nat (hoff + MINIMAL_TUPLE_OFFSET), mt_bits = bits @ data\<rparr>))))"

end
