(* ===== verification/Heaptuple_Access_Correct.thy ===== *)
theory Heaptuple_Access_Correct
  imports Heaptuple_Access Heaptuple_Correct
begin

text \<open>
  Reading one attribute of a tuple gives what taking the whole tuple apart gives, on each of the
  paths of \<open>nocachegetattr\<close>, and leaves right cached offsets. A minimal tuple carries the same columns
  as the heap tuple made from the same row. Expanding a tuple appends the missing values.
\<close>

section \<open>Taking apart, without knowing the columns\<close>

lemma deform_offset_slow: "deform_offset tp a off True = Inr (pos, a', slow) \<Longrightarrow> a' = a \<and> slow"
  by (auto simp: deform_offset_def bindE_eq_Inr_iff Let_def split: if_splits)

lemma deform_offset_fast:
  assumes "cache_ok off (a # as)" "deform_offset tp a off False = Inr (pos, a', slow)" "att_ok a"
  shows "same_att a a'" "cache_ok off (a' # as)"
    "slow \<Longrightarrow> a' = a \<and> attlen a = -1 \<and> attcacheoff a < 0"
    "\<not> slow \<Longrightarrow> attcacheoff a' = int pos \<and> pos = att_align_nominal off (attalign a)"
  using assms
  by (auto simp: deform_offset_def bindE_eq_Inr_iff Let_def cache_ok_empty split: if_splits)

lemma same_att_len:
  assumes "same_att a b"
  shows "attlen b = attlen a" "attalign b = attalign a" "attbyval b = attbyval a"
  using arg_cong [OF assms, of attlen] arg_cong [OF assms, of attalign] arg_cong [OF assms, of attbyval]
  by simp_all

lemma cache_ok_tail:
  assumes "cache_ok off (a' # as)" "same_att a a'" "attcacheoff a' \<ge> 0" "attlen a > 0"
  shows "cache_ok (att_align_nominal off (attalign a) + nat (attlen a)) as"
    "cache_ok (att_align_nominal off (attalign a) + nat (attlen a)) bs \<Longrightarrow> cache_ok off (a' # bs)"
  using assms(1,3,4) same_att_len [OF assms(2)] by simp_all


text \<open>One step of the loop.\<close>

lemma deform_loop_step:
  assumes "deform_loop hasnulls bp tp (a # as) k off slow = Inr (as1, ws1, ns1)"
  obtains (null) as' ws ns where "(if hasnulls then att_isnull k bp else Inr False) = Inr True"
      "deform_loop hasnulls bp tp as (k + 1) off True = Inr (as', ws, ns)"
      "as1 = a # as'" "ws1 = ByVal 0 # ws" "ns1 = True # ns"
  | (present) pos a' slow' v off' as' ws ns where
      "(if hasnulls then att_isnull k bp else Inr False) = Inr False"
      "deform_offset tp a off slow = Inr (pos, a', slow')"
      "fetch_att (drop pos tp) (attbyval a) (attlen a) = Inr v"
      "att_addlength_pointer pos (attlen a) (drop pos tp) = Inr off'"
      "deform_loop hasnulls bp tp as (k + 1) off' (slow' \<or> attlen a \<le> 0) = Inr (as', ws, ns)"
      "as1 = a' # as'" "ws1 = v # ws" "ns1 = False # ns"
  using assms by (auto simp: bindE_eq_Inr_iff split: if_splits)

lemma deform_loop_lengths:
  "deform_loop hasnulls bp tp as k off slow = Inr (as', ws, ns) \<Longrightarrow>
     length as' = length as \<and> length ws = length as \<and> length ns = length as"
proof (induction as arbitrary: k off slow as' ws ns)
  case (Cons a as)
  from Cons(2) show ?case
  proof (cases rule: deform_loop_step)
    case (null as2 ws2 ns2)
    with Cons(1) [OF null(2)] show ?thesis by simp
  next
    case (present pos a' slow' v off' as2 ws2 ns2)
    with Cons(1) [OF present(5)] show ?thesis by simp
  qed
qed simp

lemma deform_loop_nulls:
  "deform_loop hasnulls bp tp as k off slow = Inr (as', ws, ns) \<Longrightarrow> j < length as \<Longrightarrow>
     (if hasnulls then att_isnull (k + j) bp else Inr False) = Inr (ns ! j)"
proof (induction as arbitrary: k off slow as' ws ns j)
  case (Cons a as)
  from Cons(2) show ?case
  proof (cases rule: deform_loop_step)
    case (null as2 ws2 ns2)
    with Cons(1) [OF null(2), of "j - 1"] Cons(3) show ?thesis by (cases j; cases hasnulls) simp_all
  next
    case (present pos a' slow' v off' as2 ws2 ns2)
    with Cons(1) [OF present(5), of "j - 1"] Cons(3) show ?thesis by (cases j; cases hasnulls) simp_all
  qed
qed simp

lemma deform_loop_null_value:
  "deform_loop hasnulls bp tp as k off slow = Inr (as', ws, ns) \<Longrightarrow> j < length as \<Longrightarrow> ns ! j \<Longrightarrow> ws ! j = ByVal 0"
proof (induction as arbitrary: k off slow as' ws ns j)
  case (Cons a as)
  from Cons(2) show ?case
  proof (cases rule: deform_loop_step)
    case (null as2 ws2 ns2)
    with Cons(1) [OF null(2), of "j - 1"] Cons(3,4) show ?thesis by (cases j) simp_all
  next
    case (present pos a' slow' v off' as2 ws2 ns2)
    with Cons(1) [OF present(5), of "j - 1"] Cons(3,4) show ?thesis by (cases j) simp_all
  qed
qed simp

lemma deform_loop_slow: "deform_loop hasnulls bp tp as k off True = Inr (as', ws, ns) \<Longrightarrow> as' = as"
proof (induction as arbitrary: k off as' ws ns)
  case (Cons a as)
  from Cons(2) show ?case
  proof (cases rule: deform_loop_step)
    case (null as2 ws2 ns2)
    with Cons(1) [OF null(2)] show ?thesis by simp
  next
    case (present pos a' slow' v off' as2 ws2 ns2)
    with deform_offset_slow [OF present(2)] have "a' = a" "as2 = as" using Cons(1) by simp_all
    with present show ?thesis by simp
  qed
qed simp

text \<open>The cached offsets stay right, however many of the new ones are kept.\<close>

lemma deform_loop_cache:
  "deform_loop hasnulls bp tp as k off False = Inr (as', ws, ns) \<Longrightarrow> cache_ok off (as @ bs) \<Longrightarrow>
     \<forall>a\<in>set as. att_ok a \<Longrightarrow>
     same_atts as as' \<and> cache_ok off (take m as' @ drop m as @ bs)"
proof (induction as arbitrary: k off as' ws ns m)
  case (Cons a as)
  from Cons(2) show ?case
  proof (cases rule: deform_loop_step)
    case (null as2 ws2 ns2)
    with deform_loop_slow have "as2 = as" by blast
    with null Cons(3) show ?thesis by (cases m) (auto simp: list_all2_refl append_assoc [symmetric] simp del: append_assoc)
  next
    case (present pos a' slow' v off' as2 ws2 ns2)
    have c: "cache_ok off (a # (as @ bs))" and ok: "att_ok a" "\<forall>a\<in>set as. att_ok a" using Cons(3,4) by simp_all
    note f = deform_offset_fast [OF c present(2) ok(1)]
    show ?thesis
    proof (cases "slow' \<or> attlen a \<le> 0")
      case True
      with present(5) deform_loop_slow have "as2 = as" by force
      with present f(1,2) Cons(3) show ?thesis
        by (cases m) (auto simp: list_all2_refl append_assoc [symmetric] simp del: append_assoc cache_ok.simps(2))
    next
      case False
      with f(4) present(4) have o: "off' = att_align_nominal off (attalign a) + nat (attlen a)"
        by (auto simp: att_addlength_pointer_def)
      have p: "attcacheoff a' \<ge> 0" "attlen a > 0" using f(4) False by auto
      note t = cache_ok_tail [OF f(2,1) p, folded o]
      from Cons(1) [OF _ t(1) ok(2)] present(5) False
      have i: "same_atts as as2" "\<And>m. cache_ok off' (take m as2 @ drop m as @ bs)" by auto
      have "cache_ok off (a' # take m as2 @ drop m as @ bs)" for m by (rule t(2) [OF i(2)])
      with i f(1) present Cons(3) show ?thesis by (cases m) (simp_all del: cache_ok.simps(2))
    qed
  qed
qed simp

text \<open>Offsets of columns after columns of fixed length only.\<close>

fun fixed_off :: "pg_attribute list \<Rightarrow> nat \<Rightarrow> nat \<Rightarrow> nat" where
  "fixed_off [] off t = off"
| "fixed_off (a # as) off 0 = att_align_nominal off (attalign a)"
| "fixed_off (a # as) off (Suc t) = fixed_off as (att_align_nominal off (attalign a) + nat (attlen a)) t"

lemma cached_offset:
  "cache_ok off as \<Longrightarrow> t < length as \<Longrightarrow> attcacheoff (as ! t) \<ge> 0 \<Longrightarrow>
     attcacheoff (as ! t) = int (fixed_off as off t) \<and> (\<forall>j<t. attlen (as ! j) > 0)"
proof (induction as off t rule: fixed_off.induct)
  case (3 a as off t)
  have "attcacheoff a \<ge> 0 \<and> attlen a > 0"
  proof (rule ccontr)
    assume "\<not> ?thesis"
    then have "\<forall>b\<in>set as. attcacheoff b < 0" using 3(2) by (simp split: if_splits)
    with 3(3,4) show False by (metis length_Cons nth_Cons_Suc Suc_less_eq nth_mem not_le)
  qed
  with 3 show ?case by (auto simp: All_less_Suc2)
qed auto

lemma deform_loop_fixed:
  "deform_loop hasnulls bp tp as k off False = Inr (as', ws, ns) \<Longrightarrow> cache_ok off (as @ bs) \<Longrightarrow>
     \<forall>a\<in>set as. att_ok a \<Longrightarrow> t < length as \<Longrightarrow>
     \<forall>j\<le>t. \<not> ns ! j \<Longrightarrow> \<forall>j<t. attlen (as ! j) > 0 \<Longrightarrow> attlen (as ! t) > 0 \<or> attcacheoff (as ! t) \<ge> 0 \<Longrightarrow>
     fetch_att (drop (fixed_off (as @ bs) off t) tp) (attbyval (as ! t)) (attlen (as ! t)) = Inr (ws ! t)"
proof (induction as arbitrary: k off as' ws ns t)
  case (Cons a as)
  from Cons(2) show ?case
  proof (cases rule: deform_loop_step)
    case null
    with Cons(6) show ?thesis by auto
  next
    case (present pos a' slow' v off' as2 ws2 ns2)
    have c: "cache_ok off (a # (as @ bs))" and ok: "att_ok a" "\<forall>a\<in>set as. att_ok a" using Cons(3,4) by simp_all
    note f = deform_offset_fast [OF c present(2) ok(1)]
    show ?thesis
    proof (cases t)
      case 0
      with f(3) Cons(8) have "\<not> slow'" by auto
      with f(4) 0 present show ?thesis by simp
    next
      case (Suc t')
      with Cons(7) have l: "attlen a > 0" by auto
      with f(3) have s: "\<not> slow'" by auto
      with f(4) present(4) l have o: "off' = att_align_nominal off (attalign a) + nat (attlen a)"
        by (auto simp: att_addlength_pointer_def)
      have d: "deform_loop hasnulls bp tp as (k + 1) off' False = Inr (as2, ws2, ns2)"
        using present(5) l s by simp
      have p: "attcacheoff a' \<ge> 0" using f(4) s by auto
      note cache_ok_tail(1) [OF f(2,1) p l, folded o]
      moreover have "\<forall>j\<le>t'. \<not> ns2 ! j" using Cons(6) present(8) Suc by (metis Suc_le_mono nth_Cons_Suc)
      moreover have "\<forall>j<t'. attlen (as ! j) > 0" using Cons(7) Suc by (metis Suc_less_eq nth_Cons_Suc)
      moreover have "t' < length as" "attlen (as ! t') > 0 \<or> attcacheoff (as ! t') \<ge> 0" using Cons(5,8) Suc by simp_all
      ultimately show ?thesis using Cons(1) [OF d _ ok(2)] Suc present(7) o by simp
    qed
  qed
qed simp

section \<open>The walk over the attributes\<close>

lemma getattr_walk_deform:
  "deform_loop hasnulls bp tp as k off slow = Inr (as', ws, ns) \<Longrightarrow> t < length as \<Longrightarrow> \<not> ns ! t \<Longrightarrow>
     \<exists>pos. getattr_walk hasnulls bp tp (as @ bs) k (k + t) off (\<not> slow) =
         Inr (take (Suc t) as' @ drop (Suc t) as @ bs, pos) \<and>
       fetch_att (drop pos tp) (attbyval (as ! t)) (attlen (as ! t)) = Inr (ws ! t)"
proof (induction as arbitrary: k off slow as' ws ns t)
  case (Cons a as)
  from Cons(2) show ?case
  proof (cases rule: deform_loop_step)
    case (null as2 ws2 ns2)
    with Cons(4) obtain t' where t: "t = Suc t'" by (cases t) auto
    with Cons(1) [OF null(2), of t'] Cons(3,4) null show ?thesis by auto
  next
    case (present pos a' slow' v off' as2 ws2 ns2)
    show ?thesis
    proof (cases t)
      case 0
      with present show ?thesis by simp
    next
      case (Suc t')
      with Cons(1) [OF present(5), of t'] Cons(3,4) present show ?thesis by auto
    qed
  qed
qed simp

section \<open>Setting all leading offsets\<close>

lemma cache_fixed_ok:
  "\<forall>b\<in>set as. attcacheoff b < 0 \<Longrightarrow>
     same_atts as (cache_fixed (int off) as) \<and> cache_ok off (cache_fixed (int off) as)"
proof (induction as arbitrary: off)
  case (Cons a as)
  show ?case
  proof (cases "attlen a \<le> 0")
    case True
    with Cons.prems show ?thesis by (simp add: list_all2_refl)
  next
    case False
    define off' where "off' = att_align_nominal off (attalign a) + nat (attlen a)"
    have "int (att_align_nominal off (attalign a)) + attlen a = int off'" using False by (simp add: off'_def)
    then have e: "cache_fixed (int off) (a # as) =
        a\<lparr>attcacheoff := int (att_align_nominal off (attalign a))\<rparr> # cache_fixed (int off') as"
      using False by (simp add: Let_def)
    show ?thesis unfolding e using Cons.IH [of off'] Cons.prems False by (simp flip: off'_def)
  qed
qed simp

lemma cache_fixed_cached:
  "t < length as \<Longrightarrow> \<forall>j\<le>t. attlen (as ! j) > 0 \<Longrightarrow> attcacheoff (cache_fixed off as ! t) \<ge> 0"
proof (induction as arbitrary: off t)
  case (Cons a as)
  have l: "attlen a > 0" using Cons(3) by auto
  show ?case
  proof (cases t)
    case (Suc t')
    have "attlen (as ! j) > 0" if "j \<le> t'" for j using Cons(3) Suc that by (metis Suc_le_mono nth_Cons_Suc)
    with Cons(1,2) Suc l show ?thesis by (simp add: Let_def)
  qed (use l in \<open>simp add: Let_def\<close>)
qed simp

lemma skip_cached_ok:
  "attlen prev > 0 \<Longrightarrow> attcacheoff prev = int p \<Longrightarrow> cache_ok (p + nat (attlen prev)) as \<Longrightarrow> t < length as \<Longrightarrow>
     attcacheoff (as ! t) < 0 \<Longrightarrow> \<forall>j\<le>t. attlen (as ! j) > 0 \<Longrightarrow>
     same_atts as (skip_cached prev as) \<and> cache_ok (p + nat (attlen prev)) (skip_cached prev as) \<and>
     attcacheoff (skip_cached prev as ! t) \<ge> 0"
proof (induction prev as arbitrary: p t rule: skip_cached.induct)
  case (2 prev a as)
  define off where "off = p + nat (attlen prev)"
  have off: "attcacheoff prev + attlen prev = int off" using 2(2,3) by (simp add: off_def)
  have l: "attlen a > 0" using 2(7) by auto
  show ?case
  proof (cases "attcacheoff a \<ge> 0")
    case True
    let ?p = "att_align_nominal off (attalign a)"
    have p: "attcacheoff a = int ?p" "cache_ok (?p + nat (attlen a)) as" using 2(4) True l unfolding off_def by simp_all
    have "0 < off" using 2(2) by (simp add: off_def)
    then have pos: "attcacheoff a > 0" using p(1) att_align_nominal_ge [of off "attalign a"] by linarith
    from True 2(6) obtain t' where t: "t = Suc t'" by (cases t) auto
    have "attlen (as ! j) > 0" if "j \<le> t'" for j using 2(7) t that by (metis Suc_le_mono nth_Cons_Suc)
    with 2(1) [OF pos l p, of t'] 2(5,6) t have "same_atts as (skip_cached a as)"
      "cache_ok (?p + nat (attlen a)) (skip_cached a as)" "attcacheoff (skip_cached a as ! t') \<ge> 0" by simp_all
    with pos p(1) l t show ?thesis by (simp add: off_def)
  next
    case False
    then have n: "\<forall>b\<in>set (a # as). attcacheoff b < 0" using 2(4) by auto
    have s: "skip_cached prev (a # as) = cache_fixed (int off) (a # as)" using False off by simp
    show ?thesis unfolding s off_def [symmetric]
      using cache_fixed_ok [OF n, of off] cache_fixed_cached [OF 2(5,7), of "int off"] by blast
  qed
qed simp

lemma set_cache_ok:
  assumes "cache_ok 0 as" "t < length as" "attcacheoff (as ! t) < 0" "\<forall>j\<le>t. attlen (as ! j) > 0"
  shows "same_atts as (set_cache as)" "cache_ok 0 (set_cache as)" "attcacheoff (set_cache as ! t) \<ge> 0"
proof -
  from assms(2) obtain a bs where as: "as = a # bs" by (cases as) auto
  define a0 where "a0 = a\<lparr>attcacheoff := 0\<rparr>"
  have a0: "attlen a0 > 0" "attcacheoff a0 = int 0" "same_att a a0" using assms(4) as by (auto simp: a0_def)
  have s: "set_cache as = a0 # skip_cached a0 bs" by (simp add: set_cache_def as a0_def Let_def)
  have c: "cache_ok (0 + nat (attlen a0)) bs"
    using assms(1) as a0(1) by (auto simp: a0_def cache_ok_empty split: if_splits)
  have "same_atts bs (skip_cached a0 bs) \<and> cache_ok (0 + nat (attlen a0)) (skip_cached a0 bs) \<and>
      (\<forall>t'. t = Suc t' \<longrightarrow> attcacheoff (skip_cached a0 bs ! t') \<ge> 0)"
  proof (cases t)
    case (Suc t')
    have "attlen (bs ! j) > 0" if "j \<le> t'" for j using assms(4) as Suc that by (metis Suc_le_mono nth_Cons_Suc)
    with skip_cached_ok [OF a0(1,2) c, of t'] assms(2,3) as Suc show ?thesis by simp
  next
    case 0
    with assms(1,3) as have n: "\<forall>b\<in>set bs. attcacheoff b < 0" by auto
    have "skip_cached a0 bs = cache_fixed (int (nat (attlen a0))) bs"
      using n a0 by (cases bs) auto
    with cache_fixed_ok [OF n, of "nat (attlen a0)"] 0 a0(1) show ?thesis by simp
  qed
  with s a0 as show "same_atts as (set_cache as)" "cache_ok 0 (set_cache as)" "attcacheoff (set_cache as ! t) \<ge> 0"
    by (simp_all, cases t) auto
qed

section \<open>Looking for nulls\<close>

lemma low_bits_set: "NOT b AND (2 ^ n - 1) \<noteq> 0 \<longleftrightarrow> (\<exists>i<n. \<not> bit b i)" if "n \<le> 8" for b :: byte
proof -
  have "NOT b AND mask n \<noteq> 0 \<longleftrightarrow> (\<exists>i<n. \<not> bit b i)"
    by (simp add: bit_eq_iff bit_simps) (metis less_le_trans that)
  then show ?thesis by (simp add: mask_eq_exp_minus_1)
qed

lemma not_full_byte: "b \<noteq> 0xFF \<longleftrightarrow> (\<exists>i<8. \<not> bit b i)" for b :: byte
proof -
  have "(0xFF :: byte) = mask 8" by (simp add: mask_eq_exp_minus_1)
  then show ?thesis by (auto simp: bit_eq_iff bit_mask_iff)
qed

lemma earlier_bytes_eq:
  "i + n \<le> length bp \<Longrightarrow> earlier_bytes bp i n = Inr (\<exists>q. i \<le> q \<and> q < i + n \<and> bp ! q \<noteq> 0xFF)"
proof (induction n arbitrary: i)
  case (Suc n)
  have "(\<exists>q\<ge>i. q < i + Suc n \<and> bp ! q \<noteq> 0xFF) \<longleftrightarrow> bp ! i \<noteq> 0xFF \<or> (\<exists>q\<ge>i + 1. q < i + 1 + n \<and> bp ! q \<noteq> 0xFF)"
  proof -
    have "i \<le> q \<and> q < i + Suc n \<longleftrightarrow> q = i \<or> i + 1 \<le> q \<and> q < i + 1 + n" for q by auto
    then show ?thesis by (metis (no_types))
  qed
  with Suc show ?case by (simp add: rd_def)
qed auto

lemma null_before_eq:
  assumes "attnum div 8 < length bp"
  shows "null_before bp attnum = Inr (\<exists>j<attnum. \<not> null_bit bp j)"
proof -
  let ?q = "attnum div 8" and ?r = "attnum mod 8"
  have "(\<exists>j<attnum. \<not> null_bit bp j) \<longleftrightarrow> (\<exists>i<?r. \<not> bit (bp ! ?q) i) \<or> (\<exists>q<?q. \<exists>i<8. \<not> bit (bp ! q) i)"
  proof (intro iffI; elim disjE exE conjE)
    fix j assume j: "j < attnum" "\<not> null_bit bp j"
    show "(\<exists>i<?r. \<not> bit (bp ! ?q) i) \<or> (\<exists>q<?q. \<exists>i<8. \<not> bit (bp ! q) i)"
    proof (cases "j div 8 = ?q")
      case True
      with j(1) have "j mod 8 < ?r" by (metis div_mult_mod_eq nat_add_left_cancel_less)
      with True j(2) show ?thesis unfolding null_bit_def by metis
    next
      case False
      with j(1) have "j div 8 < ?q" by (metis div_le_mono le_neq_implies_less less_imp_le)
      with j(2) show ?thesis unfolding null_bit_def by (metis mod_less_divisor zero_less_numeral)
    qed
  next
    fix i assume i: "i < ?r" "\<not> bit (bp ! ?q) i"
    have "(8 * ?q + i) div 8 = ?q" "(8 * ?q + i) mod 8 = i" using i(1) by simp_all
    with i show "\<exists>j<attnum. \<not> null_bit bp j" unfolding null_bit_def
      by (intro exI [of _ "8 * ?q + i"]) (metis add_less_cancel_left mult_div_mod_eq)
  next
    fix q i :: nat assume i: "q < ?q" "i < 8" "\<not> bit (bp ! q) i"
    have "(8 * q + i) div 8 = q" "(8 * q + i) mod 8 = i" "8 * q + i < attnum" using i(1,2) by simp_all
    with i show "\<exists>j<attnum. \<not> null_bit bp j" unfolding null_bit_def by metis
  qed
  with assms show ?thesis
    by (simp add: null_before_def Let_def rd_def low_bits_set earlier_bytes_eq not_full_byte) blast
qed

section \<open>One attribute\<close>

lemma same_atts_fixed: "same_atts as bs \<Longrightarrow> fixed_off bs off t = fixed_off as off t"
proof (induction arbitrary: off t rule: list_all2_induct)
  case (Cons a as b bs)
  then show ?case using same_att_len [of a b] by (cases t) simp_all
qed simp

lemma same_atts_mixed:
  assumes "same_atts as as'"
  shows "same_atts (as @ bs) (take m as' @ drop m as @ bs)"
proof -
  have "same_atts (take m as @ drop m as @ bs) (take m as' @ drop m as @ bs)"
    using list_all2_takeI [OF assms, of m] by (intro list_all2_appendI) (simp_all add: list_all2_refl)
  then show ?thesis by (metis append_assoc append_take_drop_id)
qed

lemma desc_ok_same:
  assumes "desc_ok td" "same_atts (td_attrs td) as'" "cache_ok 0 as'"
  shows "desc_ok (td\<lparr>td_attrs := as'\<rparr>)"
  using assms same_atts_ok [OF assms(2)] list_all2_lengthD [OF assms(2)] by (simp add: desc_ok_def)

lemma clear_cache_same:
  assumes "same_atts (td_attrs td) as'"
  shows "clear_cache (td\<lparr>td_attrs := as'\<rparr>) = clear_cache td"
proof -
  have "map (\<lambda>a. a\<lparr>attcacheoff := -1\<rparr>) as' = map (\<lambda>a. a\<lparr>attcacheoff := -1\<rparr>) (td_attrs td)"
    using same_atts_nth [OF assms] by (intro nth_equalityI) fastforce+
  then show ?thesis by (simp add: clear_cache_def)
qed

lemma att_isnull_Inr: "att_isnull j bits = Inr b \<Longrightarrow> j div 8 < length bits \<and> b = (\<not> null_bit bits j)"
  by (cases "j div 8 < length bits") (simp_all add: att_isnull_bit, simp add: att_isnull_def rd_def)

lemma deform_null_before:
  assumes "deform_loop hasnulls bp tp as 0 off slow = Inr (as', ws, ns)" "t < length as"
  shows "(if hasnulls then null_before bp t else Inr False) = Inr (\<exists>j<t. ns ! j)"
proof -
  have n: "(if hasnulls then att_isnull j bp else Inr False) = Inr (ns ! j)" if "j \<le> t" for j
    using deform_loop_nulls [OF assms(1), of j] assms(2) that unfolding add_0 by simp
  show ?thesis
  proof (cases hasnulls)
    case True
    then have "t div 8 < length bp" "\<And>j. j < t \<Longrightarrow> ns ! j = (\<not> null_bit bp j)"
      using n att_isnull_Inr by (metis order_refl) (metis True n att_isnull_Inr less_imp_le)
    with True null_before_eq show ?thesis by auto
  qed (use n in fastforce)
qed

lemma nocachegetattr_deform:
  assumes d: "desc_ok td"
    and l: "deform_loop (HeapTupleHasNulls tup) (t_bits (t_data tup)) (tuple_data tup) (take n (td_attrs td)) 0 0 False =
      Inr (as', ws, ns)"
    and t: "t < n" "n \<le> length (td_attrs td)" "\<not> ns ! t"
    and v: "varwidth_marked (take n (td_attrs td)) ns (t_infomask (t_data tup))"
  shows "\<exists>td2. nocachegetattr tup (Suc t) td = Inr (td2, ws ! t) \<and> desc_ok td2 \<and>
    clear_cache td2 = clear_cache td"
proof -
  define as bs where "as = take n (td_attrs td)" and "bs = drop n (td_attrs td)"
  have ab: "td_attrs td = as @ bs" by (simp add: as_def bs_def)
  have tl: "t < length as" "length as = n" using t by (simp_all add: as_def)
  let ?att = "as ! t"
  have att: "td_attrs td ! t = ?att" "TupleDescAttr td t = Inr ?att"
    using tl t(2) by (simp_all add: ab nth_append TupleDescAttr_def)
  have c: "cache_ok 0 (as @ bs)" and ok: "\<forall>a\<in>set as. att_ok a" using d by (simp_all add: desc_ok_def ab)
  note l = l [folded as_def]
  define slow where "slow \<longleftrightarrow> (\<exists>j<t. ns ! j)"
  note nb = deform_null_before [OF l tl(1), folded slow_def]
  have present: "\<forall>j\<le>t. \<not> ns ! j" if "\<not> slow" using that t(3) by (auto simp: slow_def le_less)
  have fixed: "fetch_att (drop (fixed_off (as @ bs) 0 t) (tuple_data tup)) (attbyval ?att) (attlen ?att) = Inr (ws ! t)"
    if "\<not> slow" "\<forall>j<t. attlen (as ! j) > 0" "attlen ?att > 0 \<or> attcacheoff ?att \<ge> 0"
    by (rule deform_loop_fixed [OF l c ok tl(1) present [OF that(1)] that(2,3)])
  define slow2 where "slow2 \<longleftrightarrow> slow \<or> HeapTupleHasVarWidth tup \<and> (\<exists>a\<in>set (take (t + 1) (td_attrs td)). attlen a \<le> 0)"
  consider (cached) "\<not> slow" "attcacheoff ?att \<ge> 0" | (set) "\<not> slow2" "\<not> slow" "attcacheoff ?att < 0"
    | (walk) "slow2" "slow \<or> attcacheoff ?att < 0" unfolding slow2_def by linarith
  then show ?thesis
  proof cases
    case cached
    have "attcacheoff ?att = int (fixed_off (as @ bs) 0 t)" "\<forall>j<t. attlen (as ! j) > 0"
      using cached_offset [OF c, of t] cached(2) tl(1) by (simp_all add: nth_append)
    with fixed cached nb att d show ?thesis by (simp add: nocachegetattr_def Let_def)
  next
    case set
    have pos: "attlen (as ! j) > 0" if "j \<le> t" for j
    proof (cases "HeapTupleHasVarWidth tup")
      case True
      have "as ! j \<in> set (take (t + 1) (td_attrs td))"
        using that tl t(2) by (auto simp: ab in_set_conv_nth nth_append intro!: exI [of _ j])
      with set(1) True show ?thesis unfolding slow2_def by force
    next
      case False
      with v have "\<forall>i<length as. ns ! i \<or> 0 < attlen (as ! i)"
        by (simp add: varwidth_marked_def HeapTupleHasVarWidth_def flip: as_def)
      with present [OF set(2)] that tl(1) show ?thesis by (meson le_less_trans)
    qed
    note sc = set_cache_ok [OF c, of t]
    have s: "same_atts (as @ bs) (set_cache (as @ bs))" "cache_ok 0 (set_cache (as @ bs))"
      "attcacheoff (set_cache (as @ bs) ! t) \<ge> 0"
      using sc set(3) pos tl(1) by (simp_all add: nth_append)
    have len: "length (set_cache (as @ bs)) = length (as @ bs)" using list_all2_lengthD [OF s(1)] by simp
    have "attcacheoff (set_cache (as @ bs) ! t) = int (fixed_off (as @ bs) 0 t)"
      using cached_offset [OF s(2) _ s(3)] same_atts_fixed [OF s(1)] tl(1) len by simp
    with fixed [OF set(2)] pos set nb att have "nocachegetattr tup (Suc t) td =
        Inr (td\<lparr>td_attrs := set_cache (as @ bs)\<rparr>, ws ! t)"
      by (simp add: nocachegetattr_def Let_def slow2_def ab)
    with desc_ok_same [OF d] clear_cache_same s ab show ?thesis by simp
  next
    case walk
    let ?m = "take (Suc t) as' @ drop (Suc t) as @ bs"
    from getattr_walk_deform [OF l tl(1) t(3), of bs] obtain pos where
      w: "getattr_walk (HeapTupleHasNulls tup) (t_bits (t_data tup)) (tuple_data tup) (as @ bs) 0 t 0 True = Inr (?m, pos)"
      "fetch_att (drop pos (tuple_data tup)) (attbyval ?att) (attlen ?att) = Inr (ws ! t)" by auto
    have "same_atts as as'" "cache_ok 0 ?m" using deform_loop_cache [OF l c ok] by auto
    moreover from this(1) have "same_atts (as @ bs) ?m" by (rule same_atts_mixed)
    moreover have "nocachegetattr tup (Suc t) td = Inr (td\<lparr>td_attrs := ?m\<rparr>, ws ! t)"
      using walk nb att w by (auto simp: nocachegetattr_def Let_def slow2_def ab)
    ultimately show ?thesis using desc_ok_same [OF d] clear_cache_same ab by simp
  qed
qed

text \<open>\<open>fastgetattr\<close> uses a cached offset without looking at the attribute numbers before.\<close>

lemma fastgetattr_deform:
  assumes d: "desc_ok td"
    and l: "deform_loop (HeapTupleHasNulls tup) (t_bits (t_data tup)) (tuple_data tup) (take n (td_attrs td)) 0 0 False =
      Inr (as', ws, ns)"
    and t: "t < n" "n \<le> length (td_attrs td)"
    and v: "varwidth_marked (take n (td_attrs td)) ns (t_infomask (t_data tup))"
  shows "\<exists>td2. fastgetattr tup (Suc t) td = Inr (td2, ws ! t, ns ! t) \<and> desc_ok td2 \<and>
    clear_cache td2 = clear_cache td"
proof -
  have tl: "t < length (take n (td_attrs td))" using t by simp
  have n: "(if HeapTupleHasNulls tup then att_isnull t (t_bits (t_data tup)) else Inr False) = Inr (ns ! t)"
    using deform_loop_nulls [OF l tl] unfolding add_0 .
  show ?thesis
  proof (cases "ns ! t")
    case True
    with n deform_loop_null_value [OF l tl] d show ?thesis by (auto simp: fastgetattr_def split: if_splits)
  next
    case False
    obtain td2 where td2: "nocachegetattr tup (Suc t) td = Inr (td2, ws ! t)" "desc_ok td2"
      "clear_cache td2 = clear_cache td"
      using nocachegetattr_deform [OF d l t False v] by blast
    let ?att = "td_attrs td ! t"
    have att: "TupleDescAttr td t = Inr ?att" using t by (simp add: TupleDescAttr_def)
    show ?thesis
    proof (cases "\<not> HeapTupleHasNulls tup \<and> attcacheoff ?att \<ge> 0")
      case True
      with td2(1) att obtain w where w: "fetch_att (drop (nat (attcacheoff ?att)) (tuple_data tup))
          (attbyval ?att) (attlen ?att) = Inr w" "w = ws ! t"
        by (auto simp: nocachegetattr_def Let_def bindE_eq_Inr_iff)
      with True att False d show ?thesis by (simp add: fastgetattr_def)
    next
      case c: False
      with n td2 False att show ?thesis by (auto simp: fastgetattr_def split: if_splits)
    qed
  qed
qed

lemma missing_loop_nth:
  "missing_loop as = Inr (vs, ns) \<Longrightarrow> length vs = length as \<and> length ns = length as \<and>
     (\<forall>i<length as. getmissingattr (as ! i) = Inr (vs ! i, ns ! i))"
  by (induction as arbitrary: vs ns) (auto simp: bindE_eq_Inr_iff nth_Cons split: nat.splits)

text \<open>What \<open>heap_deform_tuple\<close> reads, column by column.\<close>

lemma heap_deform_cols:
  assumes "heap_deform_tuple tup td = Inr (td1, ws, ns)"
    and n: "n = min (HeapTupleHeaderGetNatts (t_data tup)) (length (td_attrs td))"
  obtains as' ws1 ns1 where
    "deform_loop (HeapTupleHasNulls tup) (t_bits (t_data tup)) (tuple_data tup) (take n (td_attrs td)) 0 0 False =
       Inr (as', ws1, ns1)"
    "\<And>i. i < n \<Longrightarrow> ws ! i = ws1 ! i \<and> ns ! i = ns1 ! i"
    "\<And>i. n \<le> i \<Longrightarrow> i < length (td_attrs td) \<Longrightarrow> getmissingattr (td_attrs td ! i) = Inr (ws ! i, ns ! i)"
    "length ws = length (td_attrs td)" "length ns = length (td_attrs td)"
proof -
  from assms(1) obtain as' ws1 ns1 ws2 ns2 where
    l: "deform_loop (HeapTupleHasNulls tup) (t_bits (t_data tup)) (tuple_data tup) (take n (td_attrs td)) 0 0 False =
       Inr (as', ws1, ns1)" "missing_loop (drop n (td_attrs td)) = Inr (ws2, ns2)"
    and r: "ws = ws1 @ ws2" "ns = ns1 @ ns2"
    by (auto simp: heap_deform_tuple_def Let_def bindE_eq_Inr_iff tuple_data_def simp flip: n)
  have len: "length ws1 = n" "length ns1 = n" using deform_loop_lengths [OF l(1)] by (simp_all add: n)
  have le: "n \<le> length (td_attrs td)" by (simp add: n)
  note m = missing_loop_nth [OF l(2)]
  show thesis
  proof (rule that [OF l(1)])
    fix i assume "i < n"
    then show "ws ! i = ws1 ! i \<and> ns ! i = ns1 ! i" using r len by (simp add: nth_append)
  next
    fix i assume "n \<le> i" "i < length (td_attrs td)"
    then show "getmissingattr (td_attrs td ! i) = Inr (ws ! i, ns ! i)"
      using m [THEN conjunct2, THEN conjunct2, rule_format, of "i - n"] r len by (simp add: nth_append)
  qed (use m r len le in simp_all)
qed

section \<open>Minimal tuples\<close>

lemma minimal_header_len: "minimal_header_len natts hasnull + MINIMAL_TUPLE_OFFSET = header_len natts hasnull"
proof -
  have "(30 + b) div 8 = (22 + b) div 8 + 1" for b :: nat
    using div_add_self2 [of 8 "22 + b"] by (simp add: add.commute)
  then show ?thesis
    by (simp add: minimal_header_len_def header_len_def MAXALIGN_def TYPEALIGN_eq SizeofMinimalTupleHeader_def
        SizeofHeapTupleHeader_def MINIMAL_TUPLE_OFFSET_def)
qed

lemma buf_write_length: "buf_write buf off bs = Inr buf' \<Longrightarrow> length buf' = length buf"
  by (auto simp: buf_write_def split: if_splits)

lemma fill_bit_lengths:
  "fill_bit st n = Inr (st', c) \<Longrightarrow> length (fs_bits st') = length (fs_bits st) \<and> length (fs_data st') = length (fs_data st)"
  by (auto simp: fill_bit_def bindE_eq_Inr_iff Let_def dest!: buf_write_length split: option.splits if_splits)

lemma fill_val_lengths:
  "fill_val flatten a v n st = Inr st' \<Longrightarrow>
     length (fs_bits st') = length (fs_bits st) \<and> length (fs_data st') = length (fs_data st)"
  by (auto simp: fill_val_def bindE_eq_Inr_iff dest!: fill_bit_lengths buf_write_length split: if_splits)

lemma fill_loop_lengths:
  "fill_loop flatten as vs ns st = Inr st' \<Longrightarrow>
     length (fs_bits st') = length (fs_bits st) \<and> length (fs_data st') = length (fs_data st)"
proof (induction flatten as vs ns st rule: fill_loop.induct)
  case (1 flatten a as v vs n ns st)
  from 1(2) obtain st1 where s: "fill_val flatten a v n st = Inr st1" "fill_loop flatten as vs ns st1 = Inr st'"
    by (auto simp: bindE_eq_Inr_iff)
  with 1(1) [OF s] fill_val_lengths [OF s(1)] show ?case by simp
qed simp_all

lemma heap_fill_lengths:
  assumes "heap_fill_tuple flatten td vs ns data im bits hn = Inr (data', im', bits')"
  shows "length data' = length data" "length bits' = length bits"
proof -
  from assms obtain st where "fill_loop flatten (td_attrs td) vs ns
      \<lparr>fs_bits = bits, fs_bit = (if hn then Some (-1) else None), fs_bitmask = (if hn then HIGHBIT else 0),
       fs_data = data, fs_off = 0,
       fs_infomask = im AND NOT (HEAP_HASNULL OR HEAP_HASVARWIDTH OR HEAP_HASEXTERNAL)\<rparr> = Inr st"
    "data' = fs_data st" "bits' = fs_bits st"
    by (auto simp: heap_fill_tuple_def bindE_eq_Inr_iff)
  with fill_loop_lengths [OF this(1)] show "length data' = length data" "length bits' = length bits" by simp_all
qed

lemma palloc0_Inr: "palloc0 n = Inr mem \<Longrightarrow> mem = replicate (nat (n mod 2 ^ 64)) 0 \<and> n mod 2 ^ 64 \<le> MaxAllocSize"
  by (auto simp: palloc0_def Let_def split: if_splits)

lemma palloc0_ok: "0 \<le> n \<Longrightarrow> n \<le> MaxAllocSize \<Longrightarrow> palloc0 n = Inr (replicate (nat n) 0)"
  by (simp add: palloc0_def Let_def MaxAllocSize_def)

lemma minimal_data_pos:
  assumes "natts \<le> MaxTupleAttributeNumber"
  shows "minimal_header_len natts hn - SizeofMinimalTupleHeader = header_len natts hn - SizeofHeapTupleHeader"
    "minimal_header_len natts hn = header_len natts hn - MINIMAL_TUPLE_OFFSET"
    "SizeofMinimalTupleHeader < minimal_header_len natts hn"
  using minimal_header_len [of natts hn] header_len_bounds(1) [OF assms, of hn]
  by (simp_all add: MINIMAL_TUPLE_OFFSET_def SizeofMinimalTupleHeader_def SizeofHeapTupleHeader_def)

text \<open>The memory of a new tuple: the bitmap area and the data area.\<close>

lemma header_memory:
  assumes n: "natts \<le> MaxTupleAttributeNumber" and small: "int (HEAPTUPLESIZE + header_len natts hn + k) \<le> MaxAllocSize"
  shows "palloc0 (int (HEAPTUPLESIZE + (header_len natts hn + k))) = Inr (replicate (HEAPTUPLESIZE + (header_len natts hn + k)) 0)"
    "palloc0 (int (minimal_header_len natts hn + k)) = Inr (replicate (minimal_header_len natts hn + k) 0)"
    "drop (HEAPTUPLESIZE + SizeofHeapTupleHeader) (replicate (HEAPTUPLESIZE + (header_len natts hn + k)) (0 :: byte)) =
      replicate (header_len natts hn - SizeofHeapTupleHeader + k) 0"
    "drop SizeofMinimalTupleHeader (replicate (minimal_header_len natts hn + k) (0 :: byte)) =
      replicate (header_len natts hn - SizeofHeapTupleHeader + k) 0"
    "drop i (replicate (i + j) x) = replicate j x" "take i (replicate (i + j) x) = replicate i x"
proof -
  let ?h = "header_len natts hn" and ?m = "minimal_header_len natts hn"
  note hb = header_len_bounds(1) [OF n, of hn] and mb = minimal_data_pos [OF n, of hn]
  show "palloc0 (int (HEAPTUPLESIZE + (?h + k))) = Inr (replicate (HEAPTUPLESIZE + (?h + k)) 0)"
    using small palloc0_ok [of "int (HEAPTUPLESIZE + (?h + k))"] by (simp only: nat_int)
  have "int (?m + k) \<le> MaxAllocSize" using small mb(2) by simp
  then show "palloc0 (int (?m + k)) = Inr (replicate (?m + k) 0)"
    using palloc0_ok [of "int (?m + k)"] by (simp only: nat_int)
  show "drop (HEAPTUPLESIZE + SizeofHeapTupleHeader) (replicate (HEAPTUPLESIZE + (?h + k)) (0 :: byte)) =
      replicate (?h - SizeofHeapTupleHeader + k) 0" using hb by simp
  show "drop SizeofMinimalTupleHeader (replicate (?m + k) (0 :: byte)) = replicate (?h - SizeofHeapTupleHeader + k) 0"
    using mb by simp
qed simp_all

lemma from_minimal:
  assumes h: "SizeofHeapTupleHeader < h" and small: "int (HEAPTUPLESIZE + h + k) \<le> MaxAllocSize"
    and l: "length bs = h - SizeofHeapTupleHeader + k"
  shows "heap_tuple_from_minimal_tuple \<lparr>mt_len = word_of_nat (h - MINIMAL_TUPLE_OFFSET + k), mt_padding = pad,
      mt_infomask2 = i2, mt_infomask = im, mt_hoff = ho, mt_bits = bs\<rparr> = Inr
    \<lparr>t_len = word_of_nat (h + k), t_self = ItemPointerSetInvalid, t_tableOid = InvalidOid,
     t_data = \<lparr>t_choice = replicate 12 0, t_ctid = replicate 6 0, t_infomask2 = i2, t_infomask = im, t_hoff = ho, t_bits = bs\<rparr>\<rparr>"
    "minimal_tuple_from_heap_tuple \<lparr>t_len = word_of_nat (h + k), t_self = self, t_tableOid = toid,
      t_data = \<lparr>t_choice = ch, t_ctid = ctid, t_infomask2 = i2, t_infomask = im, t_hoff = ho, t_bits = bs\<rparr>\<rparr> = Inr
    \<lparr>mt_len = word_of_nat (h - MINIMAL_TUPLE_OFFSET + k), mt_padding = ctid, mt_infomask2 = i2, mt_infomask = im,
     mt_hoff = ho, mt_bits = bs\<rparr>"
proof -
  have o: "MINIMAL_TUPLE_OFFSET \<le> h" using h by (simp add: MINIMAL_TUPLE_OFFSET_def SizeofHeapTupleHeader_def)
  have sum: "h - MINIMAL_TUPLE_OFFSET + k + MINIMAL_TUPLE_OFFSET = h + k" using o by simp
  have len: "word_of_nat (h - MINIMAL_TUPLE_OFFSET + k) + word_of_nat MINIMAL_TUPLE_OFFSET = (word_of_nat (h + k) :: 32 word)"
    using arg_cong [OF sum, of "word_of_nat :: nat \<Rightarrow> 32 word"] by (simp only: of_nat_add)
  then have len': "word_of_nat (h + k) - word_of_nat MINIMAL_TUPLE_OFFSET = (word_of_nat (h - MINIMAL_TUPLE_OFFSET + k) :: 32 word)"
    by (metis add_diff_cancel_right')
  have u: "unat (word_of_nat n :: 32 word) = n" "uint (word_of_nat n :: 32 word) = int n" if "n \<le> h + k" for n
    using that small by (simp_all add: unat_of_nat uint_nat MaxAllocSize_def)
  have cp: "copy_bits bs (h - MINIMAL_TUPLE_OFFSET + k) = Inr bs"
    using l h by (simp add: copy_bits_def rd_range_def SizeofMinimalTupleHeader_def SizeofHeapTupleHeader_def MINIMAL_TUPLE_OFFSET_def)
  have mem: "palloc0 (int HEAPTUPLESIZE + int (h + k)) = Inr (replicate (nat (int HEAPTUPLESIZE + int (h + k))) 0)"
    "palloc0 (int (h - MINIMAL_TUPLE_OFFSET + k)) = Inr (replicate (nat (int (h - MINIMAL_TUPLE_OFFSET + k))) 0)"
    using small by (auto intro!: palloc0_ok)
  have le: "h - MINIMAL_TUPLE_OFFSET + k \<le> h + k" by simp
  show "heap_tuple_from_minimal_tuple \<lparr>mt_len = word_of_nat (h - MINIMAL_TUPLE_OFFSET + k), mt_padding = pad,
      mt_infomask2 = i2, mt_infomask = im, mt_hoff = ho, mt_bits = bs\<rparr> = Inr
    \<lparr>t_len = word_of_nat (h + k), t_self = ItemPointerSetInvalid, t_tableOid = InvalidOid,
     t_data = \<lparr>t_choice = replicate 12 0, t_ctid = replicate 6 0, t_infomask2 = i2, t_infomask = im, t_hoff = ho, t_bits = bs\<rparr>\<rparr>"
    unfolding heap_tuple_from_minimal_tuple_def Let_def minimal_tuple.select_convs len u [OF le] u [OF order_refl] mem cp
    by simp
  show "minimal_tuple_from_heap_tuple \<lparr>t_len = word_of_nat (h + k), t_self = self, t_tableOid = toid,
      t_data = \<lparr>t_choice = ch, t_ctid = ctid, t_infomask2 = i2, t_infomask = im, t_hoff = ho, t_bits = bs\<rparr>\<rparr> = Inr
    \<lparr>mt_len = word_of_nat (h - MINIMAL_TUPLE_OFFSET + k), mt_padding = ctid, mt_infomask2 = i2, mt_infomask = im,
     mt_hoff = ho, mt_bits = bs\<rparr>"
    unfolding minimal_tuple_from_heap_tuple_def Let_def heap_tuple.select_convs heap_tuple_header.select_convs
      len' u [OF le] mem cp by simp
qed

text \<open>A tuple and a minimal tuple formed from the same row differ in the header only.\<close>

lemma form_both:
  assumes d: "desc_ok td" and g: "cols_given ms env (td_attrs td) vs ns cs" and w: "row_fits cs"
  obtains im bits data where
    "heap_form_tuple (de_flatten env) td vs ns = Inr
      \<lparr>t_len = word_of_nat (header_len (length (td_attrs td)) (True \<in> set ns) + length data),
       t_self = ItemPointerSetInvalid, t_tableOid = InvalidOid,
       t_data = (HeapTupleHeaderSetNatts
         \<lparr>t_choice = datum_fields (int (header_len (length (td_attrs td)) (True \<in> set ns) + length data)) td,
          t_ctid = ItemPointerSetInvalid, t_infomask2 = 0, t_infomask = 0,
          t_hoff = word_of_nat (header_len (length (td_attrs td)) (True \<in> set ns)),
          t_bits = replicate (length (bits @ data)) 0\<rparr> (length (td_attrs td)))
         \<lparr>t_infomask := im, t_bits := bits @ data\<rparr>\<rparr>"
    "heap_form_minimal_tuple (de_flatten env) td vs ns = Inr
      \<lparr>mt_len = word_of_nat (header_len (length (td_attrs td)) (True \<in> set ns) - MINIMAL_TUPLE_OFFSET + length data),
       mt_padding = replicate MINIMAL_TUPLE_PADDING 0,
       mt_infomask2 = (0 AND NOT HEAP_NATTS_MASK) OR word_of_nat (length (td_attrs td)), mt_infomask = im,
       mt_hoff = word_of_nat (header_len (length (td_attrs td)) (True \<in> set ns)), mt_bits = bits @ data\<rparr>"
    "length bits = header_len (length (td_attrs td)) (True \<in> set ns) - SizeofHeapTupleHeader"
    "int (HEAPTUPLESIZE + header_len (length (td_attrs td)) (True \<in> set ns) + length data) \<le> MaxAllocSize"
    "length data = length (layout (de_flatten env) (td_attrs td) vs ns 0)"
proof -
  let ?fl = "de_flatten env" and ?hn = "True \<in> set ns" and ?n = "length (td_attrs td)"
  let ?l = "layout ?fl (td_attrs td) vs ns 0" and ?h = "header_len ?n ?hn"
  let ?m = "minimal_header_len ?n ?hn"
  have n: "?n \<le> MaxTupleAttributeNumber" and aok: "\<forall>a\<in>set (td_attrs td). att_ok a"
    using d by (simp_all add: desc_ok_def)
  note ok = cols_given_ok [OF g aok] and hb = header_len_bounds [OF n, of ?hn] and mh = minimal_header_len [of ?n ?hn]
    and mb = minimal_data_pos [OF n, of ?hn]
  have "length ?l \<le> sum_list (map col_weight cs)" using layout_weight [OF _ g aok] g by (simp add: cols_given_def)
  with w hb(2) have small: "int (HEAPTUPLESIZE + ?h + length ?l) \<le> MaxAllocSize" by (simp add: row_fits_def)
  have size: "heap_compute_data_size ?fl td vs ns = Inr (length ?l)"
    using data_size_layout [OF ok, of 0] by (simp add: heap_compute_data_size_def)
  note mem = header_memory [OF n small]
  obtain im bits where f: "heap_fill_tuple ?fl td vs ns (replicate (length ?l) 0) 0
      (replicate (?h - SizeofHeapTupleHeader) 0) ?hn = Inr (?l, im, bits)"
    "length bits = ?h - SizeofHeapTupleHeader"
    using heap_fill_layout [OF ok hb(3), of 0] by auto
  have t: "take ?n ns = ns" using g by (simp add: cols_given_def)
  have nm: "\<not> ?n > MaxTupleAttributeNumber" using n by simp
  show thesis
  proof (rule that [where im = im and bits = bits and data = ?l])
    show "heap_form_tuple ?fl td vs ns = Inr
      \<lparr>t_len = word_of_nat (?h + length ?l), t_self = ItemPointerSetInvalid, t_tableOid = InvalidOid,
       t_data = (HeapTupleHeaderSetNatts
         \<lparr>t_choice = datum_fields (int (?h + length ?l)) td, t_ctid = ItemPointerSetInvalid, t_infomask2 = 0,
          t_infomask = 0, t_hoff = word_of_nat ?h, t_bits = replicate (length (bits @ ?l)) 0\<rparr> ?n)
         \<lparr>t_infomask := im, t_bits := bits @ ?l\<rparr>\<rparr>"
      unfolding heap_form_tuple_def Let_def t size bindE_simps mem if_not_P [OF nm] natts_fields(7)
      by (simp add: f)
    show "heap_form_minimal_tuple ?fl td vs ns = Inr
      \<lparr>mt_len = word_of_nat (?h - MINIMAL_TUPLE_OFFSET + length ?l), mt_padding = replicate MINIMAL_TUPLE_PADDING 0,
       mt_infomask2 = (0 AND NOT HEAP_NATTS_MASK) OR word_of_nat ?n, mt_infomask = im,
       mt_hoff = word_of_nat ?h, mt_bits = bits @ ?l\<rparr>"
      unfolding heap_form_minimal_tuple_def Let_def t size bindE_simps mem if_not_P [OF nm] mb(1) mh
      by (simp add: f mb(2))
  qed (use f small in simp_all)
qed

section \<open>Missing values\<close>

text \<open>The value that the descriptor has for an attribute absent from old tuples.\<close>

definition missing_holds :: "int set \<Rightarrow> detoast_env \<Rightarrow> pg_attribute \<Rightarrow> colval \<Rightarrow> bool" where
  "missing_holds ms env a c \<longleftrightarrow> (atthasmissing a \<longleftrightarrow> attmissing a \<noteq> None) \<and> (attlen a > 0 \<or> attlen a = -1) \<and>
     (case attmissing a of None \<Rightarrow> c = ColNull | Some v \<Rightarrow> col_holds ms env a v False c)"

definition missing_value :: "pg_attribute \<Rightarrow> datum" where
  "missing_value a = (case attmissing a of None \<Rightarrow> ByVal 0 | Some v \<Rightarrow> v)"

abbreviation missing_values :: "pg_attribute list \<Rightarrow> datum list" where
  "missing_values as \<equiv> map missing_value as"

abbreviation missing_nulls :: "pg_attribute list \<Rightarrow> bool list" where
  "missing_nulls as \<equiv> map (\<lambda>a. attmissing a = None) as"

text \<open>A datum is as long as its header says.\<close>

lemma represents_size:
  assumes "represents ms env v d"
  shows "\<exists>bs r. v = bs @ r \<and> VARSIZE_ANY v = Inr (int (length bs)) \<and> represents ms env bs d \<and>
    length bs \<le> length d + 18"
  using assms
proof cases
  case inline
  then consider (plain) r where "v = mk_plain d @ r" "fits_4b d"
    | (short) r where "v = mk_short d @ r" "fits_short d"
    | (comp) cm c r where "payload_of cm d c" "v = mk_compressed (int (length d)) cm c @ r" "cm \<in> ms"
    unfolding inline_datum_def text_datum_def by blast
  then show ?thesis
  proof cases
    case plain
    have "represents ms env (mk_plain d) d"
      using plain(2) by (intro represents.inline) (auto simp: inline_datum_def text_datum_def intro: exI [of _ "[]"])
    with plain have "v = mk_plain d @ r \<and> VARSIZE_ANY v = Inr (int (length (mk_plain d))) \<and> represents ms env (mk_plain d) d \<and>
        length (mk_plain d) \<le> length d + 18"
      by (simp add: VARSIZE_ANY_forms)
    then show ?thesis by blast
  next
    case short
    have "represents ms env (mk_short d) d"
      using short(2) by (intro represents.inline) (auto simp: inline_datum_def text_datum_def intro: exI [of _ "[]"])
    with short have "v = mk_short d @ r \<and> VARSIZE_ANY v = Inr (int (length (mk_short d))) \<and> represents ms env (mk_short d) d \<and>
        length (mk_short d) \<le> length d + 18"
      by (simp add: VARSIZE_ANY_forms)
    then show ?thesis by blast
  next
    case comp
    have "represents ms env (mk_compressed (int (length d)) cm c) d"
      using comp(1,3) by (intro represents.inline) (auto simp: inline_datum_def intro: exI [of _ "[]"])
    with comp payload_of_facts [OF comp(1)] have "v = mk_compressed (int (length d)) cm c @ r \<and> VARSIZE_ANY v = Inr (int (length (mk_compressed (int (length d)) cm c))) \<and> represents ms env (mk_compressed (int (length d)) cm c) d \<and>
        length (mk_compressed (int (length d)) cm c) \<le> length d + 18"
      by (simp add: VARSIZE_ANY_forms)
    then show ?thesis by blast
  qed
next
  case (external relid vid r)
  with represents.external [OF external(2-4), of ms "[]"] show ?thesis
    by (intro exI conjI) (rule external(1), simp_all add: VARSIZE_ANY_forms)
next
  case (external_compressed cm c relid vid r)
  with represents.external_compressed [OF external_compressed(2-4), of "[]"] show ?thesis
    by (intro exI conjI) (rule external_compressed(1), simp_all add: VARSIZE_ANY_forms)
next
  case (indirect q obj r)
  with represents.indirect [OF indirect(2-4), of "[]"] show ?thesis
    by (intro exI conjI) (rule indirect(1), simp_all add: VARSIZE_ANY_forms)
qed

lemma missing_holds_get:
  assumes "missing_holds ms env a c"
  shows "\<exists>v. getmissingattr a = Inr (v, attmissing a = None) \<and> col_holds ms env a v (attmissing a = None) c"
proof (cases "attmissing a")
  case None
  with assms show ?thesis by (simp add: missing_holds_def getmissingattr_def col_holds_def)
next
  case (Some v)
  with assms have h: "atthasmissing a" "attlen a > 0 \<or> attlen a = -1" "col_holds ms env a v False c" by (auto simp: missing_holds_def)
  show ?thesis
  proof (cases c)
    case (ColText d)
    with h(3) obtain p where p: "v = ByRef p" "represents ms env p d" "attlen a = -1" "\<not> attbyval a"
      by (auto simp: col_holds_def)
    from represents_size [OF p(2)] obtain bs r where r: "p = bs @ r" "VARSIZE_ANY p = Inr (int (length bs))"
      "represents ms env bs d" by blast
    with p ColText Some h(1) show ?thesis
      by (auto simp: getmissingattr_def DatumGetPointer_def col_holds_def rd_range_def)
  qed (use h Some in \<open>auto simp: getmissingattr_def DatumGetPointer_def col_holds_def rd_range_def split: if_splits\<close>)
qed

lemma missing_loop_holds:
  "list_all2 (missing_holds ms env) as cs \<Longrightarrow>
     \<exists>vs. missing_loop as = Inr (vs, missing_nulls as) \<and> cols_hold ms env as vs (missing_nulls as) cs"
proof (induction rule: list_all2_induct)
  case (Cons a as c cs)
  from missing_holds_get [OF Cons(1)] Cons(3) show ?case
    by (auto simp: cols_hold_def All_less_Suc2)
qed (simp add: cols_hold_def)

lemma missing_holds_value:
  "missing_holds ms env a c \<Longrightarrow> col_holds ms env a (missing_value a) (attmissing a = None) c"
  by (cases "attmissing a") (auto simp: missing_holds_def missing_value_def col_holds_def)

lemma missing_given:
  "list_all2 (missing_holds ms env) as cs \<Longrightarrow> cols_hold ms env as (missing_values as) (missing_nulls as) cs"
proof (induction rule: list_all2_induct)
  case (Cons a as c cs)
  with missing_holds_value [OF Cons(1)] show ?case by (simp add: cols_hold_def All_less_Suc2)
qed (simp add: cols_hold_def)

text \<open>A tuple with the first attributes of the descriptor.\<close>

lemma cache_ok_take: "cache_ok off as \<Longrightarrow> cache_ok off (take n as)"
proof (induction as arbitrary: off n)
  case (Cons a as)
  then show ?case by (cases n) (auto dest: in_set_takeD)
qed simp

lemma desc_ok_take: "desc_ok td \<Longrightarrow> desc_ok (td\<lparr>td_attrs := take n (td_attrs td)\<rparr>)"
  by (auto simp: desc_ok_def cache_ok_take dest: in_set_takeD)

lemma heap_deform_prefix:
  assumes "HeapTupleHeaderGetNatts (t_data tup) = n" "n \<le> length (td_attrs td)"
    and "heap_deform_tuple tup (td\<lparr>td_attrs := take n (td_attrs td)\<rparr>) = Inr (td1, ws, ns)"
    and "missing_loop (drop n (td_attrs td)) = Inr (vs, ms)"
  shows "\<exists>td2. heap_deform_tuple tup td = Inr (td2, ws @ vs, ns @ ms)"
  using assms by (auto simp: heap_deform_tuple_def Let_def bindE_eq_Inr_iff)

lemma cols_hold_append:
  "cols_hold ms env as vs ns cs \<Longrightarrow> cols_hold ms env as2 vs2 ns2 cs2 \<Longrightarrow>
     cols_hold ms env (as @ as2) (vs @ vs2) (ns @ ns2) (cs @ cs2)"
  by (auto simp: cols_hold_def nth_append)

lemma cols_given_append:
  "cols_given ms env as vs ns cs \<Longrightarrow> cols_given ms env as2 vs2 ns2 cs2 \<Longrightarrow>
     cols_given ms env (as @ as2) (vs @ vs2) (ns @ ns2) (cs @ cs2)"
  by (auto simp: cols_given_def nth_append)

section \<open>The size of an expanded tuple\<close>

lemma represents_not_expanded:
  assumes "represents ms env v d"
  shows "\<not> VARATT_IS_EXTERNAL_EXPANDED v"
  using assms
proof cases
  case inline
  then show ?thesis
    by (auto simp: inline_datum_def text_datum_def varatt_simps varatt_class_defs VARATT_IS_EXTERNAL_EXPANDED_def)
qed (simp_all add: varatt_simps varatt_class_defs VARTAG_IS_EXPANDED_def vartags)

lemma att_align_nominal_mono: "off \<le> off' \<Longrightarrow> att_align_nominal off al \<le> att_align_nominal off' al"
  unfolding att_align_nominal_def TYPEALIGN_eq by (auto intro!: mult_le_mono1 div_le_mono)

text \<open>The size computed for a missing value is enough for its stored form.\<close>

lemma varlena_size_enough:
  assumes a: "attlen a = -1" "\<not> attbyval a" and ne: "\<not> VARATT_IS_EXTERNAL_EXPANDED p"
    and f: "fill_bytes fl a (ByRef p) off im = Inr (pos, bs, im')"
    and o: "off \<le> off0" and k: "VARSIZE_ANY p = Inr (int k)"
  shows "pos + length bs \<le> att_align_datum off0 (attalign a) (-1) p + k"
proof -
  note mono = att_align_nominal_mono [OF o, of "attalign a"]
  have le: "off \<le> att_align_nominal off0 (attalign a)" using o att_align_nominal_ge le_trans by blast
  consider (ext) "VARATT_IS_EXTERNAL p" | (short) "\<not> VARATT_IS_EXTERNAL p" "VARATT_IS_SHORT p"
    | (long) "\<not> VARATT_IS_EXTERNAL p" "\<not> VARATT_IS_SHORT p" by blast
  then show ?thesis
  proof cases
    case ext
    with a ne f have "pos = off" "length bs = nat (VARSIZE_EXTERNAL p)"
      by (auto simp: fill_bytes_def DatumGetPointer_def Let_def bindE_eq_Inr_iff rd_range_length)
    with ext external_not_4b [OF ext] k o show ?thesis
      by (simp add: att_align_datum_def VARSIZE_ANY_def VARATT_IS_EXTERNAL_def)
  next
    case short
    with a f have "pos = off" "length bs = nat (VARSIZE_1B p)"
      by (auto simp: fill_bytes_def DatumGetPointer_def Let_def bindE_eq_Inr_iff rd_range_length)
    with short k o show ?thesis
      by (simp add: att_align_datum_def VARSIZE_ANY_def VARATT_IS_EXTERNAL_def VARATT_IS_SHORT_def)
  next
    case long
    then have v: "VARSIZE_4B p = Inr (int k)" using k by (simp add: VARSIZE_ANY_def VARATT_IS_EXTERNAL_def VARATT_IS_SHORT_def)
    have "Suc (nat ((int k - 4) mod 4294967296)) \<le> k" if "(int k - 4) mod 4294967296 \<le> 126"
    proof (cases "4 \<le> k")
      case True
      then have "(int k - 4) mod 4294967296 \<le> int k - 4" by (intro zmod_le_nonneg_dividend) simp
      with True show ?thesis by linarith
    next
      case False
      have "(int k - 4) mod 4294967296 = (int k - 4 + 4294967296) mod 4294967296" by (rule mod_add_self2 [symmetric])
      also have "\<dots> = int k - 4 + 4294967296" by (rule mod_pos_pos_trivial) (use False in simp_all)
      finally have "(int k - 4) mod 4294967296 = int k - 4 + 4294967296" .
      with that show ?thesis by linarith
    qed
    then have "pos \<le> att_align_nominal off0 (attalign a) \<and> length bs \<le> k"
      using long a f v le mono
      by (auto simp: fill_bytes_def DatumGetPointer_def Let_def bindE_eq_Inr_iff rd_range_length VARATT_CAN_MAKE_SHORT_def
          VARATT_CONVERTED_SHORT_SIZE_def SET_VARSIZE_1B_def VARATT_SHORT_MAX_def varhdrsz split: if_splits)
    with long show ?thesis by (simp add: att_align_datum_def)
  qed
qed

lemma missing_size_enough:
  assumes ok: "att_ok a" and m: "missing_holds ms env a c" and v: "attmissing a = Some v" and o: "off \<le> off0"
  shows "\<exists>pos bs m k. fill_bytes (de_flatten env) a v off 0 = Inr (pos, bs, m) \<and> off \<le> pos \<and> pos + length bs \<le> k \<and>
    att_addlength_pointer (att_align_datum off0 (attalign a) (attlen a) (DatumGetPointer v)) (attlen a)
      (DatumGetPointer v) = Inr k \<and> k \<le> off0 + col_weight c"
proof -
  have h: "col_holds ms env a v False c" "attlen a > 0 \<or> attlen a = -1" using m v by (auto simp: missing_holds_def)
  then have "col_given ms env a v False c" by (simp add: col_given_def)
  from col_given_image [OF ok this] obtain al bs m where i: "col_image (de_flatten env) a v al bs m"
    and w: "length bs + 8 \<le> col_weight c" by blast
  have f: "fill_bytes (de_flatten env) a v off 0 = Inr (col_pos al a off, bs, m)" using imageD(1) [OF i, of off 0] by simp
  have less: "att_align_nominal off0 (attalign a) \<le> off0 + 7"
    using att_align_nominal_less [of off0 "attalign a"] by linarith
  show ?thesis
  proof (cases "attlen a > 0")
    case True
    have l: "length bs = nat (attlen a)"
      using imageD(2) [OF i, of 0 "[]"] True by (simp add: att_addlength_pointer_def)
    have "col_pos al a off \<le> att_align_nominal off0 (attalign a)"
      using att_align_nominal_mono [OF o, of "attalign a"] o att_align_nominal_ge [of off0 "attalign a"]
      by (auto simp: col_pos_def simp del: att_align_nominal_ge)
    with f l w less True show ?thesis
      by (simp add: att_addlength_pointer_def att_align_datum_def)
  next
    case False
    with h(2) have a: "attlen a = -1" by simp
    with ok have nb: "\<not> attbyval a" by (auto simp: att_ok_def)
    with h(1) a obtain p d where p: "v = ByRef p" "represents ms env p d" "c = ColText d"
      by (cases c) (auto simp: col_holds_def)
    from represents_size [OF p(2)] obtain k where k: "VARSIZE_ANY p = Inr (int k)" "k \<le> length d + 18" by blast
    note e = varlena_size_enough [OF a nb represents_not_expanded [OF p(2)] f [unfolded p(1)] o k(1)]
    have "att_align_datum off0 (attalign a) (-1) p \<le> off0 + 7" using less by (simp add: att_align_datum_def)
    with f e k p a show ?thesis
      by (simp add: att_addlength_pointer_def DatumGetPointer_def col_weight_def)
  qed
qed

lemma first_missing_sizes:
  "(case first_missing as hn of (rest, hn') \<Rightarrow> missing_sizes rest hn' len) = missing_sizes as hn len"
  by (induction as hn rule: first_missing.induct) (auto split: option.splits)

lemma missing_sizes_none:
  "\<forall>a\<in>set as. attmissing a = None \<Longrightarrow> as \<noteq> [] \<Longrightarrow> missing_sizes as hn len = Inr (True, len)"
proof (induction as arbitrary: hn)
  case (Cons a as)
  then show ?case by (cases as) simp_all
qed simp

lemma expand_size_eq:
  assumes "n < length atts"
  shows "expand_size atts n hn len = missing_sizes (drop n atts) hn len"
proof (cases "\<exists>a\<in>set atts. attmissing a \<noteq> None")
  case True
  show ?thesis unfolding expand_size_def if_P [OF True] Let_def by (rule first_missing_sizes)
next
  case False
  then have "\<forall>a\<in>set (drop n atts). attmissing a = None" by (auto dest: in_set_dropD)
  with missing_sizes_none assms False show ?thesis by (simp add: expand_size_def)
qed

lemma missing_sizes_layout:
  "list_all2 (missing_holds ms env) as cs \<Longrightarrow> \<forall>a\<in>set as. att_ok a \<Longrightarrow> off \<le> off0 \<Longrightarrow>
     \<exists>k. missing_sizes as hn off0 = Inr (hn \<or> True \<in> set (missing_nulls as), k) \<and>
       off + length (layout (de_flatten env) as (missing_values as) (missing_nulls as) off) \<le> k \<and>
       k \<le> off0 + sum_list (map col_weight cs)"
proof (induction arbitrary: off off0 hn rule: list_all2_induct)
  case (Cons a as c cs)
  show ?case
  proof (cases "attmissing a")
    case None
    from Cons(3) [of off off0 True] Cons(4,5) None show ?thesis by auto
  next
    case (Some v)
    from missing_size_enough [OF _ Cons(1) Some Cons(5)] Cons(4) obtain pos bs m k where
      f: "fill_bytes (de_flatten env) a v off 0 = Inr (pos, bs, m)" "pos + length bs \<le> k" "off \<le> pos"
      "att_addlength_pointer (att_align_datum off0 (attalign a) (attlen a) (DatumGetPointer v)) (attlen a)
        (DatumGetPointer v) = Inr k" "k \<le> off0 + col_weight c" by auto
    have mv: "missing_value a = v" using Some by (simp add: missing_value_def)
    from Cons(3) [OF _ f(2), of hn] Cons(4) f Some show ?thesis
      by (auto simp: mv)
  qed
qed simp

section \<open>The contents of an expanded tuple\<close>

lemma expand_loop_fill:
  "\<forall>a\<in>set as. att_ok a \<Longrightarrow> fs_bit st = None \<longrightarrow> True \<notin> set (missing_nulls as) \<Longrightarrow>
     expand_loop fl as st = fill_loop fl as (missing_values as) (missing_nulls as) st"
proof (induction as arbitrary: st)
  case (Cons a as)
  have "(case attmissing a of Some v \<Rightarrow> fill_val fl a v False st | None \<Rightarrow> expand_null fl a st) =
      fill_val fl a (missing_value a) (attmissing a = None) st"
    using Cons(3) by (auto simp: missing_value_def expand_null_def split: option.splits)
  moreover have "expand_loop fl as st' = fill_loop fl as (missing_values as) (missing_nulls as) st'"
    if "fill_val fl a (missing_value a) (attmissing a = None) st = Inr st'" for st'
    using Cons(1) [of st'] Cons(2,3) fill_val_infomask(1) [OF that] by auto
  ultimately show ?case by (auto intro: bindE_cong)
qed simp

lemma layout_append:
  "cols_ok fl as vs ns \<Longrightarrow> layout fl (as @ as2) (vs @ vs2) (ns @ ns2) off =
     layout fl as vs ns off @ layout fl as2 vs2 ns2 (off + length (layout fl as vs ns off))"
proof (induction fl as vs ns arbitrary: off rule: cols_ok.induct)
  case (1 fl a as v vs n ns)
  show ?case
  proof (cases n)
    case False
    with 1(2) obtain al bs m where i: "col_image fl a v al bs m" by auto
    have "off \<le> col_pos al a off" by simp
    with False 1 imageD(1) [OF i, of off 0] show ?thesis by (simp add: add.assoc del: col_pos_ge)
  qed (use 1 in simp)
qed simp_all

lemma last_byte: "int (BITMAPLEN n) - 1 = (int n - 1) div 8"
proof -
  have "int (BITMAPLEN n) = (int n - 1 + 8) div 8" by (simp add: BITMAPLEN_def zdiv_int)
  also have "\<dots> = (int n - 1) div 8 + 1" by (rule div_add_self2) simp
  finally show ?thesis by simp
qed

lemma bitmap_bytes: "j div 8 < BITMAPLEN n \<or> n \<le> j"
  by (simp add: BITMAPLEN_def) linarith

text \<open>The bitmap of a source without nulls: ones for its attributes, zeros after them.\<close>

lemma full_bitmap:
  assumes b: "BITMAPLEN n \<le> b" and j: "j < 8 * b"
    and bits: "bits = replicate (BITMAPLEN n) 0xff @ replicate (b - BITMAPLEN n) (0 :: byte)"
    and bits': "bits' = (if n mod 8 \<noteq> 0 then bits[BITMAPLEN n - 1 := NOT (push_bit (n mod 8) 0xff)] else bits)"
  shows "null_bit bits' j \<longleftrightarrow> j < n"
proof -
  let ?q = "j div 8" and ?i = "j mod 8"
  have q: "?q < b" and i: "?i < 8" using j by simp_all
  have j8: "j = 8 * ?q + ?i" and n8: "n = 8 * (n div 8) + n mod 8" by simp_all
  have ff: "bit (0xff :: byte) k \<longleftrightarrow> k < 8" for k
    using not_full_byte [of "0xff"] bit_imp_le_length [of "0xff :: byte" k] by auto
  have len: "length bits = b" using b by (simp add: bits)
  have B0: "BITMAPLEN n = n div 8" if "n mod 8 = 0" using that unfolding BITMAPLEN_def by presburger
  have B1: "BITMAPLEN n = n div 8 + 1" if "n mod 8 \<noteq> 0" using that unfolding BITMAPLEN_def by presburger
  show ?thesis
  proof (cases "n mod 8 \<noteq> 0 \<and> ?q = n div 8")
    case True
    then have "bits' ! ?q = NOT (push_bit (n mod 8) 0xff)" using B1 len q by (simp add: bits')
    then have "null_bit bits' j \<longleftrightarrow> ?i < n mod 8"
      using i ff by (simp add: null_bit_def bit_simps) linarith
    with True j8 n8 show ?thesis by linarith
  next
    case False
    then have "bits' ! ?q = bits ! ?q" using B1 len q by (auto simp: bits')
    moreover have "bit (0xff :: byte) ?i" using i ff by blast
    ultimately have n: "null_bit bits' j \<longleftrightarrow> ?q < BITMAPLEN n"
      using q by (simp add: null_bit_def bits nth_append)
    show ?thesis unfolding n
    proof (cases "n mod 8 = 0")
      case True
      have "n div 8 * 8 = n" using n8 True by linarith
      with B0 [OF True] show "?q < BITMAPLEN n \<longleftrightarrow> j < n" by (simp add: div_less_iff_less_mult)
    next
      case r: False
      with False have "?q \<noteq> n div 8" by simp
      with B1 [OF r] show "?q < BITMAPLEN n \<longleftrightarrow> j < n" by (intro iffI) linarith+
    qed
  qed
qed

lemma expand_bits_ok:
  assumes len: "length ns = n" and fits: "n \<le> 8 * b"
    and src: "hn \<Longrightarrow> t_bits td = sb @ rest \<and> bitmap_of sb ns \<and> BITMAPLEN n \<le> length sb \<and> 0 < n"
    and nonull: "\<not> hn \<Longrightarrow> True \<notin> set ns"
  shows "\<exists>bits. expand_bits td n (if hn then BITMAPLEN n else 0) (replicate b 0) = Inr (bits, (int n - 1) div 8) \<and>
    length bits = b \<and> (\<forall>j<8 * b. null_bit bits j = (j < n \<and> \<not> ns ! j))"
proof -
  have B: "BITMAPLEN n \<le> b" using fits unfolding BITMAPLEN_def by linarith
  show ?thesis
  proof (cases hn)
    case True
    note s = src [OF True]
    have "0 < n" using s by blast
    then have pos: "0 < BITMAPLEN n" by (simp add: BITMAPLEN_def div_greater_zero_iff)
    let ?bits = "take (BITMAPLEN n) sb @ replicate (b - BITMAPLEN n) 0"
    have "rd_range (t_bits td) 0 (BITMAPLEN n) = Inr (take (BITMAPLEN n) sb)"
      using s by (auto simp: rd_range_def)
    moreover have "buf_write (replicate b 0) 0 (take (BITMAPLEN n) sb) = Inr ?bits"
      using s B by (simp add: buf_write_def min_absorb2)
    ultimately have "expand_bits td n (BITMAPLEN n) (replicate b 0) = Inr (?bits, (int n - 1) div 8)"
      using pos by (simp add: expand_bits_def last_byte)
    moreover have "null_bit ?bits j = (j < n \<and> \<not> ns ! j)" if j: "j < 8 * b" for j
    proof (cases "j div 8 < BITMAPLEN n")
      case True
      with s have "null_bit ?bits j = null_bit sb j" by (simp add: null_bit_def nth_append)
      moreover have "j < 8 * length sb" using True s by linarith
      ultimately show ?thesis using s len by (simp add: bitmap_of_def)
    next
      case False
      with bitmap_bytes [of j n] have "n \<le> j" by simp
      moreover have "j div 8 < b" using j by simp
      ultimately show ?thesis using False s by (simp add: null_bit_def nth_append min_absorb2)
    qed
    moreover have "length ?bits = b" using s B by simp
    ultimately show ?thesis using True by auto
  next
    case False
    define bits where "bits = replicate (BITMAPLEN n) 0xff @ replicate (b - BITMAPLEN n) (0 :: byte)"
    define bits' where "bits' = (if n mod 8 \<noteq> 0 then bits[BITMAPLEN n - 1 := NOT (push_bit (n mod 8) 0xff)] else bits)"
    have w: "buf_write (replicate b 0) 0 (replicate (BITMAPLEN n) 0xff) = Inr bits"
      using B by (simp add: buf_write_def bits_def)
    have len': "length bits = b" "length bits' = b" using B by (simp_all add: bits_def bits'_def)
    have "(if n mod 8 \<noteq> 0 then buf_write bits (int (BITMAPLEN n) - 1) [NOT (push_bit (n mod 8) 0xff)] else Inr bits) =
        Inr bits'"
    proof (cases "n mod 8 \<noteq> 0")
      case True
      then have "0 < n" by (cases n) auto
      then have "0 < BITMAPLEN n" by (simp add: BITMAPLEN_def div_greater_zero_iff)
      then have i: "int (BITMAPLEN n) - 1 = int (BITMAPLEN n - 1)" "BITMAPLEN n - 1 < length bits" using B len' by simp_all
      show ?thesis unfolding i(1) buf_write_one [OF i(2)] bits'_def using True by simp
    qed (simp add: bits'_def)
    then have "expand_bits td n 0 (replicate b 0) = Inr (bits', (int n - 1) div 8)"
      by (simp add: expand_bits_def Let_def w last_byte)
    moreover have "null_bit bits' j = (j < n \<and> \<not> ns ! j)" if "j < 8 * b" for j
    proof -
      have "j < n \<Longrightarrow> \<not> ns ! j" using nonull [OF False] len by (metis nth_mem)
      with full_bitmap [OF B that bits_def bits'_def] show ?thesis by blast
    qed
    moreover note len'(2)
    ultimately show ?thesis using False by auto
  qed
qed

text \<open>A tuple whose length is that of its header and columns, as \<open>heap_form_tuple\<close> makes it.\<close>

definition whole_tuple :: "int set \<Rightarrow> detoast_env \<Rightarrow> pg_attribute list \<Rightarrow> heap_tuple \<Rightarrow> colval list \<Rightarrow> bool" where
  "whole_tuple ms env as tup cs \<longleftrightarrow>
     (\<exists>vs ns. cols_given ms env as vs ns cs \<and> filled (de_flatten env) as vs ns (t_data tup) \<and>
        unat (t_len tup) = header_len (length as) (True \<in> set ns) + length (layout (de_flatten env) as vs ns 0))"

lemma filled_source:
  assumes "filled fl as vs ns (t_data tup)"
  obtains sb slack where "t_bits (t_data tup) = sb @ layout fl as vs ns 0 @ slack"
    "tuple_data tup = layout fl as vs ns 0 @ slack"
    "length sb = header_len (length as) (True \<in> set ns) - SizeofHeapTupleHeader"
    "True \<in> set ns \<longrightarrow> bitmap_of sb ns"
    "HeapTupleHasNulls tup \<longleftrightarrow> True \<in> set ns" "HeapTupleHeaderGetNatts (t_data tup) = length as"
    "varwidth_marked as ns (t_infomask (t_data tup))"
    "unat (t_hoff (t_data tup)) = header_len (length as) (True \<in> set ns)"
  using assms by (auto simp: filled_def tuple_data_def HeapTupleHasNulls_def)

lemma whole_source_len:
  assumes "filled fl as vs ns (t_data tup)"
    "unat (t_len tup) = header_len (length as) (True \<in> set ns) + length (layout fl as vs ns 0)"
  shows "source_data_len tup = length (layout fl as vs ns 0)"
proof -
  have "unat (t_hoff (t_data tup)) = header_len (length as) (True \<in> set ns)" using assms(1) by (simp add: filled_def)
  then have "uint (t_len tup) - uint (t_hoff (t_data tup)) = int (length (layout fl as vs ns 0))"
    using assms(2) by (simp flip: uint_nat add: uint_nat)
  moreover have "int (length (layout fl as vs ns 0)) < 2 ^ 64"
    using assms(2) unsigned_less [where 'a = nat, of "t_len tup"] by simp
  ultimately show ?thesis by (simp add: source_data_len_def)
qed

lemma varwidth_append:
  assumes l: "fill_loop fl as2 vs2 ns2 st = Inr st'" and ok: "\<forall>a\<in>set as2. att_ok a"
    and n: "fs_bit st = None \<longrightarrow> True \<notin> set ns2" "length ns2 = length as2" "length ns = length as"
    and v: "varwidth_marked as ns (fs_infomask st)"
  shows "varwidth_marked (as @ as2) (ns @ ns2) (fs_infomask st')"
proof (rule ccontr)
  assume a: "\<not> ?thesis"
  then obtain i where i: "\<not> bit (fs_infomask st') 1" "i < length (as @ as2)" "\<not> (ns @ ns2) ! i" "attlen ((as @ as2) ! i) \<le> 0"
    unfolding varwidth_marked_def varwidth_bit by (auto simp: not_less)
  from fill_loop_infomask [OF l ok n(1,2)] i(1) have c: "\<not> bit (fs_infomask st) 1"
    "\<not> (\<exists>i<length as2. \<not> ns2 ! i \<and> attlen (as2 ! i) \<le> 0)" by blast+
  with v have "\<forall>i<length as. ns ! i \<or> 0 < attlen (as ! i)" unfolding varwidth_marked_def varwidth_bit by auto
  moreover from i c(2) n(3) have "i < length as"
    by (rule_tac ccontr) (auto simp: nth_append not_less dest!: spec [of _ "i - length as"])
  ultimately show False using i n(3) by (auto simp: nth_append)
qed

lemma bits_step_append:
  assumes s: "bits_step n ns2 st st'" and b: "fs_bit st \<noteq> None" and len: "length ns = n"
    and old: "\<forall>j<n. null_bit (fs_bits st) j = (\<not> ns ! j)"
  shows "bitmap_of (fs_bits st') (ns @ ns2)"
  unfolding bitmap_of_def
proof (intro allI impI)
  fix j assume "j < 8 * length (fs_bits st')"
  then have j: "j div 8 < length (fs_bits st')" by simp
  consider "j < n" | i where "j = n + i" "i < length ns2" | "n + length ns2 \<le> j"
    by (metis add_less_cancel_left le_iff_add not_less)
  then show "null_bit (fs_bits st') j = (j < length (ns @ ns2) \<and> \<not> (ns @ ns2) ! j)"
  proof cases
    case 1
    with s old len show ?thesis by (simp add: bits_step_def nth_append)
  next
    case 2
    with s b len show ?thesis by (simp add: bits_step_def nth_append)
  next
    case 3
    with s b len j show ?thesis by (auto simp: bits_step_def bits_inv_def split: option.splits)
  qed
qed

text \<open>The bitmap with which filling in the missing values starts.\<close>

definition expand_start :: "heap_tuple \<Rightarrow> bool \<Rightarrow> bytes \<Rightarrow> (bytes \<times> int option \<times> int) res" where
  "expand_start tup hn bits0 =
     (let n = HeapTupleHeaderGetNatts (t_data tup) in
      if hn then bindE (expand_bits (t_data tup) n (if HeapTupleHasNulls tup then BITMAPLEN n else 0) bits0)
        (\<lambda>(bits, i). Inr (bits, Some i, 2 ^ nat ((int n - 1) mod 8)))
      else Inr (bits0, None, 0))"

lemma expand_start_ok:
  assumes f: "filled fl as vs ns (t_data tup)" and nlen: "length ns = length as"
    and hn: "True \<in> set ns \<Longrightarrow> hn" and b: "hn \<Longrightarrow> length as \<le> 8 * b"
  obtains bits bit bm where "expand_start tup hn (replicate b 0) = Inr (bits, bit, bm)" "length bits = b"
    "bit = None \<longleftrightarrow> \<not> hn"
    "\<And>st. fs_bits st = bits \<Longrightarrow> fs_bit st = bit \<Longrightarrow> fs_bitmask st = bm \<Longrightarrow> bits_inv (length as) st"
    "hn \<Longrightarrow> \<forall>j<length as. null_bit bits j = (\<not> ns ! j)"
proof -
  let ?n = "length as"
  from filled_source [OF f] obtain sb rest where src: "t_bits (t_data tup) = sb @ rest"
    "length sb = header_len ?n (True \<in> set ns) - SizeofHeapTupleHeader"
    "True \<in> set ns \<longrightarrow> bitmap_of sb ns" "HeapTupleHasNulls tup \<longleftrightarrow> True \<in> set ns"
    "HeapTupleHeaderGetNatts (t_data tup) = ?n" by metis
  show thesis
  proof (cases hn)
    case True
    have B: "BITMAPLEN ?n \<le> length sb" "0 < ?n" if "True \<in> set ns"
      using that nlen src(2) MAXALIGN_bounds(1) [of "SizeofHeapTupleHeader + BITMAPLEN ?n"]
      by (auto simp: header_len_def)
    from expand_bits_ok [OF nlen b [OF True], of "HeapTupleHasNulls tup" "t_data tup" sb rest] src B
    obtain bits where e: "expand_bits (t_data tup) ?n (if HeapTupleHasNulls tup then BITMAPLEN ?n else 0) (replicate b 0) =
        Inr (bits, (int ?n - 1) div 8)" "length bits = b" "\<forall>j<8 * b. null_bit bits j = (j < ?n \<and> \<not> ns ! j)"
      by blast
    have "j < 8 * b" if "j < ?n" for j using b [OF True] that by linarith
    then have n: "\<forall>j<?n. null_bit bits j = (\<not> ns ! j)" using e(3) by blast
    have inv: "bits_inv ?n st" if "fs_bits st = bits" "fs_bit st = Some ((int ?n - 1) div 8)"
      "fs_bitmask st = 2 ^ nat ((int ?n - 1) mod 8)" for st
      using that e by (auto simp: bits_inv_def div_less_iff_less_mult mult.commute)
    show thesis
      by (rule that [OF _ e(2) _ inv n]) (use True e(1) src(5) in \<open>simp_all add: expand_start_def Let_def\<close>)
  next
    case False
    show thesis
      by (rule that [of "replicate b 0" None 0]) (use False in \<open>simp_all add: expand_start_def bits_inv_def\<close>)
  qed
qed

lemma expand_fill_ok:
  assumes ok: "\<forall>a\<in>set as. att_ok a" "\<forall>a\<in>set as2. att_ok a"
    and g: "cols_given ms env as vs ns cs" and m: "list_all2 (missing_holds ms env) as2 cs2"
    and f: "filled (de_flatten env) as vs ns (t_data tup)"
    and len: "l = length (layout (de_flatten env) as vs ns 0)"
    and hn: "hn \<longleftrightarrow> True \<in> set (ns @ missing_nulls as2)"
    and b: "hn \<Longrightarrow> length (as @ as2) \<le> 8 * b"
    and k: "l + length (layout (de_flatten env) as2 (missing_values as2) (missing_nulls as2) l) \<le> k"
  shows "\<exists>im bits slack. expand_fill (de_flatten env) tup l (as @ as2) hn (replicate b 0) (replicate k 0) =
      Inr (layout (de_flatten env) (as @ as2) (vs @ missing_values as2) (ns @ missing_nulls as2) 0 @ slack, im, bits) \<and>
    length (layout (de_flatten env) (as @ as2) (vs @ missing_values as2) (ns @ missing_nulls as2) 0 @ slack) = k \<and>
    length bits = b \<and> (im AND HEAP_HASNULL \<noteq> 0 \<longleftrightarrow> hn) \<and> varwidth_marked (as @ as2) (ns @ missing_nulls as2) im \<and>
    (hn \<longrightarrow> bitmap_of bits (ns @ missing_nulls as2))"
proof -
  let ?fl = "de_flatten env" and ?n = "length as" and ?mv = "missing_values as2" and ?mn = "missing_nulls as2"
  let ?l1 = "layout ?fl as vs ns 0" and ?im = "t_infomask (t_data tup)"
  have ok1: "cols_ok ?fl as vs ns" by (rule cols_given_ok [OF g ok(1)])
  have ok2: "cols_ok ?fl as2 ?mv ?mn" by (rule cols_given_ok [OF cols_hold_given [OF missing_given [OF m]] ok(2)])
  have nlen: "length ns = ?n" using cols_ok_lengths [OF ok1] by simp
  from filled_source [OF f] obtain slack0 where src: "tuple_data tup = ?l1 @ slack0"
    "HeapTupleHasNulls tup \<longleftrightarrow> True \<in> set ns" "HeapTupleHeaderGetNatts (t_data tup) = ?n"
    "varwidth_marked as ns ?im" by metis
  have rd: "rd_range (tuple_data tup) 0 l = Inr ?l1" unfolding src(1) by (rule rd_range_prefix) (simp add: len)
  have wr: "buf_write (replicate k 0) 0 ?l1 = Inr (?l1 @ replicate (k - l) 0)"
    using k by (simp add: buf_write_def len)
  obtain bits bit bm where e: "expand_start tup hn (replicate b 0) = Inr (bits, bit, bm)" "length bits = b"
    "bit = None \<longleftrightarrow> \<not> hn"
    "\<And>st. fs_bits st = bits \<Longrightarrow> fs_bit st = bit \<Longrightarrow> fs_bitmask st = bm \<Longrightarrow> bits_inv ?n st"
    "hn \<Longrightarrow> \<forall>j<?n. null_bit bits j = (\<not> ns ! j)"
  proof (rule expand_start_ok [OF f nlen, of hn b])
    show "True \<in> set ns \<Longrightarrow> hn" "hn \<Longrightarrow> ?n \<le> 8 * b" using hn b by auto
  qed blast
  define st where "st = \<lparr>fs_bits = bits, fs_bit = bit, fs_bitmask = bm, fs_data = ?l1 @ replicate (k - l) 0,
    fs_off = l, fs_infomask = ?im\<rparr>"
  have inv: "bits_inv ?n st" by (rule e(4)) (simp_all add: st_def)
  have "\<exists>st'. fill_loop ?fl as2 ?mv ?mn st = Inr st' \<and> bits_step ?n ?mn st st' \<and>
      fs_data st' = ?l1 @ layout ?fl as2 ?mv ?mn (fs_off st) @
        replicate (k - l - length (layout ?fl as2 ?mv ?mn (fs_off st))) 0"
    by (rule fill_loop_layout [OF ok2 inv]) (use e hn b k in \<open>auto simp: st_def len\<close>)
  then obtain st' where st': "fill_loop ?fl as2 ?mv ?mn st = Inr st'" "bits_step ?n ?mn st st'"
    "fs_data st' = layout ?fl (as @ as2) (vs @ ?mv) (ns @ ?mn) 0 @
       replicate (k - l - length (layout ?fl as2 ?mv ?mn l)) 0"
    by (auto simp: layout_append [OF ok1] len st_def)
  have loop: "expand_loop ?fl as2 st = Inr st'"
    using expand_loop_fill [OF ok(2), of st ?fl] st'(1) e(3) hn by (simp add: st_def)
  have "expand_fill ?fl tup l (as @ as2) hn (replicate b 0) (replicate k 0) =
      Inr (fs_data st', fs_infomask st', fs_bits st')"
    using loop e(1) unfolding expand_fill_def expand_start_def Let_def src(3) by (simp add: rd wr st_def)
  moreover have "length (fs_data st') = k" using fill_loop_lengths [OF st'(1)] k by (simp add: st_def len)
  moreover have "length (fs_bits st') = b" using st'(2) e(2) by (simp add: bits_step_def st_def)
  moreover have "fs_infomask st' AND HEAP_HASNULL \<noteq> 0 \<longleftrightarrow> hn"
    using st'(2) src(2) hn by (auto simp: bits_step_def st_def HeapTupleHasNulls_def)
  moreover have "varwidth_marked (as @ as2) (ns @ ?mn) (fs_infomask st')"
    using varwidth_append [OF st'(1) ok(2) _ _ nlen] src(4) e(3) hn by (simp add: st_def)
  moreover have "hn \<longrightarrow> bitmap_of (fs_bits st') (ns @ ?mn)"
    using bits_step_append [OF st'(2)] e(3,5) nlen by (simp add: st_def)
  ultimately show ?thesis unfolding st'(3) by blast
qed

lemma expand_parts:
  assumes d: "desc_ok td" and n: "n < length (td_attrs td)"
    and w: "whole_tuple ms env (take n (td_attrs td)) tup cs"
    and m: "list_all2 (missing_holds ms env) (drop n (td_attrs td)) cs2" and fits: "row_fits (cs @ cs2)"
  obtains vs ns hn k where "HeapTupleHeaderGetNatts (t_data tup) = n"
    "expand_size (td_attrs td) n (HeapTupleHasNulls tup) (source_data_len tup) = Inr (hn, k)"
    "cols_given ms env (td_attrs td) vs ns (cs @ cs2)" "hn \<longleftrightarrow> True \<in> set ns"
    "int (HEAPTUPLESIZE + 256 + k) \<le> MaxAllocSize"
    "\<And>b. (hn \<Longrightarrow> length (td_attrs td) \<le> 8 * b) \<Longrightarrow>
      \<exists>im bits slack. expand_fill (de_flatten env) tup (source_data_len tup) (td_attrs td) hn (replicate b 0) (replicate k 0) =
        Inr (layout (de_flatten env) (td_attrs td) vs ns 0 @ slack, im, bits) \<and>
      length (layout (de_flatten env) (td_attrs td) vs ns 0 @ slack) = k \<and> length bits = b \<and> (im AND HEAP_HASNULL \<noteq> 0 \<longleftrightarrow> hn) \<and> varwidth_marked (td_attrs td) ns im \<and>
      (hn \<longrightarrow> bitmap_of bits ns)"
proof -
  define as as2 where as: "as = take n (td_attrs td)" "as2 = drop n (td_attrs td)"
  have td: "td_attrs td = as @ as2" by (simp add: as)
  have ok: "\<forall>a\<in>set as. att_ok a" "\<forall>a\<in>set as2. att_ok a" using d by (simp_all add: desc_ok_def td)
  have len: "length as = n" using n by (simp add: as)
  note m = m [folded as]
  from w obtain vs ns where g: "cols_given ms env as vs ns cs" and f: "filled (de_flatten env) as vs ns (t_data tup)"
    and l: "unat (t_len tup) = header_len (length as) (True \<in> set ns) + length (layout (de_flatten env) as vs ns 0)"
    unfolding whole_tuple_def as by blast
  note l = whole_source_len [OF f l]
  let ?l = "source_data_len tup" and ?mn = "missing_nulls as2" and ?mv = "missing_values as2"
  have src: "HeapTupleHasNulls tup \<longleftrightarrow> True \<in> set ns" "HeapTupleHeaderGetNatts (t_data tup) = n"
    using filled_source [OF f] len by metis+
  obtain k where k: "missing_sizes as2 (HeapTupleHasNulls tup) ?l = Inr (HeapTupleHasNulls tup \<or> True \<in> set ?mn, k)"
    "?l + length (layout (de_flatten env) as2 ?mv ?mn ?l) \<le> k" "k \<le> ?l + sum_list (map col_weight cs2)"
    using missing_sizes_layout [OF m ok(2) order_refl] by blast
  have "?l \<le> sum_list (map col_weight cs)"
    using layout_weight [OF _ g ok(1)] g l by (simp add: cols_given_def)
  with k(3) fits have small: "int (HEAPTUPLESIZE + 256 + k) \<le> MaxAllocSize" by (simp add: row_fits_def)
  have hn: "HeapTupleHasNulls tup \<or> True \<in> set ?mn \<longleftrightarrow> True \<in> set (ns @ ?mn)" using src(1) by auto
  have size: "expand_size (td_attrs td) n (HeapTupleHasNulls tup) ?l = Inr (True \<in> set (ns @ ?mn), k)"
    using k(1) expand_size_eq [OF n] unfolding hn by (simp add: as)
  have cg: "cols_given ms env (td_attrs td) (vs @ ?mv) (ns @ ?mn) (cs @ cs2)"
    unfolding td by (rule cols_given_append [OF g cols_hold_given [OF missing_given [OF m]]])
  show thesis
    by (rule that [OF src(2) size cg refl small])
      (use expand_fill_ok [OF ok g m f l refl _ k(2), folded td] in blast)
qed

lemma heap_expand_both:
  assumes d: "desc_ok td" and n: "n < length (td_attrs td)"
    and w: "whole_tuple ms env (take n (td_attrs td)) tup cs"
    and m: "list_all2 (missing_holds ms env) (drop n (td_attrs td)) cs2" and fits: "row_fits (cs @ cs2)"
  obtains h im bits tup' mtup where "heap_expand_tuple (de_flatten env) tup td = Inr tup'"
    "minimal_expand_tuple (de_flatten env) tup td = Inr mtup"
    "tuple_stores ms env (td_attrs td) (t_data tup') (cs @ cs2)"
    "heap_tuple_from_minimal_tuple mtup = Inr (tup'\<lparr>t_self := ItemPointerSetInvalid, t_tableOid := InvalidOid,
       t_data := (t_data tup')\<lparr>t_choice := replicate 12 0, t_ctid := replicate 6 0\<rparr>\<rparr>)"
proof (rule expand_parts [OF assms])
  fix vs ns hn k
  assume p: "HeapTupleHeaderGetNatts (t_data tup) = n"
    "expand_size (td_attrs td) n (HeapTupleHasNulls tup) (source_data_len tup) = Inr (hn, k)"
    "cols_given ms env (td_attrs td) vs ns (cs @ cs2)" "hn \<longleftrightarrow> True \<in> set ns"
    "int (HEAPTUPLESIZE + 256 + k) \<le> MaxAllocSize"
    "\<And>b. (hn \<Longrightarrow> length (td_attrs td) \<le> 8 * b) \<Longrightarrow>
      \<exists>im bits slack. expand_fill (de_flatten env) tup (source_data_len tup) (td_attrs td) hn (replicate b 0) (replicate k 0) =
        Inr (layout (de_flatten env) (td_attrs td) vs ns 0 @ slack, im, bits) \<and>
      length (layout (de_flatten env) (td_attrs td) vs ns 0 @ slack) = k \<and> length bits = b \<and>
      (im AND HEAP_HASNULL \<noteq> 0 \<longleftrightarrow> hn) \<and> varwidth_marked (td_attrs td) ns im \<and> (hn \<longrightarrow> bitmap_of bits ns)"
  let ?n = "length (td_attrs td)"
  let ?h = "header_len ?n hn" and ?m = "minimal_header_len ?n hn"
  have natts: "?n \<le> MaxTupleAttributeNumber" using d by (simp add: desc_ok_def)
  note hb = header_len_bounds [OF natts, of hn] and mh = minimal_header_len [of ?n hn] and mb = minimal_data_pos [OF natts, of hn]
  from p(6) [OF hb(3)] obtain im bits slack where
    e: "expand_fill (de_flatten env) tup (source_data_len tup) (td_attrs td) hn
        (replicate (?h - SizeofHeapTupleHeader) 0) (replicate k 0) =
      Inr (layout (de_flatten env) (td_attrs td) vs ns 0 @ slack, im, bits)"
    "length (layout (de_flatten env) (td_attrs td) vs ns 0 @ slack) = k"
    "length bits = ?h - SizeofHeapTupleHeader" "im AND HEAP_HASNULL \<noteq> 0 \<longleftrightarrow> hn" "varwidth_marked (td_attrs td) ns im"
    "hn \<longrightarrow> bitmap_of bits ns" by blast
  define data where "data = bits @ layout (de_flatten env) (td_attrs td) vs ns 0 @ slack"
  have small: "int (HEAPTUPLESIZE + ?h + k) \<le> MaxAllocSize" using p(5) hb(2) by linarith
  note mem = header_memory [OF natts small]
  obtain tup' where t: "heap_expand_tuple (de_flatten env) tup td = Inr tup'" "t_len tup' = word_of_nat (?h + k)"
    "t_data tup' = HeapTupleHeaderSetNatts
        \<lparr>t_choice = datum_fields (int (?h + k)) td, t_ctid = ItemPointerSetInvalid, t_infomask2 = 0, t_infomask = im,
         t_hoff = word_of_nat ?h, t_bits = data\<rparr> ?n"
    unfolding heap_expand_tuple_def Let_def p(1,2) bindE_simps prod.case mem e(1) data_def by simp
  have mt: "minimal_expand_tuple (de_flatten env) tup td = Inr
      \<lparr>mt_len = word_of_nat (?h - MINIMAL_TUPLE_OFFSET + k), mt_padding = replicate MINIMAL_TUPLE_PADDING 0,
       mt_infomask2 = (0 AND NOT HEAP_NATTS_MASK) OR word_of_nat ?n, mt_infomask = im,
       mt_hoff = word_of_nat ?h, mt_bits = data\<rparr>"
    unfolding minimal_expand_tuple_def Let_def p(1,2) bindE_simps prod.case mem mb(1) e(1) data_def mh
    by (simp add: mb(2))
  have "unat (word_of_nat ?h :: byte) = ?h" using hb(2) by (simp add: unat_of_nat)
  then have "filled (de_flatten env) (td_attrs td) vs ns (t_data tup')"
    unfolding t(3) data_def using e natts_set_get [OF natts] p(4) by (auto simp: filled_def)
  then have "tuple_stores ms env (td_attrs td) (t_data tup') (cs @ cs2)" using p(3) unfolding tuple_stores_def by blast
  moreover have "length data = ?h - SizeofHeapTupleHeader + k" using e(2,3) by (simp add: data_def)
  note from_minimal [OF hb(1) small this]
  ultimately show ?thesis
    using that [OF t(1) mt] t(2,3) by (simp add: HeapTupleHeaderSetNatts_def)
qed

section \<open>Copies and changed columns\<close>

lemma heap_copytuple_same:
  assumes "unat (t_len t) = SizeofHeapTupleHeader + length (t_bits (t_data t))"
    "int HEAPTUPLESIZE + uint (t_len t) \<le> MaxAllocSize"
  shows "heap_copytuple (Some t) = Inr (Some t)" "heap_copytuple_with_tuple (Some t) = Inr (Some t)"
proof -
  have "copy_header (t_data t) (unat (t_len t)) = Inr (t_data t)"
    using assms(1) by (simp add: copy_header_def rd_range_def)
  moreover have "palloc0 (int HEAPTUPLESIZE + uint (t_len t)) = Inr (replicate (nat (int HEAPTUPLESIZE + uint (t_len t))) 0)"
    "palloc0 (uint (t_len t)) = Inr (replicate (nat (uint (t_len t))) 0)"
    using palloc0_ok assms(2) by simp_all
  ultimately show "heap_copytuple (Some t) = Inr (Some t)" "heap_copytuple_with_tuple (Some t) = Inr (Some t)"
    by (simp_all add: heap_copytuple_def heap_copytuple_with_tuple_def)
qed

lemma heap_form_len:
  assumes "desc_ok td" "cols_given ms env (td_attrs td) vs ns cs" "row_fits cs"
    "heap_form_tuple (de_flatten env) td vs ns = Inr tup"
  shows "unat (t_len tup) = header_len (length (td_attrs td)) (True \<in> set ns) +
    length (layout (de_flatten env) (td_attrs td) vs ns 0)"
proof (rule form_both [OF assms(1-3)], goal_cases)
  case (1 im bits data)
  let ?k = "header_len (length (td_attrs td)) (True \<in> set ns) + length data"
  have l: "t_len tup = word_of_nat ?k" using 1(1) assms(4) by simp
  have "?k < 2 ^ 32" using 1(4) by (simp add: MaxAllocSize_def)
  then have "unat (word_of_nat ?k :: 32 word) = ?k" by (simp only: unat_of_nat) simp
  then show ?case unfolding l 1(5) .
qed

lemma heap_form_whole:
  assumes "desc_ok td" "cols_given ms env (td_attrs td) vs ns cs" "row_fits cs"
  shows "\<exists>tup. heap_form_tuple (de_flatten env) td vs ns = Inr tup \<and> whole_tuple ms env (td_attrs td) tup cs"
proof -
  from heap_form_stores [OF assms] obtain tup where t: "heap_form_tuple (de_flatten env) td vs ns = Inr tup"
    "filled (de_flatten env) (td_attrs td) vs ns (t_data tup)" by blast
  with heap_form_len [OF assms t(1)] assms(2) show ?thesis unfolding whole_tuple_def by blast
qed

lemma col_holds_null: "col_holds ms env a v n c \<Longrightarrow> n \<longleftrightarrow> c = ColNull"
  by (cases c) (auto simp: col_holds_def)

lemma cols_hold_nulls: "cols_hold ms env as ws ns cs \<Longrightarrow> ns = map (\<lambda>c. c = ColNull) cs"
  using col_holds_null by (intro nth_equalityI) (auto simp: cols_hold_def)

lemma stores_deform:
  assumes "desc_ok td" "tuple_stores ms env (td_attrs td) (t_data tup) cs"
  shows "\<exists>td' ws ns. heap_deform_tuple tup td = Inr (td', ws, ns) \<and> cols_hold ms env (td_attrs td) ws ns cs"
  using tuple_stores_deform [OF assms] by metis

text \<open>The row with new values in the given columns, one after the other.\<close>

fun update_row :: "colval list \<Rightarrow> int list \<Rightarrow> colval list \<Rightarrow> colval list" where
  "update_row row (k # ks) (c # cs) = update_row (row[nat (k - 1) := c]) ks cs"
| "update_row row ks cs = row"

lemma length_update_row [simp]: "length (update_row row ks cs) = length row"
  by (induction row ks cs rule: update_row.induct) simp_all

definition new_cols :: "int set \<Rightarrow> detoast_env \<Rightarrow> pg_attribute list \<Rightarrow> int list \<Rightarrow> datum list \<Rightarrow> bool list \<Rightarrow>
    colval list \<Rightarrow> bool" where
  "new_cols ms env as ks vs ns cs \<longleftrightarrow> length vs = length ks \<and> length ns = length ks \<and> length cs = length ks \<and>
     (\<forall>i<length ks. 0 < ks ! i \<and> ks ! i \<le> int (length as) \<and>
        col_given ms env (as ! nat (ks ! i - 1)) (vs ! i) (ns ! i) (cs ! i))"

lemma replace_by_cols_given:
  "new_cols ms env as ks rvs rns rcs \<Longrightarrow> cols_given ms env as vs ns row \<Longrightarrow>
     \<exists>vs' ns'. replace_by_cols (length as) ks rvs rns (vs, ns) = Inr (vs', ns') \<and>
       cols_given ms env as vs' ns' (update_row row ks rcs)"
proof (induction ks arbitrary: rvs rns rcs vs ns row)
  case (Cons k ks)
  from Cons(2) obtain v rvs' n rns' c rcs' where l: "rvs = v # rvs'" "rns = n # rns'" "rcs = c # rcs'"
    by (cases rvs; cases rns; cases rcs) (auto simp: new_cols_def)
  with Cons(2) have k: "0 < k" "k \<le> int (length as)" "col_given ms env (as ! nat (k - 1)) v n c"
    and r: "new_cols ms env as ks rvs' rns' rcs'" by (auto simp: new_cols_def All_less_Suc2)
  have "cols_given ms env as (vs[nat (k - 1) := v]) (ns[nat (k - 1) := n]) (row[nat (k - 1) := c])"
    using Cons(3) k by (auto simp: cols_given_def nth_list_update)
  from Cons(1) [OF r this] l k show ?case by simp
qed (simp add: new_cols_def)

section \<open>Properties\<close>

text \<open>What the relation cache guarantees of missing values.\<close>

definition missing_marked :: "tuple_desc \<Rightarrow> bool" where
  "missing_marked td \<longleftrightarrow> (\<forall>a\<in>set (td_attrs td). atthasmissing a \<longrightarrow> attmissing a \<noteq> None)"

text \<open>C22. Reading one attribute is the same as taking the whole tuple apart: for every attribute of the
  descriptor, also one that the tuple does not have, \<open>heap_getattr\<close> returns the value and the null flag
  that \<open>heap_deform_tuple\<close> returns for it, whichever of its paths it takes, and leaves cached offsets
  that are right for every tuple; \<open>heap_attisnull\<close> returns the null flag.\<close>

theorem heap_getattr_correct:
  assumes d: "desc_ok td" and def: "heap_deform_tuple tup td = Inr (td1, ws, ns)"
    and v: "varwidth_marked (take (HeapTupleHeaderGetNatts (t_data tup)) (td_attrs td)) ns (t_infomask (t_data tup))"
    and i: "i < length (td_attrs td)"
  shows "\<exists>td2. heap_getattr tup (int i + 1) td = Inr (td2, ws ! i, ns ! i) \<and> desc_ok td2 \<and>
    clear_cache td2 = clear_cache td \<and>
    (missing_marked td \<longrightarrow> heap_attisnull tup (int i + 1) (Some td) = Inr (ns ! i))"
proof (rule heap_deform_cols [OF def refl])
  let ?n = "min (HeapTupleHeaderGetNatts (t_data tup)) (length (td_attrs td))"
  fix as' ws1 ns1
  assume l: "deform_loop (HeapTupleHasNulls tup) (t_bits (t_data tup)) (tuple_data tup) (take ?n (td_attrs td)) 0 0 False =
      Inr (as', ws1, ns1)"
    and c: "\<And>i. i < ?n \<Longrightarrow> ws ! i = ws1 ! i \<and> ns ! i = ns1 ! i"
    and m: "\<And>i. ?n \<le> i \<Longrightarrow> i < length (td_attrs td) \<Longrightarrow> getmissingattr (td_attrs td ! i) = Inr (ws ! i, ns ! i)"
  have att: "TupleDescAttr td i = Inr (td_attrs td ! i)" using i by (simp add: TupleDescAttr_def)
  show ?thesis
  proof (cases "i < ?n")
    case True
    have t: "take ?n (td_attrs td) = take (HeapTupleHeaderGetNatts (t_data tup)) (td_attrs td)" by (simp add: min_def)
    have "varwidth_marked (take ?n (td_attrs td)) ns1 (t_infomask (t_data tup))"
      using v c unfolding t by (simp add: varwidth_marked_def min.commute)
    from fastgetattr_deform [OF d l True _ this] c [OF True] obtain td2 where
      f: "fastgetattr tup (Suc i) td = Inr (td2, ws ! i, ns ! i)" "desc_ok td2" "clear_cache td2 = clear_cache td"
      by auto
    have "(if HeapTupleHasNulls tup then att_isnull i (t_bits (t_data tup)) else Inr False) = Inr (ns ! i)"
      using deform_loop_nulls [OF l, of i] True c [OF True] unfolding add_0 by simp
    with f True show ?thesis
      by (auto simp: heap_getattr_def heap_attisnull_def nat_add_distrib split: if_splits)
  next
    case False
    then have "ns ! i \<longleftrightarrow> \<not> atthasmissing (td_attrs td ! i)" if "missing_marked td"
      using m [of i] i that
      by (auto simp: missing_marked_def getmissingattr_def bindE_eq_Inr_iff split: if_splits option.splits)
    with False m [of i] i att d show ?thesis by (auto simp: heap_getattr_def heap_attisnull_def)
  qed
qed

theorem heap_getattr_correct_witness:
  "\<exists>tup td1 td2 ws ns. heap_form_tuple (de_flatten demo_env) demo_desc demo_values [False, False, True] = Inr tup \<and>
    heap_deform_tuple tup demo_desc = Inr (td1, ws, ns) \<and> heap_getattr tup 2 demo_desc = Inr (td2, ws ! 1, ns ! 1) \<and>
    desc_ok td2"
proof -
  obtain tup where t: "heap_form_tuple (de_flatten demo_env) demo_desc demo_values [False, False, True] = Inr tup"
    "filled (de_flatten demo_env) (td_attrs demo_desc) demo_values [False, False, True] (t_data tup)"
    using heap_form_stores [OF demo_desc_ok demo_given demo_row_fits] by blast
  obtain td1 ws where f: "heap_deform_tuple tup demo_desc = Inr (td1, ws, [False, False, True])"
    by (rule filled_deform [OF demo_desc_ok demo_given t(2)])
  have v: "varwidth_marked (take (HeapTupleHeaderGetNatts (t_data tup)) (td_attrs demo_desc)) [False, False, True]
      (t_infomask (t_data tup))" using t(2) by (simp add: filled_def)
  have "1 < length (td_attrs demo_desc)" by (simp add: demo_desc_def)
  from heap_getattr_correct [OF demo_desc_ok f v this] f t(1) show ?thesis by auto
qed



text \<open>C24. Filling in missing attributes does not change what is read: a tuple stored before columns were
  added to the table reads, with the missing values of the descriptor, as the same row as the tuple that
  \<open>heap_expand_tuple\<close> makes from it, which has all columns; \<open>minimal_expand_tuple\<close> makes the minimal tuple of the
  latter.\<close>

theorem heap_expand_tuple_correct:
  assumes d: "desc_ok td" and n: "n < length (td_attrs td)"
    and w: "whole_tuple ms env (take n (td_attrs td)) tup cs"
    and m: "list_all2 (missing_holds ms env) (drop n (td_attrs td)) cs2" and fits: "row_fits (cs @ cs2)"
  shows "\<exists>tup' mtup td1 td2 ws ws' ns. heap_expand_tuple (de_flatten env) tup td = Inr tup' \<and>
    heap_deform_tuple tup td = Inr (td1, ws, ns) \<and> cols_hold ms env (td_attrs td) ws ns (cs @ cs2) \<and>
    heap_deform_tuple tup' td = Inr (td2, ws', ns) \<and> cols_hold ms env (td_attrs td) ws' ns (cs @ cs2) \<and>
    HeapTupleHeaderGetNatts (t_data tup') = length (td_attrs td) \<and>
    minimal_expand_tuple (de_flatten env) tup td = Inr mtup \<and>
    heap_tuple_from_minimal_tuple mtup = Inr (tup'\<lparr>t_self := ItemPointerSetInvalid, t_tableOid := InvalidOid,
       t_data := (t_data tup')\<lparr>t_choice := replicate 12 0, t_ctid := replicate 6 0\<rparr>\<rparr>)"
proof (rule heap_expand_both [OF assms])
  fix tup' mtup
  assume e: "heap_expand_tuple (de_flatten env) tup td = Inr tup'" "minimal_expand_tuple (de_flatten env) tup td = Inr mtup"
    "tuple_stores ms env (td_attrs td) (t_data tup') (cs @ cs2)"
    "heap_tuple_from_minimal_tuple mtup = Inr (tup'\<lparr>t_self := ItemPointerSetInvalid, t_tableOid := InvalidOid,
       t_data := (t_data tup')\<lparr>t_choice := replicate 12 0, t_ctid := replicate 6 0\<rparr>\<rparr>)"
  obtain td2 ws' ns' where r: "heap_deform_tuple tup' td = Inr (td2, ws', ns')"
    "cols_hold ms env (td_attrs td) ws' ns' (cs @ cs2)"
    using stores_deform [OF d e(3)] by blast
  have natts: "HeapTupleHeaderGetNatts (t_data tup') = length (td_attrs td)"
    using e(3) by (auto simp: tuple_stores_def filled_def)
  let ?td = "td\<lparr>td_attrs := take n (td_attrs td)\<rparr>"
  from w have s: "tuple_stores ms env (td_attrs ?td) (t_data tup) cs" by (auto simp: whole_tuple_def tuple_stores_def)
  then have sn: "HeapTupleHeaderGetNatts (t_data tup) = n" using n by (auto simp: tuple_stores_def filled_def)
  obtain td1 ws ns where p: "heap_deform_tuple tup ?td = Inr (td1, ws, ns)" "cols_hold ms env (take n (td_attrs td)) ws ns cs"
    using stores_deform [OF desc_ok_take [OF d] s] by auto
  obtain vs where v: "missing_loop (drop n (td_attrs td)) = Inr (vs, missing_nulls (drop n (td_attrs td)))"
    "cols_hold ms env (drop n (td_attrs td)) vs (missing_nulls (drop n (td_attrs td))) cs2"
    using missing_loop_holds [OF m] by blast
  obtain td3 where q: "heap_deform_tuple tup td = Inr (td3, ws @ vs, ns @ missing_nulls (drop n (td_attrs td)))"
    using heap_deform_prefix [OF sn _ p(1) v(1)] n by auto
  have h: "cols_hold ms env (td_attrs td) (ws @ vs) (ns @ missing_nulls (drop n (td_attrs td))) (cs @ cs2)"
    using cols_hold_append [OF p(2) v(2)] by simp
  have "ns @ missing_nulls (drop n (td_attrs td)) = ns'"
    using cols_hold_nulls [OF h] cols_hold_nulls [OF r(2)] by simp
  with e r q h natts show ?thesis by blast
qed

text \<open>A table to which two columns were added.\<close>

definition grown_desc :: tuple_desc where
  "grown_desc = demo_desc\<lparr>td_attrs := td_attrs demo_desc @
     [(demo_att 4 True TYPALIGN_INT TYPSTORAGE_PLAIN)\<lparr>atthasmissing := True, attmissing := Some (ByVal 5)\<rparr>,
      demo_att (-1) False TYPALIGN_INT TYPSTORAGE_EXTENDED]\<rparr>"

theorem heap_expand_tuple_correct_witness:
  "\<exists>tup tup' td1 td2 ws ws' ns. heap_form_tuple (de_flatten demo_env) demo_desc demo_values [False, False, True] = Inr tup \<and>
    heap_expand_tuple (de_flatten demo_env) tup grown_desc = Inr tup' \<and>
    heap_deform_tuple tup grown_desc = Inr (td1, ws, ns) \<and> heap_deform_tuple tup' grown_desc = Inr (td2, ws', ns) \<and>
    cols_hold UNIV demo_env (td_attrs grown_desc) ws' ns (demo_row @ [ColWord 5, ColNull])"
proof -
  obtain tup where t: "heap_form_tuple (de_flatten demo_env) demo_desc demo_values [False, False, True] = Inr tup"
    "whole_tuple UNIV demo_env (td_attrs demo_desc) tup demo_row"
    using heap_form_whole [OF demo_desc_ok demo_given demo_row_fits] by blast
  have d: "desc_ok grown_desc"
    by (simp add: desc_ok_def grown_desc_def demo_desc_def demo_att_def att_ok_def MaxTupleAttributeNumber_def
        TYPALIGN_INT_def TYPALIGN_CHAR_def)
  have n: "3 < length (td_attrs grown_desc)" by (simp add: grown_desc_def demo_desc_def)
  have w: "whole_tuple UNIV demo_env (take 3 (td_attrs grown_desc)) tup demo_row"
    using t(2) by (simp add: grown_desc_def demo_desc_def)
  have m: "list_all2 (missing_holds UNIV demo_env) (drop 3 (td_attrs grown_desc)) [ColWord 5, ColNull]"
    by (simp add: grown_desc_def demo_desc_def demo_att_def missing_holds_def col_holds_def byval_norm_def)
  have f: "row_fits (demo_row @ [ColWord 5, ColNull])"
    by (simp add: row_fits_def demo_row_def col_weight_def demo_text_def HEAPTUPLESIZE_def MaxAllocSize_def)
  from heap_expand_tuple_correct [OF d n w m f] t(1) show ?thesis by blast
qed

text \<open>Replacing columns by number: \<open>heap_modify_tuple_by_cols\<close> makes a tuple that stores the old row with
  the new values in the given columns, and keeps the identity of the old tuple.\<close>

lemma heap_modify_tuple_by_cols_correct:
  assumes d: "desc_ok td" and t: "tuple_stores ms env (td_attrs td) (t_data tup) cs"
    and new: "new_cols ms env (td_attrs td) ks rvs rns rcs" and fits: "row_fits (update_row cs ks rcs)"
  shows "\<exists>td' tup'. heap_modify_tuple_by_cols (de_flatten env) tup td ks rvs rns = Inr (td', tup') \<and>
    tuple_stores ms env (td_attrs td) (t_data tup') (update_row cs ks rcs) \<and> desc_ok td' \<and>
    t_self tup' = t_self tup \<and> t_tableOid tup' = t_tableOid tup \<and> t_ctid (t_data tup') = t_ctid (t_data tup)"
proof -
  obtain as' ws ns where r: "heap_deform_tuple tup td = Inr (td\<lparr>td_attrs := as'\<rparr>, ws, ns)"
    "desc_ok (td\<lparr>td_attrs := as'\<rparr>)" "same_atts (td_attrs td) as'" "cols_hold ms env (td_attrs td) ws ns cs"
    using tuple_stores_deform [OF d t] by metis
  let ?td = "td\<lparr>td_attrs := as'\<rparr>"
  have len: "length as' = length (td_attrs td)" using list_all2_lengthD [OF r(3)] by simp
  from replace_by_cols_given [OF new cols_hold_given [OF r(4)]] obtain vs' ns' where
    c: "replace_by_cols (length (td_attrs td)) ks rvs rns (ws, ns) = Inr (vs', ns')"
    "cols_given ms env (td_attrs td) vs' ns' (update_row cs ks rcs)" by blast
  have c': "cols_given ms env (td_attrs ?td) vs' ns' (update_row cs ks rcs)"
    using c(2) by (simp add: same_atts_cols [OF r(3)])
  obtain new where f: "heap_form_tuple (de_flatten env) ?td vs' ns' = Inr new"
    "filled (de_flatten env) (td_attrs ?td) vs' ns' (t_data new)"
    using heap_form_stores [OF r(2) c' fits] by blast
  then have "filled (de_flatten env) (td_attrs td) vs' ns' (t_data new)" using same_atts_filled [OF r(3)] by simp
  then have "filled (de_flatten env) (td_attrs td) vs' ns' ((t_data new)\<lparr>t_ctid := t_ctid (t_data tup)\<rparr>)"
    by (simp add: filled_def)
  then have "tuple_stores ms env (td_attrs td) ((t_data new)\<lparr>t_ctid := t_ctid (t_data tup)\<rparr>) (update_row cs ks rcs)"
    using c(2) tuple_stores_def by blast
  with r(1,2) c(1) f(1) len show ?thesis by (simp add: heap_modify_tuple_by_cols_def)
qed

end
