(* ===== verification/Compression_Spec.thy ===== *)
theory Compression_Spec
  imports Prelude
begin

text \<open>
  Compression algorithms named by users of backups and dumps: \<^verbatim>\<open>src/common/compression.c\<close>, the
  parser of \<open>ALGORITHM:DETAIL\<close> strings, and the code of its callers that acts on the result
  (\<^verbatim>\<open>basebackup.c\<close>, \<^verbatim>\<open>pg_basebackup.c\<close>, \<^verbatim>\<open>pg_receivewal.c\<close>, \<^verbatim>\<open>pg_dump.c\<close>,
  \<^verbatim>\<open>compress_io.c\<close>).

  A C string is the list of its characters without the terminating NUL; a pointer into it is the
  rest of the list. The libraries the server was configured with, with the level bounds and
  defaults their headers define, are the record \<open>build\<close>. The locale's \<open>tolower\<close> on characters
  outside ASCII is a parameter. \<open>pg_fatal\<close> and \<open>ereport(ERROR)\<close> do not return and are \<open>Inl\<close>.
\<close>

section \<open>strtol and pg\_strcasecmp\<close>

definition isspace :: "char \<Rightarrow> bool" where
  "isspace c \<longleftrightarrow> c = CHR '' '' \<or> (of_char c :: nat) \<in> {9..13}"

definition isdigit :: "char \<Rightarrow> bool" where
  "isdigit c \<longleftrightarrow> (of_char c :: nat) \<in> {48..57}"

fun digits_value :: "string \<Rightarrow> nat \<Rightarrow> nat \<times> string" where
  "digits_value [] n = (n, [])"
| "digits_value (c # cs) n =
     (if isdigit c then digits_value cs (10 * n + (of_char c - 48)) else (n, c # cs))"

definition LONG_MAX :: int where "LONG_MAX = 2 ^ 63 - 1"
definition LONG_MIN :: int where "LONG_MIN = - (2 ^ 63)"

text \<open>The value and the end pointer, which is the start of the string if there are no digits.\<close>

definition strtol_sign :: "string \<Rightarrow> int \<times> string" where
  "strtol_sign s = (case s of
       [] \<Rightarrow> (1, s)
     | c # cs \<Rightarrow> if c = CHR ''-'' then (-1, cs) else if c = CHR ''+'' then (1, cs) else (1, s))"

definition strtol :: "string \<Rightarrow> int \<times> string" where
  "strtol s =
     (let (sign, t) = strtol_sign (dropWhile isspace s) in
      if t = [] \<or> \<not> isdigit (hd t) then (0, s)
      else let (n, endp) = digits_value t 0 in (max LONG_MIN (min LONG_MAX (sign * int n)), endp))"

text \<open>Equality under \<open>pg_strcasecmp\<close>: characters are folded where they differ. A string that ends
  first differs at its NUL.\<close>

definition fold_char :: "(char \<Rightarrow> char) \<Rightarrow> char \<Rightarrow> char" where
  "fold_char lower c =
     (let n = of_char c :: nat in
      if 65 \<le> n \<and> n \<le> 90 then char_of (n + 32) else if n \<ge> 128 then lower c else c)"

fun pg_strcaseeq :: "(char \<Rightarrow> char) \<Rightarrow> string \<Rightarrow> string \<Rightarrow> bool" where
  "pg_strcaseeq lower [] [] = True"
| "pg_strcaseeq lower (c # cs) (d # ds) =
     ((c = d \<or> fold_char lower c = fold_char lower d) \<and> pg_strcaseeq lower cs ds)"
| "pg_strcaseeq lower [] (d # ds) = False"
| "pg_strcaseeq lower (c # cs) [] = False"

section \<open>Algorithms and specifications\<close>

datatype pg_compress_algorithm =
    PG_COMPRESSION_NONE
  | PG_COMPRESSION_GZIP
  | PG_COMPRESSION_LZ4
  | PG_COMPRESSION_ZSTD
  | PG_COMPRESSION_RLE

definition PG_COMPRESSION_OPTION_WORKERS :: "32 word" where "PG_COMPRESSION_OPTION_WORKERS = 1"
definition PG_COMPRESSION_OPTION_LONG_DISTANCE :: "32 word" where "PG_COMPRESSION_OPTION_LONG_DISTANCE = 2"

text \<open>The messages, with what is formatted into them.\<close>

datatype compress_error =
    UnsupportedBuild string
  | EmptyOption
  | UnrecognizedOption string
  | RequiresValue string
  | MustBeInteger string
  | MustBeBoolean string
  | NoLevelAccepted string
  | LevelOutOfRange string int int int
  | NoWorkersAccepted string
  | NoLongDistance string
  | UnrecognizedAlgorithm string
  | NotYetSupported string
  | DetailWithoutCompression

record pg_compress_specification =
  algorithm :: pg_compress_algorithm
  options :: "32 word"
  level :: int
  workers :: int
  long_distance :: bool
  parse_error :: "compress_error option"

text \<open>\<open>USE_ZSTD\<close> with \<open>ZSTD_minCLevel()\<close>, \<open>ZSTD_maxCLevel()\<close> and \<open>ZSTD_CLEVEL_DEFAULT\<close>; \<open>HAVE_LIBZ\<close>
  with \<open>Z_DEFAULT_COMPRESSION\<close>.\<close>

record build =
  USE_LZ4 :: bool
  USE_ZSTD :: "(int \<times> int \<times> int) option"
  HAVE_LIBZ :: "int option"
  tolower_high :: "char \<Rightarrow> char"

definition parse_compress_algorithm :: "string \<Rightarrow> pg_compress_algorithm option" where
  "parse_compress_algorithm name =
     (if name = ''none'' then Some PG_COMPRESSION_NONE
      else if name = ''gzip'' then Some PG_COMPRESSION_GZIP
      else if name = ''lz4'' then Some PG_COMPRESSION_LZ4
      else if name = ''zstd'' then Some PG_COMPRESSION_ZSTD
      else if name = ''rle'' then Some PG_COMPRESSION_RLE
      else None)"

fun get_compress_algorithm_name :: "pg_compress_algorithm \<Rightarrow> string" where
  "get_compress_algorithm_name PG_COMPRESSION_NONE = ''none''"
| "get_compress_algorithm_name PG_COMPRESSION_GZIP = ''gzip''"
| "get_compress_algorithm_name PG_COMPRESSION_LZ4 = ''lz4''"
| "get_compress_algorithm_name PG_COMPRESSION_ZSTD = ''zstd''"
| "get_compress_algorithm_name PG_COMPRESSION_RLE = ''rle''"

section \<open>parse\_compress\_specification\<close>

text \<open>The initial setup: the fields set, the others as they were.\<close>

definition default_specification ::
  "build \<Rightarrow> pg_compress_algorithm \<Rightarrow> pg_compress_specification \<Rightarrow> pg_compress_specification" where
  "default_specification b alg result =
     (let result = result\<lparr>algorithm := alg, options := 0, parse_error := None\<rparr> in
      case alg of
        PG_COMPRESSION_NONE \<Rightarrow> result\<lparr>level := 0\<rparr>
      | PG_COMPRESSION_LZ4 \<Rightarrow>
          if USE_LZ4 b then result\<lparr>level := 0\<rparr> else result\<lparr>parse_error := Some (UnsupportedBuild ''LZ4'')\<rparr>
      | PG_COMPRESSION_ZSTD \<Rightarrow>
          (case USE_ZSTD b of
             Some (mn, mx, dflt) \<Rightarrow> result\<lparr>level := dflt\<rparr>
           | None \<Rightarrow> result\<lparr>parse_error := Some (UnsupportedBuild ''ZSTD'')\<rparr>)
      | PG_COMPRESSION_GZIP \<Rightarrow>
          (case HAVE_LIBZ b of
             Some dflt \<Rightarrow> result\<lparr>level := dflt\<rparr>
           | None \<Rightarrow> result\<lparr>parse_error := Some (UnsupportedBuild ''gzip'')\<rparr>)
      | PG_COMPRESSION_RLE \<Rightarrow> result\<lparr>level := 0\<rparr>)"

text \<open>Both return the value with the result object, whose \<open>parse_error\<close> they may set. The \<open>long\<close> of
  \<open>strtol\<close> is assigned to an \<open>int\<close>.\<close>

definition expect_integer_value ::
  "string \<Rightarrow> string option \<Rightarrow> pg_compress_specification \<Rightarrow> int \<times> pg_compress_specification" where
  "expect_integer_value keyword val result =
     (case val of
        None \<Rightarrow> (-1, result\<lparr>parse_error := Some (RequiresValue keyword)\<rparr>)
      | Some v \<Rightarrow>
          let (ivalue, ivalue_endp) = strtol v in
          if length ivalue_endp = length v \<or> ivalue_endp \<noteq> [] then
            (-1, result\<lparr>parse_error := Some (MustBeInteger keyword)\<rparr>)
          else (to_int32 ivalue, result))"

definition expect_boolean_value :: "(char \<Rightarrow> char) \<Rightarrow>
    string \<Rightarrow> string option \<Rightarrow> pg_compress_specification \<Rightarrow> bool \<times> pg_compress_specification" where
  "expect_boolean_value lower keyword val result =
     (case val of
        None \<Rightarrow> (True, result)
      | Some v \<Rightarrow>
          if pg_strcaseeq lower v ''yes'' then (True, result)
          else if pg_strcaseeq lower v ''on'' then (True, result)
          else if pg_strcaseeq lower v ''1'' then (True, result)
          else if pg_strcaseeq lower v ''no'' then (False, result)
          else if pg_strcaseeq lower v ''off'' then (False, result)
          else if pg_strcaseeq lower v ''0'' then (False, result)
          else (False, result\<lparr>parse_error := Some (MustBeBoolean keyword)\<rparr>))"

text \<open>The start of the loop: keyword, value if there is one, and the rest of the string from the end
  of the entry.\<close>

definition next_entry :: "string \<Rightarrow> string \<times> string option \<times> string" where
  "next_entry specification =
     (let key = (\<lambda>c. c \<noteq> CHR '','' \<and> c \<noteq> CHR ''='');
          keyword = takeWhile key specification; kwend = dropWhile key specification
      in case kwend of
           [] \<Rightarrow> (keyword, None, kwend)
         | c # vstart \<Rightarrow>
             if c \<noteq> CHR ''='' then (keyword, None, kwend)
             else (keyword, Some (takeWhile (\<lambda>c. c \<noteq> CHR '','') vstart),
                   dropWhile (\<lambda>c. c \<noteq> CHR '','') vstart))"

definition handle_option :: "(char \<Rightarrow> char) \<Rightarrow> string \<Rightarrow> string option \<Rightarrow>
    pg_compress_specification \<Rightarrow> pg_compress_specification" where
  "handle_option lower keyword val result =
     (if keyword = ''level'' then
        let (n, result) = expect_integer_value keyword val result in result\<lparr>level := n\<rparr>
      else if keyword = ''workers'' then
        let (n, result) = expect_integer_value keyword val result
        in result\<lparr>workers := n, options := options result OR PG_COMPRESSION_OPTION_WORKERS\<rparr>
      else if keyword = ''long'' then
        let (b, result) = expect_boolean_value lower keyword val result
        in result\<lparr>long_distance := b, options := options result OR PG_COMPRESSION_OPTION_LONG_DISTANCE\<rparr>
      else result\<lparr>parse_error := Some (UnrecognizedOption keyword)\<rparr>)"

lemma next_entry_rest: "next_entry s = (kw, v, c # rest) \<Longrightarrow> length rest < length s"
proof -
  let ?key = "\<lambda>c. c \<noteq> CHR '','' \<and> c \<noteq> CHR ''=''" and ?val = "\<lambda>c. c \<noteq> CHR '',''"
  assume e: "next_entry s = (kw, v, c # rest)"
  have d: "length (dropWhile ?key s) \<le> length s" by (rule length_dropWhile_le)
  show "length rest < length s"
  proof (cases "dropWhile ?key s")
    case Nil
    with e show ?thesis by (simp add: next_entry_def Let_def)
  next
    case (Cons a cs)
    have "length (dropWhile ?val cs) \<le> length cs" by (rule length_dropWhile_le)
    with e Cons d show ?thesis by (auto simp: next_entry_def Let_def split: if_splits)
  qed
qed

function parse_entries :: "(char \<Rightarrow> char) \<Rightarrow> string \<Rightarrow>
    pg_compress_specification \<Rightarrow> pg_compress_specification" where
  "parse_entries lower specification result =
     (case next_entry specification of
        (keyword, val, endp) \<Rightarrow>
          if keyword = [] then result\<lparr>parse_error := Some EmptyOption\<rparr>
          else
            let result = handle_option lower keyword val result in
            case endp of
              [] \<Rightarrow> result
            | c # next \<Rightarrow> if parse_error result \<noteq> None then result else parse_entries lower next result)"
  by pat_completeness auto
termination
  by (relation "measure (\<lambda>(lower, s, r). length s)") (auto dest: next_entry_rest [OF sym])

declare parse_entries.simps [simp del]

definition parse_compress_specification :: "build \<Rightarrow> pg_compress_algorithm \<Rightarrow> string option \<Rightarrow>
    pg_compress_specification \<Rightarrow> pg_compress_specification" where
  "parse_compress_specification b alg specification result =
     (let result = default_specification b alg result in
      case specification of
        None \<Rightarrow> result
      | Some s \<Rightarrow>
          let (bare_level, bare_level_endp) = strtol s in
          if length bare_level_endp \<noteq> length s \<and> bare_level_endp = [] then
            result\<lparr>level := to_int32 bare_level\<rparr>
          else parse_entries (tolower_high b) s result)"

section \<open>validate\_compress\_specification and parse\_compress\_options\<close>

text \<open>\<open>min_level\<close>, \<open>max_level\<close>, \<open>default_level\<close>.\<close>

definition level_bounds :: "build \<Rightarrow> pg_compress_algorithm \<Rightarrow> int \<times> int \<times> int" where
  "level_bounds b alg =
     (case alg of
        PG_COMPRESSION_GZIP \<Rightarrow> (1, 9, case HAVE_LIBZ b of Some dflt \<Rightarrow> dflt | None \<Rightarrow> 0)
      | PG_COMPRESSION_LZ4 \<Rightarrow> (1, 12, 0)
      | PG_COMPRESSION_ZSTD \<Rightarrow> (case USE_ZSTD b of Some (mn, mx, dflt) \<Rightarrow> (mn, mx, dflt) | None \<Rightarrow> (1, 1, 0))
      | PG_COMPRESSION_NONE \<Rightarrow> (1, 1, 0)
      | PG_COMPRESSION_RLE \<Rightarrow> (1, 12, 0))"

definition validate_compress_specification :: "build \<Rightarrow> pg_compress_specification \<Rightarrow> compress_error option" where
  "validate_compress_specification b spec =
     (if parse_error spec \<noteq> None then parse_error spec
      else
        let name = get_compress_algorithm_name (algorithm spec);
            (min_level, max_level, default_level) = level_bounds b (algorithm spec)
        in if algorithm spec = PG_COMPRESSION_NONE \<and> level spec \<noteq> 0 then Some (NoLevelAccepted name)
        else if (level spec < min_level \<or> level spec > max_level) \<and> level spec \<noteq> default_level then
          Some (LevelOutOfRange name min_level max_level default_level)
        else if options spec AND PG_COMPRESSION_OPTION_WORKERS \<noteq> 0 \<and> algorithm spec \<noteq> PG_COMPRESSION_ZSTD then
          Some (NoWorkersAccepted name)
        else if options spec AND PG_COMPRESSION_OPTION_LONG_DISTANCE \<noteq> 0 \<and> algorithm spec \<noteq> PG_COMPRESSION_ZSTD then
          Some (NoLongDistance name)
        else None)"

text \<open>The algorithm and the detail of a command-line option.\<close>

definition parse_compress_options :: "string \<Rightarrow> string \<times> string option" where
  "parse_compress_options option =
     (let (result, endp) = strtol option in
      if endp = [] then (if result = 0 then (''none'', None) else (''gzip'', Some option))
      else case dropWhile (\<lambda>c. c \<noteq> CHR '':'') option of
             [] \<Rightarrow> (option, None)
           | sep # detail \<Rightarrow> (takeWhile (\<lambda>c. c \<noteq> CHR '':'') option, Some detail))"

section \<open>The callers\<close>

text \<open>The common start: name, specification, validation.\<close>

definition checked_specification :: "build \<Rightarrow> string \<Rightarrow> string option \<Rightarrow> pg_compress_specification \<Rightarrow>
    compress_error + pg_compress_specification" where
  "checked_specification b name detail spec =
     (case parse_compress_algorithm name of
        None \<Rightarrow> Inl (UnrecognizedAlgorithm name)
      | Some alg \<Rightarrow>
          let spec = parse_compress_specification b alg detail spec in
          case validate_compress_specification b spec of Some e \<Rightarrow> Inl e | None \<Rightarrow> Inr spec)"

text \<open>The \<open>COMPRESSION\<close> and \<open>COMPRESSION_DETAIL\<close> options of \<open>BASE_BACKUP\<close> (each given at most once), and
  the sink that compresses the backup on the server. The name is looked up when the options are
  read, before the check that a detail comes with an algorithm.\<close>

definition parse_basebackup_compression :: "build \<Rightarrow> string option \<Rightarrow> string option \<Rightarrow>
    pg_compress_specification \<Rightarrow> compress_error + (pg_compress_algorithm \<times> pg_compress_specification)" where
  "parse_basebackup_compression b compression detail spec =
     (case compression of
        None \<Rightarrow>
          if detail \<noteq> None then Inl DetailWithoutCompression
          else Inr (PG_COMPRESSION_NONE, spec\<lparr>algorithm := PG_COMPRESSION_NONE\<rparr>)
      | Some name \<Rightarrow>
          bindE (checked_specification b name detail (spec\<lparr>algorithm := PG_COMPRESSION_NONE\<rparr>)) (\<lambda>spec.
            Inr (algorithm spec, spec)))"

datatype bbsink = PlainSink | GzipSink int | Lz4Sink int | ZstdSink int

definition basebackup_sink :: "pg_compress_algorithm \<Rightarrow> pg_compress_specification \<Rightarrow> bbsink" where
  "basebackup_sink compression spec =
     (if compression = PG_COMPRESSION_GZIP then GzipSink (level spec)
      else if compression = PG_COMPRESSION_LZ4 then Lz4Sink (level spec)
      else if compression = PG_COMPRESSION_ZSTD then ZstdSink (level spec)
      else PlainSink)"

text \<open>\<open>pg_basebackup\<close>: where to compress, and the writer of an archive with its file name; \<open>None\<close> is
  the branch marked as not reachable.\<close>

datatype compression_location =
    COMPRESS_LOCATION_UNSPECIFIED | COMPRESS_LOCATION_CLIENT | COMPRESS_LOCATION_SERVER

definition backup_parse_compress_options :: "string \<Rightarrow> string \<times> string option \<times> compression_location" where
  "backup_parse_compress_options option =
     (let (option, location) =
            (if take 7 option = ''server-'' then (drop 7 option, COMPRESS_LOCATION_SERVER)
             else if take 7 option = ''client-'' then (drop 7 option, COMPRESS_LOCATION_CLIENT)
             else (option, COMPRESS_LOCATION_UNSPECIFIED));
          (alg, detail) = parse_compress_options option
      in (alg, detail, location))"

definition client_compression :: "build \<Rightarrow> string \<Rightarrow> bool \<Rightarrow> pg_compress_specification \<Rightarrow>
    compress_error + pg_compress_specification" where
  "client_compression b option has_target spec =
     (let (alg, detail, location) = backup_parse_compress_options option;
          location = (if location = COMPRESS_LOCATION_UNSPECIFIED
                      then if has_target then COMPRESS_LOCATION_SERVER else COMPRESS_LOCATION_CLIENT
                      else location)
      in if location = COMPRESS_LOCATION_CLIENT then checked_specification b alg detail spec
         else Inr (spec\<lparr>algorithm := PG_COMPRESSION_NONE, options := 0\<rparr>))"

datatype bbstreamer = PlainWriter string | GzipWriter string int | Lz4Compressor bbstreamer int
  | ZstdCompressor bbstreamer int

definition archive_streamer :: "pg_compress_specification \<Rightarrow> string \<Rightarrow> bbstreamer option" where
  "archive_streamer spec archive_filename =
     (if algorithm spec = PG_COMPRESSION_NONE then Some (PlainWriter archive_filename)
      else if algorithm spec = PG_COMPRESSION_GZIP then Some (GzipWriter (archive_filename @ ''.gz'') (level spec))
      else if algorithm spec = PG_COMPRESSION_LZ4 then
        Some (Lz4Compressor (PlainWriter (archive_filename @ ''.lz4'')) (level spec))
      else if algorithm spec = PG_COMPRESSION_ZSTD then
        Some (ZstdCompressor (PlainWriter (archive_filename @ ''.zst'')) (level spec))
      else None)"

text \<open>\<open>pg_receivewal\<close> and the suffix its files get.\<close>

definition pg_receivewal_compression :: "build \<Rightarrow> string \<Rightarrow> pg_compress_specification \<Rightarrow>
    compress_error + pg_compress_specification" where
  "pg_receivewal_compression b option spec =
     (let (alg, detail) = parse_compress_options option in
      bindE (checked_specification b alg detail spec) (\<lambda>spec.
        if algorithm spec = PG_COMPRESSION_ZSTD then Inl (NotYetSupported ''ZSTD'') else Inr spec))"

definition wal_file_suffix :: "pg_compress_algorithm \<Rightarrow> string" where
  "wal_file_suffix alg =
     (if alg = PG_COMPRESSION_GZIP then ''.gz'' else if alg = PG_COMPRESSION_LZ4 then ''.lz4'' else [])"

text \<open>\<open>pg_dump\<close>: without an option, \<open>gzip\<close> for the custom and directory formats if it is available.\<close>

definition supports_compression :: "build \<Rightarrow> pg_compress_specification \<Rightarrow> compress_error option" where
  "supports_compression b spec =
     (let alg = algorithm spec;
          supported = (alg = PG_COMPRESSION_NONE
            \<or> HAVE_LIBZ b \<noteq> None \<and> alg = PG_COMPRESSION_GZIP
            \<or> USE_LZ4 b \<and> alg = PG_COMPRESSION_LZ4
            \<or> USE_ZSTD b \<noteq> None \<and> alg = PG_COMPRESSION_ZSTD)
      in if \<not> supported then Some (UnsupportedBuild (get_compress_algorithm_name alg)) else None)"

definition pg_dump_compression :: "build \<Rightarrow> string option \<Rightarrow> bool \<Rightarrow> pg_compress_specification \<Rightarrow>
    compress_error + pg_compress_specification" where
  "pg_dump_compression b option custom_or_directory spec =
     (let (alg, detail) = (case option of
            Some opt \<Rightarrow> parse_compress_options opt
          | None \<Rightarrow> (if custom_or_directory \<and> HAVE_LIBZ b \<noteq> None then ''gzip'' else ''none'', None)) in
      bindE (checked_specification b alg detail spec) (\<lambda>spec.
        case supports_compression b spec of Some e \<Rightarrow> Inl e | None \<Rightarrow> Inr spec))"

end
