(* ===== verification/Compression_Spec_Correct.thy ===== *)
theory Compression_Spec_Correct
  imports Compression_Spec
begin

text \<open>
  Correctness of the parser of compression specifications: it accepts the comma-separated lists of
  \<open>keyword\<close> and \<open>keyword=value\<close> fields that have a meaning and sets the fields to that meaning, and it
  reads back every option written by the printer defined here. Then what the backup tools do with
  the algorithm \<open>rle\<close>.
\<close>

section \<open>Decimal numbers\<close>

fun print_nat :: "nat \<Rightarrow> string" where
  "print_nat n = (if n < 10 then [char_of (48 + n)] else print_nat (n div 10) @ [char_of (48 + n mod 10)])"

declare print_nat.simps [simp del]

definition print_int :: "int \<Rightarrow> string" where
  "print_int i = (if i < 0 then CHR ''-'' # print_nat (nat (- i)) else print_nat (nat i))"

lemma of_char_digit [simp]: "d < 10 \<Longrightarrow> (of_char (char_of (48 + d) :: char) :: nat) = 48 + d"
  by (subst of_char_of) simp

lemma isdigit_digit [simp]: "d < 10 \<Longrightarrow> isdigit (char_of (48 + d :: nat))"
  by (simp add: isdigit_def)

lemma print_nat_digits: "c \<in> set (print_nat n) \<Longrightarrow> isdigit c"
proof (induction n rule: print_nat.induct)
  case (1 n)
  then show ?case by (cases "n < 10") (auto simp: print_nat.simps [of n])
qed

lemma print_nat_nonempty [simp]: "print_nat n \<noteq> []"
  by (simp add: print_nat.simps [of n])

lemma digits_value_append:
  "digits_value (print_nat n @ rest) m = digits_value rest (10 ^ length (print_nat n) * m + n)"
proof (induction n arbitrary: rest rule: print_nat.induct)
  case (1 n)
  show ?case
  proof (cases "n < 10")
    case True
    then show ?thesis by (simp add: print_nat.simps [of n])
  next
    case False
    have n: "10 * (n div 10) + n mod 10 = n" by simp
    have "digits_value (print_nat n @ rest) m =
      digits_value (char_of (48 + n mod 10) # rest) (10 ^ length (print_nat (n div 10)) * m + n div 10)"
      using 1 [OF False, of "char_of (48 + n mod 10) # rest"] False by (simp add: print_nat.simps [of n])
    also have "\<dots> = digits_value rest (10 ^ length (print_nat n) * m + n)"
      using False n by (simp add: print_nat.simps [of n] algebra_simps)
    finally show ?thesis .
  qed
qed

lemma digits_value_print_nat: "digits_value (print_nat n) 0 = (n, [])"
  using digits_value_append [of n "[]" 0] by simp

lemma isdigit_start: "isdigit c \<Longrightarrow> \<not> isspace c \<and> c \<noteq> CHR ''-'' \<and> c \<noteq> CHR ''+''"
  by (auto simp: isdigit_def isspace_def)

lemma print_nat_start: "\<exists>c cs. print_nat n = c # cs \<and> isdigit c"
  using print_nat_digits [of _ n] print_nat_nonempty [of n] by (cases "print_nat n") auto

lemma strtol_print_int:
  assumes "\<bar>i\<bar> < 2 ^ 63"
  shows "strtol (print_int i) = (i, [])"
proof (cases "i < 0")
  case True
  obtain c cs where c: "print_nat (nat (- i)) = c # cs" "isdigit c"
    using print_nat_start [of "nat (- i)"] by blast
  have "strtol_sign (dropWhile isspace (print_int i)) = (-1, c # cs)"
    using True c by (simp add: print_int_def strtol_sign_def isspace_def)
  moreover have "digits_value (c # cs) 0 = (nat (- i), [])"
    using digits_value_print_nat [of "nat (- i)"] c by simp
  ultimately show ?thesis
    using True c assms by (simp add: strtol_def LONG_MAX_def LONG_MIN_def)
next
  case False
  obtain c cs where c: "print_nat (nat i) = c # cs" "isdigit c"
    using print_nat_start [of "nat i"] by blast
  have "strtol_sign (dropWhile isspace (print_int i)) = (1, c # cs)"
    using False c isdigit_start [OF c(2)] by (simp add: print_int_def strtol_sign_def)
  moreover have "digits_value (c # cs) 0 = (nat i, [])"
    using digits_value_print_nat [of "nat i"] c by simp
  ultimately show ?thesis
    using False c assms by (simp add: strtol_def LONG_MAX_def LONG_MIN_def)
qed

lemma print_int_nonempty [simp]: "print_int i \<noteq> []"
  by (simp add: print_int_def)

lemma print_int_chars: "c \<in> set (print_int i) \<Longrightarrow> isdigit c \<or> c = CHR ''-''"
  by (auto simp: print_int_def dest: print_nat_digits split: if_splits)

text \<open>An \<open>int\<close>.\<close>

definition is_int :: "int \<Rightarrow> bool" where "is_int i \<longleftrightarrow> - (2 ^ 31) \<le> i \<and> i < 2 ^ 31"

lemma to_int32_int: "is_int i \<Longrightarrow> to_int32 i = i"
  unfolding to_int32_def is_int_def
  by (simp add: sint_sbintrunc' signed_take_bit_int_eq_self)

section \<open>The fields of a specification\<close>

fun split_on :: "char \<Rightarrow> string \<Rightarrow> string list" where
  "split_on c [] = [[]]"
| "split_on c (x # xs) =
     (if x = c then [] # split_on c xs
      else case split_on c xs of [] \<Rightarrow> [[x]] | f # fs \<Rightarrow> (x # f) # fs)"

lemma split_on_nonempty [simp]: "split_on c s \<noteq> []"
  by (induction s) (auto split: list.split)

lemma split_on_unfold:
  "split_on c s = takeWhile (\<lambda>x. x \<noteq> c) s #
     (case dropWhile (\<lambda>x. x \<noteq> c) s of [] \<Rightarrow> [] | x # t \<Rightarrow> split_on c t)"
  by (induction s) (auto split: list.split)

text \<open>A field is a keyword, up to the first \<open>=\<close>, and a value.\<close>

definition field :: "string \<Rightarrow> string \<times> string option" where
  "field f = (takeWhile (\<lambda>c. c \<noteq> CHR ''='') f,
     case dropWhile (\<lambda>c. c \<noteq> CHR ''='') f of [] \<Rightarrow> None | x # v \<Rightarrow> Some v)"

definition spec_fields :: "string \<Rightarrow> (string \<times> string option) list" where
  "spec_fields s = map field (split_on CHR '','' s)"

lemma next_entry_field:
  "next_entry s = (fst (field (takeWhile (\<lambda>c. c \<noteq> CHR '','') s)), snd (field (takeWhile (\<lambda>c. c \<noteq> CHR '','') s)),
     dropWhile (\<lambda>c. c \<noteq> CHR '','') s)"
proof (induction s)
  case Nil
  show ?case by (simp add: next_entry_def field_def)
next
  case (Cons x s)
  show ?case
  proof (cases "x = CHR '','' \<or> x = CHR ''=''")
    case True
    then show ?thesis by (auto simp: next_entry_def field_def)
  next
    case False
    then have "next_entry (x # s) = (case next_entry s of (k, v, r) \<Rightarrow> (x # k, v, r))"
      by (simp add: next_entry_def Let_def del: dropWhile_eq_Nil_conv split: list.split)
    moreover have "field (x # t) = (x # fst (field t), snd (field t))" for t
      using False by (simp add: field_def)
    ultimately show ?thesis using Cons False by simp
  qed
qed

text \<open>What a field means.\<close>

datatype compress_option = OptLevel int | OptWorkers int | OptLong bool

definition int_literal :: "string \<Rightarrow> int option" where
  "int_literal v = (case strtol v of (n, endp) \<Rightarrow>
     if v \<noteq> [] \<and> endp = [] then Some (to_int32 n) else None)"

definition bool_literal :: "(char \<Rightarrow> char) \<Rightarrow> string \<Rightarrow> bool option" where
  "bool_literal lower v =
     (if \<exists>t\<in>{''yes'', ''on'', ''1''}. pg_strcaseeq lower v t then Some True
      else if \<exists>t\<in>{''no'', ''off'', ''0''}. pg_strcaseeq lower v t then Some False
      else None)"

definition field_meaning :: "(char \<Rightarrow> char) \<Rightarrow> string \<times> string option \<Rightarrow> compress_option option" where
  "field_meaning lower f = (case f of (kw, val) \<Rightarrow>
     if kw = ''level'' then map_option OptLevel (Option.bind val int_literal)
     else if kw = ''workers'' then map_option OptWorkers (Option.bind val int_literal)
     else if kw = ''long'' then
       map_option OptLong (case val of None \<Rightarrow> Some True | Some v \<Rightarrow> bool_literal lower v)
     else None)"

fun apply_option :: "pg_compress_specification \<Rightarrow> compress_option \<Rightarrow> pg_compress_specification" where
  "apply_option r (OptLevel n) = r\<lparr>level := n\<rparr>"
| "apply_option r (OptWorkers n) =
     r\<lparr>workers := n, options := options r OR PG_COMPRESSION_OPTION_WORKERS\<rparr>"
| "apply_option r (OptLong b) =
     r\<lparr>long_distance := b, options := options r OR PG_COMPRESSION_OPTION_LONG_DISTANCE\<rparr>"

lemma apply_option_no_error [simp]: "parse_error (apply_option r x) = parse_error r"
  by (cases x) simp_all

lemma strtol_Nil [simp]: "strtol [] = (0, [])"
  by (simp add: strtol_def strtol_sign_def)

lemma expect_integer_value_literal:
  "expect_integer_value kw val r =
     (case Option.bind val int_literal of
        Some n \<Rightarrow> (n, r)
      | None \<Rightarrow> (-1, r\<lparr>parse_error := Some (if val = None then RequiresValue kw else MustBeInteger kw)\<rparr>))"
  by (auto simp: expect_integer_value_def int_literal_def split: option.split prod.split)

lemma expect_boolean_value_literal:
  "expect_boolean_value lower kw val r =
     (case (case val of None \<Rightarrow> Some True | Some v \<Rightarrow> bool_literal lower v) of
        Some b \<Rightarrow> (b, r)
      | None \<Rightarrow> (False, r\<lparr>parse_error := Some (MustBeBoolean kw)\<rparr>))"
  by (auto simp: expect_boolean_value_def bool_literal_def split: option.split)

lemma handle_option_meaning:
  assumes "parse_error r = None"
  shows "case field_meaning lower (kw, val) of
      Some x \<Rightarrow> handle_option lower kw val r = apply_option r x
    | None \<Rightarrow> parse_error (handle_option lower kw val r) \<noteq> None"
  by (auto simp: handle_option_def field_meaning_def expect_integer_value_literal
      expect_boolean_value_literal split: option.split)

lemma field_meaning_empty [simp]: "field_meaning lower ([], val) = None"
  by (simp add: field_meaning_def)

text \<open>The loop, on the fields.\<close>

lemma parse_entries_fields:
  assumes "parse_error r = None"
  shows "(parse_error (parse_entries lower s r) = None \<longleftrightarrow> None \<notin> field_meaning lower ` set (spec_fields s)) \<and>
    (None \<notin> field_meaning lower ` set (spec_fields s) \<longrightarrow>
      parse_entries lower s r = foldl apply_option r (map (\<lambda>f. the (field_meaning lower f)) (spec_fields s)))"
  using assms
proof (induction lower s r rule: parse_entries.induct)
  case (1 lower s r)
  define d where "d = dropWhile (\<lambda>c. c \<noteq> CHR '','') s"
  obtain kw val where f: "field (takeWhile (\<lambda>c. c \<noteq> CHR '','') s) = (kw, val)" by fastforce
  have e: "next_entry s = (kw, val, d)" using next_entry_field [of s] f by (simp add: d_def)
  have fields: "spec_fields s = (kw, val) # (case d of [] \<Rightarrow> [] | x # t \<Rightarrow> spec_fields t)"
    unfolding spec_fields_def d_def by (subst split_on_unfold) (simp add: f del: dropWhile_eq_Nil_conv split: list.split)
  have m: "case field_meaning lower (kw, val) of
      Some x \<Rightarrow> handle_option lower kw val r = apply_option r x
    | None \<Rightarrow> parse_error (handle_option lower kw val r) \<noteq> None"
    by (rule handle_option_meaning [OF "1.prems"])
  show ?case
  proof (cases "kw = []")
    case True
    then show ?thesis by (subst (1 2) parse_entries.simps) (simp add: e fields)
  next
    case kw: False
    show ?thesis
    proof (cases d)
      case Nil
      with kw m "1.prems" show ?thesis
        by (subst (1 2) parse_entries.simps) (simp add: e fields Let_def split: option.splits)
    next
      case (Cons x t)
      have u: "parse_entries lower s r =
        (let r = handle_option lower kw val r in if parse_error r \<noteq> None then r else parse_entries lower t r)"
        by (subst parse_entries.simps) (simp add: e Cons kw Let_def)
      show ?thesis
      proof (cases "field_meaning lower (kw, val)")
        case None
        with m show ?thesis by (auto simp: u fields Let_def)
      next
        case (Some y)
        with m "1.prems" have h: "handle_option lower kw val r = apply_option r y"
          "parse_error (handle_option lower kw val r) = None" by simp_all
        have "(parse_error (parse_entries lower t (apply_option r y)) = None \<longleftrightarrow>
              None \<notin> field_meaning lower ` set (spec_fields t)) \<and>
            (None \<notin> field_meaning lower ` set (spec_fields t) \<longrightarrow> parse_entries lower t (apply_option r y) =
              foldl apply_option (apply_option r y) (map (\<lambda>f. the (field_meaning lower f)) (spec_fields t)))"
          using "1.IH" [OF e [symmetric] refl kw refl Cons] h by simp
        moreover have "spec_fields s = (kw, val) # spec_fields t" by (simp add: fields Cons)
        ultimately show ?thesis using h Some by (simp add: u)
      qed
    qed
  qed
qed


section \<open>Parsing\<close>

lemma parse_specification_cases:
  "parse_compress_specification b alg (Some s) r =
     (case int_literal s of
        Some n \<Rightarrow> (default_specification b alg r)\<lparr>level := n\<rparr>
      | None \<Rightarrow> parse_entries (tolower_high b) s (default_specification b alg r))"
  by (auto simp: parse_compress_specification_def int_literal_def Let_def split: prod.split)

text \<open>The algorithm is part of the build.\<close>

fun supported :: "build \<Rightarrow> pg_compress_algorithm \<Rightarrow> bool" where
  "supported b PG_COMPRESSION_LZ4 = USE_LZ4 b"
| "supported b PG_COMPRESSION_ZSTD = (USE_ZSTD b \<noteq> None)"
| "supported b PG_COMPRESSION_GZIP = (HAVE_LIBZ b \<noteq> None)"
| "supported b _ = True"

lemma default_supported:
  "parse_error (default_specification b alg r) = None \<longleftrightarrow> supported b alg"
  by (cases alg) (auto simp: default_specification_def Let_def split: option.split)


definition demo_build :: build where
  "demo_build = \<lparr>USE_LZ4 = False, USE_ZSTD = Some (-131072, 22, 3), HAVE_LIBZ = Some (-1), tolower_high = id\<rparr>"

definition demo_spec :: pg_compress_specification where
  "demo_spec = \<lparr>algorithm = PG_COMPRESSION_NONE, options = 0, level = 7, workers = 0, long_distance = False,
     parse_error = None\<rparr>"


section \<open>Printing and parsing\<close>

fun print_option :: "compress_option \<Rightarrow> string" where
  "print_option (OptLevel n) = ''level='' @ print_int n"
| "print_option (OptWorkers n) = ''workers='' @ print_int n"
| "print_option (OptLong b) = ''long='' @ (if b then ''on'' else ''off'')"

fun print_spec :: "compress_option list \<Rightarrow> string" where
  "print_spec [] = []"
| "print_spec [x] = print_option x"
| "print_spec (x # xs) = print_option x @ CHR '','' # print_spec xs"

fun option_range :: "compress_option \<Rightarrow> bool" where
  "option_range (OptLevel n) = is_int n"
| "option_range (OptWorkers n) = is_int n"
| "option_range (OptLong b) = True"

lemma print_int_no_sep [simp]: "CHR '','' \<notin> set (print_int i)" "CHR ''='' \<notin> set (print_int i)"
  "CHR '':'' \<notin> set (print_int i)"
  by (auto dest!: print_int_chars simp: isdigit_def)

lemma print_option_no_comma: "CHR '','' \<notin> set (print_option x)"
  by (cases x) auto

lemma split_on_append:
  "c \<notin> set f \<Longrightarrow> split_on c (f @ c # s) = f # split_on c s" "c \<notin> set f \<Longrightarrow> split_on c f = [f]"
  by (induction f) auto

lemma spec_fields_print: "xs \<noteq> [] \<Longrightarrow> spec_fields (print_spec xs) = map (field \<circ> print_option) xs"
  unfolding spec_fields_def
proof (induction xs rule: print_spec.induct)
  case (3 x y zs)
  then show ?case
    by (simp add: split_on_append [OF print_option_no_comma] del: print_option.simps)
qed (simp_all add: split_on_append [OF print_option_no_comma] del: print_option.simps)

lemma int_literal_print: "is_int i \<Longrightarrow> int_literal (print_int i) = Some i"
  by (subst int_literal_def, subst strtol_print_int) (auto simp: to_int32_int is_int_def)

lemma field_append: "CHR ''='' \<notin> set kw \<Longrightarrow> field (kw @ CHR ''='' # v) = (kw, Some v)"
  by (induction kw) (auto simp: field_def)

lemma field_meaning_print: "option_range x \<Longrightarrow> field_meaning lower (field (print_option x)) = Some x"
  using field_append [of "''level''"] field_append [of "''workers''"] field_append [of "''long''"]
  by (cases x) (simp_all add: field_meaning_def int_literal_print bool_literal_def fold_char_def)

text \<open>Neither names nor keywords start like a number.\<close>

lemma strtol_letter: "\<not> isspace c \<Longrightarrow> \<not> isdigit c \<Longrightarrow> c \<noteq> CHR ''-'' \<Longrightarrow> c \<noteq> CHR ''+'' \<Longrightarrow> strtol (c # s) = (0, c # s)"
  by (simp add: strtol_def strtol_sign_def)

lemma strtol_print_spec: "xs \<noteq> [] \<Longrightarrow> strtol (print_spec xs @ t) = (0, print_spec xs @ t)"
proof (induction xs rule: print_spec.induct)
  case (2 x)
  then show ?case by (cases x) (simp_all add: strtol_letter isspace_def isdigit_def)
next
  case (3 x y zs)
  then show ?case by (cases x) (simp_all add: strtol_letter isspace_def isdigit_def)
qed simp

lemma strtol_name: "strtol (get_compress_algorithm_name alg @ t) = (0, get_compress_algorithm_name alg @ t)"
  by (cases alg) (simp_all add: strtol_letter isspace_def isdigit_def)

lemma parse_algorithm_name [simp]:
  "parse_compress_algorithm (get_compress_algorithm_name alg) = Some alg"
  by (cases alg) (simp_all add: parse_compress_algorithm_def)

lemma parse_compress_options_name:
  "parse_compress_options (get_compress_algorithm_name alg @ CHR '':'' # detail) =
     (get_compress_algorithm_name alg, Some detail)"
  "parse_compress_options (get_compress_algorithm_name alg) = (get_compress_algorithm_name alg, None)"
  using strtol_name [of alg "CHR '':'' # detail"] strtol_name [of alg "[]"]
  by (cases alg; simp add: parse_compress_options_def)+

text \<open>C28. Round trip of the option of the command-line tools: \<open>NAME:DETAIL\<close>, written from an algorithm
  of the build and a list of options with values in the range of \<open>int\<close>, is taken apart into the name
  and the detail, the name gives back the algorithm and the detail sets exactly those options.\<close>

theorem compress_option_roundtrip:
  assumes "supported b alg" "xs \<noteq> []" "\<forall>x\<in>set xs. option_range x"
  shows "parse_compress_options (get_compress_algorithm_name alg @ '':'' @ print_spec xs) =
      (get_compress_algorithm_name alg, Some (print_spec xs)) \<and>
    parse_compress_algorithm (get_compress_algorithm_name alg) = Some alg \<and>
    parse_compress_specification b alg (Some (print_spec xs)) r =
      foldl apply_option (default_specification b alg r) xs"
proof -
  have i: "int_literal (print_spec xs) = None"
    using strtol_print_spec [OF assms(2), of "[]"] by (auto simp: int_literal_def)
  have m: "map (field_meaning (tolower_high b)) (spec_fields (print_spec xs)) = map Some xs"
    using assms(3) by (simp add: spec_fields_print [OF assms(2)] field_meaning_print)
  have m': "map (\<lambda>f. the (field_meaning (tolower_high b) f)) (spec_fields (print_spec xs)) = xs"
    using assms(3) by (simp add: spec_fields_print [OF assms(2)] field_meaning_print map_idI)
  have "None \<notin> field_meaning (tolower_high b) ` set (spec_fields (print_spec xs))"
    using arg_cong [OF m, of set] by auto
  then have "parse_compress_specification b alg (Some (print_spec xs)) r =
      foldl apply_option (default_specification b alg r) xs"
    using parse_entries_fields [of "default_specification b alg r" "tolower_high b" "print_spec xs"] assms(1) i m'
    by (simp add: parse_specification_cases default_supported)
  then show ?thesis by (simp add: parse_compress_options_name)
qed

theorem compress_option_roundtrip_witness:
  "parse_compress_options ''rle:level=12,long=off'' = (''rle'', Some ''level=12,long=off'') \<and>
   level (parse_compress_specification demo_build PG_COMPRESSION_RLE (Some ''level=12,long=off'') demo_spec) = 12"
proof -
  let ?xs = "[OptLevel 12, OptLong False]"
  have p: "print_spec ?xs = ''level=12,long=off''" by code_simp
  have "\<forall>x\<in>set ?xs. option_range x" by (simp add: is_int_def)
  from compress_option_roundtrip [OF _ _ this, of demo_build PG_COMPRESSION_RLE demo_spec, unfolded p]
  show ?thesis by simp
qed

section \<open>The algorithm rle\<close>

text \<open>The level a checked \<open>rle\<close> specification may have.\<close>

lemma validate_rle:
  "algorithm spec = PG_COMPRESSION_RLE \<Longrightarrow> parse_error spec = None \<Longrightarrow> options spec = 0 \<Longrightarrow>
    validate_compress_specification b spec = None \<longleftrightarrow> 0 \<le> level spec \<and> level spec \<le> 12"
  by (auto simp: validate_compress_specification_def level_bounds_def Let_def split: if_splits)

lemma rle_level:
  assumes "is_int n"
  shows "checked_specification b ''rle'' (Some (print_int n)) spec =
    (if 0 \<le> n \<and> n \<le> 12 then Inr (spec\<lparr>algorithm := PG_COMPRESSION_RLE, options := 0, level := n, parse_error := None\<rparr>)
     else Inl (LevelOutOfRange ''rle'' 1 12 0))"
  using assms by (auto simp: checked_specification_def parse_compress_algorithm_def parse_specification_cases
      int_literal_print default_specification_def validate_compress_specification_def level_bounds_def Let_def)

text \<open>C36. The backup tools and the algorithm \<open>rle\<close>. An option \<open>rle:N\<close> is accepted for the levels 0 to 12
  and rejected for all other integers; but then the server sends the base backup uncompressed,
  \<open>pg_receivewal\<close> writes files without suffix, \<open>pg_basebackup\<close> runs into the branch marked as not
  reachable, and \<open>pg_dump\<close> reports that its build does not support the algorithm.\<close>

theorem rle_backup_compression:
  assumes "is_int n"
  shows "let option = ''rle:'' @ print_int n;
      spec' = spec\<lparr>algorithm := PG_COMPRESSION_RLE, options := 0, level := n, parse_error := None\<rparr>
    in if 0 \<le> n \<and> n \<le> 12 then
      parse_basebackup_compression b (Some ''rle'') (Some (print_int n)) spec = Inr (PG_COMPRESSION_RLE, spec') \<and>
      basebackup_sink PG_COMPRESSION_RLE spec' = PlainSink \<and>
      pg_receivewal_compression b option spec = Inr spec' \<and> wal_file_suffix (algorithm spec') = [] \<and>
      client_compression b option False spec = Inr spec' \<and> archive_streamer spec' file = None \<and>
      pg_dump_compression b (Some option) c spec = Inl (UnsupportedBuild ''rle'')
    else
      parse_basebackup_compression b (Some ''rle'') (Some (print_int n)) spec = Inl (LevelOutOfRange ''rle'' 1 12 0) \<and>
      pg_receivewal_compression b option spec = Inl (LevelOutOfRange ''rle'' 1 12 0) \<and>
      client_compression b option False spec = Inl (LevelOutOfRange ''rle'' 1 12 0) \<and>
      pg_dump_compression b (Some option) c spec = Inl (LevelOutOfRange ''rle'' 1 12 0)"
proof -
  define option where "option = ''rle:'' @ print_int n"
  have o: "parse_compress_options option = (''rle'', Some (print_int n))"
    using parse_compress_options_name(1) [of PG_COMPRESSION_RLE "print_int n"] by (simp add: option_def)
  then have l: "backup_parse_compress_options option = (''rle'', Some (print_int n), COMPRESS_LOCATION_UNSPECIFIED)"
    by (simp add: backup_parse_compress_options_def option_def)
  show ?thesis unfolding Let_def option_def [symmetric]
    by (simp add: o l rle_level [OF assms] parse_basebackup_compression_def basebackup_sink_def
        pg_receivewal_compression_def wal_file_suffix_def client_compression_def archive_streamer_def
        pg_dump_compression_def supports_compression_def)
qed

theorem rle_backup_compression_witness:
  "pg_receivewal_compression demo_build ''rle:5'' demo_spec =
     Inr (demo_spec\<lparr>algorithm := PG_COMPRESSION_RLE, options := 0, level := 5, parse_error := None\<rparr>)"
proof -
  have "''rle:'' @ print_int 5 = ''rle:5''" by code_simp
  then show ?thesis using rle_backup_compression [where n = 5 and b = demo_build and spec = demo_spec] by (simp add: is_int_def Let_def)
qed

end
