(* ===== verification/Verify_Xid.thy ===== *)
theory Verify_Xid
  imports Heaptuple_Access
begin

text \<open>
  The basis of \<^verbatim>\<open>contrib/amcheck/verify_heapam.c\<close>: transaction ids and their order (\<^verbatim>\<open>transam.h\<close>,
  \<^verbatim>\<open>transam.c\<close>, \<^verbatim>\<open>multixact.c\<close>), the transaction fields of a tuple header (\<^verbatim>\<open>htup_details.h\<close>), the
  context of a check, its reports, and the check of a transaction id against the valid range.

  The state of the transaction manager that the check reads from shared memory is the record
  \<open>shmem\<close>: the next and the oldest ids, the members of multixacts and the status of transactions. It
  is the same throughout a check; advances by concurrent transactions are not modelled.
  Offset and block numbers are \<open>nat\<close>.
\<close>

section \<open>Transaction ids\<close>

type_synonym xid = "32 word"
type_synonym full_xid = "64 word"

definition InvalidTransactionId :: xid where "InvalidTransactionId = 0"
definition BootstrapTransactionId :: xid where "BootstrapTransactionId = 1"
definition FrozenTransactionId :: xid where "FrozenTransactionId = 2"
definition FirstNormalTransactionId :: xid where "FirstNormalTransactionId = 3"

lemmas special_xids = InvalidTransactionId_def BootstrapTransactionId_def FrozenTransactionId_def
  FirstNormalTransactionId_def

definition TransactionIdIsValid :: "xid \<Rightarrow> bool" where
  "TransactionIdIsValid xid \<longleftrightarrow> xid \<noteq> InvalidTransactionId"
definition TransactionIdIsNormal :: "xid \<Rightarrow> bool" where
  "TransactionIdIsNormal xid \<longleftrightarrow> xid \<ge> FirstNormalTransactionId"

definition FullTransactionIdFromEpochAndXid :: "32 word \<Rightarrow> xid \<Rightarrow> full_xid" where
  "FullTransactionIdFromEpochAndXid epoch xid = push_bit 32 (ucast epoch) OR ucast xid"
definition XidFromFullTransactionId :: "full_xid \<Rightarrow> xid" where
  "XidFromFullTransactionId x = ucast x"

definition TransactionIdPrecedes :: "xid \<Rightarrow> xid \<Rightarrow> bool" where
  "TransactionIdPrecedes id1 id2 \<longleftrightarrow>
     (if \<not> TransactionIdIsNormal id1 \<or> \<not> TransactionIdIsNormal id2 then id1 < id2
      else sint (id1 - id2) < 0)"

definition MultiXactIdPrecedes :: "xid \<Rightarrow> xid \<Rightarrow> bool" where
  "MultiXactIdPrecedes multi1 multi2 \<longleftrightarrow> sint (multi1 - multi2) < 0"
definition MultiXactIdPrecedesOrEquals :: "xid \<Rightarrow> xid \<Rightarrow> bool" where
  "MultiXactIdPrecedesOrEquals multi1 multi2 \<longleftrightarrow> sint (multi1 - multi2) \<le> 0"

text \<open>Members of a multixact: the transaction and whether it is an updater.\<close>

record shmem =
  sh_nextXid :: full_xid
  sh_oldestXid :: xid
  sh_oldestClogXid :: xid
  sh_oldestMultiXactId :: xid
  sh_nextMXact :: xid
  TransactionIdIsCurrentTransactionId :: "xid \<Rightarrow> bool"
  TransactionIdIsInProgress :: "xid \<Rightarrow> bool"
  TransactionIdDidCommit :: "xid \<Rightarrow> bool"
  GetMultiXactIdMembers :: "xid \<Rightarrow> (xid \<times> bool) list"

section \<open>The transaction fields of a tuple header\<close>

definition HEAP_XMAX_KEYSHR_LOCK :: "16 word" where "HEAP_XMAX_KEYSHR_LOCK = 0x0010"
definition HEAP_XMAX_EXCL_LOCK :: "16 word" where "HEAP_XMAX_EXCL_LOCK = 0x0040"
definition HEAP_XMAX_LOCK_ONLY :: "16 word" where "HEAP_XMAX_LOCK_ONLY = 0x0080"
definition HEAP_LOCK_MASK :: "16 word" where "HEAP_LOCK_MASK = HEAP_XMAX_EXCL_LOCK OR HEAP_XMAX_KEYSHR_LOCK"
definition HEAP_XMIN_COMMITTED :: "16 word" where "HEAP_XMIN_COMMITTED = 0x0100"
definition HEAP_XMIN_INVALID :: "16 word" where "HEAP_XMIN_INVALID = 0x0200"
definition HEAP_XMIN_FROZEN :: "16 word" where "HEAP_XMIN_FROZEN = HEAP_XMIN_COMMITTED OR HEAP_XMIN_INVALID"
definition HEAP_XMAX_COMMITTED :: "16 word" where "HEAP_XMAX_COMMITTED = 0x0400"
definition HEAP_XMAX_INVALID :: "16 word" where "HEAP_XMAX_INVALID = 0x0800"
definition HEAP_XMAX_IS_MULTI :: "16 word" where "HEAP_XMAX_IS_MULTI = 0x1000"
definition HEAP_UPDATED :: "16 word" where "HEAP_UPDATED = 0x2000"
definition HEAP_MOVED_OFF :: "16 word" where "HEAP_MOVED_OFF = 0x4000"
definition HEAP_MOVED_IN :: "16 word" where "HEAP_MOVED_IN = 0x8000"
definition HEAP_MOVED :: "16 word" where "HEAP_MOVED = HEAP_MOVED_OFF OR HEAP_MOVED_IN"
definition HEAP_HOT_UPDATED :: "16 word" where "HEAP_HOT_UPDATED = 0x4000"
definition HEAP_ONLY_TUPLE :: "16 word" where "HEAP_ONLY_TUPLE = 0x8000"

lemmas xact_bits = HEAP_XMAX_KEYSHR_LOCK_def HEAP_XMAX_EXCL_LOCK_def HEAP_XMAX_LOCK_ONLY_def HEAP_LOCK_MASK_def
  HEAP_XMIN_COMMITTED_def HEAP_XMIN_INVALID_def HEAP_XMIN_FROZEN_def HEAP_XMAX_COMMITTED_def
  HEAP_XMAX_INVALID_def HEAP_XMAX_IS_MULTI_def HEAP_UPDATED_def HEAP_MOVED_OFF_def HEAP_MOVED_IN_def
  HEAP_MOVED_def HEAP_HOT_UPDATED_def HEAP_ONLY_TUPLE_def

text \<open>Is a bit of \<open>t_infomask\<close> set?\<close>

definition infomask_has :: "heap_tuple_header \<Rightarrow> 16 word \<Rightarrow> bool" where
  "infomask_has tup m \<longleftrightarrow> t_infomask tup AND m \<noteq> 0"

definition HEAP_XMAX_IS_LOCKED_ONLY :: "16 word \<Rightarrow> bool" where
  "HEAP_XMAX_IS_LOCKED_ONLY infomask \<longleftrightarrow> infomask AND HEAP_XMAX_LOCK_ONLY \<noteq> 0 \<or>
     infomask AND (HEAP_XMAX_IS_MULTI OR HEAP_LOCK_MASK) = HEAP_XMAX_EXCL_LOCK"

text \<open>The fields of \<open>t_choice.t_heap\<close>.\<close>

definition HeapTupleHeaderGetRawXmin :: "heap_tuple_header \<Rightarrow> xid" where
  "HeapTupleHeaderGetRawXmin tup = le_word (take 4 (t_choice tup))"
definition HeapTupleHeaderGetRawXmax :: "heap_tuple_header \<Rightarrow> xid" where
  "HeapTupleHeaderGetRawXmax tup = le_word (take 4 (drop 4 (t_choice tup)))"

definition HeapTupleHeaderXminCommitted :: "heap_tuple_header \<Rightarrow> bool" where
  "HeapTupleHeaderXminCommitted tup \<longleftrightarrow> infomask_has tup HEAP_XMIN_COMMITTED"
definition HeapTupleHeaderXminInvalid :: "heap_tuple_header \<Rightarrow> bool" where
  "HeapTupleHeaderXminInvalid tup \<longleftrightarrow>
     t_infomask tup AND (HEAP_XMIN_COMMITTED OR HEAP_XMIN_INVALID) = HEAP_XMIN_INVALID"
definition HeapTupleHeaderXminFrozen :: "heap_tuple_header \<Rightarrow> bool" where
  "HeapTupleHeaderXminFrozen tup \<longleftrightarrow> t_infomask tup AND HEAP_XMIN_FROZEN = HEAP_XMIN_FROZEN"

definition HeapTupleHeaderGetXmin :: "heap_tuple_header \<Rightarrow> xid" where
  "HeapTupleHeaderGetXmin tup =
     (if HeapTupleHeaderXminFrozen tup then FrozenTransactionId else HeapTupleHeaderGetRawXmin tup)"
definition HeapTupleHeaderGetXvac :: "heap_tuple_header \<Rightarrow> xid" where
  "HeapTupleHeaderGetXvac tup =
     (if infomask_has tup HEAP_MOVED then le_word (take 4 (drop 8 (t_choice tup))) else InvalidTransactionId)"

fun update_member :: "(xid \<times> bool) list \<Rightarrow> xid" where
  "update_member [] = InvalidTransactionId"
| "update_member ((xid, isupdate) # members) = (if \<not> isupdate then update_member members else xid)"

definition HeapTupleGetUpdateXid :: "shmem \<Rightarrow> heap_tuple_header \<Rightarrow> xid" where
  "HeapTupleGetUpdateXid sh tup = update_member (GetMultiXactIdMembers sh (HeapTupleHeaderGetRawXmax tup))"

definition HeapTupleHeaderGetUpdateXid :: "shmem \<Rightarrow> heap_tuple_header \<Rightarrow> xid" where
  "HeapTupleHeaderGetUpdateXid sh tup =
     (if \<not> infomask_has tup HEAP_XMAX_INVALID \<and> infomask_has tup HEAP_XMAX_IS_MULTI \<and>
         \<not> infomask_has tup HEAP_XMAX_LOCK_ONLY
      then HeapTupleGetUpdateXid sh tup else HeapTupleHeaderGetRawXmax tup)"

definition HeapTupleHeaderIsHotUpdated :: "heap_tuple_header \<Rightarrow> bool" where
  "HeapTupleHeaderIsHotUpdated tup \<longleftrightarrow> t_infomask2 tup AND HEAP_HOT_UPDATED \<noteq> 0 \<and>
     \<not> infomask_has tup HEAP_XMAX_INVALID \<and> \<not> HeapTupleHeaderXminInvalid tup"
definition HeapTupleHeaderIsHeapOnly :: "heap_tuple_header \<Rightarrow> bool" where
  "HeapTupleHeaderIsHeapOnly tup \<longleftrightarrow> t_infomask2 tup AND HEAP_ONLY_TUPLE \<noteq> 0"

section \<open>The context of a check\<close>

datatype xid_bounds_violation =
    XID_INVALID | XID_IN_FUTURE | XID_PRECEDES_CLUSTERMIN | XID_PRECEDES_RELMIN | XID_BOUNDS_OK

datatype xid_commit_status = XID_COMMITTED | XID_IS_CURRENT_XID | XID_IN_PROGRESS | XID_ABORTED

datatype skip_pages = SKIP_PAGES_ALL_FROZEN | SKIP_PAGES_ALL_VISIBLE | SKIP_PAGES_NONE

text \<open>Which transaction id of a tuple a message is about.\<close>

datatype xid_role = Xmin | XvacMovedOff | XvacMovedIn | Xmax | UpdateXid

text \<open>The messages, with the numbers formatted into them.\<close>

datatype corruption =
    RedirectBeforeFirst nat | RedirectBeyondMax nat nat | RedirectToUnused nat | RedirectToDead nat
  | RedirectToRedirect nat | LinePointerMisaligned nat | LinePointerTooShort nat | LinePointerBeyondPage nat nat
  | RedirectToNonHeapOnly nat | RedirectIntersects nat nat | ChainsIntersect nat nat
  | NonHotUpdateToHeapOnly nat | HotUpdateToNonHeapOnly nat
  | InProgressUpdatedToCommitted xid nat xid | AbortedUpdatedToInProgress xid nat xid
  | AbortedUpdatedToCommitted xid nat xid | ChainRootHeapOnly
  | DataBeginsBeyond nat nat | MultixactMarkedCommitted | HotUpdatedWithoutXmax | HeapOnlyNotUpdated
  | WrongHoff nat nat nat bool
  | BadXid xid_role xid_bounds_violation xid full_xid | BadXvacStatus xid_role xid_commit_status xid
  | BadMultiXact xid_bounds_violation xid xid
  | TooManyAttributes nat nat | AttributeStartsBeyond int nat nat | AttributeEndsBeyond int nat nat
  | UnexpectedToastTag byte | RawsizeExceedsLimit oid int | InvalidCompressionId oid int
  | ExternalNotFlagged oid | ExternalWithoutToastRelation oid
  | ChunkNullSequence oid | ChunkUnexpected oid int int | ChunkNullData oid int
  | ChunkInvalidHeader oid int "32 word" | ChunkFollowsLast oid int int | ChunkWrongSize oid int int int
  | ToastValueNotFound oid | ToastValueIncomplete oid int int

text \<open>A row of the result: block, offset, attribute number unless it is null, message.\<close>

record report =
  rp_blkno :: nat
  rp_offnum :: nat
  rp_attnum :: "int option"
  rp_msg :: corruption

record toasted_attribute =
  ta_toast_pointer :: varatt_external
  ta_blkno :: nat
  ta_offnum :: nat
  ta_attnum :: int

text \<open>\<open>hc_desc\<close> and \<open>hc_reltoastrelid\<close> are what the check uses of \<open>ctx->rel\<close>; \<open>hc_toast_rel\<close> is \<open>None\<close>
  if it is not to be checked.\<close>

record heap_check_context =
  hc_next_fxid :: full_xid
  hc_next_xid :: xid
  hc_oldest_xid :: xid
  hc_oldest_fxid :: full_xid
  hc_safe_xmin :: xid
  hc_next_mxact :: xid
  hc_oldest_mxact :: xid
  hc_cached_xid :: xid
  hc_cached_status :: xid_commit_status
  hc_desc :: tuple_desc
  hc_reltoastrelid :: oid
  hc_relfrozenxid :: xid
  hc_relfrozenfxid :: full_xid
  hc_relminmxid :: xid
  hc_toast_rel :: "toast_rel option"
  hc_blkno :: nat
  hc_offnum :: nat
  hc_lp_len :: nat
  hc_lp_off :: nat
  hc_tuphdr :: heap_tuple_header
  hc_natts :: nat
  hc_offset :: nat
  hc_attnum :: int
  hc_tuple_could_be_pruned :: bool
  hc_toasted_attributes :: "toasted_attribute list"
  hc_is_corrupt :: bool
  hc_tupstore :: "report list"

definition report_corruption_internal :: "heap_check_context \<Rightarrow> nat \<Rightarrow> nat \<Rightarrow> int \<Rightarrow> corruption \<Rightarrow> heap_check_context" where
  "report_corruption_internal ctx blkno offnum attnum msg =
     ctx\<lparr>hc_tupstore := hc_tupstore ctx @
       [\<lparr>rp_blkno = blkno, rp_offnum = offnum, rp_attnum = (if attnum < 0 then None else Some attnum),
         rp_msg = msg\<rparr>]\<rparr>"

definition report_corruption :: "heap_check_context \<Rightarrow> corruption \<Rightarrow> heap_check_context" where
  "report_corruption ctx msg =
     (report_corruption_internal ctx (hc_blkno ctx) (hc_offnum ctx) (hc_attnum ctx) msg)\<lparr>hc_is_corrupt := True\<rparr>"

definition report_toast_corruption :: "heap_check_context \<Rightarrow> toasted_attribute \<Rightarrow> corruption \<Rightarrow> heap_check_context" where
  "report_toast_corruption ctx ta msg =
     (report_corruption_internal ctx (ta_blkno ta) (ta_offnum ta) (ta_attnum ta) msg)\<lparr>hc_is_corrupt := True\<rparr>"

section \<open>Checking transaction ids\<close>

text \<open>\<open>nextfxid_i - diff\<close>: the \<open>int32\<close> is converted to 64 unsigned bits.\<close>

definition FullTransactionIdFromXidAndCtx :: "xid \<Rightarrow> heap_check_context \<Rightarrow> full_xid" where
  "FullTransactionIdFromXidAndCtx xid ctx =
     (if \<not> TransactionIdIsNormal xid then FullTransactionIdFromEpochAndXid 0 xid
      else
        let nextfxid_i = hc_next_fxid ctx; diff = sint (hc_next_xid ctx - xid) in
        if diff > 0 \<and> nextfxid_i - ucast FirstNormalTransactionId < word_of_int diff
        then FullTransactionIdFromEpochAndXid 0 FirstNormalTransactionId
        else nextfxid_i - word_of_int diff)"

definition update_cached_xid_range :: "shmem \<Rightarrow> heap_check_context \<Rightarrow> heap_check_context" where
  "update_cached_xid_range sh ctx =
     (let ctx = ctx\<lparr>hc_next_fxid := sh_nextXid sh, hc_oldest_xid := sh_oldestXid sh,
                    hc_next_xid := XidFromFullTransactionId (sh_nextXid sh)\<rparr>
      in ctx\<lparr>hc_oldest_fxid := FullTransactionIdFromXidAndCtx (hc_oldest_xid ctx) ctx\<rparr>)"

definition update_cached_mxid_range :: "shmem \<Rightarrow> heap_check_context \<Rightarrow> heap_check_context" where
  "update_cached_mxid_range sh ctx =
     ctx\<lparr>hc_oldest_mxact := sh_oldestMultiXactId sh, hc_next_mxact := sh_nextMXact sh\<rparr>"

definition fxid_in_cached_range :: "full_xid \<Rightarrow> heap_check_context \<Rightarrow> bool" where
  "fxid_in_cached_range fxid ctx \<longleftrightarrow> hc_oldest_fxid ctx \<le> fxid \<and> fxid < hc_next_fxid ctx"

definition check_mxid_in_range :: "xid \<Rightarrow> heap_check_context \<Rightarrow> xid_bounds_violation" where
  "check_mxid_in_range mxid ctx =
     (if \<not> TransactionIdIsValid mxid then XID_INVALID
      else if MultiXactIdPrecedes mxid (hc_relminmxid ctx) then XID_PRECEDES_RELMIN
      else if MultiXactIdPrecedes mxid (hc_oldest_mxact ctx) then XID_PRECEDES_CLUSTERMIN
      else if MultiXactIdPrecedesOrEquals (hc_next_mxact ctx) mxid then XID_IN_FUTURE
      else XID_BOUNDS_OK)"

definition check_mxid_valid_in_rel ::
  "shmem \<Rightarrow> xid \<Rightarrow> heap_check_context \<Rightarrow> xid_bounds_violation \<times> heap_check_context" where
  "check_mxid_valid_in_rel sh mxid ctx =
     (if check_mxid_in_range mxid ctx = XID_BOUNDS_OK then (XID_BOUNDS_OK, ctx)
      else let ctx = update_cached_mxid_range sh ctx in (check_mxid_in_range mxid ctx, ctx))"

text \<open>The commit status is looked up for an id in bounds; all callers ask for it.\<close>

definition xid_commit_status_of :: "shmem \<Rightarrow> xid \<Rightarrow> full_xid \<Rightarrow> heap_check_context \<Rightarrow> xid_commit_status" where
  "xid_commit_status_of sh xid fxid ctx =
     (if FullTransactionIdFromXidAndCtx (sh_oldestClogXid sh) ctx \<le> fxid then
        if TransactionIdIsCurrentTransactionId sh xid then XID_IS_CURRENT_XID
        else if TransactionIdIsInProgress sh xid then XID_IN_PROGRESS
        else if TransactionIdDidCommit sh xid then XID_COMMITTED
        else XID_ABORTED
      else XID_COMMITTED)"

definition get_xid_status :: "shmem \<Rightarrow> xid \<Rightarrow> heap_check_context \<Rightarrow>
    xid_bounds_violation \<times> xid_commit_status \<times> heap_check_context" where
  "get_xid_status sh xid ctx =
     (if \<not> TransactionIdIsValid xid then (XID_INVALID, XID_COMMITTED, ctx)
      else if xid = BootstrapTransactionId \<or> xid = FrozenTransactionId then (XID_BOUNDS_OK, XID_COMMITTED, ctx)
      else
        let ctx = (if fxid_in_cached_range (FullTransactionIdFromXidAndCtx xid ctx) ctx then ctx
                   else update_cached_xid_range sh ctx);
            fxid = FullTransactionIdFromXidAndCtx xid ctx
        in if hc_next_fxid ctx \<le> fxid then (XID_IN_FUTURE, XID_COMMITTED, ctx)
        else if fxid < hc_oldest_fxid ctx then (XID_PRECEDES_CLUSTERMIN, XID_COMMITTED, ctx)
        else if fxid < hc_relfrozenfxid ctx then (XID_PRECEDES_RELMIN, XID_COMMITTED, ctx)
        else if xid = hc_cached_xid ctx then (XID_BOUNDS_OK, hc_cached_status ctx, ctx)
        else
          let status = xid_commit_status_of sh xid fxid ctx
          in (XID_BOUNDS_OK, status, ctx\<lparr>hc_cached_xid := xid, hc_cached_status := status\<rparr>))"

text \<open>The bound printed with a violation.\<close>

definition xid_bound :: "heap_check_context \<Rightarrow> xid_bounds_violation \<Rightarrow> full_xid" where
  "xid_bound ctx v =
     (case v of XID_IN_FUTURE \<Rightarrow> hc_next_fxid ctx | XID_PRECEDES_CLUSTERMIN \<Rightarrow> hc_oldest_fxid ctx
      | XID_PRECEDES_RELMIN \<Rightarrow> hc_relfrozenfxid ctx | _ \<Rightarrow> 0)"

definition report_xid :: "heap_check_context \<Rightarrow> xid_role \<Rightarrow> xid_bounds_violation \<Rightarrow> xid \<Rightarrow> heap_check_context" where
  "report_xid ctx role v xid = report_corruption ctx (BadXid role v xid (xid_bound ctx v))"

end
