(* ===== verification/Verify_Heapam.thy ===== *)
theory Verify_Heapam
  imports Verify_Xid Compression_Spec
begin

text \<open>
  \<^verbatim>\<open>contrib/amcheck/verify_heapam.c\<close>: the check of the tuples, update chains and out-of-line values
  of a table, with the compression method ids this repository accepts.

  A page is its bytes; line pointers and tuple headers are decoded from them. The memory a tuple
  pointer reads ends with the page. The table of out-of-line values is as in \<^verbatim>\<open>Toast_Store\<close>;
  its columns can be null for the check of one chunk. The offset in the tuple data is a \<open>nat\<close>: it is
  compared with \<open>lp_len\<close> before each step and cannot wrap. Buffer locks and interrupts are not
  modelled. The argument record lists the SQL arguments, \<open>None\<close> for null.
\<close>

section \<open>Pages\<close>

definition BLCKSZ :: nat where "BLCKSZ = 8192"
definition SizeOfPageHeaderData :: nat where "SizeOfPageHeaderData = 24"
definition FirstOffsetNumber :: nat where "FirstOffsetNumber = 1"
definition InvalidOffsetNumber :: nat where "InvalidOffsetNumber = 0"

definition PageGetMaxOffsetNumber :: "bytes \<Rightarrow> nat" where
  "PageGetMaxOffsetNumber page =
     (let pd_lower = unat (le_word (take 2 (drop 12 page)) :: 16 word) in
      if pd_lower \<le> SizeOfPageHeaderData then 0 else (pd_lower - SizeOfPageHeaderData) div 4)"

record item_id =
  lp_off :: nat
  lp_flags :: nat
  lp_len :: nat

definition PageGetItemId :: "bytes \<Rightarrow> nat \<Rightarrow> item_id" where
  "PageGetItemId page offsetNumber =
     (let w = le_word (take 4 (drop (SizeOfPageHeaderData + 4 * (offsetNumber - 1)) page)) :: 32 word
      in \<lparr>lp_off = unat (w AND 0x7FFF), lp_flags = unat (drop_bit 15 w AND 3), lp_len = unat (drop_bit 17 w)\<rparr>)"

definition ItemIdIsUsed :: "item_id \<Rightarrow> bool" where "ItemIdIsUsed itemId \<longleftrightarrow> lp_flags itemId \<noteq> 0"
definition ItemIdIsRedirected :: "item_id \<Rightarrow> bool" where "ItemIdIsRedirected itemId \<longleftrightarrow> lp_flags itemId = 2"
definition ItemIdIsDead :: "item_id \<Rightarrow> bool" where "ItemIdIsDead itemId \<longleftrightarrow> lp_flags itemId = 3"

text \<open>The tuple header at an offset; its \<open>t_bits\<close> are readable up to the end of the page.\<close>

definition header_at :: "bytes \<Rightarrow> heap_tuple_header" where
  "header_at p =
     \<lparr>t_choice = take 12 p, t_ctid = take 6 (drop 12 p), t_infomask2 = le_word (take 2 (drop 18 p)),
      t_infomask = le_word (take 2 (drop 20 p)), t_hoff = hdr p 22, t_bits = drop SizeofHeapTupleHeader p\<rparr>"

definition PageGetItem :: "bytes \<Rightarrow> item_id \<Rightarrow> heap_tuple_header" where
  "PageGetItem page itemId = header_at (drop (lp_off itemId) page)"

definition ItemPointerGetBlockNumber :: "bytes \<Rightarrow> nat" where
  "ItemPointerGetBlockNumber p =
     unat (push_bit 16 (le_word (take 2 p) :: 32 word) OR le_word (take 2 (drop 2 p)))"
definition ItemPointerGetOffsetNumber :: "bytes \<Rightarrow> nat" where
  "ItemPointerGetOffsetNumber p = unat (le_word (take 2 (drop 4 p)) :: 16 word)"

section \<open>check\_tuple\_header\<close>

definition check_tuple_header :: "shmem \<Rightarrow> heap_check_context \<Rightarrow> bool \<times> heap_check_context" where
  "check_tuple_header sh ctx =
     (let tuphdr = hc_tuphdr ctx; hoff = unat (t_hoff tuphdr); natts = hc_natts ctx;
          hasnull = infomask_has tuphdr HEAP_HASNULL;
          curr_xmax = HeapTupleHeaderGetUpdateXid sh tuphdr;
          (result, ctx) = (if hoff > hc_lp_len ctx
             then (False, report_corruption ctx (DataBeginsBeyond hoff (hc_lp_len ctx))) else (True, ctx));
          ctx = (if infomask_has tuphdr HEAP_XMAX_COMMITTED \<and> infomask_has tuphdr HEAP_XMAX_IS_MULTI
                 then report_corruption ctx MultixactMarkedCommitted else ctx);
          ctx = (if \<not> TransactionIdIsValid curr_xmax \<and> HeapTupleHeaderIsHotUpdated tuphdr
                 then report_corruption ctx HotUpdatedWithoutXmax else ctx);
          ctx = (if HeapTupleHeaderIsHeapOnly tuphdr \<and> \<not> infomask_has tuphdr HEAP_UPDATED
                 then report_corruption ctx HeapOnlyNotUpdated else ctx);
          expected_hoff = MAXALIGN (SizeofHeapTupleHeader + (if hasnull then BITMAPLEN natts else 0))
      in if hoff \<noteq> expected_hoff
         then (False, report_corruption ctx (WrongHoff expected_hoff hoff natts hasnull))
         else (result, ctx))"

section \<open>check\_tuple\_visibility\<close>

text \<open>The branches for tuples moved by an old \<open>VACUUM FULL\<close>: what the function returns, if it does.\<close>

definition check_xvac :: "shmem \<Rightarrow> bool \<Rightarrow> heap_check_context \<Rightarrow> bool option \<times> heap_check_context" where
  "check_xvac sh moved_off ctx =
     (let xvac = HeapTupleHeaderGetXvac (hc_tuphdr ctx);
          role = (if moved_off then XvacMovedOff else XvacMovedIn);
          (v, status, ctx) = get_xid_status sh xvac ctx
      in if v \<noteq> XID_BOUNDS_OK then (Some False, report_xid ctx role v xvac)
      else case status of
          XID_IS_CURRENT_XID \<Rightarrow> (Some False, report_corruption ctx (BadXvacStatus role status xvac))
        | XID_IN_PROGRESS \<Rightarrow> (Some False, report_corruption ctx (BadXvacStatus role status xvac))
        | XID_COMMITTED \<Rightarrow> (if moved_off then Some True else None, ctx)
        | XID_ABORTED \<Rightarrow> (if moved_off then None else Some True, ctx))"

text \<open>Has the inserting transaction committed?\<close>

definition check_inserter :: "shmem \<Rightarrow> xid_commit_status \<Rightarrow> heap_check_context \<Rightarrow>
    bool option \<times> heap_check_context" where
  "check_inserter sh xmin_status ctx =
     (let tuphdr = hc_tuphdr ctx in
      if HeapTupleHeaderXminCommitted tuphdr then (None, ctx)
      else if HeapTupleHeaderXminInvalid tuphdr then (Some False, ctx)
      else if infomask_has tuphdr HEAP_MOVED_OFF then check_xvac sh True ctx
      else if infomask_has tuphdr HEAP_MOVED_IN then check_xvac sh False ctx
      else if xmin_status \<noteq> XID_COMMITTED then (Some False, ctx)
      else (None, ctx))"

text \<open>Whether the out-of-line values can be vacuumed away, from the status of the deleting
  transaction.\<close>

definition set_prunable :: "xid_commit_status \<Rightarrow> xid \<Rightarrow> heap_check_context \<Rightarrow> heap_check_context" where
  "set_prunable xmax_status xmax ctx =
     ctx\<lparr>hc_tuple_could_be_pruned :=
       (case xmax_status of
          XID_IS_CURRENT_XID \<Rightarrow> False
        | XID_IN_PROGRESS \<Rightarrow> False
        | XID_COMMITTED \<Rightarrow> TransactionIdPrecedes xmax (hc_safe_xmin ctx)
        | XID_ABORTED \<Rightarrow> False)\<rparr>"

definition check_deleter :: "shmem \<Rightarrow> heap_check_context \<Rightarrow> bool \<times> heap_check_context" where
  "check_deleter sh ctx =
     (let tuphdr = hc_tuphdr ctx; is_multi = infomask_has tuphdr HEAP_XMAX_IS_MULTI;
          raw_xmax = HeapTupleHeaderGetRawXmax tuphdr;
          (mv, ctx) = (if is_multi then check_mxid_valid_in_rel sh raw_xmax ctx else (XID_BOUNDS_OK, ctx))
      in if mv \<noteq> XID_BOUNDS_OK then
           (True, report_corruption ctx (BadMultiXact mv raw_xmax
              (case mv of XID_PRECEDES_RELMIN \<Rightarrow> hc_relminmxid ctx | XID_PRECEDES_CLUSTERMIN \<Rightarrow> hc_oldest_mxact ctx
               | XID_IN_FUTURE \<Rightarrow> hc_next_mxact ctx | _ \<Rightarrow> 0)))
         else if infomask_has tuphdr HEAP_XMAX_INVALID then (True, ctx\<lparr>hc_tuple_could_be_pruned := False\<rparr>)
         else if HEAP_XMAX_IS_LOCKED_ONLY (t_infomask tuphdr) then (True, ctx\<lparr>hc_tuple_could_be_pruned := False\<rparr>)
         else if is_multi then
           let xmax = HeapTupleGetUpdateXid sh tuphdr; (v, status, ctx) = get_xid_status sh xmax ctx
           in if v \<noteq> XID_BOUNDS_OK then (True, report_xid ctx UpdateXid v xmax)
              else (True, set_prunable status xmax ctx)
         else
           let (v, status, ctx) = get_xid_status sh raw_xmax ctx
           in if v = XID_INVALID then (True, ctx\<lparr>hc_tuple_could_be_pruned := False\<rparr>)
              else if v \<noteq> XID_BOUNDS_OK then (False, report_xid ctx Xmax v raw_xmax)
              else (True, set_prunable status raw_xmax ctx))"

text \<open>The third component is \<open>*xmin_commit_status\<close> if \<open>*xmin_commit_status_ok\<close>.\<close>

definition check_tuple_visibility ::
  "shmem \<Rightarrow> heap_check_context \<Rightarrow> bool \<times> heap_check_context \<times> xid_commit_status option" where
  "check_tuple_visibility sh ctx =
     (let xmin = HeapTupleHeaderGetXmin (hc_tuphdr ctx);
          (v, xmin_status, ctx) = get_xid_status sh xmin (ctx\<lparr>hc_tuple_could_be_pruned := True\<rparr>)
      in if v = XID_INVALID then (False, ctx, None)
      else if v \<noteq> XID_BOUNDS_OK then (False, report_xid ctx Xmin v xmin, None)
      else case check_inserter sh xmin_status ctx of
          (Some r, ctx) \<Rightarrow> (r, ctx, Some xmin_status)
        | (None, ctx) \<Rightarrow> let (r, ctx) = check_deleter sh ctx in (r, ctx, Some xmin_status))"

section \<open>check\_tuple\_attribute\<close>

definition VARLENA_SIZE_LIMIT :: int where "VARLENA_SIZE_LIMIT = 0x3FFFFFFF"

text \<open>The checks of an out-of-line pointer, after \<open>VARATT_EXTERNAL_GET_POINTER\<close>;
  \<open>TOAST_COMPRESS_METHOD\<close> reads the second word of the structure, \<open>va_extinfo\<close>.\<close>

definition check_toast_pointer :: "heap_check_context \<Rightarrow> varatt_external \<Rightarrow> heap_check_context" where
  "check_toast_pointer ctx toast_pointer =
     (let valueid = va_valueid toast_pointer; rawsize = sint (va_rawsize toast_pointer);
          cmid = VARATT_EXTERNAL_GET_COMPRESS_METHOD toast_pointer;
          ctx = (if rawsize > VARLENA_SIZE_LIMIT
                 then report_corruption ctx (RawsizeExceedsLimit valueid rawsize) else ctx);
          ctx = (if VARATT_EXTERNAL_IS_COMPRESSED toast_pointer \<and>
                    \<not> (cmid = TOAST_PGLZ_COMPRESSION_ID \<or> cmid = TOAST_RLE_COMPRESSION_ID \<or>
                       cmid = TOAST_LZ4_COMPRESSION_ID)
                 then report_corruption ctx (InvalidCompressionId valueid cmid) else ctx)
      in if \<not> infomask_has (hc_tuphdr ctx) HEAP_HASEXTERNAL
         then report_corruption ctx (ExternalNotFlagged valueid)
      else if hc_reltoastrelid ctx = InvalidOid
         then report_corruption ctx (ExternalWithoutToastRelation valueid)
      else if hc_toast_rel ctx = None then ctx
      else if \<not> hc_tuple_could_be_pruned ctx then
        ctx\<lparr>hc_toasted_attributes := hc_toasted_attributes ctx @
          [\<lparr>ta_toast_pointer = toast_pointer, ta_blkno = hc_blkno ctx, ta_offnum = hc_offnum ctx,
            ta_attnum = hc_attnum ctx\<rparr>]\<rparr>
      else ctx)"

definition check_tuple_attribute :: "heap_check_context \<Rightarrow> (bool \<times> heap_check_context) res" where
  "check_tuple_attribute ctx =
     (let tuphdr = hc_tuphdr ctx; hoff = unat (t_hoff tuphdr); attnum = nat (hc_attnum ctx);
          tp = drop (hoff - SizeofHeapTupleHeader) (t_bits tuphdr); offset = hc_offset ctx
      in bindE (TupleDescAttr (hc_desc ctx) attnum) (\<lambda>thisatt.
         if hoff + offset > hc_lp_len ctx then
           Inr (False, report_corruption ctx (AttributeStartsBeyond (attlen thisatt) (hoff + offset) (hc_lp_len ctx)))
         else
           bindE (if infomask_has tuphdr HEAP_HASNULL then att_isnull attnum (t_bits tuphdr) else Inr False) (\<lambda>null.
           if null then Inr (True, ctx)
           else if attlen thisatt \<noteq> -1 then
             let offset = att_align_nominal offset (attalign thisatt) in
             bindE (att_addlength_pointer offset (attlen thisatt) (drop offset tp)) (\<lambda>offset.
               let ctx = ctx\<lparr>hc_offset := offset\<rparr> in
               if hoff + offset > hc_lp_len ctx then
                 Inr (False, report_corruption ctx (AttributeEndsBeyond (attlen thisatt) (hoff + offset) (hc_lp_len ctx)))
               else Inr (True, ctx))
           else
             bindE (att_align_pointer offset (attalign thisatt) (-1) (drop offset tp)) (\<lambda>offset.
               let attr = drop offset tp; ctx = ctx\<lparr>hc_offset := offset\<rparr> in
               if VARATT_IS_EXTERNAL attr \<and> VARTAG_1B_E attr \<noteq> VARTAG_ONDISK then
                 Inr (False, report_corruption ctx (UnexpectedToastTag (VARTAG_1B_E attr)))
               else
                 bindE (att_addlength_pointer offset (attlen thisatt) attr) (\<lambda>offset.
                   let ctx = ctx\<lparr>hc_offset := offset\<rparr> in
                   if hoff + offset > hc_lp_len ctx then
                     Inr (False, report_corruption ctx (AttributeEndsBeyond (attlen thisatt) (hoff + offset) (hc_lp_len ctx)))
                   else if \<not> VARATT_IS_EXTERNAL attr then Inr (True, ctx)
                   else bindE (VARATT_EXTERNAL_GET_POINTER attr) (\<lambda>toast_pointer.
                     Inr (True, check_toast_pointer ctx toast_pointer)))))))"

section \<open>Out-of-line values\<close>

text \<open>The columns \<open>chunk_seq\<close> and \<open>chunk_data\<close> of a chunk, \<open>None\<close> for null; the expected sequence number
  goes in and out.\<close>

definition last_chunk :: "32 word \<Rightarrow> int" where
  "last_chunk extsize = to_int32 (uint (extsize - 1) div TOAST_MAX_CHUNK_SIZE)"

definition check_toast_tuple :: "int option \<Rightarrow> bytes option \<Rightarrow> toasted_attribute \<Rightarrow> 32 word \<Rightarrow>
    heap_check_context \<times> int \<Rightarrow> (heap_check_context \<times> int) res" where
  "check_toast_tuple seq data ta extsize = (\<lambda>(ctx, expected_chunk_seq).
     let valueid = va_valueid (ta_toast_pointer ta); last_chunk_seq = last_chunk extsize in
     case seq of
       None \<Rightarrow> Inr (report_toast_corruption ctx ta (ChunkNullSequence valueid), expected_chunk_seq)
     | Some curchunk \<Rightarrow>
         let ctx = (if curchunk \<noteq> expected_chunk_seq
                    then report_toast_corruption ctx ta (ChunkUnexpected valueid curchunk expected_chunk_seq) else ctx);
             expected = curchunk + 1
         in case data of
              None \<Rightarrow> Inr (report_toast_corruption ctx ta (ChunkNullData valueid curchunk), expected)
            | Some chunk \<Rightarrow>
                if VARATT_IS_EXTENDED chunk \<and> \<not> VARATT_IS_SHORT chunk then
                  bindE (rd_u32 chunk 0) (\<lambda>header.
                    Inr (report_toast_corruption ctx ta (ChunkInvalidHeader valueid curchunk header), expected))
                else
                  bindE (if \<not> VARATT_IS_EXTENDED chunk then bindE (VARSIZE_4B chunk) (\<lambda>n. Inr (n - VARHDRSZ))
                         else Inr (VARSIZE_1B chunk - VARHDRSZ_SHORT)) (\<lambda>chunksize.
                  if curchunk > last_chunk_seq then
                    Inr (report_toast_corruption ctx ta (ChunkFollowsLast valueid curchunk last_chunk_seq), expected)
                  else
                    let expected_size = (if curchunk < last_chunk_seq then TOAST_MAX_CHUNK_SIZE
                          else to_int32 (uint extsize - last_chunk_seq * TOAST_MAX_CHUNK_SIZE))
                    in Inr (if chunksize \<noteq> expected_size
                            then report_toast_corruption ctx ta (ChunkWrongSize valueid curchunk chunksize expected_size)
                            else ctx, expected)))"

fun check_chunks :: "toasted_attribute \<Rightarrow> 32 word \<Rightarrow> toast_chunk list \<Rightarrow> heap_check_context \<times> int \<Rightarrow>
    (heap_check_context \<times> int) res" where
  "check_chunks ta extsize [] s = Inr s"
| "check_chunks ta extsize (c # cs) s =
     bindE (check_toast_tuple (Some (chunk_seq c)) (Some (chunk_data c)) ta extsize s) (check_chunks ta extsize cs)"

definition check_toasted_attribute :: "heap_check_context \<Rightarrow> toasted_attribute \<Rightarrow> heap_check_context res" where
  "check_toasted_attribute ctx ta =
     (case hc_toast_rel ctx of
        None \<Rightarrow> Inl MemFault
      | Some toastrel \<Rightarrow>
          let valueid = va_valueid (ta_toast_pointer ta);
              extsize = word_of_int (VARATT_EXTERNAL_GET_EXTSIZE (ta_toast_pointer ta));
              last_chunk_seq = last_chunk extsize;
              scan = scan_ordered toastrel (\<lambda>c. chunk_id c = valueid)
          in bindE (check_chunks ta extsize scan (ctx, 0)) (\<lambda>(ctx, expected_chunk_seq).
               if scan = [] then Inr (report_toast_corruption ctx ta (ToastValueNotFound valueid))
               else if expected_chunk_seq \<le> last_chunk_seq
               then Inr (report_toast_corruption ctx ta (ToastValueIncomplete valueid last_chunk_seq expected_chunk_seq))
               else Inr ctx))"

section \<open>check\_tuple\<close>

fun check_attributes :: "nat \<Rightarrow> heap_check_context \<Rightarrow> heap_check_context res" where
  "check_attributes 0 ctx = Inr ctx"
| "check_attributes (Suc n) ctx =
     bindE (check_tuple_attribute ctx) (\<lambda>(ok, ctx).
       if ok then check_attributes n (ctx\<lparr>hc_attnum := hc_attnum ctx + 1\<rparr>) else Inr ctx)"

definition check_tuple :: "shmem \<Rightarrow> heap_check_context \<Rightarrow> (heap_check_context \<times> xid_commit_status option) res" where
  "check_tuple sh ctx =
     (case check_tuple_header sh ctx of
        (False, ctx) \<Rightarrow> Inr (ctx, None)
      | (True, ctx) \<Rightarrow>
          (case check_tuple_visibility sh ctx of
             (False, ctx, status) \<Rightarrow> Inr (ctx, status)
           | (True, ctx, status) \<Rightarrow>
               if length (td_attrs (hc_desc ctx)) < hc_natts ctx then
                 Inr (report_corruption ctx (TooManyAttributes (hc_natts ctx) (length (td_attrs (hc_desc ctx)))), status)
               else
                 bindE (check_attributes (hc_natts ctx) (ctx\<lparr>hc_offset := 0, hc_attnum := 0\<rparr>)) (\<lambda>ctx.
                   Inr (ctx\<lparr>hc_attnum := -1\<rparr>, status))))"

section \<open>One page\<close>

text \<open>What the first loop over the line pointers records for each of them; \<open>ps_status\<close> is
  \<open>xmin_commit_status\<close> where \<open>xmin_commit_status_ok\<close>.\<close>

record page_scan =
  ps_successor :: "nat \<Rightarrow> nat"
  ps_lp_valid :: "nat \<Rightarrow> bool"
  ps_status :: "nat \<Rightarrow> xid_commit_status option"

definition check_redirect :: "bytes \<Rightarrow> nat \<Rightarrow> item_id \<Rightarrow> heap_check_context \<Rightarrow> page_scan \<Rightarrow>
    heap_check_context \<times> page_scan" where
  "check_redirect page maxoff itemid ctx ps =
     (let rdoffnum = lp_off itemid; rditem = PageGetItemId page rdoffnum; offnum = hc_offnum ctx in
      if rdoffnum < FirstOffsetNumber then (report_corruption ctx (RedirectBeforeFirst rdoffnum), ps)
      else if rdoffnum > maxoff then (report_corruption ctx (RedirectBeyondMax rdoffnum maxoff), ps)
      else if \<not> ItemIdIsUsed rditem then (report_corruption ctx (RedirectToUnused rdoffnum), ps)
      else if ItemIdIsDead rditem then (report_corruption ctx (RedirectToDead rdoffnum), ps)
      else if ItemIdIsRedirected rditem then (report_corruption ctx (RedirectToRedirect rdoffnum), ps)
      else (ctx, ps\<lparr>ps_lp_valid := (ps_lp_valid ps)(offnum := True),
                    ps_successor := (ps_successor ps)(offnum := rdoffnum)\<rparr>))"

text \<open>The successor of a tuple on the page, from its \<open>t_ctid\<close>.\<close>

definition ctid_successor :: "heap_check_context \<Rightarrow> nat \<Rightarrow> nat option" where
  "ctid_successor ctx maxoff =
     (let ctid = t_ctid (hc_tuphdr ctx); nextblkno = ItemPointerGetBlockNumber ctid;
          nextoffnum = ItemPointerGetOffsetNumber ctid
      in if nextblkno = hc_blkno ctx \<and> nextoffnum \<noteq> hc_offnum ctx \<and> nextoffnum \<ge> FirstOffsetNumber \<and> nextoffnum \<le> maxoff
         then Some nextoffnum else None)"

definition check_line_pointer :: "shmem \<Rightarrow> bytes \<Rightarrow> nat \<Rightarrow> nat \<Rightarrow> heap_check_context \<times> page_scan \<Rightarrow>
    (heap_check_context \<times> page_scan) res" where
  "check_line_pointer sh page maxoff offnum = (\<lambda>(ctx, ps).
     let ctx = ctx\<lparr>hc_offnum := offnum\<rparr>;
         ps = ps\<lparr>ps_successor := (ps_successor ps)(offnum := InvalidOffsetNumber),
                 ps_lp_valid := (ps_lp_valid ps)(offnum := False), ps_status := (ps_status ps)(offnum := None)\<rparr>;
         itemid = PageGetItemId page offnum
     in if \<not> ItemIdIsUsed itemid \<or> ItemIdIsDead itemid then Inr (ctx, ps)
     else if ItemIdIsRedirected itemid then Inr (check_redirect page maxoff itemid ctx ps)
     else
       let len = lp_len itemid; off = lp_off itemid; ctx = ctx\<lparr>hc_lp_len := len, hc_lp_off := off\<rparr> in
       if off \<noteq> MAXALIGN off then Inr (report_corruption ctx (LinePointerMisaligned off), ps)
       else if len < MAXALIGN SizeofHeapTupleHeader then Inr (report_corruption ctx (LinePointerTooShort len), ps)
       else if off + len > BLCKSZ then Inr (report_corruption ctx (LinePointerBeyondPage off len), ps)
       else
         let tuphdr = PageGetItem page itemid;
             ctx = ctx\<lparr>hc_tuphdr := tuphdr, hc_natts := HeapTupleHeaderGetNatts tuphdr\<rparr>
         in bindE (check_tuple sh ctx) (\<lambda>(ctx, status).
              Inr (ctx, ps\<lparr>ps_lp_valid := (ps_lp_valid ps)(offnum := True),
                ps_status := (ps_status ps)(offnum := status),
                ps_successor := (case ctid_successor ctx maxoff of
                    Some next \<Rightarrow> (ps_successor ps)(offnum := next) | None \<Rightarrow> ps_successor ps)\<rparr>)))"

text \<open>The first loop over the line pointers.\<close>

fun check_line_pointers :: "shmem \<Rightarrow> bytes \<Rightarrow> nat \<Rightarrow> nat list \<Rightarrow> heap_check_context \<times> page_scan \<Rightarrow>
    (heap_check_context \<times> page_scan) res" where
  "check_line_pointers sh page maxoff [] s = Inr s"
| "check_line_pointers sh page maxoff (offnum # offs) s =
     bindE (check_line_pointer sh page maxoff offnum s) (check_line_pointers sh page maxoff offs)"

text \<open>Update chain validation: one line pointer, with the \<open>predecessor\<close> array.\<close>

definition check_chain_status :: "shmem \<Rightarrow> page_scan \<Rightarrow> nat \<Rightarrow> nat \<Rightarrow> xid \<Rightarrow> xid \<Rightarrow> heap_check_context \<Rightarrow> heap_check_context" where
  "check_chain_status sh ps offnum nextoffnum curr_xmin next_xmin ctx =
     (let curr = ps_status ps offnum; succ = ps_status ps nextoffnum;
          ctx = (if curr = Some XID_IN_PROGRESS \<and> succ = Some XID_COMMITTED \<and> TransactionIdIsInProgress sh curr_xmin
                 then report_corruption ctx (InProgressUpdatedToCommitted curr_xmin offnum next_xmin) else ctx)
      in if curr = Some XID_ABORTED then
           if succ = Some XID_IN_PROGRESS
           then report_corruption ctx (AbortedUpdatedToInProgress curr_xmin offnum next_xmin)
           else if succ = Some XID_COMMITTED
           then report_corruption ctx (AbortedUpdatedToCommitted curr_xmin offnum next_xmin)
           else ctx
         else ctx)"

definition check_chain :: "shmem \<Rightarrow> bytes \<Rightarrow> page_scan \<Rightarrow> nat \<Rightarrow> heap_check_context \<times> (nat \<Rightarrow> nat) \<Rightarrow>
    heap_check_context \<times> (nat \<Rightarrow> nat)" where
  "check_chain sh page ps offnum = (\<lambda>(ctx, predecessor).
     let ctx = ctx\<lparr>hc_offnum := offnum\<rparr>; nextoffnum = ps_successor ps offnum;
         curr_lp = PageGetItemId page offnum; next_lp = PageGetItemId page nextoffnum;
         curr_htup = PageGetItem page curr_lp; next_htup = PageGetItem page next_lp
     in if nextoffnum = InvalidOffsetNumber \<or> \<not> ps_lp_valid ps nextoffnum then (ctx, predecessor)
     else if ItemIdIsRedirected curr_lp then
       let ctx = (if \<not> HeapTupleHeaderIsHeapOnly next_htup
                  then report_corruption ctx (RedirectToNonHeapOnly nextoffnum) else ctx)
       in if predecessor nextoffnum \<noteq> InvalidOffsetNumber
          then (report_corruption ctx (RedirectIntersects nextoffnum (predecessor nextoffnum)), predecessor)
          else (ctx, predecessor(nextoffnum := offnum))
     else if ItemIdIsRedirected next_lp then (ctx, predecessor)
     else
       let curr_xmax = HeapTupleHeaderGetUpdateXid sh curr_htup; next_xmin = HeapTupleHeaderGetXmin next_htup in
       if \<not> TransactionIdIsValid curr_xmax \<or> curr_xmax \<noteq> next_xmin then (ctx, predecessor)
       else if predecessor nextoffnum \<noteq> InvalidOffsetNumber
       then (report_corruption ctx (ChainsIntersect nextoffnum (predecessor nextoffnum)), predecessor)
       else
         let hot = t_infomask2 curr_htup AND HEAP_HOT_UPDATED \<noteq> 0; only = HeapTupleHeaderIsHeapOnly next_htup;
             ctx = (if \<not> hot \<and> only then report_corruption ctx (NonHotUpdateToHeapOnly nextoffnum) else ctx);
             ctx = (if hot \<and> \<not> only then report_corruption ctx (HotUpdateToNonHeapOnly nextoffnum) else ctx)
         in (check_chain_status sh ps offnum nextoffnum (HeapTupleHeaderGetXmin curr_htup) next_xmin ctx,
             predecessor(nextoffnum := offnum)))"

text \<open>The last loop: a chain must not start with a heap-only tuple.\<close>

definition check_root :: "bytes \<Rightarrow> page_scan \<Rightarrow> (nat \<Rightarrow> nat) \<Rightarrow> nat \<Rightarrow> heap_check_context \<Rightarrow> heap_check_context" where
  "check_root page ps predecessor offnum ctx =
     (let ctx = ctx\<lparr>hc_offnum := offnum\<rparr>; curr_lp = PageGetItemId page offnum in
      if (ps_status ps offnum = Some XID_COMMITTED \<or> ps_status ps offnum = Some XID_IN_PROGRESS) \<and>
         predecessor offnum = InvalidOffsetNumber \<and> \<not> ItemIdIsRedirected curr_lp \<and>
         HeapTupleHeaderIsHeapOnly (PageGetItem page curr_lp)
      then report_corruption ctx ChainRootHeapOnly else ctx)"

fun check_toasted_attributes :: "toasted_attribute list \<Rightarrow> heap_check_context \<Rightarrow> heap_check_context res" where
  "check_toasted_attributes [] ctx = Inr ctx"
| "check_toasted_attributes (ta # tas) ctx = bindE (check_toasted_attribute ctx ta) (check_toasted_attributes tas)"

definition empty_scan :: page_scan where
  "empty_scan = \<lparr>ps_successor = (\<lambda>_. InvalidOffsetNumber), ps_lp_valid = (\<lambda>_. False), ps_status = (\<lambda>_. None)\<rparr>"

text \<open>The body of the loop over the blocks, after the page has been read.\<close>

definition check_page :: "shmem \<Rightarrow> bytes \<Rightarrow> heap_check_context \<Rightarrow> heap_check_context res" where
  "check_page sh page ctx =
     (let maxoff = PageGetMaxOffsetNumber page; offs = [FirstOffsetNumber..<Suc maxoff] in
      bindE (check_line_pointers sh page maxoff offs (ctx, empty_scan)) (\<lambda>(ctx, ps).
        let (ctx, predecessor) = fold (check_chain sh page ps) offs (ctx\<lparr>hc_attnum := -1\<rparr>, \<lambda>_. InvalidOffsetNumber);
            ctx = fold (check_root page ps predecessor) offs ctx
        in bindE (check_toasted_attributes (hc_toasted_attributes ctx) ctx) (\<lambda>ctx.
             Inr (ctx\<lparr>hc_toasted_attributes := []\<rparr>))))"

section \<open>verify\_heapam\<close>

text \<open>What the function uses of the relation: its \<open>pg_class\<close> entry, descriptor, blocks and visibility
  map (all-visible, all-frozen).\<close>

record check_rel =
  cr_relkind :: char
  cr_relam :: oid
  cr_relpersistence :: char
  cr_reltoastrelid :: oid
  cr_relfrozenxid :: xid
  cr_relminmxid :: xid
  cr_desc :: tuple_desc
  cr_blocks :: "bytes list"
  cr_vm :: "nat \<Rightarrow> bool \<times> bool"

definition RELKIND_HAS_TABLE_AM :: "char \<Rightarrow> bool" where
  "RELKIND_HAS_TABLE_AM relkind \<longleftrightarrow> relkind = CHR ''r'' \<or> relkind = CHR ''t'' \<or> relkind = CHR ''m''"
definition HEAP_TABLE_AM_OID :: oid where "HEAP_TABLE_AM_OID = 2"

record verify_args =
  va_relation :: "check_rel option"
  va_on_error_stop :: "bool option"
  va_check_toast :: "bool option"
  va_skip :: "string option"
  va_startblock :: "int option"
  va_endblock :: "int option"

definition parse_skip :: "(char \<Rightarrow> char) \<Rightarrow> string \<Rightarrow> skip_pages res" where
  "parse_skip lower skip =
     (if pg_strcaseeq lower skip ''all-visible'' then Inr SKIP_PAGES_ALL_VISIBLE
      else if pg_strcaseeq lower skip ''all-frozen'' then Inr SKIP_PAGES_ALL_FROZEN
      else if pg_strcaseeq lower skip ''none'' then Inr SKIP_PAGES_NONE
      else Inl (Ereport ERRCODE_INVALID_PARAMETER_VALUE))"

definition not_null :: "'a option \<Rightarrow> 'a res" where
  "not_null arg = (case arg of None \<Rightarrow> Inl (Ereport ERRCODE_INVALID_PARAMETER_VALUE) | Some x \<Rightarrow> Inr x)"

definition block_arg :: "int option \<Rightarrow> nat \<Rightarrow> nat \<Rightarrow> nat res" where
  "block_arg arg nblocks dflt =
     (case arg of
        None \<Rightarrow> Inr dflt
      | Some b \<Rightarrow> if b < 0 \<or> b \<ge> int nblocks then Inl (Ereport ERRCODE_INVALID_PARAMETER_VALUE) else Inr (nat b))"

definition skip_block :: "skip_pages \<Rightarrow> check_rel \<Rightarrow> nat \<Rightarrow> bool" where
  "skip_block skip rel blkno =
     (case skip of SKIP_PAGES_NONE \<Rightarrow> False | SKIP_PAGES_ALL_FROZEN \<Rightarrow> snd (cr_vm rel blkno)
      | SKIP_PAGES_ALL_VISIBLE \<Rightarrow> fst (cr_vm rel blkno))"

text \<open>The loop over the blocks.\<close>

fun check_blocks :: "shmem \<Rightarrow> check_rel \<Rightarrow> skip_pages \<Rightarrow> bool \<Rightarrow> nat list \<Rightarrow> heap_check_context \<Rightarrow>
    heap_check_context res" where
  "check_blocks sh rel skip on_error_stop [] ctx = Inr ctx"
| "check_blocks sh rel skip on_error_stop (blkno # blks) ctx =
     (let ctx = ctx\<lparr>hc_blkno := blkno\<rparr> in
      if skip_block skip rel blkno then check_blocks sh rel skip on_error_stop blks ctx
      else bindE (check_page sh (cr_blocks rel ! blkno) ctx) (\<lambda>ctx.
        if on_error_stop \<and> hc_is_corrupt ctx then Inr ctx
        else check_blocks sh rel skip on_error_stop blks ctx))"

definition zero_header :: heap_tuple_header where
  "zero_header = \<lparr>t_choice = [], t_ctid = [], t_infomask2 = 0, t_infomask = 0, t_hoff = 0, t_bits = []\<rparr>"

definition init_context :: "shmem \<Rightarrow> xid \<Rightarrow> check_rel \<Rightarrow> toast_rel option \<Rightarrow> heap_check_context" where
  "init_context sh snapshot_xmin rel toastrel =
     (let ctx = \<lparr>hc_next_fxid = 0, hc_next_xid = 0, hc_oldest_xid = 0, hc_oldest_fxid = 0,
            hc_safe_xmin = snapshot_xmin, hc_next_mxact = 0, hc_oldest_mxact = 0,
            hc_cached_xid = InvalidTransactionId, hc_cached_status = XID_COMMITTED, hc_desc = cr_desc rel,
            hc_reltoastrelid = cr_reltoastrelid rel, hc_relfrozenxid = 0, hc_relfrozenfxid = 0, hc_relminmxid = 0,
            hc_toast_rel = toastrel, hc_blkno = 0, hc_offnum = 0, hc_lp_len = 0, hc_lp_off = 0,
            hc_tuphdr = zero_header, hc_natts = 0, hc_offset = 0, hc_attnum = -1,
            hc_tuple_could_be_pruned = False, hc_toasted_attributes = [], hc_is_corrupt = False, hc_tupstore = []\<rparr>;
          ctx = update_cached_mxid_range sh (update_cached_xid_range sh ctx);
          ctx = ctx\<lparr>hc_relfrozenxid := cr_relfrozenxid rel,
                    hc_relfrozenfxid := FullTransactionIdFromXidAndCtx (cr_relfrozenxid rel) ctx,
                    hc_relminmxid := cr_relminmxid rel\<rparr>
      in if TransactionIdIsNormal (cr_relfrozenxid rel) then ctx\<lparr>hc_oldest_xid := cr_relfrozenxid rel\<rparr> else ctx)"

definition verify_heapam :: "shmem \<Rightarrow> xid \<Rightarrow> bool \<Rightarrow> (char \<Rightarrow> char) \<Rightarrow> toast_store \<Rightarrow> verify_args \<Rightarrow> report list res" where
  "verify_heapam sh snapshot_xmin recovery lower store args =
     bindE (not_null (va_relation args)) (\<lambda>rel.
     bindE (not_null (va_on_error_stop args)) (\<lambda>on_error_stop.
     bindE (not_null (va_check_toast args)) (\<lambda>check_toast.
     bindE (not_null (va_skip args)) (\<lambda>skip.
     bindE (parse_skip lower skip) (\<lambda>skip.
       let nblocks = length (cr_blocks rel) in
       if \<not> RELKIND_HAS_TABLE_AM (cr_relkind rel) \<and> cr_relkind rel \<noteq> CHR ''S'' then
         Inl (Ereport ERRCODE_WRONG_OBJECT_TYPE)
       else if cr_relkind rel \<noteq> CHR ''S'' \<and> cr_relam rel \<noteq> HEAP_TABLE_AM_OID then
         Inl (Ereport ERRCODE_FEATURE_NOT_SUPPORTED)
       else if cr_relpersistence rel = CHR ''u'' \<and> recovery then Inr []
       else if nblocks = 0 then Inr []
       else
         bindE (block_arg (va_startblock args) nblocks 0) (\<lambda>first_block.
         bindE (block_arg (va_endblock args) nblocks (nblocks - 1)) (\<lambda>last_block.
         bindE (if cr_reltoastrelid rel \<noteq> InvalidOid \<and> check_toast then
                  bindE (table_open store (cr_reltoastrelid rel)) (\<lambda>toastrel.
                  bindE (toast_open_indexes toastrel) (\<lambda>_. Inr (Some toastrel)))
                else Inr None) (\<lambda>toastrel.
         bindE (check_blocks sh rel skip on_error_stop [first_block..<Suc last_block]
                  (init_context sh snapshot_xmin rel toastrel)) (\<lambda>ctx.
           Inr (hc_tupstore ctx))))))))))"

end
