(* ===== verification/Verify_Toast_Correct.thy ===== *)
theory Verify_Toast_Correct
  imports Verify_Heapam Detoast_Correct
begin

text \<open>
  The check of out-of-line values: \<open>check_toasted_attribute\<close> reports nothing exactly if
  \<open>heap_fetch_toast_slice\<close> can read the whole value.
\<close>

section \<open>Reports\<close>

text \<open>A check only adds reports.\<close>

definition reports_added :: "heap_check_context \<Rightarrow> heap_check_context \<Rightarrow> report list" where
  "reports_added ctx ctx' = drop (length (hc_tupstore ctx)) (hc_tupstore ctx')"

definition extends :: "heap_check_context \<Rightarrow> heap_check_context \<Rightarrow> bool" where
  "extends ctx ctx' \<longleftrightarrow> hc_tupstore ctx' = hc_tupstore ctx @ reports_added ctx ctx'"

definition silent :: "heap_check_context \<Rightarrow> heap_check_context \<Rightarrow> bool" where
  "silent ctx ctx' \<longleftrightarrow> hc_tupstore ctx' = hc_tupstore ctx"

lemma extendsI: "hc_tupstore ctx' = hc_tupstore ctx @ rs \<Longrightarrow> extends ctx ctx'"
  by (simp add: extends_def reports_added_def)

lemma extends_refl [simp]: "extends ctx ctx" "silent ctx ctx"
  by (simp_all add: extends_def silent_def reports_added_def)

lemma extends_trans: "extends a b \<Longrightarrow> extends b c \<Longrightarrow> extends a c"
  by (rule extendsI [of _ _ "reports_added a b @ reports_added b c"]) (simp add: extends_def)

lemma silent_trans: "extends a b \<Longrightarrow> extends b c \<Longrightarrow> silent a c \<longleftrightarrow> silent a b \<and> silent b c"
  by (auto simp: extends_def silent_def)

lemma report_toast_added [simp]:
  "extends ctx (report_toast_corruption ctx ta msg)" "\<not> silent ctx (report_toast_corruption ctx ta msg)"
  by (auto simp: extends_def silent_def reports_added_def report_toast_corruption_def report_corruption_internal_def)

lemma report_toast_after [simp]:
  "extends ctx ctx' \<Longrightarrow> extends ctx (report_toast_corruption ctx' ta msg)"
  "extends ctx ctx' \<Longrightarrow> \<not> silent ctx (report_toast_corruption ctx' ta msg)"
  using extends_trans [of ctx ctx' "report_toast_corruption ctx' ta msg"]
    silent_trans [of ctx ctx' "report_toast_corruption ctx' ta msg"] by simp_all

section \<open>Chunks\<close>

text \<open>A chunk can be read up to the length its header says.\<close>

definition chunk_readable :: "toast_chunk \<Rightarrow> bool" where
  "chunk_readable c \<longleftrightarrow> (case toast_chunk_payload (chunk_data c) of
       Inl e \<Rightarrow> e \<noteq> MemFault \<and> 4 \<le> length (chunk_data c)
     | Inr (n, k) \<Rightarrow> 0 \<le> n \<and> k + nat n \<le> length (chunk_data c))"

text \<open>The chunk number \<open>i\<close> of a value of \<open>n\<close> bytes.\<close>

definition last_no :: "nat \<Rightarrow> nat" where "last_no n = (n - 1) div max_chunk"

definition chunk_len :: "nat \<Rightarrow> int \<Rightarrow> int" where
  "chunk_len n i = (if i < int (last_no n) then int max_chunk else int (n - last_no n * max_chunk))"

definition good_chunk :: "nat \<Rightarrow> int \<Rightarrow> toast_chunk \<Rightarrow> bool" where
  "good_chunk n i c \<longleftrightarrow> chunk_seq c = i \<and> i \<le> int (last_no n) \<and>
     (\<exists>k. toast_chunk_payload (chunk_data c) = Inr (chunk_len n i, k))"

fun good_chunks :: "nat \<Rightarrow> int \<Rightarrow> toast_chunk list \<Rightarrow> bool" where
  "good_chunks n i [] = True"
| "good_chunks n i (c # cs) = (good_chunk n i c \<and> good_chunks n (i + 1) cs)"

lemma last_no_mod:
  assumes "0 < n"
  shows "n = last_no n * max_chunk + (n - 1) mod max_chunk + 1" "(n - 1) mod max_chunk < max_chunk" "last_no n < n"
proof -
  have "n - 1 = last_no n * max_chunk + (n - 1) mod max_chunk" by (simp add: last_no_def)
  with assms show "n = last_no n * max_chunk + (n - 1) mod max_chunk + 1" by linarith
  have "last_no n \<le> n - 1" unfolding last_no_def by (rule div_le_dividend)
  with assms show "last_no n < n" by linarith
qed simp

lemma chunk_len_bounds:
  assumes "0 < n" "i \<le> last_no n"
  shows "0 < chunk_len n (int i)" "int (i * max_chunk) + chunk_len n (int i) \<le> int n"
    "i = last_no n \<Longrightarrow> int ((n - 1) mod max_chunk) = chunk_len n (int i) - 1"
proof -
  define r where "r = (n - 1) mod max_chunk"
  have m: "n = last_no n * max_chunk + r + 1" and r: "r < max_chunk"
    using last_no_mod [OF assms(1)] by (simp_all add: r_def)
  have "i < last_no n \<Longrightarrow> (i + 1) * max_chunk \<le> last_no n * max_chunk"
    by (intro mult_le_mono1) simp
  then show "0 < chunk_len n (int i)" "int (i * max_chunk) + chunk_len n (int i) \<le> int n"
    "i = last_no n \<Longrightarrow> int ((n - 1) mod max_chunk) = chunk_len n (int i) - 1"
    unfolding r_def [symmetric] using m r assms by (auto simp: chunk_len_def)
qed

lemma last_chunk_len:
  assumes "0 < n" "n < 2 ^ 30"
  shows "last_chunk (word_of_int (int n)) = int (last_no n)"
    "uint (word_of_int (int n) :: 32 word) = int n"
    "to_int32 (int n - int (last_no n) * TOAST_MAX_CHUNK_SIZE) = chunk_len n (int (last_no n))"
proof -
  have "uint (word_of_int (int n - 1) :: 32 word) = int n - 1"
    using assms by (subst uint_word_of_int) simp
  then have u: "uint (word_of_int (int n) - 1 :: 32 word) = int n - 1" by simp
  have d: "(int n - 1) div TOAST_MAX_CHUNK_SIZE = int (last_no n)"
    using assms by (simp add: last_no_def TOAST_MAX_CHUNK_SIZE_def zdiv_int of_nat_diff)
  have "to_int32 (int (last_no n)) = int (last_no n)"
    using last_no_mod(3) [OF assms(1)] assms(2) by (intro to_int32_small) auto
  then show "last_chunk (word_of_int (int n)) = int (last_no n)" unfolding last_chunk_def u d .
  show "uint (word_of_int (int n) :: 32 word) = int n"
    using assms by (subst uint_word_of_int) simp
  have "last_no n * max_chunk \<le> n" using last_no_mod(1) [OF assms(1)] by linarith
  then have e: "int n - int (last_no n) * TOAST_MAX_CHUNK_SIZE = chunk_len n (int (last_no n))"
    by (simp add: chunk_len_def TOAST_MAX_CHUNK_SIZE_def of_nat_diff)
  show "to_int32 (int n - int (last_no n) * TOAST_MAX_CHUNK_SIZE) = chunk_len n (int (last_no n))"
    unfolding e using assms by (intro to_int32_small) (auto simp: chunk_len_def)
qed

lemma expected_size:
  assumes "0 < n" "n < 2 ^ 30" "j \<le> int (last_no n)"
  shows "(if j < int (last_no n) then TOAST_MAX_CHUNK_SIZE
      else to_int32 (int n - int (last_no n) * TOAST_MAX_CHUNK_SIZE)) = chunk_len n j"
  unfolding last_chunk_len(3) [OF assms(1,2)] using assms(3) by (auto simp: chunk_len_def TOAST_MAX_CHUNK_SIZE_def)

section \<open>The check\<close>

lemma check_toast_tuple_good:
  assumes n: "0 < n" "n < 2 ^ 30" and r: "chunk_readable c"
  shows "\<exists>ctx'. check_toast_tuple (Some (chunk_seq c)) (Some (chunk_data c)) ta (word_of_int (int n)) (ctx, i) =
      Inr (ctx', chunk_seq c + 1) \<and> extends ctx ctx' \<and> (silent ctx ctx' \<longleftrightarrow> good_chunk n i c)"
proof (cases "toast_chunk_payload (chunk_data c)")
  case (Inl e)
  with r have e: "VARATT_IS_EXTENDED (chunk_data c)" "\<not> VARATT_IS_SHORT (chunk_data c)"
    "\<exists>w. rd_u32 (chunk_data c) 0 = Inr w"
    by (auto simp: chunk_readable_def toast_chunk_payload_def VARSIZE_4B_def rd_u32_def rd_range_def bindE_def
        split: if_splits)
  from Inl have "\<not> good_chunk n i c" by (auto simp: good_chunk_def)
  with e show ?thesis by (auto simp: check_toast_tuple_def Let_def)
next
  case (Inr p)
  obtain s k where p: "p = (s, k)" by (cases p)
  have size: "(if \<not> VARATT_IS_EXTENDED (chunk_data c) then bindE (VARSIZE_4B (chunk_data c)) (\<lambda>n. Inr (n - VARHDRSZ))
      else Inr (VARSIZE_1B (chunk_data c) - VARHDRSZ_SHORT)) = Inr s"
    and v: "\<not> (VARATT_IS_EXTENDED (chunk_data c) \<and> \<not> VARATT_IS_SHORT (chunk_data c))"
    using Inr p by (auto simp: toast_chunk_payload_def bindE_eq_Inr_iff split: if_splits)
  have g: "good_chunk n i c \<longleftrightarrow> chunk_seq c = i \<and> i \<le> int (last_no n) \<and> s = chunk_len n i"
    using Inr p by (auto simp: good_chunk_def)
  have es: "j \<le> int (last_no n) \<Longrightarrow>
      (if j < int (last_no n) then TOAST_MAX_CHUNK_SIZE else chunk_len n (int (last_no n))) = chunk_len n j" for j
    by (auto simp: chunk_len_def TOAST_MAX_CHUNK_SIZE_def)
  define ctx1 where "ctx1 = (if chunk_seq c \<noteq> i
    then report_toast_corruption ctx ta (ChunkUnexpected (va_valueid (ta_toast_pointer ta)) (chunk_seq c) i) else ctx)"
  have c1: "extends ctx ctx1" "silent ctx ctx1 \<longleftrightarrow> chunk_seq c = i" by (simp_all add: ctx1_def)
  show ?thesis
    unfolding check_toast_tuple_def Let_def prod.case option.case size if_not_P [OF v] bindE_simps last_chunk_len [OF n]
      ctx1_def [symmetric]
    using c1 g es [of "chunk_seq c"] by auto
qed

lemma check_chunks_good:
  assumes n: "0 < n" "n < 2 ^ 30" and r: "\<forall>c\<in>set cs. chunk_readable c"
  shows "\<exists>ctx' e. check_chunks ta (word_of_int (int n)) cs (ctx, i) = Inr (ctx', e) \<and> extends ctx ctx' \<and>
    (silent ctx ctx' \<longleftrightarrow> good_chunks n i cs) \<and> (good_chunks n i cs \<longrightarrow> e = i + int (length cs))"
  using r
proof (induction cs arbitrary: ctx i)
  case (Cons c cs)
  obtain ctx1 where s: "check_toast_tuple (Some (chunk_seq c)) (Some (chunk_data c)) ta (word_of_int (int n)) (ctx, i) =
      Inr (ctx1, chunk_seq c + 1)" "extends ctx ctx1" "silent ctx ctx1 \<longleftrightarrow> good_chunk n i c"
    using check_toast_tuple_good [OF n, of c ta ctx i] Cons.prems by auto
  obtain ctx2 e where u: "check_chunks ta (word_of_int (int n)) cs (ctx1, chunk_seq c + 1) = Inr (ctx2, e)"
    "extends ctx1 ctx2" "silent ctx1 ctx2 \<longleftrightarrow> good_chunks n (chunk_seq c + 1) cs"
    "good_chunks n (chunk_seq c + 1) cs \<longrightarrow> e = chunk_seq c + 1 + int (length cs)"
    using Cons.IH [of ctx1 "chunk_seq c + 1"] Cons.prems by auto
  have "good_chunk n i c \<Longrightarrow> chunk_seq c = i" by (simp add: good_chunk_def)
  with s u show ?case using extends_trans [OF s(2) u(2)] silent_trans [OF s(2) u(2)] by auto
qed simp

section \<open>Fetching\<close>

lemma fetch_chunk:
  assumes n: "0 < n" "n < 2 ^ 30" and r: "chunk_readable c" and b: "length buf = n"
  shows "(\<exists>buf'. length buf' = n \<and> (\<forall>cs. toast_fetch_loop (int n) (int (last_no n) + 1) 0 (int (last_no n)) 0 (int n) (c # cs) (int i) buf =
      toast_fetch_loop (int n) (int (last_no n) + 1) 0 (int (last_no n)) 0 (int n) cs (int (i + 1)) buf')) \<or>
    \<not> good_chunk n (int i) c"
proof (cases "good_chunk n (int i) c")
  case True
  then obtain k where q: "chunk_seq c = int i" "i \<le> last_no n"
    "toast_chunk_payload (chunk_data c) = Inr (chunk_len n (int i), k)"
    by (auto simp: good_chunk_def)
  note cb = chunk_len_bounds [OF n(1) q(2)]
  have rd: "k + nat (chunk_len n (int i)) \<le> length (chunk_data c)"
    using r q(3) by (simp add: chunk_readable_def)
  obtain bs where bs: "rd_range (chunk_data c) k (nat (chunk_len n (int i))) = Inr bs"
    "length bs = nat (chunk_len n (int i))"
    using rd cb(1) by (auto simp: rd_range_def)
  have "int i * TOAST_MAX_CHUNK_SIZE = int (i * max_chunk)" by (simp add: TOAST_MAX_CHUNK_SIZE_def)
  then obtain buf' where bw: "buf_write buf (int i * TOAST_MAX_CHUNK_SIZE) bs = Inr buf'" "length buf' = n"
    using b cb bs(2) by (auto simp: buf_write_def)
  have es: "(if int i < int (last_no n) + 1 - 1 then TOAST_MAX_CHUNK_SIZE
      else to_int32 (int n - (int (last_no n) + 1 - 1) * TOAST_MAX_CHUNK_SIZE)) = chunk_len n (int i)"
    using expected_size [OF n, of "int i"] q(2) by (simp only: add_diff_cancel_right' of_nat_le_iff)
  have z: "size_mod 0 TOAST_MAX_CHUNK_SIZE = 0" by (simp add: size_mod_def to_int32_def)
  have "int n - 1 = int (n - 1)" using n by simp
  then have m: "size_mod (0 + int n - 1) TOAST_MAX_CHUNK_SIZE = int ((n - 1) mod max_chunk)"
    using size_mod_int [of "n - 1" max_chunk] n by (simp only: TOAST_MAX_CHUNK_SIZE_def add_0) simp
  have e: "(if int i = int (last_no n) then size_mod (0 + int n - 1) TOAST_MAX_CHUNK_SIZE else chunk_len n (int i) - 1) =
      chunk_len n (int i) - 1"
    using cb(3) m by auto
  have z': "(if int i = 0 then size_mod 0 TOAST_MAX_CHUNK_SIZE else 0) = 0" using z by simp
  have "toast_fetch_loop (int n) (int (last_no n) + 1) 0 (int (last_no n)) 0 (int n) (c # cs) (int i) buf =
      toast_fetch_loop (int n) (int (last_no n) + 1) 0 (int (last_no n)) 0 (int n) cs (int (i + 1)) buf'" for cs
    unfolding toast_fetch_loop.simps Let_def q(1,3) bindE_simps prod.case es e z'
    using q(2) bs(1) bw(1) by (simp add: add.commute)
  with bw(2) show ?thesis by blast
qed simp

lemma fetch_bad_chunk:
  assumes n: "0 < n" "n < 2 ^ 30" and g: "\<not> good_chunk n (int i) c"
  shows "toast_fetch_loop (int n) (int (last_no n) + 1) 0 (int (last_no n)) 0 (int n) (c # cs) (int i) buf \<noteq> Inr s"
proof
  assume a: "toast_fetch_loop (int n) (int (last_no n) + 1) 0 (int (last_no n)) 0 (int n) (c # cs) (int i) buf = Inr s"
  then obtain size k where p: "toast_chunk_payload (chunk_data c) = Inr (size, k)" "chunk_seq c = int i" "i \<le> last_no n"
    "size = (if int i < int (last_no n) then TOAST_MAX_CHUNK_SIZE
      else to_int32 (int n - int (last_no n) * TOAST_MAX_CHUNK_SIZE))"
    by (auto simp: Let_def bindE_eq_Inr_iff split: if_splits)
  with expected_size [OF n, of "int i"] g show False by (auto simp: good_chunk_def)
qed

lemma fetch_loop_good:
  assumes n: "0 < n" "n < 2 ^ 30" and r: "\<forall>c\<in>set cs. chunk_readable c" and b: "length buf = n"
  shows "good_chunks n (int i) cs \<longleftrightarrow>
    (\<exists>s. toast_fetch_loop (int n) (int (last_no n) + 1) 0 (int (last_no n)) 0 (int n) cs (int i) buf = Inr s)"
  using r b
proof (induction cs arbitrary: i buf)
  case (Cons c cs)
  show ?case
  proof (cases "good_chunk n (int i) c")
    case True
    then obtain buf' where f: "length buf' = n"
      "toast_fetch_loop (int n) (int (last_no n) + 1) 0 (int (last_no n)) 0 (int n) (c # cs) (int i) buf =
        toast_fetch_loop (int n) (int (last_no n) + 1) 0 (int (last_no n)) 0 (int n) cs (int (i + 1)) buf'"
      using fetch_chunk [OF n, of c buf i] Cons.prems by auto
    have "good_chunks n (int (i + 1)) cs \<longleftrightarrow>
        (\<exists>s. toast_fetch_loop (int n) (int (last_no n) + 1) 0 (int (last_no n)) 0 (int n) cs (int (i + 1)) buf' = Inr s)"
      using Cons.IH [of buf' "i + 1"] f(1) Cons.prems by simp
    with True f(2) show ?thesis by (simp add: add.commute del: toast_fetch_loop.simps)
  next
    case False
    then show ?thesis using fetch_bad_chunk [OF n False] by simp
  qed
qed simp

text \<open>Reading the whole value.\<close>

lemma heap_fetch_whole:
  fixes vid :: oid
  assumes n: "0 < n" "n < 2 ^ 30" and r: "\<forall>c\<in>set (tr_rows trel). chunk_readable c" and b: "length buf = n"
    and ix: "has_valid_index trel"
  defines "scan \<equiv> scan_ordered trel (\<lambda>c. chunk_id c = vid)"
  shows "(\<exists>out. heap_fetch_toast_slice trel vid (int n) 0 (int n) buf = Inr out) \<longleftrightarrow>
    good_chunks n 0 scan \<and> length scan = last_no n + 1"
proof -
  obtain i where i: "toast_open_indexes trel = Inr i" using toast_open_indexes_valid [OF ix] by blast
  have l: "int (last_no n) + 1 < 2 ^ 31" using n last_no_mod(3) [OF n(1)] by simp
  have d: "(int n - 1) mod 2 ^ 64 div TOAST_MAX_CHUNK_SIZE = int (last_no n)"
    using n by (simp add: last_no_def TOAST_MAX_CHUNK_SIZE_def zdiv_int of_nat_diff)
  have t: "to_int32 ((int n - 1) mod 2 ^ 64 div TOAST_MAX_CHUNK_SIZE + 1) = int (last_no n) + 1"
    unfolding d using l by (simp add: to_int32_small)
  have s: "size_div 0 TOAST_MAX_CHUNK_SIZE = 0" by (simp add: size_div_def to_int32_def)
  have e: "size_div (0 + int n - 1) TOAST_MAX_CHUNK_SIZE = int (last_no n)"
    unfolding size_div_def add_0 d using l by (simp add: to_int32_small)
  have rs: "\<forall>c\<in>set scan. chunk_readable c" using r by (simp add: scan_def scan_ordered_def)
  have f: "heap_fetch_toast_slice trel vid (int n) 0 (int n) buf =
    bindE (toast_fetch_loop (int n) (int (last_no n) + 1) 0 (int (last_no n)) 0 (int n) scan 0 buf)
      (\<lambda>(expectedchunk, result). if expectedchunk \<noteq> int (last_no n) + 1 then Inl (Ereport ERRCODE_DATA_CORRUPTED)
        else Inr result)"
    unfolding heap_fetch_toast_slice_def Let_def t s e i bindE_simps by (simp add: scan_def)
  show ?thesis
  proof (cases "good_chunks n 0 scan")
    case True
    then obtain ex out where x: "toast_fetch_loop (int n) (int (last_no n) + 1) 0 (int (last_no n)) 0 (int n) scan 0 buf = Inr (ex, out)"
      using fetch_loop_good [OF n rs b, of 0] by auto
    then have "ex = int (length scan)" using toast_fetch_loop_seq [OF x] by simp
    with x True show ?thesis by (auto simp: f)
  next
    case False
    then show ?thesis using fetch_loop_good [OF n rs b, of 0] by (auto simp: f bindE_eq_Inr_iff)
  qed
qed

lemma chunk_readable_chunks: "c \<in> set (chunks vid data) \<Longrightarrow> chunk_readable c"
  unfolding chunks_def
proof clarsimp
  fix i
  have "length (chunk_data (chunk_of vid data i)) = 4 + length (take max_chunk (drop (i * max_chunk) data))"
    by (simp add: chunk_of_def mk_plain_def SET_VARSIZE_4B_def)
  then show "chunk_readable (chunk_of vid data i)"
    by (simp add: chunk_readable_def toast_chunk_payload_of del: length_take)
qed

text \<open>The check of an out-of-line value, by the chunks the scan finds.\<close>

lemma extsize_small:
  assumes "VARATT_EXTERNAL_GET_EXTSIZE tp = int n"
  shows "n < 2 ^ 30"
proof -
  have "int n \<le> uint (VARLENA_EXTSIZE_MASK :: 32 word)"
    using assms by (simp add: VARATT_EXTERNAL_GET_EXTSIZE_def unsigned_and_eq flip: assms)
  moreover have "uint (VARLENA_EXTSIZE_MASK :: 32 word) = 2 ^ 30 - 1" by code_simp
  ultimately show ?thesis by simp
qed

lemma check_toasted_attribute_scan:
  assumes "hc_toast_rel ctx = Some trel" "VARATT_EXTERNAL_GET_EXTSIZE (ta_toast_pointer ta) = int n" "0 < n"
  defines "scan \<equiv> scan_ordered trel (\<lambda>c. chunk_id c = va_valueid (ta_toast_pointer ta))"
  assumes rs: "\<forall>c\<in>set scan. chunk_readable c"
  shows "\<exists>ctx'. check_toasted_attribute ctx ta = Inr ctx' \<and>
    (silent ctx ctx' \<longleftrightarrow> good_chunks n 0 scan \<and> length scan = last_no n + 1)"
proof -
  let ?vid = "va_valueid (ta_toast_pointer ta)"
  note n = extsize_small [OF assms(2)]
  obtain ctx1 e where c: "check_chunks ta (word_of_int (int n)) scan (ctx, 0) = Inr (ctx1, e)" "extends ctx ctx1"
    "silent ctx ctx1 \<longleftrightarrow> good_chunks n 0 scan" "good_chunks n 0 scan \<longrightarrow> e = int (length scan)"
    using check_chunks_good [OF assms(3) n rs, of ta ctx 0] by auto
  have le: "good_chunks n i cs \<Longrightarrow> cs \<noteq> [] \<Longrightarrow> i + int (length cs) \<le> int (last_no n) + 1" for i cs
  proof (induction cs arbitrary: i)
    case (Cons c cs)
    then show ?case using Cons.IH [of "i + 1"] by (cases cs) (auto simp: good_chunk_def)
  qed simp
  have u: "check_toasted_attribute ctx ta =
    (if scan = [] then Inr (report_toast_corruption ctx1 ta (ToastValueNotFound ?vid))
     else if e \<le> int (last_no n)
     then Inr (report_toast_corruption ctx1 ta (ToastValueIncomplete ?vid (int (last_no n)) e))
     else Inr ctx1)"
    unfolding check_toasted_attribute_def assms(1,2) option.case Let_def scan_def [symmetric] c(1) bindE_simps prod.case
      last_chunk_len(1) [OF assms(3) n] ..
  have nr: "\<not> silent ctx (report_toast_corruption ctx1 ta msg)" for msg using c(2) by simp
  show ?thesis
  proof (cases "good_chunks n 0 scan \<and> length scan = last_no n + 1")
    case True
    with c(4) have "scan \<noteq> []" "\<not> e \<le> int (last_no n)" by auto
    with True c(3) show ?thesis by (simp add: u)
  next
    case False
    have "\<not> silent ctx ctx1" if "scan \<noteq> []" "\<not> e \<le> int (last_no n)"
      using that False c(3,4) le [of 0 scan] by auto
    then show ?thesis using False nr by (simp add: u)
  qed
qed

lemma report_toast_rel [simp]: "hc_toast_rel (report_toast_corruption ctx ta msg) = hc_toast_rel ctx"
  by (simp add: report_toast_corruption_def report_corruption_internal_def)

lemma check_toast_tuple_rel:
  "check_toast_tuple seq data ta extsize (ctx, i) = Inr (ctx', i') \<Longrightarrow> hc_toast_rel ctx' = hc_toast_rel ctx"
  unfolding check_toast_tuple_def Let_def
  by (cases seq; cases data) (auto simp: bindE_eq_Inr_iff split: if_splits prod.splits)

lemma check_chunks_rel:
  "check_chunks ta extsize cs s = Inr s' \<Longrightarrow> hc_toast_rel (fst s') = hc_toast_rel (fst s)"
proof (induction cs arbitrary: s)
  case (Cons c cs)
  then show ?case by (cases s) (fastforce simp: bindE_eq_Inr_iff dest: check_toast_tuple_rel)
qed simp

lemma check_toasted_attribute_rel:
  "check_toasted_attribute ctx ta = Inr ctx' \<Longrightarrow> hc_toast_rel ctx' = hc_toast_rel ctx"
  unfolding check_toasted_attribute_def Let_def
  by (auto simp: bindE_eq_Inr_iff split: option.splits if_splits dest!: check_chunks_rel)

text \<open>A stored value is passed, whatever else the table holds.\<close>

lemma check_toasted_attribute_stored:
  assumes "hc_toast_rel ctx = Some trel" "has_valid_index trel" "stored trel (va_valueid (ta_toast_pointer ta)) data"
    "VARATT_EXTERNAL_GET_EXTSIZE (ta_toast_pointer ta) = int (length data)" "0 < length data"
  shows "\<exists>ctx'. check_toasted_attribute ctx ta = Inr ctx' \<and> silent ctx ctx' \<and> hc_toast_rel ctx' = hc_toast_rel ctx"
proof -
  let ?vid = "va_valueid (ta_toast_pointer ta)" and ?n = "length data"
  let ?t = "trel\<lparr>tr_rows := chunks ?vid data\<rparr>"
  note n = extsize_small [OF assms(4)]
  have r: "\<forall>c\<in>set (chunks ?vid data). chunk_readable c" using chunk_readable_chunks by blast
  have s: "scan_ordered trel (\<lambda>c. chunk_id c = ?vid) = chunks ?vid data" "scan_ordered ?t (\<lambda>c. chunk_id c = ?vid) = chunks ?vid data"
    using assms(3) by (simp_all add: stored_def scan_ordered_def filter_chunks sorted_chunks)
  have "\<exists>out. heap_fetch_toast_slice ?t ?vid (int ?n) 0 (int ?n) (replicate ?n 0) = Inr out"
    using heap_fetch_stored [of ?t ?vid data ?n 0 "replicate ?n 0"] assms(2,5) n s(2)
    by (simp add: stored_def has_valid_index_def)
  then have "good_chunks ?n 0 (chunks ?vid data) \<and> length (chunks ?vid data) = last_no ?n + 1"
    using heap_fetch_whole [OF assms(5) n, of ?t "replicate ?n 0" ?vid] r assms(2) s(2)
    by (simp add: has_valid_index_def)
  with check_toasted_attribute_scan [OF assms(1,4,5)] r s(1) check_toasted_attribute_rel show ?thesis by metis
qed

text \<open>C17. The check of an out-of-line value is exact: on a TOAST table whose chunks can be read up to
  their lengths, \<open>check_toasted_attribute\<close> ends without fault and adds no report if and only if
  \<open>heap_fetch_toast_slice\<close> succeeds in reading all of the value the pointer describes. Neither a
  readable value is reported nor a damaged one passed over.\<close>

theorem check_toasted_attribute_correct:
  assumes "hc_toast_rel ctx = Some trel" "has_valid_index trel" "\<forall>c\<in>set (tr_rows trel). chunk_readable c"
    and "VARATT_EXTERNAL_GET_EXTSIZE (ta_toast_pointer ta) = int n" "0 < n" "length buf = n"
  shows "\<exists>ctx'. check_toasted_attribute ctx ta = Inr ctx' \<and>
    (hc_tupstore ctx' = hc_tupstore ctx \<longleftrightarrow>
      (\<exists>out. heap_fetch_toast_slice trel (va_valueid (ta_toast_pointer ta)) (int n) 0 (int n) buf = Inr out))"
proof -
  let ?vid = "va_valueid (ta_toast_pointer ta)"
  have "\<forall>c\<in>set (scan_ordered trel (\<lambda>c. chunk_id c = ?vid)). chunk_readable c"
    using assms(3) by (simp add: scan_ordered_def)
  from check_toasted_attribute_scan [OF assms(1,4,5) this]
    heap_fetch_whole [OF assms(5) extsize_small [OF assms(4)] assms(3,6,2), of ?vid]
  show ?thesis by (auto simp: silent_def)
qed

definition demo_ta :: toasted_attribute where
  "demo_ta = \<lparr>ta_toast_pointer = demo_tp, ta_blkno = 0, ta_offnum = 1, ta_attnum = 0\<rparr>"

lemma demo_rel_stored: "stored demo_rel 5 demo_data" "has_valid_index demo_rel"
  by (simp_all add: stored_def demo_rel_def scan_ordered_def filter_chunks sorted_chunks has_valid_index_def)

definition demo_shmem :: shmem where
  "demo_shmem = \<lparr>sh_nextXid = 1000, sh_oldestXid = 700, sh_oldestClogXid = 700, sh_oldestMultiXactId = 1, sh_nextMXact = 1,
     TransactionIdIsCurrentTransactionId = (\<lambda>_. False), TransactionIdIsInProgress = (\<lambda>_. False),
     TransactionIdDidCommit = (\<lambda>_. True), GetMultiXactIdMembers = (\<lambda>_. [])\<rparr>"

definition demo_check_rel :: "bytes list \<Rightarrow> check_rel" where
  "demo_check_rel blocks = \<lparr>cr_relkind = CHR ''r'', cr_relam = HEAP_TABLE_AM_OID, cr_relpersistence = CHR ''p'',
     cr_reltoastrelid = 9, cr_relfrozenxid = 700, cr_relminmxid = 1, cr_desc = \<lparr>td_attrs = [], tdtypeid = 0, tdtypmod = 0\<rparr>,
     cr_blocks = blocks, cr_vm = (\<lambda>_. (False, False))\<rparr>"

definition demo_ctx :: heap_check_context where
  "demo_ctx = init_context demo_shmem 900 (demo_check_rel []) (Some demo_rel)"

theorem check_toasted_attribute_correct_witness:
  "\<exists>ctx'. check_toasted_attribute demo_ctx demo_ta = Inr ctx' \<and> hc_tupstore ctx' = []"
proof -
  have a: "hc_toast_rel demo_ctx = Some demo_rel" "hc_tupstore demo_ctx = []"
    by (simp_all add: demo_ctx_def init_context_def update_cached_xid_range_def update_cached_mxid_range_def Let_def)
  have b: "\<forall>c\<in>set (tr_rows demo_rel). chunk_readable c"
    using chunk_readable_chunks by (simp add: demo_rel_def)
  have c: "VARATT_EXTERNAL_GET_EXTSIZE (ta_toast_pointer demo_ta) = int 2000" by code_simp
  have d: "va_valueid (ta_toast_pointer demo_ta) = 5" by (simp add: demo_ta_def demo_tp_def)
  have "heap_fetch_toast_slice demo_rel 5 (int 2000) 0 (int 2000) (replicate 2000 0) = Inr demo_data"
    using heap_fetch_stored [OF demo_rel_stored(1,2), of 2000 0 "replicate 2000 0"] by (simp add: demo_data_def)
  then show ?thesis
    using check_toasted_attribute_correct [OF a(1) demo_rel_stored(2) b c, of "replicate 2000 0"] a(2) d by auto
qed

end
