(* ===== verification/Verify_Tuple_Correct.thy ===== *)
theory Verify_Tuple_Correct
  imports Verify_Toast_Correct Heaptuple_Access_Correct
begin

text \<open>
  The check of one tuple: a tuple it passes can be taken apart by \<open>heap_deform_tuple\<close>, and a tuple
  that holds a row is passed, with its out-of-line values.
\<close>

section \<open>What a check leaves alone\<close>

definition frame :: "heap_check_context \<Rightarrow> heap_tuple_header \<times> nat \<times> tuple_desc \<times> nat \<times> toast_rel option \<times> oid" where
  "frame ctx = (hc_tuphdr ctx, hc_natts ctx, hc_desc ctx, hc_lp_len ctx, hc_toast_rel ctx, hc_reltoastrelid ctx)"

lemma frameD:
  "frame ctx = frame ctx' \<Longrightarrow> hc_tuphdr ctx = hc_tuphdr ctx' \<and> hc_natts ctx = hc_natts ctx' \<and> hc_desc ctx = hc_desc ctx' \<and>
     hc_lp_len ctx = hc_lp_len ctx' \<and> hc_toast_rel ctx = hc_toast_rel ctx' \<and> hc_reltoastrelid ctx = hc_reltoastrelid ctx'"
  by (simp add: frame_def)

text \<open>A step that adds reports and keeps the tuple.\<close>

definition step_ok :: "heap_check_context \<Rightarrow> heap_check_context \<Rightarrow> bool" where
  "step_ok ctx ctx' \<longleftrightarrow> extends ctx ctx' \<and> frame ctx' = frame ctx"

lemma step_ok_refl [simp]: "step_ok ctx ctx"
  by (simp add: step_ok_def)

lemma step_ok_trans: "step_ok a b \<Longrightarrow> step_ok b c \<Longrightarrow> step_ok a c"
  by (auto simp: step_ok_def intro: extends_trans)

lemma step_silent: "step_ok a b \<Longrightarrow> step_ok b c \<Longrightarrow> silent a c \<longleftrightarrow> silent a b \<and> silent b c"
  by (simp add: step_ok_def silent_trans)

lemma report_step [simp]:
  "step_ok ctx (report_corruption ctx msg)" "\<not> silent ctx (report_corruption ctx msg)"
  "hc_attnum (report_corruption ctx msg) = hc_attnum ctx" "hc_offset (report_corruption ctx msg) = hc_offset ctx"
  "hc_toasted_attributes (report_corruption ctx msg) = hc_toasted_attributes ctx"
  by (auto simp: step_ok_def extends_def silent_def reports_added_def report_corruption_def frame_def
      report_corruption_internal_def)

lemma report_after [simp]:
  "step_ok ctx ctx' \<Longrightarrow> step_ok ctx (report_corruption ctx' msg)"
  "step_ok ctx ctx' \<Longrightarrow> \<not> silent ctx (report_corruption ctx' msg)"
  using step_ok_trans [of ctx ctx' "report_corruption ctx' msg"]
    step_silent [of ctx ctx' "report_corruption ctx' msg"] by simp_all

lemma set_fields_step [simp]:
  "step_ok ctx (ctx'\<lparr>hc_offset := off\<rparr>) \<longleftrightarrow> step_ok ctx ctx'"
  "step_ok ctx (ctx'\<lparr>hc_attnum := k\<rparr>) \<longleftrightarrow> step_ok ctx ctx'"
  "step_ok ctx (ctx'\<lparr>hc_toasted_attributes := tas\<rparr>) \<longleftrightarrow> step_ok ctx ctx'"
  "step_ok ctx (ctx'\<lparr>hc_tuple_could_be_pruned := b\<rparr>) \<longleftrightarrow> step_ok ctx ctx'"
  "silent ctx (ctx'\<lparr>hc_offset := off\<rparr>) \<longleftrightarrow> silent ctx ctx'"
  "silent ctx (ctx'\<lparr>hc_attnum := k\<rparr>) \<longleftrightarrow> silent ctx ctx'"
  "silent ctx (ctx'\<lparr>hc_toasted_attributes := tas\<rparr>) \<longleftrightarrow> silent ctx ctx'"
  "silent ctx (ctx'\<lparr>hc_tuple_could_be_pruned := b\<rparr>) \<longleftrightarrow> silent ctx ctx'"
  by (simp_all add: step_ok_def frame_def extends_def reports_added_def silent_def)

lemma check_toast_pointer_step [simp]:
  "step_ok ctx (check_toast_pointer ctx tp)" "hc_attnum (check_toast_pointer ctx tp) = hc_attnum ctx"
  "hc_offset (check_toast_pointer ctx tp) = hc_offset ctx"
  by (auto simp: check_toast_pointer_def Let_def)

section \<open>One attribute\<close>

text \<open>The three ways through \<open>check_tuple_attribute\<close> that add no report: a null, an attribute that is not
  a varlena, a varlena.\<close>

lemma check_tuple_attribute_cases:
  assumes "check_tuple_attribute ctx = Inr (ok, ctx')" "TupleDescAttr (hc_desc ctx) (nat (hc_attnum ctx)) = Inr a"
  obtains (reported) "step_ok ctx ctx'" "\<not> silent ctx ctx'" "\<not> ok" "hc_attnum ctx' = hc_attnum ctx"
  | (null) "ok" "ctx' = ctx" "unat (t_hoff (hc_tuphdr ctx)) + hc_offset ctx \<le> hc_lp_len ctx"
      "infomask_has (hc_tuphdr ctx) HEAP_HASNULL" "att_isnull (nat (hc_attnum ctx)) (t_bits (hc_tuphdr ctx)) = Inr True"
  | (plain) off where "ok" "ctx' = ctx\<lparr>hc_offset := off\<rparr>" "attlen a \<noteq> -1"
      "(if infomask_has (hc_tuphdr ctx) HEAP_HASNULL then att_isnull (nat (hc_attnum ctx)) (t_bits (hc_tuphdr ctx))
        else Inr False) = Inr False"
      "unat (t_hoff (hc_tuphdr ctx)) + off \<le> hc_lp_len ctx"
      "att_addlength_pointer (att_align_nominal (hc_offset ctx) (attalign a)) (attlen a)
        (drop (att_align_nominal (hc_offset ctx) (attalign a))
          (drop (unat (t_hoff (hc_tuphdr ctx)) - SizeofHeapTupleHeader) (t_bits (hc_tuphdr ctx)))) = Inr off"
  | (varlena) pos off where "ok" "attlen a = -1"
      "(if infomask_has (hc_tuphdr ctx) HEAP_HASNULL then att_isnull (nat (hc_attnum ctx)) (t_bits (hc_tuphdr ctx))
        else Inr False) = Inr False"
      "unat (t_hoff (hc_tuphdr ctx)) + off \<le> hc_lp_len ctx"
      "att_align_pointer (hc_offset ctx) (attalign a) (-1) (drop (hc_offset ctx)
        (drop (unat (t_hoff (hc_tuphdr ctx)) - SizeofHeapTupleHeader) (t_bits (hc_tuphdr ctx)))) = Inr pos"
      "att_addlength_pointer pos (attlen a) (drop pos
        (drop (unat (t_hoff (hc_tuphdr ctx)) - SizeofHeapTupleHeader) (t_bits (hc_tuphdr ctx)))) = Inr off"
      "ctx' = ctx\<lparr>hc_offset := off\<rparr> \<or> (\<exists>tp. ctx' = check_toast_pointer (ctx\<lparr>hc_offset := off\<rparr>) tp)"
proof -
  define h where "h = hc_tuphdr ctx"
  define tp where "tp = drop (unat (t_hoff h) - SizeofHeapTupleHeader) (t_bits h)"
  define nul where "nul = (if infomask_has h HEAP_HASNULL then att_isnull (nat (hc_attnum ctx)) (t_bits h) else Inr False)"
  note u = assms(1) [unfolded check_tuple_attribute_def Let_def assms(2) bindE_simps,
      folded h_def, folded tp_def nul_def]
  show thesis
  proof (cases "unat (t_hoff h) + hc_offset ctx > hc_lp_len ctx")
    case True
    with u have "\<not> ok" "ctx' = report_corruption ctx
        (AttributeStartsBeyond (attlen a) (unat (t_hoff h) + hc_offset ctx) (hc_lp_len ctx))" by simp_all
    then show thesis by (intro reported) simp_all
  next
    case start: False
    then obtain n where n: "nul = Inr n" using u by (auto simp: bindE_eq_Inr_iff)
    show thesis
    proof (cases n)
      case True
      with u start n have "ok" "ctx' = ctx" by simp_all
      with True n start show thesis by (intro null) (simp_all add: h_def nul_def split: if_splits)
    next
      case nn: False
      show thesis
      proof (cases "attlen a = -1")
        case False
        let ?pos = "att_align_nominal (hc_offset ctx) (attalign a)"
        obtain off where off: "att_addlength_pointer ?pos (attlen a) (drop ?pos tp) = Inr off"
          using u start n nn False by (auto simp: bindE_eq_Inr_iff)
        show thesis
        proof (cases "unat (t_hoff h) + off > hc_lp_len ctx")
          case True
          with u start n nn False off have "\<not> ok" "ctx' = report_corruption (ctx\<lparr>hc_offset := off\<rparr>)
            (AttributeEndsBeyond (attlen a) (unat (t_hoff h) + off) (hc_lp_len ctx))" by simp_all
          then show thesis by (intro reported) simp_all
        next
          case fits: False
          with u start n nn False off have "ok" "ctx' = ctx\<lparr>hc_offset := off\<rparr>" by simp_all
          with fits False nn n off show thesis by (intro plain [of off]) (simp_all add: h_def nul_def tp_def split: if_splits)
        qed
      next
        case True
        obtain pos where pos: "att_align_pointer (hc_offset ctx) (attalign a) (-1) (drop (hc_offset ctx) tp) = Inr pos"
          using u start n nn True by (auto simp: bindE_eq_Inr_iff)
        show thesis
        proof (cases "VARATT_IS_EXTERNAL (drop pos tp) \<and> VARTAG_1B_E (drop pos tp) \<noteq> VARTAG_ONDISK")
          case bad: True
          with u start n nn True pos have "\<not> ok" "ctx' = report_corruption (ctx\<lparr>hc_offset := pos\<rparr>)
            (UnexpectedToastTag (VARTAG_1B_E (drop pos tp)))" by simp_all
          then show thesis by (intro reported) simp_all
        next
          case tag: False
          obtain off where off: "att_addlength_pointer pos (attlen a) (drop pos tp) = Inr off"
            using u start n nn True pos tag by (auto simp: bindE_eq_Inr_iff)
          show thesis
          proof (cases "unat (t_hoff h) + off > hc_lp_len ctx")
            case beyond: True
            with u start n nn True pos tag off have "\<not> ok" "ctx' = report_corruption (ctx\<lparr>hc_offset := off\<rparr>)
              (AttributeEndsBeyond (attlen a) (unat (t_hoff h) + off) (hc_lp_len ctx))" by simp_all
            then show thesis by (intro reported) simp_all
          next
            case fits: False
            have "ok \<and> (ctx' = ctx\<lparr>hc_offset := off\<rparr> \<or> (\<exists>t. ctx' = check_toast_pointer (ctx\<lparr>hc_offset := off\<rparr>) t))"
            proof (cases "VARATT_IS_EXTERNAL (drop pos tp)")
              case ext: True
              with u start n nn True pos tag off fits obtain t where "VARATT_EXTERNAL_GET_POINTER (drop pos tp) = Inr t"
                by (auto simp: bindE_eq_Inr_iff)
              with u start n nn True pos tag off fits ext show ?thesis by auto
            qed (use u start n nn True pos tag off fits in simp)
            with fits True nn n off pos show thesis
              by (intro varlena [of off pos]) (simp_all add: h_def nul_def tp_def split: if_splits)
          qed
        qed
      qed
    qed
  qed
qed

lemma check_tuple_attribute_step:
  assumes "check_tuple_attribute ctx = Inr (ok, ctx')"
  shows "step_ok ctx ctx' \<and> hc_attnum ctx' = hc_attnum ctx \<and> (silent ctx ctx' \<longrightarrow> ok)"
proof -
  obtain a where a: "TupleDescAttr (hc_desc ctx) (nat (hc_attnum ctx)) = Inr a"
    using assms by (auto simp: check_tuple_attribute_def Let_def bindE_eq_Inr_iff)
  have t: "step_ok ctx (check_toast_pointer (ctx\<lparr>hc_offset := off\<rparr>) tp)" for off tp
    using step_ok_trans [of ctx "ctx\<lparr>hc_offset := off\<rparr>" "check_toast_pointer (ctx\<lparr>hc_offset := off\<rparr>) tp"] by simp
  from assms a show ?thesis by (cases rule: check_tuple_attribute_cases) (auto simp: t)
qed

lemma check_attributes_step:
  "check_attributes n ctx = Inr ctx' \<Longrightarrow> step_ok ctx ctx'"
proof (induction n arbitrary: ctx)
  case (Suc n)
  then obtain ok ctx1 where c: "check_tuple_attribute ctx = Inr (ok, ctx1)" by (auto simp: bindE_eq_Inr_iff)
  note s = check_tuple_attribute_step [OF c]
  show ?case
  proof (cases ok)
    case True
    with Suc.prems c have "check_attributes n (ctx1\<lparr>hc_attnum := hc_attnum ctx1 + 1\<rparr>) = Inr ctx'" by simp
    from Suc.IH [OF this] s show ?thesis
      by (auto intro: step_ok_trans [of ctx "ctx1\<lparr>hc_attnum := hc_attnum ctx1 + 1\<rparr>"])
  next
    case False
    with Suc.prems c s show ?thesis by simp
  qed
qed simp

section \<open>The transaction checks keep the tuple\<close>

definition quiet :: "heap_check_context \<Rightarrow> heap_check_context \<Rightarrow> bool" where
  "quiet ctx ctx' \<longleftrightarrow> silent ctx ctx' \<and> frame ctx' = frame ctx \<and> hc_toasted_attributes ctx' = hc_toasted_attributes ctx \<and>
     hc_blkno ctx' = hc_blkno ctx \<and> hc_offnum ctx' = hc_offnum ctx"

lemma quiet_refl [simp]: "quiet ctx ctx"
  by (simp add: quiet_def)

lemma quiet_trans: "quiet a b \<Longrightarrow> quiet b c \<Longrightarrow> quiet a c"
  by (simp add: quiet_def silent_def)

lemma quiet_fields [simp]:
  "quiet ctx (ctx'\<lparr>hc_tuple_could_be_pruned := b\<rparr>) \<longleftrightarrow> quiet ctx ctx'"
  "quiet ctx (ctx'\<lparr>hc_cached_xid := x, hc_cached_status := st\<rparr>) \<longleftrightarrow> quiet ctx ctx'"
  "quiet (ctx\<lparr>hc_tuple_could_be_pruned := b\<rparr>) ctx' \<longleftrightarrow> quiet ctx ctx'"
  by (simp_all add: quiet_def frame_def silent_def)

lemma quiet_step: "quiet ctx ctx' \<Longrightarrow> step_ok ctx ctx' \<and> silent ctx ctx'"
  by (simp add: quiet_def step_ok_def extends_def silent_def reports_added_def)

lemma update_cached_quiet [simp]:
  "quiet ctx (update_cached_xid_range sh ctx)" "quiet ctx (update_cached_mxid_range sh ctx)"
  by (simp_all add: quiet_def frame_def silent_def update_cached_xid_range_def update_cached_mxid_range_def Let_def)

lemma get_xid_status_quiet: "get_xid_status sh xid ctx = (v, st, ctx') \<Longrightarrow> quiet ctx ctx'"
  by (auto simp: get_xid_status_def Let_def split: if_splits)

lemma check_mxid_quiet: "check_mxid_valid_in_rel sh mxid ctx = (v, ctx') \<Longrightarrow> quiet ctx ctx'"
  by (auto simp: check_mxid_valid_in_rel_def Let_def split: if_splits)

text \<open>What a step of the visibility check does: nothing to the tuple, or a report.\<close>

definition vis_step :: "heap_check_context \<Rightarrow> heap_check_context \<Rightarrow> bool" where
  "vis_step ctx ctx' \<longleftrightarrow> step_ok ctx ctx' \<and> (silent ctx ctx' \<longrightarrow> quiet ctx ctx')"

lemma vis_quiet: "quiet ctx ctx' \<Longrightarrow> vis_step ctx ctx'"
  by (simp add: vis_step_def quiet_step)

lemma vis_report: "quiet ctx ctx' \<Longrightarrow> vis_step ctx (report_corruption ctx' msg)"
  using quiet_step [of ctx ctx'] by (simp add: vis_step_def)

lemma vis_trans: "quiet a b \<Longrightarrow> vis_step b c \<Longrightarrow> vis_step a c"
  using quiet_step [of a b] step_ok_trans [of a b c] step_silent [of a b c] quiet_trans [of a b c]
  by (auto simp: vis_step_def)

lemma report_xid_vis: "quiet ctx ctx' \<Longrightarrow> vis_step ctx (report_xid ctx' role v xid)"
  by (simp add: report_xid_def vis_report)

lemma check_xvac_vis: "check_xvac sh off ctx = (r, ctx') \<Longrightarrow> vis_step ctx ctx'"
  by (auto simp: check_xvac_def Let_def split: prod.splits if_splits xid_commit_status.splits
      dest!: get_xid_status_quiet intro: report_xid_vis vis_report vis_quiet)

lemma check_inserter_vis: "check_inserter sh st ctx = (r, ctx') \<Longrightarrow> vis_step ctx ctx'"
  by (auto simp: check_inserter_def Let_def split: if_splits dest: check_xvac_vis intro: vis_quiet)

lemma check_inserter_quiet: "check_inserter sh st ctx = (None, ctx') \<Longrightarrow> quiet ctx ctx'"
  by (auto simp: check_inserter_def check_xvac_def Let_def split: prod.splits if_splits xid_commit_status.splits
      dest!: get_xid_status_quiet)

lemma set_prunable_quiet [simp]: "quiet ctx (set_prunable st x ctx') \<longleftrightarrow> quiet ctx ctx'"
  by (simp add: set_prunable_def)

lemma check_deleter_vis: "check_deleter sh ctx = (r, ctx') \<Longrightarrow> vis_step ctx ctx'"
proof -
  assume c: "check_deleter sh ctx = (r, ctx')"
  obtain mv ctx1 where m: "(if infomask_has (hc_tuphdr ctx) HEAP_XMAX_IS_MULTI
      then check_mxid_valid_in_rel sh (HeapTupleHeaderGetRawXmax (hc_tuphdr ctx)) ctx else (XID_BOUNDS_OK, ctx)) = (mv, ctx1)"
    by fastforce
  then have q: "quiet ctx ctx1" by (auto split: if_splits dest: check_mxid_quiet)
  have "vis_step ctx1 ctx'"
    using c unfolding check_deleter_def Let_def m
    by (auto split: prod.splits if_splits dest!: get_xid_status_quiet intro: report_xid_vis vis_report vis_quiet)
  with q show ?thesis by (rule vis_trans)
qed

lemma check_tuple_visibility_vis: "check_tuple_visibility sh ctx = (r, ctx', st) \<Longrightarrow> vis_step ctx ctx'"
proof -
  assume c: "check_tuple_visibility sh ctx = (r, ctx', st)"
  obtain v xst ctx1 where g: "get_xid_status sh (HeapTupleHeaderGetXmin (hc_tuphdr ctx)) (ctx\<lparr>hc_tuple_could_be_pruned := True\<rparr>) =
      (v, xst, ctx1)" by (metis prod_cases3)
  then have q: "quiet ctx ctx1" by (auto dest: get_xid_status_quiet)
  have "vis_step ctx1 ctx'"
    using c unfolding check_tuple_visibility_def Let_def g
    by (auto split: prod.splits if_splits option.splits
        dest: check_inserter_vis check_inserter_quiet check_deleter_vis intro: report_xid_vis vis_quiet vis_trans)
  with q show ?thesis by (rule vis_trans)
qed

section \<open>A tuple that is passed can be taken apart\<close>

text \<open>The value ends \<open>slack\<close> bytes before the end of what can be read.\<close>

definition value_within :: "nat \<Rightarrow> pg_attribute \<Rightarrow> datum \<Rightarrow> bool" where
  "value_within slack a v \<longleftrightarrow> attbyval a \<or>
     (\<exists>n. att_addlength_pointer 0 (attlen a) (DatumGetPointer v) = Inr n \<and> n + slack \<le> length (DatumGetPointer v))"

lemma att_addlength_shift: "att_addlength_pointer pos len p = Inr off \<Longrightarrow>
    pos \<le> off \<and> att_addlength_pointer 0 len p = Inr (off - pos)"
  by (auto simp: att_addlength_pointer_def bindE_eq_Inr_iff split: if_splits)

lemma fetch_att_within:
  assumes "att_ok a" "att_addlength_pointer pos (attlen a) p = Inr off" "off - pos + slack \<le> length p"
  shows "\<exists>v. fetch_att p (attbyval a) (attlen a) = Inr v \<and> value_within slack a v"
proof (cases "attbyval a")
  case True
  with assms show ?thesis
    by (auto simp: att_ok_def fetch_att_def value_within_def att_addlength_pointer_def rd_range_def)
next
  case False
  with att_addlength_shift [OF assms(2)] assms(3) show ?thesis by (auto simp: fetch_att_def value_within_def DatumGetPointer_def)
qed

text \<open>Where \<open>check_tuple_attribute\<close> finds an attribute, \<open>heap_deform_tuple\<close> does.\<close>

lemma deform_offset_checked:
  assumes "if attlen a = -1 then att_align_pointer off (attalign a) (-1) (drop off tp) = Inr pos
     else pos = att_align_nominal off (attalign a)" "\<not> slow \<Longrightarrow> cache_ok off (a # as)" "att_ok a"
  shows "\<exists>a' slow'. deform_offset tp a off slow = Inr (pos, a', slow') \<and>
    (\<not> (slow' \<or> attlen a \<le> 0) \<longrightarrow> cache_ok (pos + nat (attlen a)) as)"
proof (cases slow)
  case True
  with assms(1) show ?thesis by (auto simp: deform_offset_def split: if_splits)
next
  case False
  have c: "cache_ok off (a # as)" using assms(2) False by simp
  show ?thesis
  proof (cases "attlen a = -1")
    case True
    then have "att_align_pointer off (attalign a) (-1) (drop off tp) = Inr pos" using assms(1) by simp
    with c True False show ?thesis by (auto simp: deform_offset_def att_align_pointer_def bindE_eq_Inr_iff split: if_splits)
  next
    case l: False
    then have "pos = att_align_nominal off (attalign a)" using assms(1) by simp
    with c l False show ?thesis by (auto simp: deform_offset_def Let_def cache_ok_empty)
  qed
qed

lemma check_attributes_deform:
  assumes "check_attributes (length as) ctx = Inr ctx'" "silent ctx ctx'" "hc_attnum ctx = int k"
    "drop k (td_attrs (hc_desc ctx)) = as @ bs" "\<forall>a\<in>set as. att_ok a" "\<not> slow \<Longrightarrow> cache_ok (hc_offset ctx) as"
    "hc_lp_len ctx + slack = SizeofHeapTupleHeader + length (t_bits (hc_tuphdr ctx))"
    "SizeofHeapTupleHeader \<le> unat (t_hoff (hc_tuphdr ctx))"
  shows "\<exists>as' vs ns. deform_loop (infomask_has (hc_tuphdr ctx) HEAP_HASNULL) (t_bits (hc_tuphdr ctx))
      (drop (unat (t_hoff (hc_tuphdr ctx)) - SizeofHeapTupleHeader) (t_bits (hc_tuphdr ctx))) as k (hc_offset ctx) slow =
        Inr (as', vs, ns) \<and> (\<forall>j<length as. ns ! j \<or> value_within slack (as ! j) (vs ! j))"
  using assms
proof (induction as arbitrary: ctx k slow)
  case (Cons a as)
  define h where "h = hc_tuphdr ctx"
  define tp where "tp = drop (unat (t_hoff h) - SizeofHeapTupleHeader) (t_bits h)"
  define nul where "nul = (if infomask_has h HEAP_HASNULL then att_isnull k (t_bits h) else Inr False)"
  from Cons.prems(1) obtain ok ctx1 where c: "check_tuple_attribute ctx = Inr (ok, ctx1)"
    by (auto simp: bindE_eq_Inr_iff)
  note st = check_tuple_attribute_step [OF c]
  let ?ctx2 = "ctx1\<lparr>hc_attnum := hc_attnum ctx1 + 1\<rparr>"
  have sil: "silent ctx ctx1"
  proof (cases ok)
    case True
    then have "check_attributes (length as) ?ctx2 = Inr ctx'" using Cons.prems(1) c by simp
    from check_attributes_step [OF this] st Cons.prems(2) show ?thesis
      using step_silent [of ctx ?ctx2 ctx'] by simp
  qed (use Cons.prems(1,2) c in simp)
  with st have ok: ok by simp
  have c2: "check_attributes (length as) ?ctx2 = Inr ctx'" using Cons.prems(1) c ok by simp
  have s2: "silent ?ctx2 ctx'" using sil Cons.prems(2) by (simp add: silent_def)
  have fr: "frame ctx1 = frame ctx" using st by (simp add: step_ok_def)
  have d: "drop (Suc k) (td_attrs (hc_desc ctx)) = as @ bs" "k < length (td_attrs (hc_desc ctx))"
    "td_attrs (hc_desc ctx) ! k = a"
    using Cons.prems(4) by (auto simp: drop_Suc tl_drop nth_via_drop not_less dest: arg_cong [of _ _ tl] intro: ccontr)
  have ta: "TupleDescAttr (hc_desc ctx) (nat (hc_attnum ctx)) = Inr a"
    using d Cons.prems(3) by (simp add: TupleDescAttr_def)
  have rest: "\<exists>as' vs ns. deform_loop (infomask_has h HEAP_HASNULL) (t_bits h) tp as (k + 1) (hc_offset ctx1) slow' =
        Inr (as', vs, ns) \<and> (\<forall>j<length as. ns ! j \<or> value_within slack (as ! j) (vs ! j))"
    if "\<not> slow' \<Longrightarrow> cache_ok (hc_offset ctx1) as" for slow'
    using Cons.IH [OF c2 s2, of "k + 1" slow'] frameD [OF fr] d Cons.prems st that by (simp add: h_def tp_def)
  have found: ?case
    if n: "nul = Inr False" and off: "hc_offset ctx1 = off" and pos: "if attlen a = -1
        then att_align_pointer (hc_offset ctx) (attalign a) (-1) (drop (hc_offset ctx) tp) = Inr pos
        else pos = att_align_nominal (hc_offset ctx) (attalign a)"
      and len: "att_addlength_pointer pos (attlen a) (drop pos tp) = Inr off"
      and lp: "unat (t_hoff h) + off \<le> hc_lp_len ctx" for pos off
  proof -
    have ao: "att_ok a" using Cons.prems(5) by simp
    from deform_offset_checked [OF pos Cons.prems(6) ao] obtain a' slow' where
      o: "deform_offset tp a (hc_offset ctx) slow = Inr (pos, a', slow')"
        "\<not> (slow' \<or> attlen a \<le> 0) \<longrightarrow> cache_ok (pos + nat (attlen a)) as" by blast
    have "off - pos + slack \<le> length (drop pos tp)"
      using lp Cons.prems(7,8) att_addlength_shift [OF len] by (simp add: tp_def h_def)
    from fetch_att_within [OF ao len this] obtain v where
      v: "fetch_att (drop pos tp) (attbyval a) (attlen a) = Inr v" "value_within slack a v" by blast
    have "\<not> (slow' \<or> attlen a \<le> 0) \<Longrightarrow> cache_ok (hc_offset ctx1) as"
      using o(2) len off by (auto simp: att_addlength_pointer_def)
    from rest [OF this] obtain as' vs ns where
      r: "deform_loop (infomask_has h HEAP_HASNULL) (t_bits h) tp as (k + 1) (hc_offset ctx1) (slow' \<or> attlen a \<le> 0) =
        Inr (as', vs, ns)" "\<forall>j<length as. ns ! j \<or> value_within slack (as ! j) (vs ! j)" by blast
    have "deform_loop (infomask_has h HEAP_HASNULL) (t_bits h) tp (a # as) k (hc_offset ctx) slow =
        Inr (a' # as', v # vs, False # ns)"
      using n o(1) v(1) len off r(1) by (simp add: nul_def)
    then show ?case using v(2) r(2) by (auto simp: h_def tp_def nth_Cons split: nat.splits)
  qed
  from c ta show ?case
  proof (cases rule: check_tuple_attribute_cases)
    case reported
    with sil show ?thesis by simp
  next
    case null
    then have "hc_offset ctx1 = hc_offset ctx" "nul = Inr True"
      using Cons.prems(3) by (simp_all add: nul_def h_def)
    moreover obtain as' vs ns where
      r: "deform_loop (infomask_has h HEAP_HASNULL) (t_bits h) tp as (k + 1) (hc_offset ctx1) True =
        Inr (as', vs, ns)" "\<forall>j<length as. ns ! j \<or> value_within slack (as ! j) (vs ! j)" using rest [of True] by blast
    ultimately have "deform_loop (infomask_has h HEAP_HASNULL) (t_bits h) tp (a # as) k (hc_offset ctx) slow =
        Inr (a # as', ByVal 0 # vs, True # ns)" by (simp add: nul_def)
    then show ?thesis using r(2) by (auto simp: h_def tp_def nth_Cons split: nat.splits)
  next
    case (plain off)
    then show ?thesis
      by (intro found [of off "att_align_nominal (hc_offset ctx) (attalign a)"])
        (use Cons.prems(3) in \<open>simp_all add: nul_def h_def tp_def split: if_splits\<close>)
  next
    case (varlena pos off)
    have "hc_offset ctx1 = off" using varlena(7) by auto
    with varlena show ?thesis
      by (intro found [of off pos]) (use Cons.prems(3) in \<open>simp_all add: nul_def h_def tp_def split: if_splits\<close>)
  qed
qed simp

text \<open>The header check.\<close>

lemma report_if:
  assumes "step_ok ctx ctx'"
  shows "step_ok ctx (if b then report_corruption ctx' msg else ctx')"
    "silent ctx (if b then report_corruption ctx' msg else ctx') \<longleftrightarrow> \<not> b \<and> silent ctx ctx'"
  using assms by auto

lemma check_tuple_header_silent:
  assumes "check_tuple_header sh ctx = (r, ctx')"
  shows "step_ok ctx ctx'" "silent ctx ctx' \<Longrightarrow> r \<and> ctx' = ctx \<and> unat (t_hoff (hc_tuphdr ctx)) \<le> hc_lp_len ctx \<and>
    unat (t_hoff (hc_tuphdr ctx)) = MAXALIGN (SizeofHeapTupleHeader +
      (if infomask_has (hc_tuphdr ctx) HEAP_HASNULL then BITMAPLEN (hc_natts ctx) else 0))"
proof -
  let ?h = "hc_tuphdr ctx"
  define e where "e = MAXALIGN (SizeofHeapTupleHeader + (if infomask_has ?h HEAP_HASNULL then BITMAPLEN (hc_natts ctx) else 0))"
  define b1 where "b1 \<longleftrightarrow> hc_lp_len ctx < unat (t_hoff ?h)"
  define b2 where "b2 \<longleftrightarrow> infomask_has ?h HEAP_XMAX_COMMITTED \<and> infomask_has ?h HEAP_XMAX_IS_MULTI"
  define b3 where "b3 \<longleftrightarrow> \<not> TransactionIdIsValid (HeapTupleHeaderGetUpdateXid sh ?h) \<and> HeapTupleHeaderIsHotUpdated ?h"
  define b4 where "b4 \<longleftrightarrow> HeapTupleHeaderIsHeapOnly ?h \<and> \<not> infomask_has ?h HEAP_UPDATED"
  define b5 where "b5 \<longleftrightarrow> unat (t_hoff ?h) \<noteq> e"
  define c1 where "c1 = (if b1 then report_corruption ctx (DataBeginsBeyond (unat (t_hoff ?h)) (hc_lp_len ctx)) else ctx)"
  define c2 where "c2 = (if b2 then report_corruption c1 MultixactMarkedCommitted else c1)"
  define c3 where "c3 = (if b3 then report_corruption c2 HotUpdatedWithoutXmax else c2)"
  define c4 where "c4 = (if b4 then report_corruption c3 HeapOnlyNotUpdated else c3)"
  define c5 where "c5 = (if b5 then report_corruption c4
      (WrongHoff e (unat (t_hoff ?h)) (hc_natts ctx) (infomask_has ?h HEAP_HASNULL)) else c4)"
  have "check_tuple_header sh ctx = (\<not> b5 \<and> \<not> b1, c5)"
    unfolding check_tuple_header_def Let_def b1_def [symmetric] b2_def [symmetric] b3_def [symmetric] b4_def [symmetric]
      e_def [symmetric] b5_def [symmetric]
    by (cases b1) (simp_all add: c1_def c2_def c3_def c4_def c5_def)
  then have r: "r \<longleftrightarrow> \<not> b5 \<and> \<not> b1" "ctx' = c5" using assms by simp_all
  have s1: "step_ok ctx c1" "silent ctx c1 \<longleftrightarrow> \<not> b1 \<and> silent ctx ctx"
    unfolding c1_def by (rule report_if, simp)+
  have s2: "step_ok ctx c2" "silent ctx c2 \<longleftrightarrow> \<not> b2 \<and> silent ctx c1"
    unfolding c2_def by (rule report_if, rule s1(1))+
  have s3: "step_ok ctx c3" "silent ctx c3 \<longleftrightarrow> \<not> b3 \<and> silent ctx c2"
    unfolding c3_def by (rule report_if, rule s2(1))+
  have s4: "step_ok ctx c4" "silent ctx c4 \<longleftrightarrow> \<not> b4 \<and> silent ctx c3"
    unfolding c4_def by (rule report_if, rule s3(1))+
  have s5: "step_ok ctx c5" "silent ctx c5 \<longleftrightarrow> \<not> b5 \<and> silent ctx c4"
    unfolding c5_def by (rule report_if, rule s4(1))+
  from s5(1) r show "step_ok ctx ctx'" by simp
  assume "silent ctx ctx'"
  then have "\<not> b1" "\<not> b2" "\<not> b3" "\<not> b4" "\<not> b5" using s1(2) s2(2) s3(2) s4(2) s5(2) r by simp_all
  with r show "r \<and> ctx' = ctx \<and> unat (t_hoff ?h) \<le> hc_lp_len ctx \<and> unat (t_hoff ?h) = MAXALIGN (SizeofHeapTupleHeader +
      (if infomask_has ?h HEAP_HASNULL then BITMAPLEN (hc_natts ctx) else 0))"
    by (simp add: c1_def c2_def c3_def c4_def c5_def b1_def b5_def e_def)
qed

text \<open>The parts of a check that adds no report.\<close>

lemma check_tuple_silent:
  assumes "check_tuple sh ctx = Inr (ctx', st)" "silent ctx ctx'" "fst (check_tuple_visibility sh ctx)"
  obtains ctx2 ctx3 where "check_tuple_header sh ctx = (True, ctx)" "check_tuple_visibility sh ctx = (True, ctx2, st)"
    "quiet ctx ctx2" "hc_natts ctx \<le> length (td_attrs (hc_desc ctx))"
    "check_attributes (hc_natts ctx) (ctx2\<lparr>hc_offset := 0, hc_attnum := 0\<rparr>) = Inr ctx3" "silent ctx2 ctx3"
    "ctx' = ctx3\<lparr>hc_attnum := -1\<rparr>"
proof -
  obtain r ctx1 where h: "check_tuple_header sh ctx = (r, ctx1)" by fastforce
  note hs = check_tuple_header_silent [OF h]
  obtain vr ctx2 st2 where v: "check_tuple_visibility sh ctx1 = (vr, ctx2, st2)" by (metis prod_cases3)
  have vs: "step_ok ctx1 ctx2" "silent ctx1 ctx2 \<Longrightarrow> quiet ctx1 ctx2"
    using check_tuple_visibility_vis [OF v] by (simp_all add: vis_step_def)
  note u = assms(1) [unfolded check_tuple_def h]
  have "silent ctx ctx1 \<and> (r \<longrightarrow> step_ok ctx2 ctx' \<and> silent ctx2 ctx')"
  proof (cases r)
    case False
    then show ?thesis using u assms(2) by simp
  next
    case r: True
    have "step_ok ctx2 ctx'"
    proof (cases vr)
      case True
      show ?thesis
      proof (cases "length (td_attrs (hc_desc ctx2)) < hc_natts ctx2")
        case False
        with u r v True obtain ctx3 where
          "check_attributes (hc_natts ctx2) (ctx2\<lparr>hc_offset := 0, hc_attnum := 0\<rparr>) = Inr ctx3"
          "ctx' = ctx3\<lparr>hc_attnum := -1\<rparr>" by (auto simp: bindE_eq_Inr_iff)
        with check_attributes_step [OF this(1)]
          step_ok_trans [of ctx2 "ctx2\<lparr>hc_offset := 0, hc_attnum := 0\<rparr>" ctx3] show ?thesis by simp
      qed (use u r v True in auto)
    qed (use u r v in simp)
    then show ?thesis
      using assms(2) hs(1) vs(1) step_ok_trans [OF hs(1) vs(1)] step_silent [of ctx ctx2 ctx'] step_silent [of ctx ctx1 ctx2]
      by simp
  qed
  then have s: "silent ctx ctx1" "r \<Longrightarrow> silent ctx2 ctx'" by simp_all
  from hs(2) [OF s(1)] have e: "r" "ctx1 = ctx" by simp_all
  then have vr: vr using assms(3) v by simp
  have "silent ctx ctx2" using assms(2) s(2) e(1) by (simp add: silent_def)
  then have q: "quiet ctx ctx2" using vs e by simp
  then have f: "hc_natts ctx2 = hc_natts ctx" "hc_desc ctx2 = hc_desc ctx" using frameD [of ctx2 ctx] by (simp_all add: quiet_def)
  have "\<not> length (td_attrs (hc_desc ctx)) < hc_natts ctx"
    using u e v vr f s(2) by (auto split: if_splits)
  moreover from this u e v vr f obtain ctx3 where
    "check_attributes (hc_natts ctx) (ctx2\<lparr>hc_offset := 0, hc_attnum := 0\<rparr>) = Inr ctx3" "ctx' = ctx3\<lparr>hc_attnum := -1\<rparr>" "st = st2"
    by (auto simp: bindE_eq_Inr_iff)
  ultimately show thesis using h e v vr q s(2) by (intro that) simp_all
qed

text \<open>C16. If the check of a tuple adds no report, and the tuple is one whose attributes are checked (its
  inserter committed), then \<open>heap_deform_tuple\<close> takes the tuple apart without an error, and every value
  it hands out ends within the \<open>lp_len\<close> bytes of the tuple. The columns the tuple lacks come from the
  descriptor.\<close>

theorem check_tuple_sound:
  assumes "check_tuple sh ctx = Inr (ctx', st)" "silent ctx ctx'" "fst (check_tuple_visibility sh ctx)"
    "desc_ok (hc_desc ctx)" "t_data tup = hc_tuphdr ctx" "hc_natts ctx = HeapTupleHeaderGetNatts (hc_tuphdr ctx)"
    "hc_lp_len ctx + slack = SizeofHeapTupleHeader + length (t_bits (hc_tuphdr ctx))"
    "missing_loop (drop (hc_natts ctx) (td_attrs (hc_desc ctx))) = Inr m"
  shows "\<exists>td vs ns. heap_deform_tuple tup (hc_desc ctx) = Inr (td, vs, ns) \<and> hc_natts ctx \<le> length (td_attrs (hc_desc ctx)) \<and>
    (\<forall>j<hc_natts ctx. ns ! j \<or> value_within slack (td_attrs (hc_desc ctx) ! j) (vs ! j))"
proof -
  let ?n = "hc_natts ctx" and ?as = "td_attrs (hc_desc ctx)" and ?h = "hc_tuphdr ctx"
  from assms(1-3) obtain ctx2 ctx3 where c: "check_tuple_header sh ctx = (True, ctx)" "quiet ctx ctx2"
    "?n \<le> length ?as" "check_attributes ?n (ctx2\<lparr>hc_offset := 0, hc_attnum := 0\<rparr>) = Inr ctx3" "silent ctx2 ctx3"
    by (rule check_tuple_silent) blast
  have f: "hc_tuphdr ctx2 = ?h" "hc_desc ctx2 = hc_desc ctx" "hc_lp_len ctx2 = hc_lp_len ctx"
    using c(2) frameD [of ctx2 ctx] by (simp_all add: quiet_def)
  have hoff: "SizeofHeapTupleHeader \<le> unat (t_hoff ?h)"
    using check_tuple_header_silent(2) [OF c(1)]
      MAXALIGN_bounds(1) [of "SizeofHeapTupleHeader + (if infomask_has ?h HEAP_HASNULL then BITMAPLEN ?n else 0)"] by simp
  have d: "\<forall>a\<in>set (take ?n ?as). att_ok a" "cache_ok 0 (take ?n ?as)"
    using assms(4) by (auto simp: desc_ok_def cache_ok_take dest: in_set_takeD)
  let ?ctx2 = "ctx2\<lparr>hc_offset := 0, hc_attnum := 0\<rparr>"
  have "\<exists>as' vs ns. deform_loop (infomask_has ?h HEAP_HASNULL) (t_bits ?h)
      (drop (unat (t_hoff ?h) - SizeofHeapTupleHeader) (t_bits ?h)) (take ?n ?as) 0 0 False = Inr (as', vs, ns) \<and>
    (\<forall>j<length (take ?n ?as). ns ! j \<or> value_within slack (take ?n ?as ! j) (vs ! j))"
    using check_attributes_deform [of "take ?n ?as" ?ctx2 ctx3 0 "drop ?n ?as" False slack] c f hoff d assms(7)
    by (simp add: silent_def min_absorb2)
  then obtain as' vs ns where l: "deform_loop (HeapTupleHasNulls tup) (t_bits ?h)
      (drop (unat (t_hoff ?h) - SizeofHeapTupleHeader) (t_bits ?h)) (take ?n ?as) 0 0 False = Inr (as', vs, ns)"
    "\<forall>j<?n. ns ! j \<or> value_within slack (?as ! j) (vs ! j)"
    using c(3) assms(5) by (auto simp: HeapTupleHasNulls_def infomask_has_def min_absorb2)
  have len: "length vs = ?n" "length ns = ?n" using deform_loop_lengths [OF l(1)] c(3) by simp_all
  have "\<exists>td. heap_deform_tuple tup (hc_desc ctx) = Inr (td, vs @ fst m, ns @ snd m)"
    using l(1) assms(5,6,8) c(3) by (auto simp: heap_deform_tuple_def Let_def split_beta min_absorb1)
  then show ?thesis using l(2) c(3) len by (auto simp: nth_append)
qed

text \<open>A tuple on a page, with a frozen inserter and no deleter; a column of it is out of line.\<close>

definition demo_tuple :: heap_tuple where
  "demo_tuple = \<lparr>t_len = 46, t_self = ItemPointerSetInvalid, t_tableOid = 0,
     t_data = \<lparr>t_choice = [184, 0, 0, 0, 0, 0, 0, 0, 0, 0, 0, 0], t_ctid = ItemPointerSetInvalid, t_infomask2 = 3,
       t_infomask = 7, t_hoff = 24, t_bits = [3, 7, 0, 0, 0, 1, 18, 212, 7, 0, 0, 208, 7, 0, 0, 5, 0, 0, 0, 9, 0, 0, 0]\<rparr>\<rparr>"

definition demo_page_header :: heap_tuple_header where
  "demo_page_header = (t_data demo_tuple)\<lparr>t_choice := word_le 4 (800 :: 32 word) @ replicate 8 0,
     t_infomask := 7 OR HEAP_XMIN_FROZEN OR HEAP_XMAX_INVALID\<rparr>"

definition tuple_ctx :: heap_check_context where
  "tuple_ctx = demo_ctx\<lparr>hc_desc := demo_desc, hc_tuphdr := demo_page_header, hc_natts := 3, hc_lp_len := 46\<rparr>"

lemma demo_ctx_fields [simp]:
  "hc_tupstore demo_ctx = []" "hc_toast_rel demo_ctx = Some demo_rel" "hc_toasted_attributes demo_ctx = []"
  "hc_reltoastrelid demo_ctx = 9"
  by (simp_all add: demo_ctx_def init_context_def update_cached_xid_range_def update_cached_mxid_range_def Let_def
      demo_check_rel_def)

lemma tuple_ctx_visible:
  "\<exists>ctx1. check_tuple_visibility demo_shmem tuple_ctx = (True, ctx1, Some XID_COMMITTED) \<and> silent tuple_ctx ctx1"
proof -
  have h: "hc_tuphdr tuple_ctx = demo_page_header" by (simp add: tuple_ctx_def)
  have x: "HeapTupleHeaderGetXmin demo_page_header = FrozenTransactionId" "HeapTupleHeaderXminCommitted demo_page_header"
    "infomask_has demo_page_header HEAP_XMAX_IS_MULTI = False" "infomask_has demo_page_header HEAP_XMAX_INVALID"
    by code_simp+
  show ?thesis
    by (simp add: check_tuple_visibility_def Let_def h x get_xid_status_def check_inserter_def check_deleter_def
        TransactionIdIsValid_def FrozenTransactionId_def BootstrapTransactionId_def InvalidTransactionId_def silent_def)
qed

section \<open>A tuple that holds a row is passed\<close>

text \<open>A pointer the checks of a tuple accept, and one whose value is in the TOAST table.\<close>

definition pointer_ok :: "heap_check_context \<Rightarrow> varatt_external \<Rightarrow> bool" where
  "pointer_ok ctx tp \<longleftrightarrow> sint (va_rawsize tp) \<le> VARLENA_SIZE_LIMIT \<and>
     (VARATT_EXTERNAL_IS_COMPRESSED tp \<longrightarrow> VARATT_EXTERNAL_GET_COMPRESS_METHOD tp \<in>
        {TOAST_PGLZ_COMPRESSION_ID, TOAST_RLE_COMPRESSION_ID, TOAST_LZ4_COMPRESSION_ID}) \<and>
     infomask_has (hc_tuphdr ctx) HEAP_HASEXTERNAL \<and> hc_reltoastrelid ctx \<noteq> InvalidOid"

definition ptr_stored :: "heap_check_context \<Rightarrow> varatt_external \<Rightarrow> bool" where
  "ptr_stored ctx tp \<longleftrightarrow> (\<forall>trel. hc_toast_rel ctx = Some trel \<longrightarrow> has_valid_index trel \<and>
     (\<exists>data. stored trel (va_valueid tp) data \<and> VARATT_EXTERNAL_GET_EXTSIZE tp = int (length data) \<and> 0 < length data))"

text \<open>The result of a check that adds no report and only values that are stored.\<close>

definition passed :: "heap_check_context \<Rightarrow> heap_check_context \<Rightarrow> bool" where
  "passed ctx ctx' \<longleftrightarrow> silent ctx ctx' \<and> frame ctx' = frame ctx \<and>
     (\<forall>ta\<in>set (hc_toasted_attributes ctx'). ta \<in> set (hc_toasted_attributes ctx) \<or>
        hc_toast_rel ctx \<noteq> None \<and> ptr_stored ctx (ta_toast_pointer ta))"

lemma passed_refl [simp]: "passed ctx ctx"
  by (simp add: passed_def)

lemma passed_fields [simp]:
  "passed ctx (ctx'\<lparr>hc_offset := off\<rparr>) \<longleftrightarrow> passed ctx ctx'"
  "passed ctx (ctx'\<lparr>hc_attnum := k\<rparr>) \<longleftrightarrow> passed ctx ctx'"
  "passed (ctx\<lparr>hc_offset := off\<rparr>) ctx' \<longleftrightarrow> passed ctx ctx'"
  "passed (ctx\<lparr>hc_attnum := k\<rparr>) ctx' \<longleftrightarrow> passed ctx ctx'"
  by (simp_all add: passed_def silent_def frame_def ptr_stored_def)

lemma frame_stored: "frame ctx' = frame ctx \<Longrightarrow> hc_toast_rel ctx' = hc_toast_rel ctx \<and> ptr_stored ctx' tp = ptr_stored ctx tp"
  using frameD [of ctx' ctx] by (simp add: ptr_stored_def)

lemma passed_trans: "passed a b \<Longrightarrow> passed b c \<Longrightarrow> passed a c"
  using frame_stored [of b a] by (auto simp: passed_def silent_def)

lemma quiet_passed: "quiet ctx ctx' \<Longrightarrow> passed ctx ctx'"
  by (simp add: quiet_def passed_def)

lemma check_toast_pointer_passed:
  assumes "pointer_ok ctx tp" "ptr_stored ctx tp"
  shows "passed ctx (check_toast_pointer ctx tp)"
proof -
  let ?ta = "\<lparr>ta_toast_pointer = tp, ta_blkno = hc_blkno ctx, ta_offnum = hc_offnum ctx, ta_attnum = hc_attnum ctx\<rparr>"
  have n: "\<not> sint (va_rawsize tp) > VARLENA_SIZE_LIMIT" "\<not> (VARATT_EXTERNAL_IS_COMPRESSED tp \<and>
      \<not> (VARATT_EXTERNAL_GET_COMPRESS_METHOD tp = TOAST_PGLZ_COMPRESSION_ID \<or>
        VARATT_EXTERNAL_GET_COMPRESS_METHOD tp = TOAST_RLE_COMPRESSION_ID \<or>
        VARATT_EXTERNAL_GET_COMPRESS_METHOD tp = TOAST_LZ4_COMPRESSION_ID))"
    "\<not> \<not> infomask_has (hc_tuphdr ctx) HEAP_HASEXTERNAL" "hc_reltoastrelid ctx \<noteq> InvalidOid"
    using assms(1) by (simp_all add: pointer_ok_def)
  have "check_toast_pointer ctx tp = (if hc_toast_rel ctx = None then ctx else if \<not> hc_tuple_could_be_pruned ctx
      then ctx\<lparr>hc_toasted_attributes := hc_toasted_attributes ctx @ [?ta]\<rparr> else ctx)"
    unfolding check_toast_pointer_def Let_def if_not_P [OF n(2)] if_not_P [OF n(1)] if_not_P [OF n(3)] if_not_P [OF n(4)] ..
  moreover have "hc_toast_rel ctx \<noteq> None \<Longrightarrow> passed ctx (ctx\<lparr>hc_toasted_attributes := hc_toasted_attributes ctx @ [?ta]\<rparr>)"
    using assms(2) by (simp add: passed_def silent_def frame_def)
  ultimately show ?thesis by simp
qed

text \<open>One column.\<close>

lemma check_attribute_image:
  assumes i: "col_image fl a v al bs m" and a: "TupleDescAttr (hc_desc ctx) (nat (hc_attnum ctx)) = Inr a"
  defines "h \<equiv> hc_tuphdr ctx" and "pos \<equiv> col_pos al a (hc_offset ctx)"
  defines "tp \<equiv> drop (unat (t_hoff h) - SizeofHeapTupleHeader) (t_bits h)"
  assumes nul: "(if infomask_has h HEAP_HASNULL then att_isnull (nat (hc_attnum ctx)) (t_bits h) else Inr False) = Inr False"
    and d: "drop (hc_offset ctx) tp = replicate (pos - hc_offset ctx) 0 @ bs @ r"
    and lp: "unat (t_hoff h) + (pos + length bs) \<le> hc_lp_len ctx"
    and ext: "attlen a = -1 \<Longrightarrow> VARATT_IS_EXTERNAL (bs @ r) \<Longrightarrow> \<exists>t. VARTAG_1B_E (bs @ r) = VARTAG_ONDISK \<and>
      VARATT_EXTERNAL_GET_POINTER (bs @ r) = Inr t \<and> pointer_ok ctx t \<and> ptr_stored ctx t"
  shows "\<exists>ctx'. check_tuple_attribute ctx = Inr (True, ctx') \<and> hc_offset ctx' = pos + length bs \<and>
    hc_attnum ctx' = hc_attnum ctx \<and> passed ctx ctx'"
proof -
  let ?off = "hc_offset ctx"
  have o: "?off \<le> pos" by (simp add: pos_def)
  then have st: "\<not> hc_lp_len ctx < unat (t_hoff h) + ?off" using lp by linarith
  have "drop (pos - ?off) (drop ?off tp) = bs @ r" unfolding d by simp
  then have at: "drop pos tp = bs @ r" using o by simp
  have len: "att_addlength_pointer pos (attlen a) (bs @ r) = Inr (pos + length bs)" by (rule imageD(2) [OF i])
  show ?thesis
  proof (cases "attlen a = -1")
    case False
    have "pos = att_align_nominal ?off (attalign a)" using imageD(5) [OF i] False by (auto simp: col_pos_def pos_def)
    then have "check_tuple_attribute ctx = Inr (True, ctx\<lparr>hc_offset := pos + length bs\<rparr>)"
      using st nul lp len at a False
      by (simp add: check_tuple_attribute_def Let_def flip: h_def tp_def)
    then show ?thesis by simp
  next
    case v: True
    have al: "att_align_pointer ?off (attalign a) (-1) (drop ?off tp) = Inr pos"
      using imageD(3,5) [OF i] v d unfolding pos_def
      by (cases "col_pos al a ?off - ?off"; cases bs)
        (auto simp: att_align_pointer_def VARATT_NOT_PAD_BYTE_def rd_def col_pos_def split: if_splits intro: le_antisym)
    show ?thesis
    proof (cases "VARATT_IS_EXTERNAL (bs @ r)")
      case False
      then have "check_tuple_attribute ctx = Inr (True, ctx\<lparr>hc_offset := pos + length bs\<rparr>)"
        using st nul lp len at a v al
        by (simp add: check_tuple_attribute_def Let_def flip: h_def tp_def)
      then show ?thesis by simp
    next
      case True
      from ext [OF v True] obtain t where t: "VARTAG_1B_E (bs @ r) = VARTAG_ONDISK"
        "VARATT_EXTERNAL_GET_POINTER (bs @ r) = Inr t" "pointer_ok ctx t" "ptr_stored ctx t" by blast
      let ?ctx = "ctx\<lparr>hc_offset := pos + length bs\<rparr>"
      have c: "check_tuple_attribute ctx = Inr (True, check_toast_pointer ?ctx t)"
        using st nul lp len at a v al True t(1,2)
        by (simp add: check_tuple_attribute_def Let_def flip: h_def tp_def)
      have "pointer_ok ?ctx t" "ptr_stored ?ctx t" using t(3,4) by (simp_all add: pointer_ok_def ptr_stored_def)
      from check_toast_pointer_passed [OF this] c show ?thesis by simp
    qed
  qed
qed

text \<open>The pointers among the values of a row.\<close>

definition same_store :: "detoast_env \<Rightarrow> heap_check_context \<Rightarrow> bool" where
  "same_store env ctx \<longleftrightarrow> de_mem env = (\<lambda>_. None) \<and> (\<forall>relid trel. de_store env relid = Some trel \<longrightarrow>
     relid = hc_reltoastrelid ctx \<and> relid \<noteq> InvalidOid \<and> (hc_toast_rel ctx = None \<or> hc_toast_rel ctx = Some trel))"

lemma represents_on_disk:
  assumes "represents ms env v d" "same_store env ctx" "VARATT_IS_EXTERNAL v" "infomask_has (hc_tuphdr ctx) HEAP_HASEXTERNAL"
  shows "\<exists>t. VARTAG_1B_E v = VARTAG_ONDISK \<and> VARATT_EXTERNAL_GET_POINTER v = Inr t \<and> pointer_ok ctx t \<and> ptr_stored ctx t"
  using assms(1)
proof cases
  case inline
  with assms(3) inline_not_external show ?thesis by blast
next
  case (external relid vid r)
  let ?t = "ext_pointer (int (length d)) (int (length d)) 0 vid relid"
  have f: "int (length d) < 2 ^ 30 - 8" using external(2) by simp
  note i = ext_pointer_info [OF _ f, of "int (length d)" 0 vid relid, simplified]
  have s: "\<exists>trel. de_store env relid = Some trel \<and> has_valid_index trel \<and> stored trel vid d"
    using external(4) by (simp add: in_store_def)
  then have "pointer_ok ctx ?t" "ptr_stored ctx ?t"
    using i assms(2,4) f external(3)
    by (auto simp: pointer_ok_def ptr_stored_def same_store_def VARLENA_SIZE_LIMIT_def ext_pointer_def)
  then show ?thesis using external(1) by (auto simp: varatt_simps)
next
  case (external_compressed cm c relid vid r)
  let ?t = "ext_pointer (int (length d)) (int (length c) + 4) cm vid relid"
  note f = payload_of_facts [OF external_compressed(3)]
  have n: "int (length d) < 2 ^ 30 - 8" "int (length c) + 4 < 2 ^ 30" using f by simp_all
  have i: "VARATT_EXTERNAL_GET_EXTSIZE ?t = int (length c) + 4" "VARATT_EXTERNAL_GET_COMPRESS_METHOD ?t = cm"
    "sint (va_rawsize ?t) = int (length d) + 4"
    using ext_pointer_info [OF _ n(1) _ n(2) f(4,5), of vid relid] by simp_all
  have cm: "cm = TOAST_PGLZ_COMPRESSION_ID \<or> cm = TOAST_RLE_COMPRESSION_ID"
    using external_compressed(3) by (auto simp: payload_of_def)
  have s: "\<exists>trel. de_store env relid = Some trel \<and> has_valid_index trel \<and> stored trel vid (tcinfo d cm @ c)"
    using external_compressed(4) by (simp add: in_store_def)
  have "pointer_ok ctx ?t"
    using i cm assms(2,4) n(1) s by (auto simp: pointer_ok_def same_store_def VARLENA_SIZE_LIMIT_def)
  moreover have "ptr_stored ctx ?t"
    unfolding ptr_stored_def i(1)
  proof (intro allI impI conjI)
    fix trel assume "hc_toast_rel ctx = Some trel"
    then have t: "has_valid_index trel" "stored trel vid (tcinfo d cm @ c)"
      using s assms(2) by (auto simp: same_store_def)
    then show "has_valid_index trel" by simp
    show "\<exists>data. stored trel (va_valueid ?t) data \<and> int (length c) + 4 = int (length data) \<and> 0 < length data"
      using t(2) by (intro exI [of _ "tcinfo d cm @ c"]) (simp add: ext_pointer_def)
  qed
  ultimately show ?thesis using external_compressed(1) by (auto simp: varatt_simps)
next
  case (indirect p obj r)
  with assms(2) show ?thesis by (simp add: same_store_def)
qed


lemma image_unique_mask:
  "col_image flatten att v al bs m \<Longrightarrow> col_image flatten att v al' bs' m' \<Longrightarrow> m' = m"
  using imageD(1) [of flatten att v al bs m 0 0] imageD(1) [of flatten att v al' bs' m' 0 0] by simp

lemma forms_not_external:
  "\<not> VARATT_IS_EXTERNAL (mk_plain d @ r)" "fits_short d \<Longrightarrow> \<not> VARATT_IS_EXTERNAL (mk_short d @ r)"
  "\<not> VARATT_IS_EXTERNAL (mk_compressed n cm c @ r)"
  by (simp_all add: varatt_simps varatt_class_defs)

text \<open>A column stored as a pointer is marked in the infomask.\<close>

lemma external_marked:
  assumes a: "attlen a = -1" "\<not> attbyval a" and g: "col_given ms env a v False c"
    and i: "col_image (de_flatten env) a v al bs m" and e: "VARATT_IS_EXTERNAL (bs @ r)"
  shows "bit m 2"
proof -
  have bit: "bit (HEAP_HASVARWIDTH OR HEAP_HASEXTERNAL :: 16 word) 2"
    by (simp add: infomask_bits bit_word_iff_drop_bit_and)
  note u = image_unique [OF _ i] image_unique_mask [OF _ i]
  from g a obtain p d where v: "v = ByRef p"
    and p: "represents ms env p d \<or> VARATT_IS_EXTERNAL_EXPANDED p \<and> de_flatten env p = Inr (mk_plain d) \<and> fits_4b d"
    by (cases c) (auto simp: col_given_def col_holds_def)
  from p show ?thesis
  proof
    assume "VARATT_IS_EXTERNAL_EXPANDED p \<and> de_flatten env p = Inr (mk_plain d) \<and> fits_4b d"
    then have "bs = mk_plain d" using u(1) image_expanded [OF a] v by blast
    with e forms_not_external show ?thesis by blast
  next
    assume "represents ms env p d"
    then show ?thesis
    proof cases
      case inline
      then consider (plain) r where "p = mk_plain d @ r" "fits_4b d"
        | (short) r where "p = mk_short d @ r" "fits_short d"
        | (comp) cm c r where "payload_of cm d c" "p = mk_compressed (int (length d)) cm c @ r"
        unfolding inline_datum_def text_datum_def by blast
      then have "\<not> VARATT_IS_EXTERNAL (bs @ r)"
      proof cases
        case plain
        from image_plain [OF a plain(2)] u(1) v plain have "bs = mk_plain d \<or> bs = mk_short d \<and> fits_short d" by metis
        with forms_not_external show ?thesis by blast
      next
        case short
        with u(1) image_short [OF a short(2)] v have "bs = mk_short d" by blast
        with forms_not_external short show ?thesis by blast
      next
        case comp
        with u(1) image_compressed [OF a payload_of_facts(2) [OF comp(1)]] v have "bs = mk_compressed (int (length d)) cm c"
          by blast
        with forms_not_external show ?thesis by blast
      qed
      with e show ?thesis by simp
    next
      case (external relid vid r')
      then show ?thesis using u(2) image_pointer [OF a disjI1 [OF refl]] v bit by metis
    next
      case (external_compressed cm c' relid vid r')
      then show ?thesis using u(2) image_pointer [OF a disjI1 [OF refl]] v bit by metis
    next
      case (indirect q obj r')
      then show ?thesis using u(2) image_pointer [OF a disjI2 [OF refl]] v bit by metis
    qed
  qed
qed

definition pointer_col :: "(bytes \<Rightarrow> bytes res) \<Rightarrow> pg_attribute \<Rightarrow> datum \<Rightarrow> bool" where
  "pointer_col fl a v \<longleftrightarrow> (\<exists>al bs m. col_image fl a v al bs m \<and> bit m 2)"

lemma pointer_col_image: "col_image fl a v al bs m \<Longrightarrow> pointer_col fl a v \<longleftrightarrow> bit m 2"
  using image_unique_mask unfolding pointer_col_def by blast

text \<open>All columns.\<close>

lemma cols_given_Cons:
  "cols_given ms env (a # as) vs ns cs \<longleftrightarrow> (\<exists>v vs' n ns' c cs'. vs = v # vs' \<and> ns = n # ns' \<and> cs = c # cs' \<and>
     col_given ms env a v n c \<and> cols_given ms env as vs' ns' cs')"
  by (cases vs; cases ns; cases cs) (auto simp: cols_given_def All_less_Suc2)

lemma check_attributes_layout:
  assumes "cols_given ms env as vs ns cs" "\<forall>a\<in>set as. att_ok a" "same_store env ctx" "hc_attnum ctx = int k"
    "drop k (td_attrs (hc_desc ctx)) = as"
    "drop (hc_offset ctx) (drop (unat (t_hoff (hc_tuphdr ctx)) - SizeofHeapTupleHeader) (t_bits (hc_tuphdr ctx))) =
      layout (de_flatten env) as vs ns (hc_offset ctx) @ r"
    "\<And>j. j < length ns \<Longrightarrow> (if infomask_has (hc_tuphdr ctx) HEAP_HASNULL then att_isnull (k + j) (t_bits (hc_tuphdr ctx))
      else Inr False) = Inr (ns ! j)"
    "unat (t_hoff (hc_tuphdr ctx)) + hc_offset ctx + length (layout (de_flatten env) as vs ns (hc_offset ctx)) \<le> hc_lp_len ctx"
    "\<And>j. j < length as \<Longrightarrow> \<not> ns ! j \<Longrightarrow> pointer_col (de_flatten env) (as ! j) (vs ! j) \<Longrightarrow>
      infomask_has (hc_tuphdr ctx) HEAP_HASEXTERNAL"
  shows "\<exists>ctx'. check_attributes (length as) ctx = Inr ctx' \<and> passed ctx ctx'"
  using assms
proof (induction as arbitrary: ctx k vs ns cs)
  case (Cons a as)
  let ?h = "hc_tuphdr ctx" and ?off = "hc_offset ctx" and ?fl = "de_flatten env"
  let ?tp = "drop (unat (t_hoff ?h) - SizeofHeapTupleHeader) (t_bits ?h)"
  from Cons.prems(1) obtain v vs' n ns' c cs' where l: "vs = v # vs'" "ns = n # ns'" "cs = c # cs'"
    and g: "col_given ms env a v n c" "cols_given ms env as vs' ns' cs'" by (auto simp: cols_given_Cons)
  have ao: "att_ok a" "\<forall>a\<in>set as. att_ok a" using Cons.prems(2) by simp_all
  have d: "drop (Suc k) (td_attrs (hc_desc ctx)) = as" "k < length (td_attrs (hc_desc ctx))"
    "td_attrs (hc_desc ctx) ! k = a"
    using Cons.prems(5) by (auto simp: drop_Suc tl_drop nth_via_drop not_less dest: arg_cong [of _ _ tl] intro: ccontr)
  have ta: "TupleDescAttr (hc_desc ctx) (nat (hc_attnum ctx)) = Inr a"
    using d Cons.prems(4) by (simp add: TupleDescAttr_def)
  have nul: "(if infomask_has ?h HEAP_HASNULL then att_isnull (nat (hc_attnum ctx)) (t_bits ?h) else Inr False) = Inr n"
    using Cons.prems(7) [of 0] Cons.prems(4) l(2) by (simp split: if_splits)
  have nuls: "(if infomask_has ?h HEAP_HASNULL then att_isnull (k + 1 + j) (t_bits ?h) else Inr False) = Inr (ns' ! j)"
    if "j < length ns'" for j
    using Cons.prems(7) [of "Suc j"] that l(2) by (simp split: if_splits)
  have rest: ?case
    if c1: "check_tuple_attribute ctx = Inr (True, ctx1)" and p: "passed ctx ctx1" "hc_attnum ctx1 = hc_attnum ctx"
      and dr: "drop (hc_offset ctx1) ?tp = layout ?fl as vs' ns' (hc_offset ctx1) @ r"
      and lp: "unat (t_hoff ?h) + hc_offset ctx1 + length (layout ?fl as vs' ns' (hc_offset ctx1)) \<le> hc_lp_len ctx" for ctx1
  proof -
    let ?ctx = "ctx1\<lparr>hc_attnum := hc_attnum ctx1 + 1\<rparr>"
    have f: "hc_tuphdr ctx1 = ?h" "hc_desc ctx1 = hc_desc ctx" "hc_lp_len ctx1 = hc_lp_len ctx"
      "hc_toast_rel ctx1 = hc_toast_rel ctx" "hc_reltoastrelid ctx1 = hc_reltoastrelid ctx"
      using p(1) frameD [of ctx1 ctx] by (simp_all add: passed_def)
    have "same_store env ?ctx" using Cons.prems(3) f by (simp add: same_store_def)
    moreover have "infomask_has ?h HEAP_HASEXTERNAL" if "j < length as" "\<not> ns' ! j" "pointer_col ?fl (as ! j) (vs' ! j)"
      for j using Cons.prems(9) [of "Suc j"] that l by simp
    moreover have "(if infomask_has (hc_tuphdr ?ctx) HEAP_HASNULL then att_isnull (k + 1 + j) (t_bits (hc_tuphdr ?ctx))
        else Inr False) = Inr (ns' ! j)" if "j < length ns'" for j
      using nuls [OF that] f by (simp split: if_splits)
    ultimately have "\<exists>ctx'. check_attributes (length as) ?ctx = Inr ctx' \<and> passed ?ctx ctx'"
      by (intro Cons.IH [OF g(2) ao(2)]) (use d dr lp Cons.prems(4) p(2) f in auto)
    with c1 p(1) passed_trans [of ctx ctx1] show ?thesis by auto
  qed
  show ?case
  proof (cases n)
    case True
    have "\<not> hc_lp_len ctx < unat (t_hoff ?h) + ?off" using Cons.prems(8) by linarith
    then have "check_tuple_attribute ctx = Inr (True, ctx)"
      unfolding check_tuple_attribute_def Let_def using ta nul True by simp
    then show ?thesis using rest [of ctx] Cons.prems(6,8) l True by simp
  next
    case False
    then have g1: "col_given ms env a v False c" using g(1) by simp
    have nul1: "(if infomask_has ?h HEAP_HASNULL then att_isnull (nat (hc_attnum ctx)) (t_bits ?h) else Inr False) = Inr False"
      using nul False by simp
    from col_given_image [OF ao(1) g1] obtain al bs m where
      i: "col_image ?fl a v al bs m" and hold: "fetch_att (bs @ r') (attbyval a) (attlen a) = Inr w \<longrightarrow>
        col_holds ms env a w False c" for r' w by blast
    let ?pos = "col_pos al a ?off"
    let ?l = "layout ?fl as vs' ns' (?pos + length bs)"
    have lay: "layout ?fl (a # as) vs ns ?off = replicate (?pos - ?off) 0 @ bs @ ?l"
      using False imageD(1) [OF i] l by simp
    have dr: "drop ?off ?tp = replicate (?pos - ?off) 0 @ bs @ ?l @ r" using Cons.prems(6) lay by simp
    have o: "?off \<le> ?pos" by simp
    have ll: "unat (t_hoff ?h) + (?pos + length bs) + length ?l \<le> hc_lp_len ctx"
      using Cons.prems(8) o unfolding lay by simp
    have ext: "\<exists>t. VARTAG_1B_E (bs @ ?l @ r) = VARTAG_ONDISK \<and> VARATT_EXTERNAL_GET_POINTER (bs @ ?l @ r) = Inr t \<and>
        pointer_ok ctx t \<and> ptr_stored ctx t" if e: "attlen a = -1" "VARATT_IS_EXTERNAL (bs @ ?l @ r)"
    proof -
      have nb: "\<not> attbyval a" using ao(1) e(1) by (auto simp: att_ok_def split: if_splits)
      have "pointer_col ?fl a v" using external_marked [OF e(1) nb g1 i e(2)] pointer_col_image [OF i] by simp
      then have x: "infomask_has ?h HEAP_HASEXTERNAL" using Cons.prems(9) [of 0] False l by simp
      from hold [of "?l @ r" "ByRef (bs @ ?l @ r)"] nb e(1) obtain d where "represents ms env (bs @ ?l @ r) d"
        by (cases c) (auto simp: fetch_att_def col_holds_def)
      from represents_on_disk [OF this Cons.prems(3) e(2) x] show ?thesis .
    qed
    have le: "unat (t_hoff ?h) + (?pos + length bs) \<le> hc_lp_len ctx" using ll by linarith
    have "\<exists>ctx'. check_tuple_attribute ctx = Inr (True, ctx') \<and> hc_offset ctx' = ?pos + length bs \<and>
        hc_attnum ctx' = hc_attnum ctx \<and> passed ctx ctx'"
      by (rule check_attribute_image [OF i ta nul1 dr le]) (rule ext)
    then obtain ctx1 where c1: "check_tuple_attribute ctx = Inr (True, ctx1)" "hc_offset ctx1 = ?pos + length bs"
      "hc_attnum ctx1 = hc_attnum ctx" "passed ctx ctx1" by blast
    have "drop (length bs) (drop (?pos - ?off) (drop ?off ?tp)) = ?l @ r" unfolding dr by simp
    then have "drop (?pos + length bs) ?tp = ?l @ r" using o by (simp add: add.commute add.left_commute)
    with rest [OF c1(1,4,3)] c1(2) ll show ?thesis by simp
  qed
qed (auto simp: cols_given_def)

text \<open>\<open>heap_form_tuple\<close> marks the tuple.\<close>

lemma external_bit: "im AND HEAP_HASEXTERNAL \<noteq> 0 \<longleftrightarrow> bit im 2"
proof -
  have "HEAP_HASEXTERNAL = push_bit 2 1" by (simp add: HEAP_HASEXTERNAL_def)
  then show ?thesis by (simp only: bit_iff_and_push_bit_not_eq_0)
qed

lemma fill_bit_external: "fill_bit st n = Inr (st', c) \<Longrightarrow> bit (fs_infomask st') 2 = bit (fs_infomask st) 2"
proof -
  have "\<not> bit (HEAP_HASNULL :: 16 word) 2" by (simp add: infomask_bits bit_word_iff_drop_bit_and)
  then show "fill_bit st n = Inr (st', c) \<Longrightarrow> ?thesis"
    by (auto simp: fill_bit_def bindE_eq_Inr_iff bit_or_iff Let_def split: option.splits if_splits)
qed

lemma fill_val_external:
  assumes "fill_val fl a v n st = Inr st'" "n \<or> col_image fl a v al bs m" "fs_bit st = None \<longrightarrow> \<not> n"
  shows "bit (fs_infomask st') 2 \<longleftrightarrow> bit (fs_infomask st) 2 \<or> \<not> n \<and> bit m 2"
proof -
  obtain st1 c where b: "fill_bit st n = Inr (st1, c)"
    using assms(1) by (auto simp: fill_val_def bindE_eq_Inr_iff)
  show ?thesis
  proof (cases n)
    case True
    with assms(1,3) b fill_bit_continue [OF b] fill_bit_external [OF b] show ?thesis by (simp add: fill_val_def)
  next
    case False
    with assms(2) have i: "col_image fl a v al bs m" by simp
    have c using fill_bit_continue [OF b] False by simp
    with assms(1) b imageD(1) [OF i] have "fs_infomask st' = fs_infomask st1 OR m"
      by (auto simp: fill_val_def bindE_eq_Inr_iff)
    with False fill_bit_external [OF b] show ?thesis by (simp add: bit_or_iff)
  qed
qed

lemma fill_loop_external:
  "fill_loop fl as vs ns st = Inr st' \<Longrightarrow> cols_ok fl as vs ns \<Longrightarrow> fs_bit st = None \<longrightarrow> True \<notin> set ns \<Longrightarrow>
     bit (fs_infomask st) 2 \<or> (\<exists>j<length as. \<not> ns ! j \<and> pointer_col fl (as ! j) (vs ! j)) \<Longrightarrow>
     bit (fs_infomask st') 2"
proof (induction fl as vs ns st rule: fill_loop.induct)
  case (1 fl a as v vs n ns st)
  from 1(2) obtain st1 where s: "fill_val fl a v n st = Inr st1" "fill_loop fl as vs ns st1 = Inr st'"
    by (auto simp: bindE_eq_Inr_iff)
  have ok: "att_ok a" "cols_ok fl as vs ns" using 1(3) by simp_all
  obtain al bs m where i: "n \<or> col_image fl a v al bs m" using 1(3) by auto
  have fb: "fs_bit st = None \<longrightarrow> \<not> n" using 1(4) by auto
  note f = fill_val_external [OF s(1) i fb] fill_val_infomask(1) [OF s(1) ok(1)]
  have "bit (fs_infomask st1) 2 \<or>
      (\<exists>j<length as. \<not> ns ! j \<and> pointer_col fl (as ! j) (vs ! j))"
    using 1(5) f(1) i pointer_col_image [of fl a v al bs m] by (auto simp: less_Suc_eq_0_disj)
  with 1(1) [OF s(1,2) ok(2)] 1(4) f(2) show ?case by simp
qed auto

lemma heap_form_external:
  assumes "heap_form_tuple fl td vs ns = Inr tup" "cols_ok fl (td_attrs td) vs ns"
    "j < length (td_attrs td)" "\<not> ns ! j" "pointer_col fl (td_attrs td ! j) (vs ! j)"
  shows "t_infomask (t_data tup) AND HEAP_HASEXTERNAL \<noteq> 0"
proof -
  have t: "take (length (td_attrs td)) ns = ns" using cols_ok_lengths [OF assms(2)] by simp
  from assms(1) obtain st st' where l: "fill_loop fl (td_attrs td) vs ns st = Inr st'"
    "fs_bit st = None \<longrightarrow> True \<notin> set ns" "t_infomask (t_data tup) = fs_infomask st'"
    unfolding heap_form_tuple_def heap_fill_tuple_def Let_def t
    by (auto simp: bindE_eq_Inr_iff split: if_splits)
  have "bit (fs_infomask st') 2" using fill_loop_external [OF l(1) assms(2) l(2)] assms(3-5) by blast
  with l(3) show ?thesis unfolding external_bit by simp
qed

text \<open>The header of a tuple on a page: that of the formed tuple, but for the transaction fields, in front of
  the rest of the page.\<close>

definition stamped :: "heap_tuple_header \<Rightarrow> heap_tuple \<Rightarrow> bool" where
  "stamped h tup \<longleftrightarrow> t_hoff h = t_hoff (t_data tup) \<and> HeapTupleHeaderGetNatts h = HeapTupleHeaderGetNatts (t_data tup) \<and>
     (infomask_has h HEAP_HASNULL \<longleftrightarrow> infomask_has (t_data tup) HEAP_HASNULL) \<and>
     (infomask_has (t_data tup) HEAP_HASEXTERNAL \<longrightarrow> infomask_has h HEAP_HASEXTERNAL) \<and>
     (\<exists>rest. t_bits h = t_bits (t_data tup) @ rest)"

definition clean_header :: "shmem \<Rightarrow> heap_tuple_header \<Rightarrow> bool" where
  "clean_header sh h \<longleftrightarrow> \<not> (infomask_has h HEAP_XMAX_COMMITTED \<and> infomask_has h HEAP_XMAX_IS_MULTI) \<and>
     (HeapTupleHeaderIsHotUpdated h \<longrightarrow> TransactionIdIsValid (HeapTupleHeaderGetUpdateXid sh h)) \<and>
     (HeapTupleHeaderIsHeapOnly h \<longrightarrow> infomask_has h HEAP_UPDATED)"

lemma check_tuple_header_clean:
  assumes "clean_header sh (hc_tuphdr ctx)" "unat (t_hoff (hc_tuphdr ctx)) \<le> hc_lp_len ctx"
    "unat (t_hoff (hc_tuphdr ctx)) = header_len (hc_natts ctx) (infomask_has (hc_tuphdr ctx) HEAP_HASNULL)"
  shows "check_tuple_header sh ctx = (True, ctx)"
proof -
  have n: "\<not> hc_lp_len ctx < unat (t_hoff (hc_tuphdr ctx))" using assms(2) by simp
  show ?thesis
    using assms(1,3) n by (auto simp: check_tuple_header_def Let_def clean_header_def header_len_def)
qed

lemma check_toasted_attributes_stored:
  "\<forall>ta\<in>set tas. ptr_stored ctx (ta_toast_pointer ta) \<Longrightarrow> tas = [] \<or> hc_toast_rel ctx \<noteq> None \<Longrightarrow>
     \<exists>ctx'. check_toasted_attributes tas ctx = Inr ctx' \<and> silent ctx ctx'"
proof (induction tas arbitrary: ctx)
  case (Cons ta tas)
  then obtain trel where t: "hc_toast_rel ctx = Some trel" by auto
  from Cons.prems(1) t obtain data where "has_valid_index trel" "stored trel (va_valueid (ta_toast_pointer ta)) data"
    "VARATT_EXTERNAL_GET_EXTSIZE (ta_toast_pointer ta) = int (length data)" "0 < length data"
    by (auto simp: ptr_stored_def)
  from check_toasted_attribute_stored [OF t this] obtain ctx1 where
    c: "check_toasted_attribute ctx ta = Inr ctx1" "silent ctx ctx1" "hc_toast_rel ctx1 = hc_toast_rel ctx" by blast
  have "\<exists>ctx'. check_toasted_attributes tas ctx1 = Inr ctx' \<and> silent ctx1 ctx'"
    using Cons.prems c(3) t by (intro Cons.IH) (simp_all add: ptr_stored_def)
  with c show ?case by (auto simp: silent_def)
qed simp

lemma check_tuple_passes:
  assumes "desc_ok (hc_desc ctx)" "cols_given ms env (td_attrs (hc_desc ctx)) vs ns cs" "row_fits cs"
    "heap_form_tuple (de_flatten env) (hc_desc ctx) vs ns = Inr tup" "stamped (hc_tuphdr ctx) tup"
    "hc_natts ctx = HeapTupleHeaderGetNatts (hc_tuphdr ctx)" "hc_lp_len ctx = unat (t_len tup)"
    "same_store env ctx" "clean_header sh (hc_tuphdr ctx)"
    "check_tuple_visibility sh ctx = (r, ctx1, st)" "silent ctx ctx1"
  shows "\<exists>ctx2. check_tuple sh ctx = Inr (ctx2, st) \<and> passed ctx ctx2"
proof -
  let ?h = "hc_tuphdr ctx" and ?as = "td_attrs (hc_desc ctx)" and ?fl = "de_flatten env" and ?hn = "True \<in> set ns"
  let ?l = "layout ?fl ?as vs ns 0"
  from assms(2) have ok: "cols_ok ?fl ?as vs ns" "\<forall>a\<in>set ?as. att_ok a"
    using cols_given_ok [OF assms(2)] assms(1) by (simp_all add: desc_ok_def)
  have len: "length ns = length ?as" using cols_ok_lengths [OF ok(1)] by simp
  have f: "filled ?fl ?as vs ns (t_data tup)"
    using heap_form_stores [OF assms(1-3)] assms(4) by auto
  from f obtain bits slack where b: "t_bits (t_data tup) = bits @ ?l @ slack"
    "length bits = header_len (length ?as) ?hn - SizeofHeapTupleHeader" "?hn \<longrightarrow> bitmap_of bits ns"
    "unat (t_hoff (t_data tup)) = header_len (length ?as) ?hn" "HeapTupleHeaderGetNatts (t_data tup) = length ?as"
    "infomask_has (t_data tup) HEAP_HASNULL \<longleftrightarrow> ?hn"
    by (auto simp: filled_def infomask_has_def)
  from assms(5) obtain rest where h: "unat (t_hoff ?h) = header_len (length ?as) ?hn" "hc_natts ctx = length ?as"
    "infomask_has ?h HEAP_HASNULL \<longleftrightarrow> ?hn" "t_bits ?h = bits @ ?l @ slack @ rest"
    using b assms(6) by (auto simp: stamped_def)
  have tl: "hc_lp_len ctx = header_len (length ?as) ?hn + length ?l"
    using heap_form_len [OF assms(1-4)] assms(7) by simp
  have nul: "(if infomask_has ?h HEAP_HASNULL then att_isnull (0 + j) (t_bits ?h) else Inr False) = Inr (ns ! j)"
    if "j < length ns" for j
    using bitmap_isnull [of bits ns j "?l @ slack @ rest"] b(2,3) len that h(3,4) by (simp split: if_splits)
  have ext: "infomask_has ?h HEAP_HASEXTERNAL" if "j < length ?as" "\<not> ns ! j" "pointer_col ?fl (?as ! j) (vs ! j)" for j
    using heap_form_external [OF assms(4) ok(1) that] assms(5) by (simp add: stamped_def infomask_has_def)
  have hd: "check_tuple_header sh ctx = (True, ctx)"
    by (rule check_tuple_header_clean [OF assms(9)]) (simp_all add: h tl)
  have q: "quiet ctx ctx1" using check_tuple_visibility_vis [OF assms(10)] assms(11) by (simp add: vis_step_def)
  then have fr: "hc_tuphdr ctx1 = ?h" "hc_desc ctx1 = hc_desc ctx" "hc_lp_len ctx1 = hc_lp_len ctx" "hc_natts ctx1 = hc_natts ctx"
    "hc_toast_rel ctx1 = hc_toast_rel ctx" "hc_reltoastrelid ctx1 = hc_reltoastrelid ctx"
    using frameD [of ctx1 ctx] by (simp_all add: quiet_def)
  show ?thesis
  proof (cases r)
    case False
    with hd assms(10) quiet_passed [OF q] show ?thesis by (simp add: check_tuple_def)
  next
    case True
    let ?c = "ctx1\<lparr>hc_offset := 0, hc_attnum := 0\<rparr>"
    have "\<exists>ctx'. check_attributes (length ?as) ?c = Inr ctx' \<and> passed ?c ctx'"
    proof (rule check_attributes_layout [OF assms(2) ok(2), where k = 0 and r = "slack @ rest"])
      show "same_store env ?c" using assms(8) fr by (simp add: same_store_def)
      show "(if infomask_has (hc_tuphdr ?c) HEAP_HASNULL then att_isnull (0 + j) (t_bits (hc_tuphdr ?c)) else Inr False) =
          Inr (ns ! j)" if "j < length ns" for j using nul [OF that] fr by (simp split: if_splits)
      show "infomask_has (hc_tuphdr ?c) HEAP_HASEXTERNAL"
        if "j < length ?as" "\<not> ns ! j" "pointer_col ?fl (?as ! j) (vs ! j)" for j using ext [OF that] fr by simp
    qed (use h fr b(2) tl in simp_all)
    then obtain ctx2 where "check_attributes (length ?as) ?c = Inr ctx2" "passed ctx1 ctx2" by auto
    with hd assms(10) True fr h(2) passed_trans [OF quiet_passed [OF q]] show ?thesis by (simp add: check_tuple_def)
  qed
qed

text \<open>C15. No false alarm: a row formed by \<open>heap_form_tuple\<close> and placed on a page, whose out-of-line values are
  in the relation's TOAST table and whose transaction fields are clean and pass the visibility check, adds no
  report: neither \<open>check_tuple\<close> nor the later check of its out-of-line values complains, and neither of
  them fails.\<close>

theorem check_tuple_complete:
  assumes "desc_ok (hc_desc ctx)" "cols_given ms env (td_attrs (hc_desc ctx)) vs ns cs" "row_fits cs"
    "heap_form_tuple (de_flatten env) (hc_desc ctx) vs ns = Inr tup" "stamped (hc_tuphdr ctx) tup"
    "hc_natts ctx = HeapTupleHeaderGetNatts (hc_tuphdr ctx)" "hc_lp_len ctx = unat (t_len tup)"
    "same_store env ctx" "clean_header sh (hc_tuphdr ctx)"
    "check_tuple_visibility sh ctx = (r, ctx1, st)" "silent ctx ctx1" "hc_toasted_attributes ctx = []"
  shows "\<exists>ctx2 ctx3. check_tuple sh ctx = Inr (ctx2, st) \<and> hc_tupstore ctx2 = hc_tupstore ctx \<and>
    check_toasted_attributes (hc_toasted_attributes ctx2) ctx2 = Inr ctx3 \<and> hc_tupstore ctx3 = hc_tupstore ctx"
proof -
  from check_tuple_passes [OF assms(1-11)] obtain ctx2 where c2: "check_tuple sh ctx = Inr (ctx2, st)" "passed ctx ctx2" by blast
  then have "hc_toasted_attributes ctx2 = [] \<or> hc_toast_rel ctx2 \<noteq> None"
    "\<forall>ta\<in>set (hc_toasted_attributes ctx2). ptr_stored ctx2 (ta_toast_pointer ta)"
    using assms(12) frame_stored [of ctx2 ctx] by (auto simp: passed_def)
  with check_toasted_attributes_stored obtain ctx3 where
    "check_toasted_attributes (hc_toasted_attributes ctx2) ctx2 = Inr ctx3" "silent ctx2 ctx3" by blast
  with c2 show ?thesis by (auto simp: passed_def silent_def)
qed

definition demo_check_env :: detoast_env where
  "demo_check_env = \<lparr>de_store = [9 \<mapsto> demo_rel], de_mem = (\<lambda>_. None), de_flatten = (\<lambda>_. Inl MemFault), de_lz4 = None\<rparr>"

definition demo_check_values :: "datum list" where
  "demo_check_values = [ByVal 7, ByRef (external_bytes demo_tp @ []), ByVal 0]"

lemma demo_check_given:
  "cols_given UNIV demo_check_env (td_attrs demo_desc) demo_check_values [False, False, True] [ColWord 7, ColText demo_data, ColNull]"
proof -
  have d: "length demo_data = 2000" by (simp add: demo_data_def)
  have tp: "demo_tp = ext_pointer (int (length demo_data)) (int (length demo_data)) 0 5 9" unfolding d by code_simp
  have "in_store demo_check_env 9 5 demo_data" using demo_rel_stored by (simp add: in_store_def demo_check_env_def)
  then have "represents UNIV demo_check_env (external_bytes demo_tp @ []) demo_data"
    unfolding tp by (intro represents.external) (simp_all add: d)
  then show ?thesis
    by (simp add: cols_given_def col_given_def col_holds_def demo_desc_def demo_att_def demo_check_values_def
        All_less_Suc2 byval_norm_def numeral_3_eq_3)
qed

lemma demo_stamped: "stamped demo_page_header demo_tuple"
proof -
  have "t_hoff demo_page_header = t_hoff (t_data demo_tuple)" "t_bits demo_page_header = t_bits (t_data demo_tuple) @ []"
    "HeapTupleHeaderGetNatts demo_page_header = HeapTupleHeaderGetNatts (t_data demo_tuple)"
    "infomask_has demo_page_header HEAP_HASNULL" "infomask_has (t_data demo_tuple) HEAP_HASNULL"
    "infomask_has demo_page_header HEAP_HASEXTERNAL" by code_simp+
  then show ?thesis unfolding stamped_def by blast
qed

lemma demo_formed:
  "heap_form_tuple (de_flatten demo_check_env) demo_desc demo_check_values [False, False, True] = Inr demo_tuple"
  unfolding demo_check_env_def detoast_env.select_convs by code_simp

lemma demo_fits: "row_fits [ColWord 7, ColText demo_data, ColNull]"
  by (simp add: row_fits_def col_weight_def demo_data_def HEAPTUPLESIZE_def MaxAllocSize_def)

lemma demo_clean: "clean_header demo_shmem demo_page_header"
  by code_simp

lemma demo_header: "HeapTupleHeaderGetNatts demo_page_header = 3" "unat (t_len demo_tuple) = 46"
  by code_simp+

lemma demo_same_store: "same_store demo_check_env tuple_ctx"
  by (simp add: same_store_def demo_check_env_def tuple_ctx_def InvalidOid_def)

lemma tuple_ctx_fields [simp]:
  "hc_desc tuple_ctx = demo_desc" "hc_tuphdr tuple_ctx = demo_page_header" "hc_natts tuple_ctx = 3"
  "hc_lp_len tuple_ctx = 46" "hc_toasted_attributes tuple_ctx = []" "hc_tupstore tuple_ctx = []"
  by (simp_all add: tuple_ctx_def)

theorem check_tuple_complete_witness:
  "\<exists>ctx2 ctx3. check_tuple demo_shmem tuple_ctx = Inr (ctx2, Some XID_COMMITTED) \<and> hc_tupstore ctx2 = [] \<and>
    check_toasted_attributes (hc_toasted_attributes ctx2) ctx2 = Inr ctx3 \<and> hc_tupstore ctx3 = []"
proof -
  obtain ctx1 where "check_tuple_visibility demo_shmem tuple_ctx = (True, ctx1, Some XID_COMMITTED)" "silent tuple_ctx ctx1"
    using tuple_ctx_visible by blast
  with check_tuple_complete [of tuple_ctx UNIV demo_check_env demo_check_values "[False, False, True]"
      "[ColWord 7, ColText demo_data, ColNull]" demo_tuple demo_shmem True ctx1 "Some XID_COMMITTED"]
  show ?thesis
    using demo_desc_ok demo_check_given demo_fits demo_formed demo_stamped demo_same_store demo_clean demo_header by simp
qed

theorem check_tuple_sound_witness:
  "\<exists>ctx' td vs ns. check_tuple demo_shmem tuple_ctx = Inr (ctx', Some XID_COMMITTED) \<and> silent tuple_ctx ctx' \<and>
    heap_deform_tuple (demo_tuple\<lparr>t_data := demo_page_header\<rparr>) demo_desc = Inr (td, vs, ns) \<and>
    (ns ! 0 \<or> value_within 0 (td_attrs demo_desc ! 0) (vs ! 0)) \<and>
    (ns ! 1 \<or> value_within 0 (td_attrs demo_desc ! 1) (vs ! 1)) \<and>
    (ns ! 2 \<or> value_within 0 (td_attrs demo_desc ! 2) (vs ! 2))"
proof -
  obtain ctx1 where v: "check_tuple_visibility demo_shmem tuple_ctx = (True, ctx1, Some XID_COMMITTED)" "silent tuple_ctx ctx1"
    using tuple_ctx_visible by blast
  with check_tuple_passes [of tuple_ctx UNIV demo_check_env demo_check_values "[False, False, True]"
      "[ColWord 7, ColText demo_data, ColNull]" demo_tuple demo_shmem True ctx1 "Some XID_COMMITTED"]
  obtain ctx2 where c: "check_tuple demo_shmem tuple_ctx = Inr (ctx2, Some XID_COMMITTED)" "silent tuple_ctx ctx2"
    using demo_desc_ok demo_check_given demo_fits demo_formed demo_stamped demo_same_store demo_clean demo_header
    by (auto simp: passed_def)
  have b: "length (t_bits demo_page_header) = 23" by code_simp
  obtain td vs ns where "heap_deform_tuple (demo_tuple\<lparr>t_data := demo_page_header\<rparr>) demo_desc = Inr (td, vs, ns)"
    "\<forall>j<3. ns ! j \<or> value_within 0 (td_attrs demo_desc ! j) (vs ! j)"
    using check_tuple_sound [OF c, of "demo_tuple\<lparr>t_data := demo_page_header\<rparr>" 0 "([], [])"] v(1) demo_desc_ok demo_header b
    by (auto simp: SizeofHeapTupleHeader_def demo_desc_def)
  moreover from this(2) [rule_format, of 0] this(2) [rule_format, of 1] this(2) [rule_format, of 2]
  have "(ns ! 0 \<or> value_within 0 (td_attrs demo_desc ! 0) (vs ! 0)) \<and>
    (ns ! 1 \<or> value_within 0 (td_attrs demo_desc ! 1) (vs ! 1)) \<and>
    (ns ! 2 \<or> value_within 0 (td_attrs demo_desc ! 2) (vs ! 2))" by (intro conjI) simp_all
  ultimately show ?thesis using c by blast
qed

end
