(* ===== verification/Verify_Xid_Correct.thy ===== *)
theory Verify_Xid_Correct
  imports Verify_Toast_Correct
begin

text \<open>
  The transaction ids of amcheck: the 64-bit id is recovered from the 32 bits of a tuple, and the
  violations of the bounds are those of the 64-bit ids.
\<close>

text \<open>Less than half of the 32-bit circle apart.\<close>

definition near :: "full_xid \<Rightarrow> full_xid \<Rightarrow> bool" where
  "near f g \<longleftrightarrow> \<bar>uint f - uint g\<bar> < 2 ^ 31"

text \<open>The cached range belongs to one point in time.\<close>

definition range_cached :: "heap_check_context \<Rightarrow> bool" where
  "range_cached ctx \<longleftrightarrow> hc_next_xid ctx = XidFromFullTransactionId (hc_next_fxid ctx)"

lemma low_difference:
  assumes "near f g"
  shows "sint (XidFromFullTransactionId g - XidFromFullTransactionId f) = uint g - uint f"
proof -
  have e: "XidFromFullTransactionId g - XidFromFullTransactionId f = word_of_int (uint g - uint f)"
    by (simp add: XidFromFullTransactionId_def)
  have s: "sint (word_of_int k :: 32 word) = k" if "\<bar>k\<bar> < 2 ^ 31" for k
    using that by (simp add: sint_sbintrunc' signed_take_bit_int_eq_self)
  show ?thesis unfolding e by (rule s) (use assms in \<open>simp add: near_def abs_minus_commute\<close>)
qed

lemma normal_full: "TransactionIdIsNormal (XidFromFullTransactionId f) \<Longrightarrow> 3 \<le> uint f"
proof -
  assume n: "TransactionIdIsNormal (XidFromFullTransactionId f)"
  have "uint (XidFromFullTransactionId f) \<le> uint f"
    by (simp add: XidFromFullTransactionId_def unsigned_ucast_eq take_bit_int_less_eq_self_iff)
  moreover have "uint (3 :: xid) \<le> uint (XidFromFullTransactionId f)"
    using n by (simp only: TransactionIdIsNormal_def FirstNormalTransactionId_def Word.word_le_def)
  ultimately show ?thesis by simp
qed

lemma special_not_normal:
  "\<not> TransactionIdIsNormal BootstrapTransactionId" "\<not> TransactionIdIsNormal FrozenTransactionId"
  "\<not> TransactionIdIsValid x \<Longrightarrow> \<not> TransactionIdIsNormal x"
proof -
  show "\<not> TransactionIdIsNormal x" if "\<not> TransactionIdIsValid x"
  proof -
    have "x = InvalidTransactionId" using that by (simp add: TransactionIdIsValid_def)
    moreover have "\<not> TransactionIdIsNormal InvalidTransactionId" by code_simp
    ultimately show ?thesis by simp
  qed
qed code_simp+

text \<open>The epoch is recovered.\<close>

lemma FullTransactionId_recovered:
  assumes "range_cached ctx" "near f (hc_next_fxid ctx)" "TransactionIdIsNormal (XidFromFullTransactionId f)"
  shows "FullTransactionIdFromXidAndCtx (XidFromFullTransactionId f) ctx = f"
proof -
  let ?n = "hc_next_fxid ctx"
  have d: "sint (hc_next_xid ctx - XidFromFullTransactionId f) = uint ?n - uint f"
    using low_difference [OF assms(2)] assms(1) by (simp add: range_cached_def)
  have f: "?n - word_of_int (uint ?n - uint f) = f" by (simp add: wi_hom_syms)
  have "\<not> (uint ?n - uint f > 0 \<and> ?n - 3 < word_of_int (uint ?n - uint f))"
  proof
    assume a: "uint ?n - uint f > 0 \<and> ?n - 3 < word_of_int (uint ?n - uint f)"
    have n: "3 \<le> uint f" by (rule normal_full [OF assms(3)])
    have "uint (?n - 3) = uint ?n - 3"
      using a n uint_lt2p [of ?n] by (simp add: uint_word_ariths)
    moreover have "uint (word_of_int (uint ?n - uint f) :: 64 word) = uint ?n - uint f"
      using a uint_lt2p [of ?n] n by (subst uint_word_of_int) simp
    ultimately show False using a n by (simp add: word_less_def)
  qed
  then show ?thesis
    unfolding FullTransactionIdFromXidAndCtx_def Let_def d
    using assms(3) f by (auto simp: FirstNormalTransactionId_def)
qed

lemma range_cached_update [simp]: "range_cached (update_cached_xid_range sh ctx)"
  by (simp add: range_cached_def update_cached_xid_range_def Let_def)

text \<open>The oldest id of the cluster, as a 64-bit id.\<close>

definition oldest_full :: "shmem \<Rightarrow> heap_check_context \<Rightarrow> full_xid" where
  "oldest_full sh ctx = hc_oldest_fxid (update_cached_xid_range sh ctx)"

lemma oldest_recovered:
  assumes "sh_oldestXid sh = XidFromFullTransactionId f" "near f (sh_nextXid sh)" "TransactionIdIsNormal (XidFromFullTransactionId f)"
  shows "hc_oldest_fxid (update_cached_xid_range sh ctx) = f"
  using assms by (simp add: update_cached_xid_range_def Let_def FullTransactionId_recovered range_cached_def)


text \<open>The id 4294967196, of epoch 0, seen 200 ids later, in epoch 1; the cache has not seen the new epoch.\<close>

definition epoch_shmem :: shmem where
  "epoch_shmem = demo_shmem\<lparr>sh_nextXid := 4294967396, sh_oldestXid := 4294960000\<rparr>"

definition epoch_ctx :: heap_check_context where
  "epoch_ctx = update_cached_xid_range (demo_shmem\<lparr>sh_nextXid := 4294967100, sh_oldestXid := 4294960000\<rparr>)
     (demo_ctx\<lparr>hc_relfrozenfxid := 700\<rparr>)"


end
