(* ===== verification/Verify_Heapam_Correct.thy ===== *)
theory Verify_Heapam_Correct
  imports Verify_Heapam
begin

text \<open>
  Where the reports of a run point to: the blocks that were asked for and not skipped, a line pointer of
  the page; in the order of the blocks; and a run that stops at the first error reports one block.
\<close>

section \<open>Reports about one page\<close>

definition on_page :: "report list \<Rightarrow> nat \<Rightarrow> nat set \<Rightarrow> heap_check_context \<Rightarrow> bool" where
  "on_page base blk offs ctx \<longleftrightarrow> hc_blkno ctx = blk \<and>
     (\<exists>rs. hc_tupstore ctx = base @ rs \<and> (\<forall>r\<in>set rs. rp_blkno r = blk \<and> rp_offnum r \<in> offs)) \<and>
     (hc_is_corrupt ctx \<longleftrightarrow> hc_tupstore ctx \<noteq> []) \<and>
     (\<forall>ta\<in>set (hc_toasted_attributes ctx). ta_blkno ta = blk \<and> ta_offnum ta \<in> offs)"

text \<open>The same, while a line pointer of the page is being looked at.\<close>

definition at_item :: "report list \<Rightarrow> nat \<Rightarrow> nat set \<Rightarrow> heap_check_context \<Rightarrow> bool" where
  "at_item base blk offs ctx \<longleftrightarrow> on_page base blk offs ctx \<and> hc_offnum ctx \<in> offs"

lemma at_item_report [simp]: "at_item base blk offs ctx \<Longrightarrow> at_item base blk offs (report_corruption ctx msg)"
  by (auto simp: at_item_def on_page_def report_corruption_def report_corruption_internal_def)

lemma on_page_report_toast [simp]:
  "on_page base blk offs ctx \<Longrightarrow> ta_blkno ta = blk \<Longrightarrow> ta_offnum ta \<in> offs \<Longrightarrow>
     on_page base blk offs (report_toast_corruption ctx ta msg)"
  by (auto simp: on_page_def report_toast_corruption_def report_corruption_internal_def)

lemma at_item_fields [simp]:
  "at_item base blk offs (ctx\<lparr>hc_offset := off\<rparr>) = at_item base blk offs ctx"
  "at_item base blk offs (ctx\<lparr>hc_attnum := k\<rparr>) = at_item base blk offs ctx"
  "at_item base blk offs (ctx\<lparr>hc_tuple_could_be_pruned := b\<rparr>) = at_item base blk offs ctx"
  "at_item base blk offs (ctx\<lparr>hc_cached_xid := x, hc_cached_status := st\<rparr>) = at_item base blk offs ctx"
  "at_item base blk offs (ctx\<lparr>hc_lp_len := n, hc_lp_off := m\<rparr>) = at_item base blk offs ctx"
  "at_item base blk offs (ctx\<lparr>hc_tuphdr := h, hc_natts := n\<rparr>) = at_item base blk offs ctx"
  "at_item base blk offs (update_cached_xid_range sh ctx) = at_item base blk offs ctx"
  "at_item base blk offs (update_cached_mxid_range sh ctx) = at_item base blk offs ctx"
  by (simp_all add: at_item_def on_page_def update_cached_xid_range_def update_cached_mxid_range_def Let_def)

lemma at_item_report_xid [simp]: "at_item base blk offs ctx \<Longrightarrow> at_item base blk offs (report_xid ctx role v xid)"
  by (simp add: report_xid_def)

lemma at_item_if:
  "at_item base blk offs ctx \<Longrightarrow> at_item base blk offs (if b then report_corruption ctx msg else ctx)"
  by simp

section \<open>One tuple\<close>

lemma check_tuple_header_at: "at_item base blk offs ctx \<Longrightarrow> at_item base blk offs (snd (check_tuple_header sh ctx))"
  unfolding check_tuple_header_def Let_def split_beta
  by (cases "unat (t_hoff (hc_tuphdr ctx)) > hc_lp_len ctx") (simp_all add: at_item_if)

lemma get_xid_status_at: "get_xid_status sh xid ctx = (v, st, ctx') \<Longrightarrow> at_item base blk offs ctx \<Longrightarrow> at_item base blk offs ctx'"
  by (auto simp: get_xid_status_def Let_def split: if_splits)

lemma check_mxid_at: "check_mxid_valid_in_rel sh mxid ctx = (v, ctx') \<Longrightarrow> at_item base blk offs ctx \<Longrightarrow> at_item base blk offs ctx'"
  by (auto simp: check_mxid_valid_in_rel_def Let_def split: if_splits)

lemma set_prunable_at [simp]: "at_item base blk offs (set_prunable st x ctx) = at_item base blk offs ctx"
  by (simp add: set_prunable_def)

lemma check_inserter_at: "check_inserter sh st ctx = (r, ctx') \<Longrightarrow> at_item base blk offs ctx \<Longrightarrow> at_item base blk offs ctx'"
  by (auto simp: check_inserter_def check_xvac_def Let_def split: prod.splits if_splits xid_commit_status.splits
      dest: get_xid_status_at)

lemma check_deleter_at: "check_deleter sh ctx = (r, ctx') \<Longrightarrow> at_item base blk offs ctx \<Longrightarrow> at_item base blk offs ctx'"
  by (auto simp: check_deleter_def Let_def split: prod.splits if_splits dest!: get_xid_status_at check_mxid_at)

lemma check_tuple_visibility_at:
  "check_tuple_visibility sh ctx = (r, ctx', st) \<Longrightarrow> at_item base blk offs ctx \<Longrightarrow> at_item base blk offs ctx'"
  by (auto simp: check_tuple_visibility_def Let_def split: prod.splits if_splits option.splits
      dest!: get_xid_status_at [where base = base and blk = blk and offs = offs]
        check_inserter_at [where base = base and blk = blk and offs = offs]
        check_deleter_at [where base = base and blk = blk and offs = offs])

lemma at_item_toasted:
  "at_item base blk offs ctx \<Longrightarrow> at_item base blk offs (ctx\<lparr>hc_toasted_attributes := hc_toasted_attributes ctx @
     [\<lparr>ta_toast_pointer = tp, ta_blkno = hc_blkno ctx, ta_offnum = hc_offnum ctx, ta_attnum = k\<rparr>]\<rparr>)"
  by (simp add: at_item_def on_page_def)

lemma check_toast_pointer_at: "at_item base blk offs ctx \<Longrightarrow> at_item base blk offs (check_toast_pointer ctx tp)"
proof -
  assume a: "at_item base blk offs ctx"
  define c1 where "c1 = (if sint (va_rawsize tp) > VARLENA_SIZE_LIMIT
      then report_corruption ctx (RawsizeExceedsLimit (va_valueid tp) (sint (va_rawsize tp))) else ctx)"
  define c2 where "c2 = (if VARATT_EXTERNAL_IS_COMPRESSED tp \<and>
      \<not> (VARATT_EXTERNAL_GET_COMPRESS_METHOD tp = TOAST_PGLZ_COMPRESSION_ID \<or>
         VARATT_EXTERNAL_GET_COMPRESS_METHOD tp = TOAST_RLE_COMPRESSION_ID \<or>
         VARATT_EXTERNAL_GET_COMPRESS_METHOD tp = TOAST_LZ4_COMPRESSION_ID)
      then report_corruption c1 (InvalidCompressionId (va_valueid tp) (VARATT_EXTERNAL_GET_COMPRESS_METHOD tp)) else c1)"
  have "at_item base blk offs c2" unfolding c2_def c1_def using a by (intro at_item_if)
  then show ?thesis
    unfolding check_toast_pointer_def Let_def c1_def [symmetric] c2_def [symmetric]
    by (simp add: at_item_toasted)
qed

text \<open>The contexts a check of an attribute can end in.\<close>

lemma check_tuple_attribute_at:
  assumes "check_tuple_attribute ctx = Inr (ok, ctx')" "at_item base blk offs ctx"
  shows "at_item base blk offs ctx'"
proof -
  have "\<exists>off. ctx' = ctx \<or> ctx' = ctx\<lparr>hc_offset := off\<rparr> \<or> (\<exists>msg. ctx' = report_corruption ctx msg) \<or>
      (\<exists>msg. ctx' = report_corruption (ctx\<lparr>hc_offset := off\<rparr>) msg) \<or>
      (\<exists>tp. ctx' = check_toast_pointer (ctx\<lparr>hc_offset := off\<rparr>) tp)"
    using assms(1) unfolding check_tuple_attribute_def Let_def
    by (auto simp: bindE_eq_Inr_iff split: if_splits)
  with assms(2) show ?thesis by (auto simp: check_toast_pointer_at)
qed

lemma check_attributes_at:
  "check_attributes n ctx = Inr ctx' \<Longrightarrow> at_item base blk offs ctx \<Longrightarrow> at_item base blk offs ctx'"
proof (induction n arbitrary: ctx)
  case (Suc n)
  then obtain ok ctx1 where c: "check_tuple_attribute ctx = Inr (ok, ctx1)" by (auto simp: bindE_eq_Inr_iff)
  from check_tuple_attribute_at [OF this Suc.prems(2)] Suc c show ?case by (cases ok) auto
qed simp

lemma check_tuple_at:
  assumes "check_tuple sh ctx = Inr (ctx', st)" "at_item base blk offs ctx"
  shows "at_item base blk offs ctx'"
proof -
  obtain r ctx1 where h: "check_tuple_header sh ctx = (r, ctx1)" by fastforce
  obtain vr ctx2 st2 where v: "check_tuple_visibility sh ctx1 = (vr, ctx2, st2)" by (metis prod_cases3)
  have a1: "at_item base blk offs ctx1" using check_tuple_header_at [OF assms(2)] h by (metis snd_conv)
  have a2: "at_item base blk offs ctx2" by (rule check_tuple_visibility_at [OF v a1])
  show ?thesis
    using assms(1) h v a1 a2
    by (auto simp: check_tuple_def bindE_eq_Inr_iff split: bool.splits if_splits dest: check_attributes_at)
qed

section \<open>One page\<close>

lemma on_page_offnum:
  "on_page base blk offs ctx \<Longrightarrow> k \<in> offs \<Longrightarrow> at_item base blk offs (ctx\<lparr>hc_offnum := k\<rparr>)"
  by (simp add: at_item_def on_page_def)

lemma at_item_on_page: "at_item base blk offs ctx \<Longrightarrow> on_page base blk offs ctx"
  by (simp add: at_item_def)

lemma check_line_pointer_at:
  assumes "check_line_pointer sh page maxoff k (ctx, ps) = Inr (ctx', ps')" "on_page base blk offs ctx" "k \<in> offs"
  shows "on_page base blk offs ctx'"
proof (rule at_item_on_page)
  have a: "at_item base blk offs (ctx\<lparr>hc_offnum := k\<rparr>)" by (rule on_page_offnum [OF assms(2,3)])
  have r: "at_item base blk offs (fst (check_redirect page maxoff itemid (ctx\<lparr>hc_offnum := k\<rparr>) ps1))" for itemid ps1
    using a by (simp add: check_redirect_def Let_def)
  show "at_item base blk offs ctx'"
    using assms(1) a r unfolding check_line_pointer_def Let_def prod.case
    by (auto simp: bindE_eq_Inr_iff split: if_splits dest!: check_tuple_at [where base = base and blk = blk and offs = offs])
       (metis fst_conv)
qed

lemma check_line_pointers_at:
  "check_line_pointers sh page maxoff ks (ctx, ps) = Inr (ctx', ps') \<Longrightarrow> on_page base blk offs ctx \<Longrightarrow> set ks \<subseteq> offs \<Longrightarrow>
     on_page base blk offs ctx'"
proof (induction ks arbitrary: ctx ps)
  case (Cons k ks)
  then obtain ctx1 ps1 where "check_line_pointer sh page maxoff k (ctx, ps) = Inr (ctx1, ps1)"
    by (auto simp: bindE_eq_Inr_iff)
  with Cons check_line_pointer_at [OF this Cons.prems(2)] show ?case by simp
qed simp

lemma check_chain_status_at [simp]:
  "at_item base blk offs ctx \<Longrightarrow> at_item base blk offs (check_chain_status sh ps k n x y ctx)"
  by (simp add: check_chain_status_def Let_def)

lemma check_chain_at:
  "on_page base blk offs (fst s) \<Longrightarrow> k \<in> offs \<Longrightarrow> on_page base blk offs (fst (check_chain sh page ps k s))"
  using on_page_offnum [of base blk offs "fst s" k]
  by (cases s, intro at_item_on_page) (simp add: check_chain_def Let_def at_item_if)

lemma check_chains_at:
  "on_page base blk offs (fst s) \<Longrightarrow> set ks \<subseteq> offs \<Longrightarrow> on_page base blk offs (fst (fold (check_chain sh page ps) ks s))"
  by (induction ks arbitrary: s) (auto simp: check_chain_at)

lemma check_roots_at:
  "on_page base blk offs ctx \<Longrightarrow> set ks \<subseteq> offs \<Longrightarrow> on_page base blk offs (fold (check_root page ps pr) ks ctx)"
proof (induction ks arbitrary: ctx)
  case (Cons k ks)
  then have "at_item base blk offs (check_root page ps pr k ctx)"
    using on_page_offnum [of base blk offs ctx k] by (simp add: check_root_def Let_def)
  with Cons show ?case by (simp add: at_item_on_page)
qed simp

lemma check_toast_tuple_at:
  assumes "check_toast_tuple seq data ta extsize (ctx, i) = Inr (ctx', i')" "on_page base blk offs ctx"
    "ta_blkno ta = blk" "ta_offnum ta \<in> offs"
  shows "on_page base blk offs ctx'"
  using assms unfolding check_toast_tuple_def Let_def
  by (cases seq; cases data) (auto simp: bindE_eq_Inr_iff split: if_splits prod.splits)

lemma check_chunks_at:
  "check_chunks ta extsize cs s = Inr s' \<Longrightarrow> on_page base blk offs (fst s) \<Longrightarrow> ta_blkno ta = blk \<Longrightarrow> ta_offnum ta \<in> offs \<Longrightarrow>
     on_page base blk offs (fst s')"
proof (induction cs arbitrary: s)
  case (Cons c cs)
  then show ?case by (cases s) (fastforce simp: bindE_eq_Inr_iff dest: check_toast_tuple_at)
qed simp

lemma check_toasted_attribute_at:
  assumes "check_toasted_attribute ctx ta = Inr ctx'" "on_page base blk offs ctx" "ta_blkno ta = blk" "ta_offnum ta \<in> offs"
  shows "on_page base blk offs ctx'"
  using assms unfolding check_toasted_attribute_def Let_def
  by (auto simp: bindE_eq_Inr_iff split: option.splits if_splits
      dest!: check_chunks_at [where base = base and blk = blk and offs = offs])

lemma check_toasted_attributes_at:
  "check_toasted_attributes tas ctx = Inr ctx' \<Longrightarrow> on_page base blk offs ctx \<Longrightarrow>
     \<forall>ta\<in>set tas. ta_blkno ta = blk \<and> ta_offnum ta \<in> offs \<Longrightarrow> on_page base blk offs ctx'"
  by (induction tas arbitrary: ctx) (auto simp: bindE_eq_Inr_iff dest: check_toasted_attribute_at)

definition page_offsets :: "bytes \<Rightarrow> nat set" where
  "page_offsets page = {FirstOffsetNumber..PageGetMaxOffsetNumber page}"

lemma check_page_at:
  assumes "check_page sh page ctx = Inr ctx'" "on_page base blk (page_offsets page) ctx"
  shows "on_page base blk (page_offsets page) ctx'" "hc_toasted_attributes ctx' = []"
proof -
  let ?offs = "page_offsets page"
  define ks where "ks = [FirstOffsetNumber..<Suc (PageGetMaxOffsetNumber page)]"
  have ks: "set ks \<subseteq> ?offs" by (auto simp: page_offsets_def ks_def)
  from assms(1) obtain ctx1 ps ctx3 pr ctx5 where
    l: "check_line_pointers sh page (PageGetMaxOffsetNumber page) ks (ctx, empty_scan) = Inr (ctx1, ps)"
    and f: "fold (check_chain sh page ps) ks (ctx1\<lparr>hc_attnum := -1\<rparr>, \<lambda>_. InvalidOffsetNumber) = (ctx3, pr)"
    and t: "check_toasted_attributes (hc_toasted_attributes (fold (check_root page ps pr) ks ctx3))
        (fold (check_root page ps pr) ks ctx3) = Inr ctx5" "ctx' = ctx5\<lparr>hc_toasted_attributes := []\<rparr>"
    unfolding check_page_def Let_def ks_def [symmetric]
    by (auto simp: bindE_eq_Inr_iff split_beta) (metis prod.collapse)
  have "on_page base blk ?offs ctx1" by (rule check_line_pointers_at [OF l assms(2) ks])
  then have "on_page base blk ?offs (ctx1\<lparr>hc_attnum := -1\<rparr>)" by (simp add: on_page_def)
  then have "on_page base blk ?offs ctx3" using check_chains_at [OF _ ks, of base blk "(ctx1\<lparr>hc_attnum := -1\<rparr>, \<lambda>_. InvalidOffsetNumber)"] f
    by (metis fst_conv)
  then have c4: "on_page base blk ?offs (fold (check_root page ps pr) ks ctx3)" by (rule check_roots_at [OF _ ks])
  then have "on_page base blk ?offs ctx5" by (intro check_toasted_attributes_at [OF t(1)]) (simp_all add: on_page_def)
  then show "on_page base blk ?offs ctx'" "hc_toasted_attributes ctx' = []" using t(2) by (simp_all add: on_page_def)
qed

section \<open>The relation\<close>

definition located :: "check_rel \<Rightarrow> skip_pages \<Rightarrow> nat list \<Rightarrow> report list \<Rightarrow> bool" where
  "located rel skip blks rs \<longleftrightarrow> sorted (map rp_blkno rs) \<and>
     (\<forall>r\<in>set rs. rp_blkno r \<in> set blks \<and> \<not> skip_block skip rel (rp_blkno r) \<and>
        rp_offnum r \<in> page_offsets (cr_blocks rel ! rp_blkno r))"

definition one_block :: "report list \<Rightarrow> bool" where
  "one_block rs \<longleftrightarrow> (\<forall>r\<in>set rs. \<forall>r'\<in>set rs. rp_blkno r = rp_blkno r')"

lemma located_skip: "located rel skip blks rs \<Longrightarrow> located rel skip (b # blks) rs"
  by (simp add: located_def)

lemma located_Cons:
  assumes "located rel skip blks rs'" "\<forall>r\<in>set rs. rp_blkno r = b \<and> rp_offnum r \<in> page_offsets (cr_blocks rel ! b)"
    "\<not> skip_block skip rel b" "sorted (b # blks)"
  shows "located rel skip (b # blks) (rs @ rs')"
proof -
  have b: "map rp_blkno rs = replicate (length rs) b" using assms(2) by (induction rs) auto
  have "sorted (map rp_blkno (rs @ rs'))"
    using b assms(1,4) by (auto simp: sorted_append located_def)
  with assms(1-3) show ?thesis by (auto simp: located_def ball_Un)
qed

lemma check_blocks_at:
  assumes "check_blocks sh rel skip stop blks ctx = Inr ctx'" "hc_toasted_attributes ctx = []"
    "hc_is_corrupt ctx \<longleftrightarrow> hc_tupstore ctx \<noteq> []" "sorted blks"
  shows "\<exists>rs. hc_tupstore ctx' = hc_tupstore ctx @ rs \<and> located rel skip blks rs \<and>
    (stop \<and> hc_tupstore ctx = [] \<longrightarrow> one_block rs)"
  using assms
proof (induction blks arbitrary: ctx)
  case (Cons b blks)
  let ?c = "ctx\<lparr>hc_blkno := b\<rparr>" and ?offs = "page_offsets (cr_blocks rel ! b)"
  have sb: "sorted blks" using Cons.prems(4) by simp
  show ?case
  proof (cases "skip_block skip rel b")
    case True
    with Cons.prems have "check_blocks sh rel skip stop blks ?c = Inr ctx'" by simp
    from Cons.IH [OF this _ _ sb] Cons.prems(2,3) show ?thesis by (auto intro: located_skip)
  next
    case False
    with Cons.prems(1) obtain ctx1 where p: "check_page sh (cr_blocks rel ! b) ?c = Inr ctx1"
      and r: "(if stop \<and> hc_is_corrupt ctx1 then Inr ctx1 else check_blocks sh rel skip stop blks ctx1) = Inr ctx'"
      by (auto simp: bindE_eq_Inr_iff)
    have "on_page (hc_tupstore ctx) b ?offs ?c" using Cons.prems(2,3) by (simp add: on_page_def)
    note at = check_page_at [OF p this]
    obtain rs where rs: "hc_tupstore ctx1 = hc_tupstore ctx @ rs" "\<forall>r\<in>set rs. rp_blkno r = b \<and> rp_offnum r \<in> ?offs"
      "hc_is_corrupt ctx1 \<longleftrightarrow> hc_tupstore ctx1 \<noteq> []" using at(1) by (auto simp: on_page_def)
    note lc = located_Cons [OF _ rs(2) False Cons.prems(4)]
    show ?thesis
    proof (cases "stop \<and> hc_is_corrupt ctx1")
      case True
      with r have "ctx' = ctx1" by simp
      moreover have "located rel skip (b # blks) rs" using lc [of "[]"] by (simp add: located_def)
      moreover have "one_block rs" using rs(2) by (simp add: one_block_def)
      ultimately show ?thesis using rs(1) by blast
    next
      case go: False
      with r have "check_blocks sh rel skip stop blks ctx1 = Inr ctx'" by simp
      from Cons.IH [OF this at(2) rs(3) sb] obtain rs' where
        rs': "hc_tupstore ctx' = hc_tupstore ctx1 @ rs'" "located rel skip blks rs'"
        "stop \<and> hc_tupstore ctx1 = [] \<longrightarrow> one_block rs'" by blast
      have "stop \<Longrightarrow> rs = []" using go rs(1,3) by simp
      with rs(1) rs' lc [OF rs'(2)] show ?thesis by (intro exI [of _ "rs @ rs'"]) simp
    qed
  qed
qed (simp add: located_def one_block_def)

lemma init_fields:
  "hc_toasted_attributes (init_context sh x rel t) = []" "hc_tupstore (init_context sh x rel t) = []"
  "\<not> hc_is_corrupt (init_context sh x rel t)" "hc_attnum (init_context sh x rel t) = -1"
  by (simp_all add: init_context_def Let_def update_cached_xid_range_def update_cached_mxid_range_def)

text \<open>C27. The reports of \<open>verify_heapam\<close> point into the blocks it was asked to check: each names a block from the
  first to the last requested one that was not to be skipped, and a line pointer that the page has. They
  come in the order of the blocks, and with \<open>on_error_stop\<close> they are all about one block.\<close>

theorem verify_heapam_located:
  assumes "verify_heapam sh snapshot_xmin recovery lower store args = Inr rs" "va_relation args = Some rel"
    "va_on_error_stop args = Some stop" "va_skip args = Some sk" "parse_skip lower sk = Inr skip"
    "block_arg (va_startblock args) (length (cr_blocks rel)) 0 = Inr first_block"
    "block_arg (va_endblock args) (length (cr_blocks rel)) (length (cr_blocks rel) - 1) = Inr last_block"
  shows "(\<forall>r\<in>set rs. first_block \<le> rp_blkno r \<and> rp_blkno r \<le> last_block \<and> \<not> skip_block skip rel (rp_blkno r) \<and>
      FirstOffsetNumber \<le> rp_offnum r \<and> rp_offnum r \<le> PageGetMaxOffsetNumber (cr_blocks rel ! rp_blkno r)) \<and>
    sorted (map rp_blkno rs) \<and> (stop \<longrightarrow> one_block rs)"
proof -
  have "rs = [] \<or> (\<exists>toastrel ctx. check_blocks sh rel skip stop [first_block..<Suc last_block]
      (init_context sh snapshot_xmin rel toastrel) = Inr ctx \<and> rs = hc_tupstore ctx)"
    using assms unfolding verify_heapam_def Let_def
    by (auto simp: bindE_eq_Inr_iff not_null_def split: if_splits option.splits)
  then show ?thesis
  proof
    assume "\<exists>toastrel ctx. check_blocks sh rel skip stop [first_block..<Suc last_block]
      (init_context sh snapshot_xmin rel toastrel) = Inr ctx \<and> rs = hc_tupstore ctx"
    then obtain toastrel ctx where c: "check_blocks sh rel skip stop [first_block..<Suc last_block]
      (init_context sh snapshot_xmin rel toastrel) = Inr ctx" "rs = hc_tupstore ctx" by blast
    have s: "sorted [first_block..<Suc last_block]" by (rule sorted_upt)
    from check_blocks_at [OF c(1) init_fields(1) _ s] init_fields c(2) have "located rel skip [first_block..<Suc last_block] rs" "stop \<longrightarrow> one_block rs"
      by auto
    then show ?thesis by (simp add: located_def page_offsets_def less_Suc_eq_le del: upt_Suc)
  qed (simp add: one_block_def)
qed

text \<open>A relation of two pages, each with one line pointer, to offset 1.\<close>

definition bad_page :: bytes where
  "bad_page = replicate 12 0 @ [28, 0] @ replicate 10 0 @ [1, 128, 0, 0] @ replicate 8164 0"

definition bad_rel :: check_rel where
  "bad_rel = \<lparr>cr_relkind = CHR ''r'', cr_relam = HEAP_TABLE_AM_OID, cr_relpersistence = CHR ''p'',
     cr_reltoastrelid = 0, cr_relfrozenxid = 700, cr_relminmxid = 1, cr_desc = \<lparr>td_attrs = [], tdtypeid = 0, tdtypmod = 0\<rparr>,
     cr_blocks = [bad_page, bad_page], cr_vm = (\<lambda>_. (False, False))\<rparr>"

definition bad_args :: verify_args where
  "bad_args = \<lparr>va_relation = Some bad_rel, va_on_error_stop = Some True, va_check_toast = Some False, va_skip = Some ''none'',
     va_startblock = None, va_endblock = None\<rparr>"

definition bad_shmem :: shmem where
  "bad_shmem = \<lparr>sh_nextXid = 1000, sh_oldestXid = 700, sh_oldestClogXid = 700, sh_oldestMultiXactId = 1, sh_nextMXact = 1,
     TransactionIdIsCurrentTransactionId = (\<lambda>_. False), TransactionIdIsInProgress = (\<lambda>_. False),
     TransactionIdDidCommit = (\<lambda>_. True), GetMultiXactIdMembers = (\<lambda>_. [])\<rparr>"

definition bad_report :: report where
  "bad_report = \<lparr>rp_blkno = 0, rp_offnum = 1, rp_attnum = None, rp_msg = LinePointerMisaligned 1\<rparr>"

lemma bad_page_items:
  "PageGetMaxOffsetNumber bad_page = 1" "PageGetItemId bad_page 1 = \<lparr>lp_off = 1, lp_flags = 1, lp_len = 0\<rparr>"
proof -
  have b: "take 2 (drop 12 bad_page) = [28, 0]" "take 4 (drop (SizeOfPageHeaderData + 4 * (1 - 1)) bad_page) = [1, 128, 0, 0]"
    by (simp_all add: bad_page_def SizeOfPageHeaderData_def)
  have w: "unat (le_word [28, 0] :: 16 word) = 28" "le_word [1, 128, 0, 0] = (32769 :: 32 word)"
    "unat ((32769 :: 32 word) AND 0x7FFF) = 1" "unat (drop_bit 15 (32769 :: 32 word) AND 3) = 1" "unat (drop_bit 17 (32769 :: 32 word)) = 0"
    by code_simp+
  show "PageGetMaxOffsetNumber bad_page = 1"
    unfolding PageGetMaxOffsetNumber_def Let_def b(1) w(1) by (simp add: SizeOfPageHeaderData_def)
  show "PageGetItemId bad_page 1 = \<lparr>lp_off = 1, lp_flags = 1, lp_len = 0\<rparr>"
    unfolding PageGetItemId_def Let_def b(2) w(2-5) ..
qed

lemma bad_page_checked:
  assumes "hc_tupstore ctx = []" "hc_toasted_attributes ctx = []" "hc_attnum ctx = -1"
  shows "\<exists>ctx'. check_page sh bad_page ctx = Inr ctx' \<and> hc_is_corrupt ctx' \<and>
    hc_tupstore ctx' = [bad_report\<lparr>rp_blkno := hc_blkno ctx\<rparr>]"
proof -
  have m: "MAXALIGN 1 = 8" by code_simp
  show ?thesis
    using assms bad_page_items m
    by (simp add: check_page_def check_line_pointer_def check_chain_def check_root_def ItemIdIsUsed_def ItemIdIsDead_def
        ItemIdIsRedirected_def empty_scan_def Let_def FirstOffsetNumber_def report_corruption_def bad_report_def
        report_corruption_internal_def)
qed

theorem verify_heapam_located_witness:
  "verify_heapam bad_shmem 900 False id Map.empty bad_args = Inr [bad_report] \<and>
    rp_blkno bad_report \<le> 1 \<and> rp_offnum bad_report \<le> PageGetMaxOffsetNumber bad_page \<and> one_block [bad_report]"
proof -
  have p: "parse_skip id ''none'' = Inr SKIP_PAGES_NONE" by code_simp
  let ?c = "(init_context bad_shmem 900 bad_rel None)\<lparr>hc_blkno := 0\<rparr>"
  obtain ctx' where "check_page bad_shmem bad_page ?c = Inr ctx'" "hc_is_corrupt ctx'"
    "hc_tupstore ctx' = [bad_report]"
    using bad_page_checked [of ?c bad_shmem] by (auto simp: init_fields bad_report_def)
  then have v: "verify_heapam bad_shmem 900 False id Map.empty bad_args = Inr [bad_report]"
    by (simp add: verify_heapam_def not_null_def p bad_args_def bad_rel_def block_arg_def InvalidOid_def
        RELKIND_HAS_TABLE_AM_def upt_rec skip_block_def)
  have a: "va_relation bad_args = Some bad_rel" "va_on_error_stop bad_args = Some True" "va_skip bad_args = Some ''none''"
    "block_arg (va_startblock bad_args) (length (cr_blocks bad_rel)) 0 = Inr 0"
    "block_arg (va_endblock bad_args) (length (cr_blocks bad_rel)) (length (cr_blocks bad_rel) - 1) = Inr 1"
    by (simp_all add: bad_args_def bad_rel_def block_arg_def)
  show ?thesis using v verify_heapam_located [OF v a(1-3) p a(4,5)] by (simp add: bad_report_def bad_rel_def)
qed

end
