(* ===== verification/Spec2Isabelle.thy ===== *)
theory Spec2Isabelle
  imports Hocotext_Correct Toast_Tuple_Correct Heaptuple_Access_Correct Compression_Spec_Correct
    Verify_Tuple_Correct Verify_Xid_Correct Verify_Heapam_Correct
begin

text \<open>
  HOCO is a PostgreSQL 16.0 server with a new compression method for large values, run-length
  encoding, and with \<^verbatim>\<open>contrib/hocotext\<close>, a text type whose comparisons and substring functions work
  on the compressed form. This development models the path of a value through the server, from the
  row given to an INSERT or UPDATE down to the chunks of a TOAST table and back, the functions
  of the text type on the stored forms, the verification of the pages of a table by
  \<^verbatim>\<open>contrib/amcheck\<close>, and the compression options of the backup and dump programs.

  \<^bold>\<open>Representation.\<close> A pointer is the list of bytes readable from it, a byte an \<open>8 word\<close>; a C function
  that may fail returns \<open>error + 'a\<close>, with \<open>MemFault\<close> for an access outside the readable bytes,
  \<open>Ereport\<close> with the SQLSTATE for \<open>ereport(ERROR)\<close>, \<open>ProcExit\<close> for \<open>exit\<close> and \<open>OutOfFuel\<close> for a
  loop that used up its fuel. Sizes are integers with the wrap-around of their C type written out
  where it matters. The build is the one of the repository: little-endian, 8-byte alignment, signed
  \<open>char\<close>, blocks of 8192 bytes. The theory \<open>Prelude\<close> holds this vocabulary.

  \<^bold>\<open>Parts and theories.\<close> File names are relative to \<^verbatim>\<open>src/postgresql-16.0/\<close>.

  \<^item> The run-length codec, \<^verbatim>\<open>src/common/rle_compress.c\<close>: \<open>Rle_Compress\<close> has \<open>rle_compress\<close> and
    \<open>rle_decompress\<close> with their loops and macros; \<open>Rle_Stream\<close> says what a compressed stream means;
    \<open>Rle_Correct\<close> has the round trip, the bounds and the byte that the macro \<open>store_single_buf\<close> loses.
  \<^item> The PGLZ codec, \<^verbatim>\<open>src/common/pg_lzcompress.c\<close>: \<open>Pglz\<close> is the code, the history tables
    included; \<open>Pglz_Hist\<close> shows that the history chains stay acyclic, so that the fuel of the search is
    enough; \<open>Pglz_Correct\<close> has round trip, termination, slices and write bounds.
  \<^item> Variable-length datums, \<^verbatim>\<open>src/include/varatt.h\<close>: \<open>Varatt\<close>.
  \<^item> The contract of a compression method: the locale \<open>codec\<close> in \<open>Codec\<close>, interpreted for PGLZ and
    RLE in \<open>Toast_Compression\<close>, which models \<^verbatim>\<open>src/backend/access/common/toast_compression.c\<close>. The functions of
    liblz4 are parameters, and only the functions for PGLZ and RLE are shown to be inverses.
  \<^item> TOAST tables, \<^verbatim>\<open>toast_internals.c\<close> and \<open>heap_fetch_toast_slice\<close> of \<^verbatim>\<open>heaptoast.c\<close>: \<open>Toast_Store\<close>,
    with the lemmas in \<open>Toast_Correct\<close>. A table is its list of live chunk rows and the validity of
    its indexes; an index scan returns the matching rows by chunk number. The OIDs that
    \<open>GetNewOidWithIndex\<close> offers are a parameter.
  \<^item> Detoasting, \<^verbatim>\<open>detoast.c\<close>: \<open>Detoast\<close> and \<open>Detoast_Correct\<close>. The predicate \<open>represents\<close> says which bytes
    stand for which value in each stored form: plain, short, compressed, out of line, compressed out of
    line, or behind an in-memory pointer. Expanded objects are flattened by a parameter.
  \<^item> The text type, \<^verbatim>\<open>contrib/hocotext/hocotext.c\<close>: \<open>Hocotext\<close> is the code, \<open>Hocotext_Cmp\<close> the
    comparison, against the locale \<open>btree_opclass\<close> of what a B-tree needs, \<open>Hocotext_Extract\<close> the substring
    functions, \<open>Hocotext_Correct\<close> the SQL-callable functions.
  \<^item> Heap tuples, \<^verbatim>\<open>src/backend/access/common/heaptuple.c\<close> and \<^verbatim>\<open>src/include/access/tupmacs.h\<close>:
    \<open>Heaptuple\<close> has forming, changing and taking apart tuples, with alignment, null bitmap, short varlena
    headers, missing attributes and the offsets cached in the descriptor. \<open>Heaptuple_Correct\<close> shows
    that the computed and the filled size agree, that a tuple taken apart gives its row, and that the
    cache does not matter. A row is a list of \<open>colval\<close>; \<open>tuple_stores\<close> says which tuple stores which row.
    \<open>Heaptuple_Access\<close> has the access to a single attribute, system attributes, the expansion of old
    tuples and minimal tuples; \<open>Heaptuple_Access_Correct\<close> shows that each of them agrees with
    taking the whole tuple apart.
  \<^item> Toasting tuples, \<^verbatim>\<open>src/backend/access/table/toast_helper.c\<close> and the rest of \<^verbatim>\<open>heaptoast.c\<close>:
    \<open>Toast_Helper\<close> is the code, \<open>Toast_Helper_Correct\<close> states the contract of a loop body as the
    locale \<open>toast_action\<close> and interprets it for the bodies of the four loops of
    \<open>heap_toast_insert_or_update\<close>; \<open>Toast_Tuple_Correct\<close> shows that the whole function keeps the row, stores what
    it must, deletes what an update replaces and nothing else, and that the flattening functions give
    self-contained tuples.
  \<^item> Heap verification, \<^verbatim>\<open>contrib/amcheck/verify_heapam.c\<close>: \<open>Verify_Xid\<close> has the context, the reports and
    the checks of transaction ids; \<open>Verify_Heapam\<close> the checks of tuple headers, visibility, attributes,
    out-of-line values, line pointers and update chains, up to the SQL function. Pages are their
    bytes; the state of the transaction system is the record \<open>shmem\<close>, a parameter.
    \<open>Verify_Toast_Correct\<close> shows that the check of an out-of-line value is silent exactly if the
    value can be fetched; \<open>Verify_Tuple_Correct\<close> that a tuple that passes can be taken apart within
    its bounds, and that a row formed by \<open>heap_form_tuple\<close> passes; \<open>Verify_Xid_Correct\<close> that 64-bit
    transaction ids are recovered from 32 bits; \<open>Verify_Heapam_Correct\<close> where the reports point to.
  \<^item> Compression specifications, \<^verbatim>\<open>src/common/compression.c\<close>, and their use in \<^verbatim>\<open>basebackup.c\<close>,
    \<^verbatim>\<open>pg_basebackup\<close>, \<^verbatim>\<open>pg_receivewal\<close> and \<^verbatim>\<open>pg_dump\<close>: \<open>Compression_Spec\<close>. The libraries the build has
    and their levels are the parameter \<open>build\<close>. \<open>Compression_Spec_Correct\<close> shows what the parser accepts,
    that a printed option is read back, and what becomes of the method \<open>rle\<close> in these programs.

  This theory adds what spans the parts: the way of a value through compression, storage and
  retrieval, and the comparison of a value stored that way.

  \<^bold>\<open>Fuel.\<close> The search loops of PGLZ get more fuel than there are history entries, and are shown to return.
  The loops of \<open>heap_toast_insert_or_update\<close> get the number of columns plus one: every iteration takes a
  column out of consideration, and the loops are shown to return. Detoasting recurses once, through an
  in-memory pointer, which by its contract does not point to another one; the theorems hold
  with any fuel from one on. Other loops recur on their data.

  \<^bold>\<open>Hypotheses.\<close> Theorems on RLE ask that every 128-byte window of the value contains three equal bytes in
  a row (\<open>runs_in_windows\<close>); the code loses a byte otherwise, which is detected on reading
  (\<open>toast_compress_rle_never_wrong\<close>). Fresh OIDs are those that no chunk of the table carries. Rows fit
  in memory (\<open>row_fits\<close>) and descriptors describe their attributes as the catalogs do (\<open>att_ok\<close>).
  The theorems on single tuples in \<open>Verify_Tuple_Correct\<close> take the check of the visibility as passed.

  \<^bold>\<open>Not modelled.\<close> \<^verbatim>\<open>tadoc_compress.c\<close> and the programs under \<^verbatim>\<open>src/unit-test\<close> are prototypes that no part of
  the server calls; the former defines a function twice and uses a table that is never
  allocated, so that it has no defined behaviour to model. Memory contexts and \<open>pfree\<close>, locks, the
  write-ahead log and the execution of transactions are left out: a TOAST table is its live rows, and the
  status of transactions is given. In \<open>Verify_Heapam\<close> the buffer locks and the access to relations and
  their visibility map are left out; the programs that take a compression option are modelled up to
  the choice of the writer. The SQL scripts of the extension only declare the functions, and the rest
  of the server is not changed by the repository.
\<close>

section \<open>Properties across components\<close>

lemma compress_save_represents:
  assumes v: "text_datum v d" "length (env_tcinfo0 cenv) = 4"
    and m: "chosen_method cenv cm = TOAST_PGLZ_COMPRESSION \<or>
      chosen_method cenv cm = TOAST_RLE_COMPRESSION \<and> runs_in_windows 128 d"
    and c: "toast_compress_datum cenv v cm = Inr (Some c)"
    and t: "de_store env (reltoastrelid rel) = Some trel" "has_valid_index trel" "rd_toastoid rel = InvalidOid"
      "\<forall>c \<in> set (tr_rows trel). chunk_id c \<noteq> vid"
  obtains store' p where "toast_save_datum (de_store env) rel (vid # oids) c old = Inr (store', p)"
    "VARATT_IS_EXTERNAL p"
    "\<forall>r. represents {method_id (chosen_method cenv cm)} (env\<lparr>de_store := store'\<rparr>) (p @ r) d"
    "\<And>ms v' d'. represents ms env v' d' \<Longrightarrow> represents ms (env\<lparr>de_store := store'\<rparr>) v' d'"
proof -
  let ?id = "method_id (chosen_method cenv cm)"
  obtain pl where pl: "payload_of ?id d pl" "c = mk_compressed (int (length d)) ?id pl"
    using toast_compress_payload [OF v m c] by blast
  have "inline_datum {?id} (c @ []) d" unfolding inline_datum_def using pl by blast
  then have i: "inline_datum {?id} c d" "0 < length d" using payload_of_facts(6) [OF pl(1)] by simp_all
  obtain data p where s: "toast_save_datum (de_store env) rel (vid # oids) c old =
      Inr (de_store (add_value env (reltoastrelid rel) trel vid data), p)" "VARATT_IS_EXTERNAL p"
    "\<forall>r. represents {?id} (add_value env (reltoastrelid rel) trel vid data) (p @ r) d"
    using toast_save_inline [OF i t, of oids old] VARATT_IS_EXTERNAL_ONDISK_def by blast
  show thesis
    by (rule that [OF s(1,2)]) (use s(3) represents_add_value [OF t(1,4), of _ _ _ data] in auto)
qed


lemma demo_tables:
  "de_store demo_env (reltoastrelid demo_heap) = Some demo_table" "has_valid_index demo_table"
  "rd_toastoid demo_heap = InvalidOid" "\<forall>c \<in> set (tr_rows demo_table). chunk_id c \<noteq> 77"
  by (simp_all add: demo_env_def demo_heap_def has_valid_index_def demo_table_def InvalidOid_def)

lemma demo_lossless: "length (env_tcinfo0 demo_cenv) = 4"
  "chosen_method demo_cenv (CHR 0x00) = TOAST_PGLZ_COMPRESSION \<or>
     chosen_method demo_cenv (CHR 0x00) = TOAST_RLE_COMPRESSION \<and> runs_in_windows 128 demo_text"
  using demo_method demo_runs by (simp_all add: demo_cenv_def)




end
